(* ===== verification/SSS_Prelude.thy ===== *)
theory SSS_Prelude
  imports Main "HOL-Library.Char_ord" "HOL-Library.List_Lexorder" "HOL-Library.Sublist"
    "HOL-Library.Code_Target_Nat" "HOL-Library.Code_Target_Int"
begin

text \<open>
  What every component of the model shares: the development's collections of facts, the
  part of the Go language and of its standard library that the sources use (64-bit signed
  arithmetic, instants of time, byte strings with their UTF-8 decoding, the helpers of
  packages \<^verbatim>\<open>strings\<close> and \<^verbatim>\<open>unicode\<close>), and generic lemmas on lists and sets.

  A Go string is a sequence of bytes; here it is a \<^typ>\<open>string\<close>, whose characters are the
  256 byte values. \<open>len(s)\<close> is \<^const>\<open>length\<close>, and a \<^verbatim>\<open>for _, r := range s\<close> loop goes over
  \<open>runes s\<close>. The two tables of package \<^verbatim>\<open>unicode\<close> that depend on the Unicode version of
  the toolchain (lower case beyond ASCII, category Cf) are a parameter of the definitions.
\<close>

named_theorems go_simps "equations that evaluate the Go primitives"
named_theorems store_simps "equations for the tables of the metadata store"
named_theorems world_simps "projections of the server state after a primitive step"
named_theorems inv_intros "preservation of the server invariant, one rule per operation"

section \<open>Integers and time\<close>

text \<open>Signed 64-bit values are integers; \<open>wrap64\<close> is written where an operation can overflow.\<close>

definition wrap64 :: "int \<Rightarrow> int" where
  "wrap64 x = (x + 2 ^ 63) mod 2 ^ 64 - 2 ^ 63"

definition int64_range :: "int \<Rightarrow> bool" where
  "int64_range x \<longleftrightarrow> - (2 ^ 63) \<le> x \<and> x < 2 ^ 63"

lemma wrap64_id [simp]: "int64_range x \<Longrightarrow> wrap64 x = x"
  by (simp add: wrap64_def int64_range_def)

lemma wrap64_range [simp]: "int64_range (wrap64 x)"
proof -
  have "0 \<le> (x + 2 ^ 63) mod 2 ^ 64" and "(x + 2 ^ 63) mod 2 ^ 64 < 2 ^ 64"
    by simp_all
  then show ?thesis by (simp add: wrap64_def int64_range_def)
qed

text \<open>Go's integer division truncates towards zero.\<close>

definition go_div :: "int \<Rightarrow> int \<Rightarrow> int" where
  "go_div a b = sgn a * sgn b * (\<bar>a\<bar> div \<bar>b\<bar>)"

definition go_mod :: "int \<Rightarrow> int \<Rightarrow> int" where
  "go_mod a b = a - b * go_div a b"

lemma go_div_nonneg [simp]: "0 \<le> a \<Longrightarrow> 0 < b \<Longrightarrow> go_div a b = a div b"
  by (cases "a = 0") (simp_all add: go_div_def)

lemma go_mod_nonneg [simp]: "0 \<le> a \<Longrightarrow> 0 < b \<Longrightarrow> go_mod a b = a mod b"
  by (simp add: go_mod_def minus_mult_div_eq_mod)

text \<open>
  An instant (\<^verbatim>\<open>time.Time\<close>) is the number of nanoseconds since the Unix epoch, a duration a
  number of nanoseconds. \<open>zero_time\<close> is the first instant of the year 1, which
  \<^verbatim>\<open>Time.IsZero\<close> tests for.
\<close>

type_synonym time = int

definition second :: int where "second = 1000000000"
definition minute :: int where "minute = 60 * second"

definition zero_time :: time where "zero_time = - 62135596800 * second"

definition unix :: "time \<Rightarrow> int" where "unix t = t div second"

definition of_unix :: "int \<Rightarrow> time" where "of_unix s = s * second"

definition truncate_second :: "time \<Rightarrow> time" where
  "truncate_second t = t - t mod second"

lemma second_pos [simp]: "0 < second"
  by (simp add: second_def)

lemma unix_of_unix [simp]: "unix (of_unix s) = s"
  by (simp add: unix_def of_unix_def second_def)

lemma of_unix_unix: "of_unix (unix t) = truncate_second t"
  by (simp add: unix_def of_unix_def truncate_second_def minus_mod_eq_div_mult)

lemma truncate_second_le: "truncate_second t \<le> t"
  by (simp add: truncate_second_def second_def)

lemma truncate_second_gt: "t < truncate_second t + second"
  by (simp add: truncate_second_def second_def)

lemma unix_mono: "t \<le> u \<Longrightarrow> unix t \<le> unix u"
  by (simp add: unix_def zdiv_mono1)

lemma of_unix_le_iff: "of_unix s \<le> t \<longleftrightarrow> s \<le> unix t"
  unfolding of_unix_def unix_def second_def by linarith

lemma of_unix_eq_iff [simp]: "of_unix a = of_unix b \<longleftrightarrow> a = b"
  by (simp add: of_unix_def second_def)

section \<open>Byte strings\<close>

abbreviation byte :: "char \<Rightarrow> nat" where "byte c \<equiv> of_char c"

lemma byte_less [simp]: "byte c < 256"
  by (simp add: of_char_def)

lemma byte_inject [simp]: "byte c = byte d \<longleftrightarrow> c = d"
  by (simp add: of_char_eq_iff)

text \<open>\<^verbatim>\<open>strings.Split(s, sep)\<close> for a one-byte separator, and \<^verbatim>\<open>strings.Join\<close>.\<close>

fun split_on :: "char \<Rightarrow> string \<Rightarrow> string list" where
  "split_on d [] = [[]]"
| "split_on d (c # cs) =
     (if c = d then [] # split_on d cs
      else (case split_on d cs of [] \<Rightarrow> [[c]] | p # ps \<Rightarrow> (c # p) # ps))"

fun join_with :: "char \<Rightarrow> string list \<Rightarrow> string" where
  "join_with d [] = []"
| "join_with d [p] = p"
| "join_with d (p # q # ps) = p @ d # join_with d (q # ps)"

lemma split_on_nonempty [simp]: "split_on d s \<noteq> []"
  by (induction s) (auto split: list.splits)

lemma join_split [simp]: "join_with d (split_on d s) = s"
proof (induction s)
  case Nil
  then show ?case by simp
next
  case (Cons c cs)
  obtain p ps where eq: "split_on d cs = p # ps"
    by (meson neq_Nil_conv split_on_nonempty)
  with Cons.IH show ?case by (cases ps) auto
qed

lemma split_on_parts: "p \<in> set (split_on d s) \<Longrightarrow> d \<notin> set p"
proof (induction s arbitrary: p)
  case (Cons c cs)
  then show ?case by (cases "split_on d cs") (auto split: if_splits)
qed simp

lemma split_on_chars: "p \<in> set (split_on d s) \<Longrightarrow> set p \<subseteq> set s"
proof (induction s arbitrary: p)
  case (Cons c cs)
  then show ?case by (cases "split_on d cs") (force split: if_splits)+
qed simp

lemma split_on_free: "d \<notin> set s \<Longrightarrow> split_on d s = [s]"
  by (induction s) auto

lemma split_on_append:
  "d \<notin> set s \<Longrightarrow> split_on d (s @ d # t) = s # split_on d t"
  by (induction s) auto

lemma split_join:
  "ps \<noteq> [] \<Longrightarrow> \<forall>p\<in>set ps. d \<notin> set p \<Longrightarrow> split_on d (join_with d ps) = ps"
  by (induction d ps rule: join_with.induct) (auto simp: split_on_free split_on_append)

lemma split_on_hd: "hd (split_on d s) = takeWhile (\<lambda>c. c \<noteq> d) s"
proof (induction s)
  case (Cons c cs)
  then show ?case by (cases "split_on d cs") auto
qed simp

lemma split_on_inject: "split_on d s = split_on d t \<Longrightarrow> s = t"
  by (metis join_split)

section \<open>UTF-8\<close>

text \<open>
  \<^verbatim>\<open>utf8.DecodeRune\<close>: the first code point of a byte sequence and how many bytes it takes.
  A byte that starts no well-formed sequence decodes as U+FFFD of width one.
\<close>

definition rune_error :: nat where "rune_error = 0xFFFD"

definition is_cont :: "nat \<Rightarrow> bool" where "is_cont b \<longleftrightarrow> 0x80 \<le> b \<and> b \<le> 0xBF"

fun decode_rune :: "nat list \<Rightarrow> nat \<times> nat" where
  "decode_rune [] = (rune_error, 0)"
| "decode_rune (b0 # bs) =
     (if b0 < 0x80 then (b0, 1)
      else if 0xC2 \<le> b0 \<and> b0 \<le> 0xDF then
        (case bs of
           b1 # _ \<Rightarrow> if is_cont b1 then ((b0 - 0xC0) * 64 + (b1 - 0x80), 2)
                     else (rune_error, 1)
         | _ \<Rightarrow> (rune_error, 1))
      else if 0xE0 \<le> b0 \<and> b0 \<le> 0xEF then
        (case bs of
           b1 # b2 # _ \<Rightarrow>
             if (if b0 = 0xE0 then 0xA0 \<le> b1 \<and> b1 \<le> 0xBF
                 else if b0 = 0xED then 0x80 \<le> b1 \<and> b1 \<le> 0x9F else is_cont b1) \<and> is_cont b2
             then ((b0 - 0xE0) * 4096 + (b1 - 0x80) * 64 + (b2 - 0x80), 3)
             else (rune_error, 1)
         | _ \<Rightarrow> (rune_error, 1))
      else if 0xF0 \<le> b0 \<and> b0 \<le> 0xF4 then
        (case bs of
           b1 # b2 # b3 # _ \<Rightarrow>
             if (if b0 = 0xF0 then 0x90 \<le> b1 \<and> b1 \<le> 0xBF
                 else if b0 = 0xF4 then 0x80 \<le> b1 \<and> b1 \<le> 0x8F else is_cont b1)
                \<and> is_cont b2 \<and> is_cont b3
             then ((b0 - 0xF0) * 262144 + (b1 - 0x80) * 4096 + (b2 - 0x80) * 64 + (b3 - 0x80), 4)
             else (rune_error, 1)
         | _ \<Rightarrow> (rune_error, 1))
      else (rune_error, 1))"

lemma decode_rune_width:
  assumes "decode_rune (b # bs) = (r, w)"
  shows "1 \<le> w \<and> w \<le> length (b # bs)"
  using assms by (auto split: if_splits list.splits)

lemma decode_rune_ascii [simp]: "b < 0x80 \<Longrightarrow> decode_rune (b # bs) = (b, 1)"
  by simp

text \<open>A byte beyond ASCII never decodes to an ASCII code point, and takes no ASCII byte along.\<close>

lemma decode_rune_nonascii:
  assumes "0x80 \<le> b" and "decode_rune (b # bs) = (r, w)"
  shows "0x80 \<le> r \<and> (\<forall>x\<in>set (take w (b # bs)). 0x80 \<le> x)"
  using assms
  by (auto simp: rune_error_def is_cont_def split: if_splits list.splits)

declare decode_rune.simps(2) [simp del]

text \<open>The code points of a string in order, each with the bytes it was decoded from.\<close>

function runes :: "string \<Rightarrow> (nat \<times> string) list" where
  "runes [] = []"
| "runes (c # cs) =
     (let (r, w) = decode_rune (map byte (take 4 (c # cs)))
      in (r, take w (c # cs)) # runes (drop w (c # cs)))"
  by pat_completeness auto
termination
proof (relation "measure length")
  show "wf (measure (length :: string \<Rightarrow> nat))" by simp
next
  fix c and cs :: string and x :: "nat \<times> nat" and r w :: nat
  assume "x = decode_rune (map byte (take 4 (c # cs)))" and "(r, w) = x"
  then have "decode_rune (byte c # map byte (take 3 cs)) = (r, w)" by simp
  then have "1 \<le> w" by (rule decode_rune_width [THEN conjunct1])
  then show "(drop w (c # cs), c # cs) \<in> measure length" by simp
qed

declare runes.simps(2) [simp del]

lemma runes_ascii_Cons:
  "byte c < 0x80 \<Longrightarrow> runes (c # cs) = (byte c, [c]) # runes cs"
  by (simp add: runes.simps(2))

lemma runes_ascii:
  "\<forall>c\<in>set s. byte c < 0x80 \<Longrightarrow> runes s = map (\<lambda>c. (byte c, [c])) s"
  by (induction s) (simp_all add: runes_ascii_Cons)

lemma runes_concat: "concat (map snd (runes s)) = s"
proof (induction s rule: runes.induct)
  case (2 c cs)
  obtain r w where rw: "decode_rune (map byte (take 4 (c # cs))) = (r, w)"
    by fastforce
  have "concat (map snd (runes (drop w (c # cs)))) = drop w (c # cs)"
    using "2.IH" [OF refl, of r w] rw by simp
  then show ?case
    unfolding runes.simps(2) Let_def rw by simp
qed simp

text \<open>Every ASCII byte of a string is a code point of it on its own.\<close>

lemma runes_ascii_mem:
  "c \<in> set s \<Longrightarrow> byte c < 0x80 \<Longrightarrow> (byte c, [c]) \<in> set (runes s)"
proof (induction s rule: runes.induct)
  case (2 d cs)
  obtain r w where rw: "decode_rune (map byte (take 4 (d # cs))) = (r, w)"
    by fastforce
  show ?case
  proof (cases "byte d < 0x80")
    case True
    with rw have "w = 1" by simp
    with "2.IH" [OF refl, of r w] rw "2.prems" True show ?thesis
      by (auto simp: runes_ascii_Cons)
  next
    case False
    have "decode_rune (byte d # map byte (take 3 cs)) = (r, w)" using rw by simp
    from decode_rune_nonascii [OF _ this] False
    have *: "\<forall>x\<in>set (take w (map byte (take 4 (d # cs)))). 0x80 \<le> x" by simp
    have "w \<le> 4"
      using decode_rune_width [of "byte d" "map byte (take 3 cs)" r w] rw by auto
    then have "take w (map byte (take 4 (d # cs))) = map byte (take w (d # cs))"
      by (simp only: take_map take_take) (simp add: min_def)
    with * have "\<forall>x\<in>set (take w (d # cs)). 0x80 \<le> byte x" by simp
    with "2.prems" have "c \<notin> set (take w (d # cs))" by force
    moreover have "c \<in> set (take w (d # cs)) \<union> set (drop w (d # cs))"
      using "2.prems"(1) by (metis append_take_drop_id set_append)
    ultimately have "c \<in> set (drop w (d # cs))" by simp
    with "2.IH" [OF refl, of r w] rw "2.prems"(2)
    have "(byte c, [c]) \<in> set (runes (drop w (d # cs)))" by simp
    then show ?thesis unfolding runes.simps(2) Let_def rw by simp
  qed
qed simp

text \<open>\<^verbatim>\<open>utf8.ValidString\<close>: no byte decodes as an encoding error.\<close>

definition valid_utf8 :: "string \<Rightarrow> bool" where
  "valid_utf8 s \<longleftrightarrow> list_all (\<lambda>(r, bs). \<not> (r = rune_error \<and> length bs = 1)) (runes s)"

lemma valid_utf8_ascii: "\<forall>c\<in>set s. byte c < 0x80 \<Longrightarrow> valid_utf8 s"
  by (auto simp: valid_utf8_def runes_ascii list_all_iff rune_error_def)

text \<open>\<^verbatim>\<open>utf8.AppendRune\<close>: the bytes of a code point (surrogates and out-of-range values give U+FFFD).\<close>

definition encode_rune :: "nat \<Rightarrow> string" where
  "encode_rune r0 =
     (let r = (if r0 > 0x10FFFF \<or> (0xD800 \<le> r0 \<and> r0 \<le> 0xDFFF) then rune_error else r0)
      in if r < 0x80 then [char_of r]
         else if r < 0x800 then [char_of (0xC0 + r div 64), char_of (0x80 + r mod 64)]
         else if r < 0x10000 then
           [char_of (0xE0 + r div 4096), char_of (0x80 + r div 64 mod 64),
            char_of (0x80 + r mod 64)]
         else
           [char_of (0xF0 + r div 262144), char_of (0x80 + r div 4096 mod 64),
            char_of (0x80 + r div 64 mod 64), char_of (0x80 + r mod 64)])"

lemma encode_rune_ascii [simp]: "r < 0x80 \<Longrightarrow> encode_rune r = [char_of r]"
  by (simp add: encode_rune_def Let_def)

section \<open>Packages strings and unicode\<close>

record unicode_tables =
  tab_lower :: "nat \<Rightarrow> nat" \<comment> \<open>\<^verbatim>\<open>unicode.ToLower\<close> beyond ASCII\<close>
  tab_Cf :: "nat \<Rightarrow> bool"   \<comment> \<open>\<^verbatim>\<open>unicode.Is(unicode.Cf, r)\<close>\<close>

definition rune_lower :: "unicode_tables \<Rightarrow> nat \<Rightarrow> nat" where
  "rune_lower U r =
     (if r < 0x80 then (if 65 \<le> r \<and> r \<le> 90 then r + 32 else r) else tab_lower U r)"

definition ToLower :: "unicode_tables \<Rightarrow> string \<Rightarrow> string" where
  "ToLower U s = concat (map (\<lambda>(r, bs). encode_rune (rune_lower U r)) (runes s))"

definition ascii_lower :: "char \<Rightarrow> char" where
  "ascii_lower c = (if 65 \<le> byte c \<and> byte c \<le> 90 then char_of (byte c + 32) else c)"

lemma ToLower_ascii:
  "\<forall>c\<in>set s. byte c < 0x80 \<Longrightarrow> ToLower U s = map ascii_lower s"
  by (induction s)
     (auto simp: ToLower_def runes_ascii_Cons rune_lower_def ascii_lower_def)

definition is_space :: "nat \<Rightarrow> bool" where
  "is_space r \<longleftrightarrow>
     r \<in> {9, 10, 11, 12, 13, 32, 0x85, 0xA0, 0x1680, 0x2028, 0x2029, 0x202F, 0x205F, 0x3000}
     \<or> (0x2000 \<le> r \<and> r \<le> 0x200A)"

definition TrimSpace :: "string \<Rightarrow> string" where
  "TrimSpace s =
     concat (map snd
       (rev (dropWhile (\<lambda>(r, bs). is_space r)
         (rev (dropWhile (\<lambda>(r, bs). is_space r) (runes s))))))"

definition contains_char :: "string \<Rightarrow> char \<Rightarrow> bool" where
  "contains_char s c \<longleftrightarrow> c \<in> set s"

definition has_prefix :: "string \<Rightarrow> string \<Rightarrow> bool" where
  "has_prefix s p \<longleftrightarrow> take (length p) s = p"

text \<open>\<^verbatim>\<open>strings.Contains\<close>\<close>

fun contains_str :: "string \<Rightarrow> string \<Rightarrow> bool" where
  "contains_str [] p = (p = [])"
| "contains_str (c # cs) p = (has_prefix (c # cs) p \<or> contains_str cs p)"

definition has_suffix :: "string \<Rightarrow> string \<Rightarrow> bool" where
  "has_suffix s p \<longleftrightarrow> length p \<le> length s \<and> drop (length s - length p) s = p"

lemma has_suffix_single: "has_suffix s [c] \<longleftrightarrow> s \<noteq> [] \<and> last s = c"
proof (cases s rule: rev_cases)
  case (snoc ys y)
  then show ?thesis by (simp add: has_suffix_def)
qed (simp add: has_suffix_def)

section \<open>Lists\<close>

lemma distinct_map_filter: "distinct (map f xs) \<Longrightarrow> distinct (map f (filter P xs))"
  by (induction xs) auto

lemma map_if_key_id: "map (\<lambda>r. key (if P r then f r else r)) rs = map key rs"
  if "\<And>r. key (f r) = key r"
  using that by (induction rs) auto

lemma find_Some_mem: "find P xs = Some x \<Longrightarrow> x \<in> set xs \<and> P x"
  by (auto simp: find_Some_iff)

lemma find_None_all: "find P xs = None \<longleftrightarrow> (\<forall>x\<in>set xs. \<not> P x)"
  by (auto simp: find_None_iff)

lemma length_filter_zero: "length (filter P xs) = 0 \<longleftrightarrow> (\<forall>x\<in>set xs. \<not> P x)"
  by (simp add: filter_empty_conv)

lemma distinct_key_unique:
  "distinct (map key rs) \<Longrightarrow> r \<in> set rs \<Longrightarrow> s \<in> set rs \<Longrightarrow> key r = key s \<Longrightarrow> r = s"
  by (induction rs) (auto simp: rev_image_eqI image_iff)

end
