(* ===== verification/SSS_Errors.thy ===== *)
theory SSS_Errors
  imports SSS_Prelude
begin

text \<open>
  The stable error codes of \<^verbatim>\<open>internal/protocol/errors.go\<close> with the two tables that give
  each code its HTTP status and its CLI exit code. A \<^verbatim>\<open>*protocol.Error\<close> that may be nil is
  an \<^typ>\<open>'a option\<close> over the codes (\<open>None\<close> is nil), and a function that returns a value and
  such an error returns a sum. The text of a message is not modelled: it is formatted for
  people, and the code is the only part the program branches on.
\<close>

datatype errcode =
    ErrAuthRequired | ErrAuthInvalid | ErrRateLimited | ErrInvalidRequest | ErrInvalidCode
  | ErrTransferNotFound | ErrTransferExpired | ErrTTLOutOfRange | ErrNoFiles
  | ErrUnsupportedEntry | ErrInvalidPath | ErrDuplicatePath | ErrSourceChanged
  | ErrOffsetMismatch | ErrStateConflict | ErrIdempotencyConflict | ErrPayloadTooLarge
  | ErrTooManyFiles | ErrInsufficientStorage | ErrHashMismatch | ErrClaimExpired
  | ErrDestinationExists | ErrNetwork | ErrProtocolMismatch | ErrInternal

type_synonym 'a result = "errcode + 'a"

fun code_string :: "errcode \<Rightarrow> string" where
  "code_string ErrAuthRequired = ''AUTH_REQUIRED''"
| "code_string ErrAuthInvalid = ''AUTH_INVALID''"
| "code_string ErrRateLimited = ''RATE_LIMITED''"
| "code_string ErrInvalidRequest = ''INVALID_REQUEST''"
| "code_string ErrInvalidCode = ''INVALID_CODE''"
| "code_string ErrTransferNotFound = ''TRANSFER_NOT_FOUND''"
| "code_string ErrTransferExpired = ''TRANSFER_EXPIRED''"
| "code_string ErrTTLOutOfRange = ''TTL_OUT_OF_RANGE''"
| "code_string ErrNoFiles = ''NO_FILES''"
| "code_string ErrUnsupportedEntry = ''UNSUPPORTED_ENTRY''"
| "code_string ErrInvalidPath = ''INVALID_PATH''"
| "code_string ErrDuplicatePath = ''DUPLICATE_PATH''"
| "code_string ErrSourceChanged = ''SOURCE_CHANGED''"
| "code_string ErrOffsetMismatch = ''OFFSET_MISMATCH''"
| "code_string ErrStateConflict = ''STATE_CONFLICT''"
| "code_string ErrIdempotencyConflict = ''IDEMPOTENCY_CONFLICT''"
| "code_string ErrPayloadTooLarge = ''PAYLOAD_TOO_LARGE''"
| "code_string ErrTooManyFiles = ''TOO_MANY_FILES''"
| "code_string ErrInsufficientStorage = ''INSUFFICIENT_STORAGE''"
| "code_string ErrHashMismatch = ''HASH_MISMATCH''"
| "code_string ErrClaimExpired = ''CLAIM_EXPIRED''"
| "code_string ErrDestinationExists = ''DESTINATION_EXISTS''"
| "code_string ErrNetwork = ''NETWORK_ERROR''"
| "code_string ErrProtocolMismatch = ''PROTOCOL_MISMATCH''"
| "code_string ErrInternal = ''INTERNAL''"

definition all_codes :: "errcode list" where
  "all_codes =
     [ErrAuthRequired, ErrAuthInvalid, ErrRateLimited, ErrInvalidRequest, ErrInvalidCode,
      ErrTransferNotFound, ErrTransferExpired, ErrTTLOutOfRange, ErrNoFiles,
      ErrUnsupportedEntry, ErrInvalidPath, ErrDuplicatePath, ErrSourceChanged,
      ErrOffsetMismatch, ErrStateConflict, ErrIdempotencyConflict, ErrPayloadTooLarge,
      ErrTooManyFiles, ErrInsufficientStorage, ErrHashMismatch, ErrClaimExpired,
      ErrDestinationExists, ErrNetwork, ErrProtocolMismatch, ErrInternal]"

text \<open>The Go maps \<^verbatim>\<open>httpStatus\<close> and \<^verbatim>\<open>exitCode\<close>, keyed by the code's string.\<close>

definition httpStatus :: "(string \<times> int) list" where
  "httpStatus =
     [(code_string ErrAuthRequired, 401), (code_string ErrAuthInvalid, 401),
      (code_string ErrRateLimited, 429), (code_string ErrInvalidRequest, 400),
      (code_string ErrInvalidCode, 400), (code_string ErrTransferNotFound, 404),
      (code_string ErrTransferExpired, 410), (code_string ErrTTLOutOfRange, 422),
      (code_string ErrNoFiles, 422), (code_string ErrUnsupportedEntry, 422),
      (code_string ErrInvalidPath, 422), (code_string ErrDuplicatePath, 422),
      (code_string ErrSourceChanged, 409), (code_string ErrOffsetMismatch, 409),
      (code_string ErrStateConflict, 409), (code_string ErrIdempotencyConflict, 409),
      (code_string ErrPayloadTooLarge, 413), (code_string ErrTooManyFiles, 413),
      (code_string ErrInsufficientStorage, 507), (code_string ErrHashMismatch, 422),
      (code_string ErrClaimExpired, 410), (code_string ErrProtocolMismatch, 426),
      (code_string ErrInternal, 500)]"

definition exitCode :: "(string \<times> int) list" where
  "exitCode =
     [(code_string ErrAuthRequired, 3), (code_string ErrAuthInvalid, 3),
      (code_string ErrRateLimited, 5), (code_string ErrInvalidRequest, 2),
      (code_string ErrInvalidCode, 2), (code_string ErrTransferNotFound, 4),
      (code_string ErrTransferExpired, 4), (code_string ErrTTLOutOfRange, 2),
      (code_string ErrNoFiles, 2), (code_string ErrUnsupportedEntry, 7),
      (code_string ErrInvalidPath, 7), (code_string ErrDuplicatePath, 7),
      (code_string ErrSourceChanged, 6), (code_string ErrOffsetMismatch, 6),
      (code_string ErrStateConflict, 6), (code_string ErrIdempotencyConflict, 6),
      (code_string ErrPayloadTooLarge, 7), (code_string ErrTooManyFiles, 7),
      (code_string ErrInsufficientStorage, 7), (code_string ErrHashMismatch, 6),
      (code_string ErrClaimExpired, 4), (code_string ErrDestinationExists, 7),
      (code_string ErrNetwork, 5), (code_string ErrProtocolMismatch, 5),
      (code_string ErrInternal, 8)]"

definition HTTPStatus :: "string \<Rightarrow> int" where
  "HTTPStatus code = (case map_of httpStatus code of Some s \<Rightarrow> s | None \<Rightarrow> 500)"

definition ExitCode :: "string \<Rightarrow> int" where
  "ExitCode code = (case map_of exitCode code of Some c \<Rightarrow> c | None \<Rightarrow> 8)"

text \<open>
  A Go \<^verbatim>\<open>error\<close> of the lower layers: a stable protocol error, the store's \<^verbatim>\<open>ErrNotFound\<close>, or
  an error of the operating system or the database. \<^verbatim>\<open>AsError\<close> turns it into a stable one.
\<close>

datatype go_error = ProtoError errcode | NotFoundError | SystemError

fun AsError :: "go_error \<Rightarrow> errcode" where
  "AsError (ProtoError e) = e"
| "AsError NotFoundError = ErrInternal"
| "AsError SystemError = ErrInternal"

lemma all_codes_complete: "e \<in> set all_codes"
  by (cases e) (simp_all add: all_codes_def)

lemma code_string_distinct: "distinct (map code_string all_codes)"
  by code_simp

lemma code_string_inject [simp]: "code_string a = code_string b \<longleftrightarrow> a = b"
  using code_string_distinct all_codes_complete [of a] all_codes_complete [of b]
  by (auto simp only: distinct_map inj_on_def)

text \<open>
  A client that gets a stable code back in a body or a plain line maps it to the same exit
  code the CLI would use locally: \<^verbatim>\<open>client.statusToCode\<close> is only the fallback for bodies
  without a code.
\<close>

definition statusToCode :: "int \<Rightarrow> errcode" where
  "statusToCode status =
     (if status = 401 then ErrAuthInvalid
      else if status = 404 then ErrTransferNotFound
      else if status = 410 then ErrTransferExpired
      else if status = 429 then ErrRateLimited
      else if status = 409 then ErrStateConflict
      else if status = 413 then ErrPayloadTooLarge
      else if status = 507 then ErrInsufficientStorage
      else if status = 426 then ErrProtocolMismatch
      else if status = 422 then ErrInvalidRequest
      else if status = 400 then ErrInvalidRequest
      else if status \<ge> 500 then ErrInternal
      else ErrNetwork)"

text \<open>\<^verbatim>\<open>client.looksLikeCode\<close> and the plain-line branch of \<^verbatim>\<open>client.parseError\<close>.\<close>

definition looksLikeCode :: "string \<Rightarrow> bool" where
  "looksLikeCode s \<longleftrightarrow>
     s \<noteq> [] \<and> list_all (\<lambda>(r, bs). \<not> ((r < 65 \<or> r > 90) \<and> r \<noteq> 95)) (runes s)"

text \<open>\<^verbatim>\<open>strings.Cut(s, ": ")\<close>.\<close>

fun cut_colon :: "string \<Rightarrow> (string \<times> string) option" where
  "cut_colon (a # b # cs) =
     (if a = CHR '':'' \<and> b = CHR '' '' then Some ([], cs)
      else map_option (\<lambda>(x, y). (a # x, y)) (cut_colon (b # cs)))"
| "cut_colon _ = None"

definition PlainLine :: "string \<Rightarrow> string \<Rightarrow> string" where
  "PlainLine code message = code @ '': '' @ message"

lemma cut_colon_append:
  "CHR '':'' \<notin> set code \<Longrightarrow> cut_colon (code @ '': '' @ message) = Some (code, message)"
proof (induction code)
  case (Cons c cs)
  then show ?case by (cases cs) auto
qed simp

lemma code_string_chars:
  "c \<in> set (code_string e) \<Longrightarrow> (65 \<le> byte c \<and> byte c \<le> 90) \<or> byte c = 95"
proof -
  have "list_all (\<lambda>e. list_all (\<lambda>c. (65 \<le> byte c \<and> byte c \<le> 90) \<or> byte c = 95)
      (code_string e)) all_codes"
    by code_simp
  then show "c \<in> set (code_string e) \<Longrightarrow> ?thesis"
    using all_codes_complete [of e] by (simp only: list_all_iff)
qed

lemma code_string_ascii: "\<forall>c\<in>set (code_string e). byte c < 0x80"
  using code_string_chars by fastforce

lemma code_string_no_colon: "CHR '':'' \<notin> set (code_string e)"
  using code_string_chars [of "CHR '':''" e] by auto

lemma looksLikeCode_code_string: "looksLikeCode (code_string e)"
proof -
  have "code_string e \<noteq> []" by (cases e) simp_all
  then show ?thesis
    using code_string_chars [of _ e]
    by (fastforce simp: looksLikeCode_def runes_ascii [OF code_string_ascii] list_all_iff)
qed

text \<open>
  The plain-text error line of the simple endpoints round-trips. Whatever the message,
  the client's parser cuts the server's line back into exactly the stable code and the
  message, and accepts what it cut as a code.
\<close>

theorem plain_line_roundtrip:
  "cut_colon (PlainLine (code_string e) message) = Some (code_string e, message)
   \<and> looksLikeCode (code_string e)"
  unfolding PlainLine_def
  using cut_colon_append [OF code_string_no_colon] looksLikeCode_code_string by simp

text \<open>
  The status table is total on the codes the server may return and never answers a
  success status; exactly two stable codes have no entry and fall through to 500, and the
  exit-code table misses none, so no stable code is reported as a success to a shell.
\<close>

theorem status_tables_total:
  "400 \<le> HTTPStatus (code_string e) \<and> HTTPStatus (code_string e) < 600
   \<and> (map_of httpStatus (code_string e) = None \<longleftrightarrow> e \<in> {ErrDestinationExists, ErrNetwork})
   \<and> map_of exitCode (code_string e) \<noteq> None
   \<and> 2 \<le> ExitCode (code_string e) \<and> ExitCode (code_string e) \<le> 8"
proof -
  have "list_all (\<lambda>e. 400 \<le> HTTPStatus (code_string e) \<and> HTTPStatus (code_string e) < 600
      \<and> (map_of httpStatus (code_string e) = None \<longleftrightarrow> e \<in> {ErrDestinationExists, ErrNetwork})
      \<and> map_of exitCode (code_string e) \<noteq> None
      \<and> 2 \<le> ExitCode (code_string e) \<and> ExitCode (code_string e) \<le> 8) all_codes"
    by code_simp
  then show ?thesis using all_codes_complete [of e] by (auto simp only: list_all_iff)
qed

end
