(* ===== verification/SSS_Wire.thy ===== *)
theory SSS_Wire
  imports SSS_Errors
begin

text \<open>
  Wire rules of \<^verbatim>\<open>internal/protocol/wire.go\<close>: the TTL bounds and their parser, the protocol
  version check, and the unit selection of \<^verbatim>\<open>HumanBytes\<close>. \<^verbatim>\<open>strconv.Atoi\<close> is modelled;
  \<^verbatim>\<open>time.ParseDuration\<close> (whose fractions are computed in floating point) is an argument of
  \<open>ParseTTL\<close>, and nothing is assumed of it.
\<close>

definition DefaultTTLMinutes :: int where "DefaultTTLMinutes = 30"
definition MinTTLMinutes :: int where "MinTTLMinutes = 1"
definition MaxTTLMinutes :: int where "MaxTTLMinutes = 3000"

definition ValidateTTL :: "int \<Rightarrow> errcode option" where
  "ValidateTTL minutes =
     (if minutes < MinTTLMinutes \<or> minutes > MaxTTLMinutes then Some ErrTTLOutOfRange else None)"

section \<open>strconv.Atoi\<close>

definition is_digit :: "char \<Rightarrow> bool" where
  "is_digit c \<longleftrightarrow> 48 \<le> byte c \<and> byte c \<le> 57"

fun digits_value :: "int \<Rightarrow> string \<Rightarrow> int" where
  "digits_value acc [] = acc"
| "digits_value acc (c # cs) = digits_value (10 * acc + (int (byte c) - 48)) cs"

text \<open>An optional sign and at least one digit; values outside \<^verbatim>\<open>int64\<close> are a range error.\<close>

definition Atoi :: "string \<Rightarrow> int option" where
  "Atoi s =
     (let (neg, ds) = (case s of
          c # cs \<Rightarrow> if c = CHR ''-'' then (True, cs) else if c = CHR ''+'' then (False, cs)
                     else (False, s)
        | [] \<Rightarrow> (False, s))
      in if ds = [] \<or> \<not> list_all is_digit ds then None
         else let v = (if neg then - digits_value 0 ds else digits_value 0 ds)
              in if int64_range v then Some v else None)"

section \<open>TTL\<close>

definition ParseTTL :: "(string \<Rightarrow> int option) \<Rightarrow> string \<Rightarrow> int result" where
  "ParseTTL ParseDuration s0 =
     (let s = TrimSpace s0 in
      if s = [] then Inr DefaultTTLMinutes
      else case Atoi s of
        Some n \<Rightarrow> (case ValidateTTL n of Some e \<Rightarrow> Inl e | None \<Rightarrow> Inr n)
      | None \<Rightarrow>
        (case ParseDuration s of
           None \<Rightarrow> Inl ErrInvalidRequest
         | Some d \<Rightarrow>
           if d \<le> 0 then Inl ErrTTLOutOfRange
           else if go_mod d minute \<noteq> 0 then Inl ErrInvalidRequest
           else let minutes = go_div d minute
                in case ValidateTTL minutes of Some e \<Rightarrow> Inl e | None \<Rightarrow> Inr minutes))"

lemma ValidateTTL_None: "ValidateTTL n = None \<longleftrightarrow> 1 \<le> n \<and> n \<le> 3000"
  by (auto simp: ValidateTTL_def MinTTLMinutes_def MaxTTLMinutes_def)

text \<open>
  Every TTL the parser accepts is within the frozen bounds, and a duration is accepted
  only when it is exactly that many minutes: the result is never rounded. This holds whatever
  \<^verbatim>\<open>time.ParseDuration\<close> does.
\<close>

theorem ParseTTL_bounds:
  assumes "ParseTTL pd s = Inr n"
  shows "1 \<le> n \<and> n \<le> 3000
    \<and> (TrimSpace s = [] \<and> n = 30
       \<or> Atoi (TrimSpace s) = Some n
       \<or> Atoi (TrimSpace s) = None \<and> pd (TrimSpace s) = Some (n * minute))"
proof -
  have exact: "d = go_div d minute * minute" if "\<not> d \<le> 0" "go_mod d minute = 0" for d
    using that by (simp add: go_mod_def mult.commute)
  from assms show ?thesis
    using exact
    by (auto simp: ParseTTL_def Let_def ValidateTTL_None DefaultTTLMinutes_def
        split: if_splits option.splits)
qed

theorem ParseTTL_bounds_witness:
  "1 \<le> (120 :: int) \<and> (120 :: int) \<le> 3000
    \<and> (TrimSpace ''2h'' = [] \<and> (120 :: int) = 30
       \<or> Atoi (TrimSpace ''2h'') = Some 120
       \<or> Atoi (TrimSpace ''2h'') = None
          \<and> (\<lambda>_. Some (7200 * second)) (TrimSpace ''2h'') = Some (120 * minute))"
  by (rule ParseTTL_bounds) code_simp

section \<open>Versions and sizes\<close>

definition CheckCompatible :: "string \<Rightarrow> errcode option" where
  "CheckCompatible serverProtocol =
     (case Atoi (takeWhile (\<lambda>c. c \<noteq> CHR ''.'') serverProtocol) of
        None \<Rightarrow> Some ErrProtocolMismatch
      | Some n \<Rightarrow> if n \<noteq> 1 then Some ErrProtocolMismatch else None)"

text \<open>
  The unit loop of \<^verbatim>\<open>HumanBytes\<close> for a count of at least 1024: the divisor and the index into
  \<^verbatim>\<open>"KMGTPE"\<close>.
\<close>

function human_unit :: "int \<Rightarrow> int \<Rightarrow> nat \<Rightarrow> int \<times> nat" where
  "human_unit m dv ex =
     (if m \<ge> 1024 then human_unit (go_div m 1024) (dv * 1024) (Suc ex) else (dv, ex))"
  by pat_completeness auto
termination
  by (relation "measure (\<lambda>(m, dv, ex). nat m)") auto

declare human_unit.simps [simp del]

definition human_units :: "int \<Rightarrow> int \<times> nat" where
  "human_units n = human_unit (go_div n 1024) 1024 0"

definition unit_letters :: string where "unit_letters = ''KMGTPE''"

lemma div_1024_bounds:
  assumes "1024 \<le> (m :: int)"
  shows "m div 1024 * 1024 \<le> m \<and> m < (m div 1024 + 1) * 1024 \<and> 0 < m div 1024"
proof -
  have "m = m div 1024 * 1024 + m mod 1024" by simp
  moreover have "0 \<le> m mod 1024" "m mod 1024 < 1024" by simp_all
  ultimately show ?thesis using assms unfolding distrib_right by linarith
qed

lemma human_unit_spec:
  assumes "0 \<le> m" and "human_unit m dv ex = (dv', ex')" and "m * dv \<le> n"
    and "n < (m + 1) * dv" and "0 < dv" and "dv = 1024 ^ (ex + 1)"
    and "0 < m"
  shows "dv' = 1024 ^ (ex' + 1) \<and> dv' \<le> n \<and> n < 1024 * dv'"
  using assms
proof (induction m dv ex arbitrary: dv' ex' rule: human_unit.induct)
  case (1 m dv ex)
  show ?case
  proof (cases "m \<ge> 1024")
    case True
    let ?m = "m div 1024"
    have g: "go_div m 1024 = ?m" using True by simp
    have b: "?m * 1024 \<le> m" "m < (?m + 1) * 1024" "0 < ?m"
      using div_1024_bounds [OF True] by auto
    have "?m * (dv * 1024) \<le> m * dv"
      using mult_right_mono [OF b(1), of dv] "1.prems"(5) by (simp add: mult_ac)
    moreover have "(m + 1) * dv \<le> (?m + 1) * (dv * 1024)"
      using mult_right_mono [of "m + 1" "(?m + 1) * 1024" dv] b(2) "1.prems"(5)
      by (simp add: mult_ac)
    ultimately have "?m * (dv * 1024) \<le> n" "n < (?m + 1) * (dv * 1024)"
      using "1.prems" by linarith+
    moreover have "human_unit ?m (dv * 1024) (Suc ex) = (dv', ex')"
      using "1.prems"(2) True g by (simp add: human_unit.simps [of m])
    moreover have "dv * 1024 = 1024 ^ (Suc ex + 1)" using "1.prems"(6) by simp
    ultimately show ?thesis
      using "1.IH" [OF True, of dv' ex'] b "1.prems"(5) unfolding g by simp
  next
    case False
    then have "n < 1024 * dv"
      using "1.prems" mult_right_mono [of "m + 1" 1024 dv] by linarith
    moreover have "dv \<le> n"
      using "1.prems"(3,5,7) mult_right_mono [of 1 m dv] by linarith
    ultimately show ?thesis using "1.prems" False by (auto simp: human_unit.simps [of m])
  qed
qed

text \<open>
  The unit index of \<^verbatim>\<open>HumanBytes\<close> is always inside \<^verbatim>\<open>"KMGTPE"\<close> for an \<^verbatim>\<open>int64\<close> count, so
  the indexing cannot panic, and the scaled value lies in \<open>[1, 1024)\<close>: the divisor is the
  largest power of 1024 that does not exceed the count.
\<close>

theorem HumanBytes_unit_in_range:
  assumes "1024 \<le> n" and "int64_range n" and "human_units n = (dv, ex)"
  shows "ex < length unit_letters \<and> dv = 1024 ^ (ex + 1) \<and> dv \<le> n \<and> n < 1024 * dv"
proof -
  have b: "n div 1024 * 1024 \<le> n" "n < (n div 1024 + 1) * 1024" "0 < n div 1024"
    using div_1024_bounds [OF assms(1)] by auto
  have spec: "dv = 1024 ^ (ex + 1) \<and> dv \<le> n \<and> n < 1024 * dv"
    using human_unit_spec [of "n div 1024" 1024 0 dv ex n] b assms
    by (simp add: human_units_def)
  have "ex < 6"
  proof (rule ccontr)
    assume "\<not> ex < 6"
    then have "(1024 :: int) ^ 7 \<le> 1024 ^ (ex + 1)" by (intro power_increasing) auto
    with spec assms(2) show False by (simp add: int64_range_def)
  qed
  with spec show ?thesis by (simp add: unit_letters_def)
qed

theorem HumanBytes_unit_in_range_witness:
  "human_units 41800000 = (1048576, 1)
   \<and> 1 < length unit_letters \<and> (1048576 :: int) = 1024 ^ (1 + 1)
   \<and> 1048576 \<le> (41800000 :: int) \<and> (41800000 :: int) < 1024 * 1048576"
proof -
  have h: "human_units 41800000 = (1048576, 1)" by code_simp
  have "1 < length unit_letters \<and> (1048576 :: int) = 1024 ^ (1 + 1)
   \<and> 1048576 \<le> (41800000 :: int) \<and> (41800000 :: int) < 1024 * 1048576"
    by (rule HumanBytes_unit_in_range [OF _ _ h]) (simp_all add: int64_range_def)
  with h show ?thesis by blast
qed

end
