(* ===== verification/SSS_Admission.thy ===== *)
theory SSS_Admission
  imports SSS_Errors
begin

text \<open>
  Disk admission (\<^verbatim>\<open>internal/admission/admission.go\<close>) with \<^verbatim>\<open>platform.DiskUsage\<close>. The
  arithmetic is kept at its width: sizes of the filesystem are unsigned 64-bit values,
  everything else signed 64-bit. The outstanding reservations come from the metadata store
  through the interface \<^verbatim>\<open>Reservations\<close>; here they are the result of that call, \<open>None\<close> for
  an error. The free space of the filesystem is read the same way.
\<close>

record disk_usage =
  TotalBytes_u :: nat
  FreeBytes_u :: nat

record controller =
  highWatermarkPct :: int
  maxTransferBytes :: int

definition uint64_sub :: "nat \<Rightarrow> nat \<Rightarrow> nat" where
  "uint64_sub a b = nat ((int a - int b) mod 2 ^ 64)"

definition UsedPercent :: "disk_usage \<Rightarrow> int" where
  "UsedPercent d =
     (if TotalBytes_u d = 0 then 0
      else int ((uint64_sub (TotalBytes_u d) (FreeBytes_u d) * 100) mod 2 ^ 64 div TotalBytes_u d))"

definition MaterializationOverhead :: int where "MaterializationOverhead = 2"

definition headroom :: "controller \<Rightarrow> disk_usage \<Rightarrow> int \<Rightarrow> int" where
  "headroom c usage reserved =
     (if TotalBytes_u usage = 0 then 0
      else let limit = go_div (wrap64 (wrap64 (int (TotalBytes_u usage)) * highWatermarkPct c)) 100;
               used = wrap64 (int (uint64_sub (TotalBytes_u usage) (FreeBytes_u usage)))
           in wrap64 (wrap64 (limit - used) - reserved))"

definition adm_Status :: "controller \<Rightarrow> disk_usage option \<Rightarrow> int option \<Rightarrow> bool" where
  "adm_Status c usage reserved =
     (case (usage, reserved) of
        (Some u, Some r) \<Rightarrow> headroom c u r > 0
      | _ \<Rightarrow> False)"

definition Admit :: "controller \<Rightarrow> disk_usage option \<Rightarrow> int option \<Rightarrow> int \<Rightarrow> errcode option" where
  "Admit c usage reserved expectedBytes =
     (if maxTransferBytes c > 0 \<and> expectedBytes > maxTransferBytes c then Some ErrPayloadTooLarge
      else case usage of None \<Rightarrow> Some ErrInternal | Some u \<Rightarrow>
        case reserved of None \<Rightarrow> Some ErrInternal | Some r \<Rightarrow>
          if headroom c u r \<le> 0 then Some ErrInsufficientStorage
          else if expectedBytes > 0
                  \<and> wrap64 (expectedBytes * MaterializationOverhead) > headroom c u r
          then Some ErrInsufficientStorage
          else None)"

definition CheckStreaming :: "controller \<Rightarrow> disk_usage option \<Rightarrow> errcode option" where
  "CheckStreaming c usage =
     (case usage of None \<Rightarrow> Some ErrInternal | Some u \<Rightarrow>
        if headroom c u 0 \<le> 0 then Some ErrInsufficientStorage else None)"

definition Reserve :: "int \<Rightarrow> int" where
  "Reserve expectedBytes = wrap64 (expectedBytes * MaterializationOverhead)"

text \<open>
  The sizes for which no operation of the controller overflows: a filesystem below
  \<open>2\<^sup>63 / 100\<close> bytes (about 80 pebibytes), free space within the total, a watermark percentage
  and a declared size below \<open>2\<^sup>62\<close>.
\<close>

definition sane_disk :: "controller \<Rightarrow> disk_usage \<Rightarrow> bool" where
  "sane_disk c u \<longleftrightarrow>
     FreeBytes_u u \<le> TotalBytes_u u \<and> int (TotalBytes_u u) * 100 < 2 ^ 63
     \<and> 0 \<le> highWatermarkPct c \<and> highWatermarkPct c \<le> 100"

lemma uint64_sub_sane:
  assumes "b \<le> a" and "int a < 2 ^ 64"
  shows "uint64_sub a b = a - b"
proof -
  have "(int a - int b) mod 2 ^ 64 = int a - int b"
    using assms by (intro mod_pos_pos_trivial) auto
  then show ?thesis using assms(1) by (simp add: uint64_sub_def nat_diff_distrib)
qed

lemma headroom_sane:
  assumes "sane_disk c u" and "0 \<le> reserved" and "reserved < 2 ^ 62" and "TotalBytes_u u > 0"
  shows "headroom c u reserved =
    int (TotalBytes_u u) * highWatermarkPct c div 100
      - (int (TotalBytes_u u) - int (FreeBytes_u u)) - reserved"
proof -
  let ?T = "int (TotalBytes_u u)" and ?F = "int (FreeBytes_u u)" and ?p = "highWatermarkPct c"
  have T: "?T * 100 < 2 ^ 63" and F: "?F \<le> ?T" and p: "0 \<le> ?p" "?p \<le> 100"
    using assms(1) by (auto simp: sane_disk_def)
  have Tp: "0 \<le> ?T * ?p" "?T * ?p \<le> ?T * 100"
    using p by (auto intro: mult_left_mono)
  have lim: "0 \<le> ?T * ?p div 100" "?T * ?p div 100 \<le> ?T"
    using Tp by (auto simp: pos_imp_zdiv_nonneg_iff)
  have used: "wrap64 (int (uint64_sub (TotalBytes_u u) (FreeBytes_u u))) = ?T - ?F"
    using T F by (simp add: uint64_sub_sane of_nat_diff int64_range_def)
  have limit: "go_div (wrap64 (wrap64 ?T * ?p)) 100 = ?T * ?p div 100"
    using T Tp by (simp add: int64_range_def)
  have "wrap64 (?T * ?p div 100 - (?T - ?F)) = ?T * ?p div 100 - (?T - ?F)"
    using T F lim by (intro wrap64_id) (simp add: int64_range_def)
  moreover have "wrap64 (?T * ?p div 100 - (?T - ?F) - reserved)
      = ?T * ?p div 100 - (?T - ?F) - reserved"
    using T F lim assms(2,3) by (intro wrap64_id) (simp add: int64_range_def)
  ultimately show ?thesis
    using assms(4) by (simp add: headroom_def Let_def used limit)
qed

lemma Admit_within_max:
  assumes "sane_disk c u" and "0 \<le> reserved" and "reserved < 2 ^ 62"
    and "0 \<le> expected" and "expected < 2 ^ 62" and "Admit c (Some u) (Some reserved) expected = None"
  shows "int (TotalBytes_u u) - int (FreeBytes_u u) + reserved + Reserve expected
      \<le> int (TotalBytes_u u) * highWatermarkPct c div 100
    \<and> (maxTransferBytes c > 0 \<longrightarrow> expected \<le> maxTransferBytes c)"
proof -
  have T: "TotalBytes_u u > 0"
    using assms(6) by (auto simp: Admit_def headroom_def split: if_splits)
  note h = headroom_sane [OF assms(1,2,3) T]
  have w: "wrap64 (expected * 2) = expected * 2"
    using assms(4,5) by (simp add: int64_range_def)
  have "expected > 0 \<longrightarrow> expected * 2 \<le> headroom c u reserved"
    and "0 < headroom c u reserved" and max: "maxTransferBytes c > 0 \<longrightarrow> expected \<le> maxTransferBytes c"
    using assms(6) by (auto simp: Admit_def MaterializationOverhead_def w split: if_splits)
  then have "expected * 2 \<le> headroom c u reserved" using assms(4) by (cases "expected = 0") auto
  with h max show ?thesis by (simp add: Reserve_def MaterializationOverhead_def w)
qed

lemmas Admit_within = Admit_within_max [THEN conjunct1]

text \<open>
  Admission is sound where nothing overflows. When \<^verbatim>\<open>Admit\<close> accepts a declared size, the
  bytes in use, the outstanding reservations and the new transfer's own reservation together
  stay at or below the high watermark, so admitting it one more time cannot overcommit the
  disk; and the declared size respects the configured maximum.
\<close>

theorem Admit_sound:
  assumes "sane_disk c u" and "0 \<le> reserved" and "reserved < 2 ^ 62"
    and "0 \<le> expected" and "expected < 2 ^ 62" and "Admit c (Some u) (Some reserved) expected = None"
  shows "int (TotalBytes_u u) - int (FreeBytes_u u) + reserved + Reserve expected
      \<le> int (TotalBytes_u u) * highWatermarkPct c div 100
    \<and> (maxTransferBytes c > 0 \<longrightarrow> expected \<le> maxTransferBytes c)"
  using assms by (rule Admit_within_max)

theorem Admit_sound_witness:
  "int (TotalBytes_u \<lparr>TotalBytes_u = 1000, FreeBytes_u = 900\<rparr>)
     - int (FreeBytes_u \<lparr>TotalBytes_u = 1000, FreeBytes_u = 900\<rparr>) + 50 + Reserve 300
   \<le> int (TotalBytes_u \<lparr>TotalBytes_u = 1000, FreeBytes_u = 900\<rparr>)
     * highWatermarkPct \<lparr>highWatermarkPct = 85, maxTransferBytes = 400\<rparr> div 100
   \<and> 300 \<le> maxTransferBytes \<lparr>highWatermarkPct = 85, maxTransferBytes = 400\<rparr>"
proof -
  let ?c = "\<lparr>highWatermarkPct = 85, maxTransferBytes = 400\<rparr>" and ?u = "\<lparr>TotalBytes_u = 1000, FreeBytes_u = 900\<rparr>"
  have "sane_disk ?c ?u" and "Admit ?c (Some ?u) (Some 50) 300 = None" by code_simp+
  from Admit_sound [OF this(1) _ _ _ _ this(2)] show ?thesis by simp
qed

text \<open>
  C33: beyond the signed range admission fails open. With no configured maximum (the default),
  a declared size of \<open>2\<^sup>62\<close> bytes or more, up to the largest \<^verbatim>\<open>int64\<close>, is admitted on any
  filesystem that is below its watermark, however small, because doubling it wraps to a
  negative number or to less than any headroom; and the reservation recorded for \<open>2\<^sup>62\<close> bytes
  is negative.
\<close>

theorem Admit_overflow:
  assumes "maxTransferBytes c = 0" and "headroom c u reserved > 0"
    and "2 ^ 62 \<le> expected" and "expected < 2 ^ 63"
  shows "Admit c (Some u) (Some reserved) expected = None \<and> Reserve expected < 0"
proof -
  have "wrap64 (expected * 2) = expected * 2 - 2 ^ 64"
  proof -
    have "(expected * 2 + 2 ^ 63) mod 2 ^ 64 = (expected * 2 + 2 ^ 63 - 2 ^ 64) mod 2 ^ 64"
      by (simp only: minus_mod_self2)
    also have "\<dots> = expected * 2 + 2 ^ 63 - 2 ^ 64"
      using assms(3,4) by (intro mod_pos_pos_trivial) auto
    finally have "(expected * 2 + 2 ^ 63) mod 2 ^ 64 = expected * 2 + 2 ^ 63 - 2 ^ 64" .
    then show ?thesis by (simp add: wrap64_def)
  qed
  with assms show ?thesis
    by (simp add: Admit_def Reserve_def MaterializationOverhead_def)
qed

theorem Admit_overflow_witness:
  "Admit \<lparr>highWatermarkPct = 85, maxTransferBytes = 0\<rparr>
     (Some \<lparr>TotalBytes_u = 1000, FreeBytes_u = 900\<rparr>) (Some 0) (2 ^ 62) = None
   \<and> Reserve (2 ^ 62) < 0"
  by (rule Admit_overflow) code_simp+

end
