(* ===== verification/SSS_Code.thy ===== *)
theory SSS_Code
  imports SSS_Prelude "HOL-Library.Word"
begin

text \<open>
  Handoff codes (\<^verbatim>\<open>internal/protocol/code.go\<close>) and identifiers (\<^verbatim>\<open>internal/ids/ids.go\<close>).
  The random bytes that \<^verbatim>\<open>crypto/rand\<close> delivers are an argument of the functions that draw
  them. The lemmas show that a code survives the ways people retype it: a formatted code
  normalizes back to its eight characters, normalization ignores case, hyphens and blanks,
  and everything it accepts is canonical.
\<close>

unbundle bit_operations_syntax

section \<open>Codes\<close>

definition Alphabet :: string where
  "Alphabet = ''0123456789ABCDEFGHJKMNPQRSTVWXYZ''"

definition CodeLength :: nat where "CodeLength = 8"

definition FormatCode :: "string \<Rightarrow> string" where
  "FormatCode canonical =
     (if length canonical \<noteq> CodeLength then canonical
      else take 4 canonical @ ''-'' @ drop 4 canonical)"

definition NewCode :: "8 word list \<Rightarrow> string" where
  "NewCode buf = FormatCode (map (\<lambda>b. Alphabet ! unat (b AND 31)) buf)"

definition code_blank :: "nat \<Rightarrow> bool" where
  "code_blank r \<longleftrightarrow> r \<in> {45, 32, 9, 10, 13, 11, 12}"

definition alphabet_rune :: "nat \<Rightarrow> bool" where
  "alphabet_rune r \<longleftrightarrow> list_ex (\<lambda>c. byte c = r) Alphabet"

definition upper_rune :: "nat \<Rightarrow> nat" where
  "upper_rune r = (if 97 \<le> r \<and> r \<le> 122 then r - 32 else r)"

text \<open>The loop of \<^verbatim>\<open>NormalizeCode\<close>: the builder's contents, or \<open>None\<close> for the early return.\<close>

fun normalize_loop :: "(nat \<times> string) list \<Rightarrow> string \<Rightarrow> string option" where
  "normalize_loop [] b = Some b"
| "normalize_loop ((r, bs) # rs) b =
     (if code_blank r then normalize_loop rs b
      else (let r' = upper_rune r
            in if r' > 127 \<or> \<not> alphabet_rune r' then None
               else normalize_loop rs (b @ encode_rune r')))"

definition NormalizeCode :: "string \<Rightarrow> string option" where
  "NormalizeCode input =
     (case normalize_loop (runes input) [] of
        None \<Rightarrow> None
      | Some s \<Rightarrow> if length s \<noteq> CodeLength then None else Some s)"

definition canonical_code :: "string \<Rightarrow> bool" where
  "canonical_code s \<longleftrightarrow> length s = CodeLength \<and> set s \<subseteq> set Alphabet"

lemma length_Alphabet [simp]: "length Alphabet = 32"
  by (simp add: Alphabet_def)

lemma Alphabet_distinct: "distinct Alphabet"
  by code_simp

lemma Alphabet_chars:
  "c \<in> set Alphabet \<Longrightarrow>
     (48 \<le> byte c \<and> byte c \<le> 57) \<or> (65 \<le> byte c \<and> byte c \<le> 90)"
proof -
  have "list_all (\<lambda>c. (48 \<le> byte c \<and> byte c \<le> 57) \<or> (65 \<le> byte c \<and> byte c \<le> 90)) Alphabet"
    by code_simp
  then show "c \<in> set Alphabet \<Longrightarrow> ?thesis" by (simp only: list_all_iff)
qed

lemma Alphabet_char_facts:
  assumes "c \<in> set Alphabet"
  shows "byte c < 0x80" and "\<not> code_blank (byte c)" and "upper_rune (byte c) = byte c"
    and "alphabet_rune (byte c)"
  using Alphabet_chars [OF assms] assms
  by (auto simp: code_blank_def upper_rune_def alphabet_rune_def list_ex_iff)

lemma alphabet_rune_char:
  "alphabet_rune r \<Longrightarrow> char_of r \<in> set Alphabet"
  by (auto simp: alphabet_rune_def list_ex_iff)

lemma normalize_loop_alphabet:
  "set s \<subseteq> set Alphabet \<Longrightarrow> normalize_loop (runes (s @ t)) b = normalize_loop (runes t) (b @ s)"
proof (induction s arbitrary: b)
  case (Cons c cs)
  then have c: "c \<in> set Alphabet" by simp
  then have "\<not> 127 < byte c" using Alphabet_char_facts(1) by fastforce
  with Cons show ?case
    by (simp add: runes_ascii_Cons [OF Alphabet_char_facts(1) [OF c]] Let_def
        Alphabet_char_facts [OF c])
qed simp

lemma normalize_loop_canonical:
  "normalize_loop rs b = Some s \<Longrightarrow> set b \<subseteq> set Alphabet \<Longrightarrow> set s \<subseteq> set Alphabet"
proof (induction rs b rule: normalize_loop.induct)
  case (2 r bs rs b)
  then show ?case
    by (auto simp: Let_def split: if_splits dest: alphabet_rune_char)
qed simp

lemma NormalizeCode_canonical: "NormalizeCode s = Some c \<Longrightarrow> canonical_code c"
  by (auto simp: NormalizeCode_def canonical_code_def split: option.splits if_splits
      dest: normalize_loop_canonical)

lemma NormalizeCode_id: "canonical_code c \<Longrightarrow> NormalizeCode c = Some c"
  using normalize_loop_alphabet [of c "[]" "[]"]
  by (simp add: NormalizeCode_def canonical_code_def)

lemma NormalizeCode_FormatCode: "canonical_code c \<Longrightarrow> NormalizeCode (FormatCode c) = Some c"
proof -
  assume c: "canonical_code c"
  then have len: "length c = 8" and cs: "set c \<subseteq> set Alphabet"
    by (simp_all add: canonical_code_def CodeLength_def)
  have t: "set (take 4 c) \<subseteq> set Alphabet" and d: "set (drop 4 c) \<subseteq> set Alphabet"
    using cs set_take_subset [of 4 c] set_drop_subset [of 4 c] by blast+
  have "normalize_loop (runes (take 4 c @ ''-'' @ drop 4 c @ [])) [] = Some c"
    by (simp only: normalize_loop_alphabet [OF t] append.simps(2) runes_ascii_Cons
        append_Nil2)
       (simp add: runes_ascii_Cons code_blank_def
         normalize_loop_alphabet [OF d, of "[]", simplified])
  then show ?thesis
    using len by (simp add: NormalizeCode_def FormatCode_def CodeLength_def)
qed

text \<open>Blanks and hyphens between the characters do not matter, nor does the case of a letter.\<close>

lemma normalize_loop_filter:
  "normalize_loop rs b = normalize_loop (filter (\<lambda>(r, bs). \<not> code_blank r) rs) b"
  by (induction rs b rule: normalize_loop.induct) (auto simp: Let_def)

lemma code_blank_upper: "code_blank (upper_rune r) = code_blank r"
  by (auto simp: code_blank_def upper_rune_def)

lemma normalize_loop_cong:
  "list_all2 (\<lambda>(r, bs) (r', bs'). upper_rune r = upper_rune r') rs rs' \<Longrightarrow>
   normalize_loop rs b = normalize_loop rs' b"
proof (induction rs rs' arbitrary: b rule: list_all2_induct)
  case (Cons x xs y ys)
  obtain r bs r' bs' where xy: "x = (r, bs)" "y = (r', bs')" by fastforce
  with Cons.hyps have u: "upper_rune r = upper_rune r'" by simp
  then have "code_blank r = code_blank r'" by (metis code_blank_upper)
  with u Cons.IH show ?case by (simp add: xy Let_def)
qed simp

lemma low_bits_less: "unat (b AND 31) < 32" for b :: "8 word"
proof -
  have "b AND 31 \<le> 31" by (rule word_and_le1)
  then have "unat (b AND 31) \<le> unat (31 :: 8 word)" by (simp only: word_le_nat_alt)
  then show ?thesis by simp
qed

lemma NewCode_canonical:
  fixes buf :: "8 word list"
  assumes "length buf = CodeLength"
  shows "canonical_code (map (\<lambda>b. Alphabet ! unat (b AND 31)) buf)"
  using assms
  by (auto simp only: canonical_code_def length_map set_map length_Alphabet low_bits_less
      intro!: nth_mem)

text \<open>
  A freshly drawn code, in the hyphenated form the sender prints, normalizes to its own
  eight alphabet characters, whatever bytes the random source delivered; so what a receiver
  types back is the key the server stored.
\<close>

theorem NewCode_normalizes:
  assumes "length buf = CodeLength"
  shows "\<exists>c. NormalizeCode (NewCode buf) = Some c \<and> NewCode buf = FormatCode c
    \<and> length c = 8 \<and> set c \<subseteq> set Alphabet"
  using NewCode_canonical [OF assms]
  by (auto simp: NewCode_def NormalizeCode_FormatCode canonical_code_def CodeLength_def)

theorem NewCode_normalizes_witness:
  "\<exists>c. NormalizeCode (NewCode [0, 31, 32, 63, 255, 7, 100, 18]) = Some c
    \<and> NewCode [0, 31, 32, 63, 255, 7, 100, 18] = FormatCode c
    \<and> length c = 8 \<and> set c \<subseteq> set Alphabet"
  by (rule NewCode_normalizes) (simp add: CodeLength_def)

text \<open>
  Retyping a code does not change what it means. Two inputs whose code points, after
  blanks and hyphens are dropped, agree up to letter case get the same answer from
  \<^verbatim>\<open>NormalizeCode\<close>, and whatever it accepts is canonical and is accepted unchanged a
  second time.
\<close>

theorem NormalizeCode_retyping:
  "(list_all2 (\<lambda>(r, bs) (r', bs'). upper_rune r = upper_rune r')
      (filter (\<lambda>(r, bs). \<not> code_blank r) (runes s))
      (filter (\<lambda>(r, bs). \<not> code_blank r) (runes t))
    \<longrightarrow> NormalizeCode s = NormalizeCode t)
   \<and> (\<forall>c. NormalizeCode s = Some c \<longrightarrow> canonical_code c \<and> NormalizeCode c = Some c)"
proof (intro conjI impI allI)
  assume "list_all2 (\<lambda>(r, bs) (r', bs'). upper_rune r = upper_rune r')
      (filter (\<lambda>(r, bs). \<not> code_blank r) (runes s))
      (filter (\<lambda>(r, bs). \<not> code_blank r) (runes t))"
  then have "normalize_loop (runes s) [] = normalize_loop (runes t) []"
    by (subst (1 2) normalize_loop_filter) (rule normalize_loop_cong)
  then show "NormalizeCode s = NormalizeCode t" by (simp add: NormalizeCode_def)
next
  fix c assume "NormalizeCode s = Some c"
  then show "canonical_code c" and "NormalizeCode c = Some c"
    by (blast intro: NormalizeCode_canonical NormalizeCode_id)+
qed

theorem NormalizeCode_retyping_witness:
  "NormalizeCode ''k7m4 q2px'' = NormalizeCode ''K7M4-Q2PX''"
proof -
  have "list_all2 (\<lambda>(r, bs) (r', bs'). upper_rune r = upper_rune r')
      (filter (\<lambda>(r, bs). \<not> code_blank r) (runes ''k7m4 q2px''))
      (filter (\<lambda>(r, bs). \<not> code_blank r) (runes ''K7M4-Q2PX''))"
    by (simp add: runes_ascii_Cons code_blank_def upper_rune_def)
  then show ?thesis using NormalizeCode_retyping by blast
qed

section \<open>Identifiers\<close>

definition hex_digit :: "nat \<Rightarrow> char" where
  "hex_digit n = ''0123456789abcdef'' ! n"

definition hex_encode :: "8 word list \<Rightarrow> string" where
  "hex_encode bs = concat (map (\<lambda>b. [hex_digit (unat b div 16), hex_digit (unat b mod 16)]) bs)"

definition ids_New :: "string \<Rightarrow> 8 word list \<Rightarrow> string" where
  "ids_New pfx b = pfx @ hex_encode b"

definition ids_Transfer :: "8 word list \<Rightarrow> string" where "ids_Transfer b = ids_New ''t-'' b"
definition ids_Segment :: "8 word list \<Rightarrow> string" where "ids_Segment b = ids_New ''s-'' b"
definition ids_Upload :: "8 word list \<Rightarrow> string" where "ids_Upload b = ids_New ''u-'' b"
definition ids_Claim :: "8 word list \<Rightarrow> string" where "ids_Claim b = ids_New ''c-'' b"
definition ids_Token :: "8 word list \<Rightarrow> string" where "ids_Token b = hex_encode b"

lemma length_hex_encode [simp]: "length (hex_encode bs) = 2 * length bs"
  by (induction bs) (simp_all add: hex_encode_def)

lemma hex_digit_inject:
  assumes "m < 16" "n < 16"
  shows "hex_digit m = hex_digit n \<longleftrightarrow> m = n"
proof -
  have "distinct ''0123456789abcdef''" by code_simp
  then show ?thesis using assms by (simp add: hex_digit_def nth_eq_iff_index_eq)
qed

lemma nibbles: "unat x div 16 < 16" "unat x mod 16 < 16" for x :: "8 word"
  using unsigned_less [of x, where ?'a = nat] by (simp_all add: less_mult_imp_div_less)

lemma hex_encode_inject: "hex_encode as = hex_encode bs \<Longrightarrow> as = bs"
proof (induction as arbitrary: bs)
  case Nil
  then show ?case by (cases bs) (simp_all add: hex_encode_def)
next
  case (Cons a as)
  then obtain b bs' where bs: "bs = b # bs'"
    by (cases bs) (simp_all add: hex_encode_def)
  from Cons.prems bs have hd: "unat a div 16 = unat b div 16" "unat a mod 16 = unat b mod 16"
    and tl: "hex_encode as = hex_encode bs'"
    by (auto simp: hex_encode_def hex_digit_inject nibbles)
  from hd have "unat a = unat b" by (metis mult_div_mod_eq)
  then have "a = b" by (simp only: unsigned_word_eqI)
  then show ?case using Cons.IH [OF tl] bs by simp
qed

lemma hex_encode_alphabet: "set (hex_encode bs) \<subseteq> set ''0123456789abcdef''"
proof (induction bs)
  case (Cons b bs)
  have "hex_digit n \<in> set ''0123456789abcdef''" if "n < 16" for n
    unfolding hex_digit_def using that by (intro nth_mem) simp
  with Cons nibbles [of b] show ?case by (simp add: hex_encode_def)
qed (simp add: hex_encode_def)

end
