(* ===== verification/SSS_Store.thy ===== *)
theory SSS_Store
  imports SSS_Code SSS_Errors SSS_Admission
begin

text \<open>
  The metadata repository (\<^verbatim>\<open>internal/store/sqlite/store.go\<close> and \<^verbatim>\<open>schema.go\<close>). A table is a
  list of rows whose nullable columns are options; the constraints of the schema (primary
  keys, the unique code and upload id, the foreign keys with their cascade) are checked where
  SQLite checks them, on insert and update. The Go structs the callers see are separate
  records, and the scan functions translate. \<^verbatim>\<open>Store.write\<close> runs one transaction: an error of
  the driver (the argument \<open>ok\<close> is false) or of the function leaves the tables as they were.
  A query without ORDER BY returns rows in table order, on which no theorem depends.
\<close>

section \<open>Data\<close>

datatype tstate =
    StateCreated | StateUploading | StateVerifying | StateCommitted | StateExpired
  | StateDeleting | StateDeleted | StateFailed | StateAbandoned

datatype sstate = SegmentPending | SegmentReceived | SegmentVerified

datatype ckind = ClaimRemote | ClaimLocal

record transfer_row =
  tr_id :: string
  tr_code :: "string option"
  tr_state :: tstate
  tr_sender_label :: "string option"
  tr_created_at :: int
  tr_committed_at :: "int option"
  tr_expires_at :: "int option"
  tr_requested_ttl_minutes :: int
  tr_note :: "string option"
  tr_manifest_digest :: "string option"
  tr_wire_bytes :: int
  tr_materialized_bytes :: int
  tr_reserved_bytes :: int
  tr_root_path :: string
  tr_last_error_code :: "string option"

record segment_row =
  sr_id :: string
  sr_transfer_id :: string
  sr_upload_id :: "string option"
  sr_kind :: string
  sr_expected_length :: int
  sr_received_length :: int
  sr_digest_algorithm :: string
  sr_expected_digest :: "string option"
  sr_state :: sstate
  sr_relative_storage_path :: string

record claim_row =
  cr_id :: string
  cr_transfer_id :: string
  cr_kind :: ckind
  cr_created_at :: int
  cr_lease_until :: int
  cr_completed_at :: "int option"
  cr_token_hash :: "string option"

record idem_row =
  ir_key_hash :: string
  ir_operation :: string
  ir_transfer_id :: "string option"
  ir_response_code :: "string option"
  ir_created_at :: int
  ir_expires_at :: int
  ir_request_fingerprint :: "string option"

record db =
  transfers :: "transfer_row list"
  segments :: "segment_row list"
  claims :: "claim_row list"
  idempotency_keys :: "idem_row list"

definition empty_db :: db where
  "empty_db = \<lparr>transfers = [], segments = [], claims = [], idempotency_keys = []\<rparr>"

record Transfer =
  t_ID :: string
  t_Code :: string
  t_State :: tstate
  t_SenderLabel :: string
  t_CreatedAt :: time
  t_CommittedAt :: time
  t_ExpiresAt :: time
  t_RequestedTTLMinutes :: int
  t_Note :: string
  t_ManifestDigest :: string
  t_WireBytes :: int
  t_MaterializedBytes :: int
  t_ReservedBytes :: int
  t_RootPath :: string
  t_LastErrorCode :: string

record Segment =
  sg_ID :: string
  sg_TransferID :: string
  sg_UploadID :: string
  sg_Kind :: string
  sg_ExpectedLength :: int
  sg_ReceivedLength :: int
  sg_DigestAlgorithm :: string
  sg_ExpectedDigest :: string
  sg_State :: sstate
  sg_RelativeStoragePath :: string

record Claim =
  c_ID :: string
  c_TransferID :: string
  c_Kind :: ckind
  c_CreatedAt :: time
  c_LeaseUntil :: time
  c_CompletedAt :: time
  c_TokenHash :: string

record Idempotency =
  i_KeyHash :: string
  i_Operation :: string
  i_TransferID :: string
  i_ResponseCode :: string
  i_CreatedAt :: time
  i_ExpiresAt :: time
  i_RequestFingerprint :: string

definition Committed :: "Transfer \<Rightarrow> bool" where
  "Committed t \<longleftrightarrow> t_State t = StateCommitted \<and> t_Code t \<noteq> []"

definition nullString :: "string \<Rightarrow> string option" where
  "nullString s = (if s = [] then None else Some s)"

definition string_of_null :: "string option \<Rightarrow> string" where
  "string_of_null v = (case v of None \<Rightarrow> [] | Some s \<Rightarrow> s)"

definition time_of_null :: "int option \<Rightarrow> time" where
  "time_of_null v = (case v of None \<Rightarrow> zero_time | Some s \<Rightarrow> of_unix s)"

definition scanTransfer :: "transfer_row \<Rightarrow> Transfer" where
  "scanTransfer r =
     \<lparr>t_ID = tr_id r, t_Code = string_of_null (tr_code r), t_State = tr_state r,
      t_SenderLabel = string_of_null (tr_sender_label r), t_CreatedAt = of_unix (tr_created_at r),
      t_CommittedAt = time_of_null (tr_committed_at r),
      t_ExpiresAt = time_of_null (tr_expires_at r),
      t_RequestedTTLMinutes = tr_requested_ttl_minutes r, t_Note = string_of_null (tr_note r),
      t_ManifestDigest = string_of_null (tr_manifest_digest r), t_WireBytes = tr_wire_bytes r,
      t_MaterializedBytes = tr_materialized_bytes r, t_ReservedBytes = tr_reserved_bytes r,
      t_RootPath = tr_root_path r, t_LastErrorCode = string_of_null (tr_last_error_code r)\<rparr>"

lemma scanTransfer_simps [simp]:
  "t_ID (scanTransfer r) = tr_id r" "t_State (scanTransfer r) = tr_state r"
  "t_Code (scanTransfer r) = string_of_null (tr_code r)"
  "t_RequestedTTLMinutes (scanTransfer r) = tr_requested_ttl_minutes r"
  by (simp_all add: scanTransfer_def)

definition scanSegment :: "segment_row \<Rightarrow> Segment" where
  "scanSegment r =
     \<lparr>sg_ID = sr_id r, sg_TransferID = sr_transfer_id r,
      sg_UploadID = string_of_null (sr_upload_id r), sg_Kind = sr_kind r,
      sg_ExpectedLength = sr_expected_length r, sg_ReceivedLength = sr_received_length r,
      sg_DigestAlgorithm = sr_digest_algorithm r,
      sg_ExpectedDigest = string_of_null (sr_expected_digest r), sg_State = sr_state r,
      sg_RelativeStoragePath = sr_relative_storage_path r\<rparr>"

definition scanClaim :: "claim_row \<Rightarrow> Claim" where
  "scanClaim r =
     \<lparr>c_ID = cr_id r, c_TransferID = cr_transfer_id r, c_Kind = cr_kind r,
      c_CreatedAt = of_unix (cr_created_at r), c_LeaseUntil = of_unix (cr_lease_until r),
      c_CompletedAt = time_of_null (cr_completed_at r),
      c_TokenHash = string_of_null (cr_token_hash r)\<rparr>"

definition scanIdempotency :: "idem_row \<Rightarrow> Idempotency" where
  "scanIdempotency r =
     \<lparr>i_KeyHash = ir_key_hash r, i_Operation = ir_operation r,
      i_TransferID = string_of_null (ir_transfer_id r),
      i_ResponseCode = string_of_null (ir_response_code r),
      i_CreatedAt = of_unix (ir_created_at r), i_ExpiresAt = of_unix (ir_expires_at r),
      i_RequestFingerprint = string_of_null (ir_request_fingerprint r)\<rparr>"

section \<open>Tables\<close>

definition tbl_find :: "('r \<Rightarrow> 'k) \<Rightarrow> 'k \<Rightarrow> 'r list \<Rightarrow> 'r option" where
  "tbl_find key k rs = find (\<lambda>r. key r = k) rs"

definition tbl_insert :: "('r \<Rightarrow> 'k) \<Rightarrow> 'r \<Rightarrow> 'r list \<Rightarrow> 'r list option" where
  "tbl_insert key r rs = (if tbl_find key (key r) rs = None then Some (rs @ [r]) else None)"

definition tbl_modify :: "('r \<Rightarrow> 'k) \<Rightarrow> 'k \<Rightarrow> ('r \<Rightarrow> 'r) \<Rightarrow> 'r list \<Rightarrow> 'r list" where
  "tbl_modify key k f rs = map (\<lambda>r. if key r = k then f r else r) rs"

definition tbl_delete :: "('r \<Rightarrow> 'k) \<Rightarrow> 'k \<Rightarrow> 'r list \<Rightarrow> 'r list" where
  "tbl_delete key k rs = filter (\<lambda>r. key r \<noteq> k) rs"

definition tbl_wf :: "('r \<Rightarrow> 'k) \<Rightarrow> 'r list \<Rightarrow> bool" where
  "tbl_wf key rs \<longleftrightarrow> distinct (map key rs)"

text \<open>
  The contract of a table with a primary key: what a lookup sees after each statement, and
  that every statement keeps the key unique.
\<close>

locale keyed_table =
  fixes key :: "'r \<Rightarrow> 'k"
    and lookup :: "'k \<Rightarrow> 't \<Rightarrow> 'r option"
    and ins :: "'r \<Rightarrow> 't \<Rightarrow> 't option"
    and modify :: "'k \<Rightarrow> ('r \<Rightarrow> 'r) \<Rightarrow> 't \<Rightarrow> 't"
    and del :: "'k \<Rightarrow> 't \<Rightarrow> 't"
    and wf :: "'t \<Rightarrow> bool"
  assumes lookup_key: "lookup k t = Some r \<Longrightarrow> key r = k"
    and insert_defined: "ins r t = None \<longleftrightarrow> lookup (key r) t \<noteq> None"
    and lookup_insert:
      "ins r t = Some t' \<Longrightarrow> lookup k t' = (if k = key r then Some r else lookup k t)"
    and lookup_modify:
      "(\<And>r. key (f r) = key r) \<Longrightarrow>
       lookup k (modify j f t) = (if k = j then map_option f (lookup k t) else lookup k t)"
    and lookup_delete: "lookup k (del j t) = (if k = j then None else lookup k t)"
    and wf_insert: "wf t \<Longrightarrow> ins r t = Some t' \<Longrightarrow> wf t'"
    and wf_modify: "(\<And>r. key (f r) = key r) \<Longrightarrow> wf t \<Longrightarrow> wf (modify j f t)"
    and wf_delete: "wf t \<Longrightarrow> wf (del j t)"
begin

lemma insert_fresh: "ins r t = Some t' \<Longrightarrow> lookup (key r) t = None"
  using insert_defined [of r t] by auto

lemma lookup_after_insert: "ins r t = Some t' \<Longrightarrow> lookup (key r) t' = Some r"
  by (simp add: lookup_insert)

lemma insert_twice: "ins r t = Some t' \<Longrightarrow> key r' = key r \<Longrightarrow> ins r' t' = None"
  by (simp add: insert_defined lookup_after_insert)

lemma delete_then_insert: "\<exists>t'. ins r (del (key r) t) = Some t'"
  using insert_defined [of r "del (key r) t"] by (auto simp: lookup_delete)

lemma modify_absent:
  "(\<And>r. key (f r) = key r) \<Longrightarrow> lookup j t = None \<Longrightarrow> lookup k (modify j f t) = lookup k t"
  by (simp add: lookup_modify)

lemma delete_dom: "lookup k (del j t) = Some r \<Longrightarrow> k \<noteq> j \<and> lookup k t = Some r"
  by (auto simp: lookup_delete split: if_splits)

end

lemma tbl_find_key: "tbl_find key k rs = Some r \<Longrightarrow> key r = k"
  by (auto simp: tbl_find_def dest: find_Some_mem)

lemma tbl_find_mem: "tbl_find key k rs = Some r \<Longrightarrow> r \<in> set rs"
  by (auto simp: tbl_find_def dest: find_Some_mem)

lemma tbl_find_append:
  "tbl_find key k (rs @ [r])
   = (case tbl_find key k rs of Some x \<Rightarrow> Some x | None \<Rightarrow> if key r = k then Some r else None)"
  by (induction rs) (simp_all add: tbl_find_def)

lemma tbl_find_modify:
  assumes "\<And>r. key (f r) = key r"
  shows "tbl_find key k (tbl_modify key j f rs)
    = (if k = j then map_option f (tbl_find key k rs) else tbl_find key k rs)"
  using assms by (induction rs) (auto simp: tbl_find_def tbl_modify_def)

lemma tbl_find_delete:
  "tbl_find key k (tbl_delete key j rs) = (if k = j then None else tbl_find key k rs)"
  by (induction rs) (auto simp: tbl_find_def tbl_delete_def)

lemma tbl_find_wf: "tbl_wf key rs \<Longrightarrow> r \<in> set rs \<Longrightarrow> tbl_find key (key r) rs = Some r"
  by (induction rs) (auto simp: tbl_find_def tbl_wf_def)

lemma keyed_table_lists:
  "keyed_table key (tbl_find key) (tbl_insert key) (tbl_modify key) (tbl_delete key) (tbl_wf key)"
proof unfold_locales
  fix k rs r assume "tbl_find key k rs = Some r"
  then show "key r = k" by (rule tbl_find_key)
next
  fix r rs show "tbl_insert key r rs = None \<longleftrightarrow> tbl_find key (key r) rs \<noteq> None"
    by (simp add: tbl_insert_def)
next
  fix r rs rs' k assume "tbl_insert key r rs = Some rs'"
  then show "tbl_find key k rs' = (if k = key r then Some r else tbl_find key k rs)"
    by (auto simp: tbl_insert_def tbl_find_append split: if_splits option.splits)
next
  fix f k j rs assume "\<And>r. key (f r) = key r"
  then show "tbl_find key k (tbl_modify key j f rs)
      = (if k = j then map_option f (tbl_find key k rs) else tbl_find key k rs)"
    by (rule tbl_find_modify)
next
  fix k j rs
  show "tbl_find key k (tbl_delete key j rs) = (if k = j then None else tbl_find key k rs)"
    by (rule tbl_find_delete)
next
  fix rs r rs' assume "tbl_wf key rs" "tbl_insert key r rs = Some rs'"
  then show "tbl_wf key rs'"
    by (fastforce simp: tbl_wf_def tbl_insert_def tbl_find_def find_None_all split: if_splits)
next
  fix f rs j assume "\<And>r. key (f r) = key r" and "tbl_wf key rs"
  then show "tbl_wf key (tbl_modify key j f rs)"
    by (simp add: tbl_wf_def tbl_modify_def o_def if_distrib [of key] cong: if_cong)
next
  fix rs j assume "tbl_wf key rs"
  then show "tbl_wf key (tbl_delete key j rs)"
    by (simp add: tbl_wf_def tbl_delete_def distinct_map_filter)
qed

definition segment_key :: "segment_row \<Rightarrow> string \<times> string" where
  "segment_key r = (sr_transfer_id r, sr_id r)"

interpretation transfers: keyed_table tr_id "tbl_find tr_id" "tbl_insert tr_id"
  "tbl_modify tr_id" "tbl_delete tr_id" "tbl_wf tr_id"
  by (rule keyed_table_lists)

interpretation segments: keyed_table segment_key "tbl_find segment_key" "tbl_insert segment_key"
  "tbl_modify segment_key" "tbl_delete segment_key" "tbl_wf segment_key"
  by (rule keyed_table_lists)

interpretation claims: keyed_table cr_id "tbl_find cr_id" "tbl_insert cr_id"
  "tbl_modify cr_id" "tbl_delete cr_id" "tbl_wf cr_id"
  by (rule keyed_table_lists)

interpretation idem: keyed_table ir_key_hash "tbl_find ir_key_hash" "tbl_insert ir_key_hash"
  "tbl_modify ir_key_hash" "tbl_delete ir_key_hash" "tbl_wf ir_key_hash"
  by (rule keyed_table_lists)

abbreviation trow :: "db \<Rightarrow> string \<Rightarrow> transfer_row option" where
  "trow d i \<equiv> tbl_find tr_id i (transfers d)"

abbreviation srow :: "db \<Rightarrow> string \<Rightarrow> string \<Rightarrow> segment_row option" where
  "srow d t i \<equiv> tbl_find segment_key (t, i) (segments d)"

abbreviation crow :: "db \<Rightarrow> string \<Rightarrow> claim_row option" where
  "crow d i \<equiv> tbl_find cr_id i (claims d)"

abbreviation irow :: "db \<Rightarrow> string \<Rightarrow> idem_row option" where
  "irow d k \<equiv> tbl_find ir_key_hash k (idempotency_keys d)"

section \<open>Transactions\<close>

definition db_write :: "bool \<Rightarrow> (db \<Rightarrow> go_error + 'a \<times> db) \<Rightarrow> db \<Rightarrow> (go_error + 'a) \<times> db" where
  "db_write ok fn d =
     (if \<not> ok then (Inl SystemError, d)
      else case fn d of Inl e \<Rightarrow> (Inl e, d) | Inr (x, d') \<Rightarrow> (Inr x, d'))"

definition db_read :: "bool \<Rightarrow> (db \<Rightarrow> go_error + 'a) \<Rightarrow> db \<Rightarrow> go_error + 'a" where
  "db_read ok q d = (if ok then q d else Inl SystemError)"

abbreviation modify_transfer :: "string \<Rightarrow> (transfer_row \<Rightarrow> transfer_row) \<Rightarrow> db \<Rightarrow> db" where
  "modify_transfer i f d \<equiv> d\<lparr>transfers := tbl_modify tr_id i f (transfers d)\<rparr>"

definition is_precommit :: "tstate \<Rightarrow> bool" where
  "is_precommit s \<longleftrightarrow> s \<in> {StateCreated, StateUploading, StateVerifying}"

section \<open>Transfers\<close>

definition new_row :: "Transfer \<Rightarrow> transfer_row" where
  "new_row t =
     \<lparr>tr_id = t_ID t, tr_code = None, tr_state = t_State t,
      tr_sender_label = nullString (t_SenderLabel t), tr_created_at = unix (t_CreatedAt t),
      tr_committed_at = None, tr_expires_at = None,
      tr_requested_ttl_minutes = t_RequestedTTLMinutes t, tr_note = nullString (t_Note t),
      tr_manifest_digest = None, tr_wire_bytes = t_WireBytes t,
      tr_materialized_bytes = t_MaterializedBytes t, tr_reserved_bytes = t_ReservedBytes t,
      tr_root_path = t_RootPath t, tr_last_error_code = None\<rparr>"

definition db_CreateTransfer :: "bool \<Rightarrow> Transfer \<Rightarrow> db \<Rightarrow> (go_error + unit) \<times> db" where
  "db_CreateTransfer ok t = db_write ok (\<lambda>d.
     case tbl_insert tr_id (new_row t) (transfers d) of
       None \<Rightarrow> Inl SystemError
     | Some ts \<Rightarrow> Inr ((), d\<lparr>transfers := ts\<rparr>))"

definition db_GetTransfer :: "bool \<Rightarrow> string \<Rightarrow> db \<Rightarrow> go_error + Transfer" where
  "db_GetTransfer ok i = db_read ok (\<lambda>d.
     case trow d i of None \<Rightarrow> Inl NotFoundError | Some r \<Rightarrow> Inr (scanTransfer r))"

definition db_GetTransferByCode :: "bool \<Rightarrow> string \<Rightarrow> db \<Rightarrow> go_error + Transfer" where
  "db_GetTransferByCode ok c = db_read ok (\<lambda>d.
     case find (\<lambda>r. tr_code r = Some c) (transfers d) of
       None \<Rightarrow> Inl NotFoundError | Some r \<Rightarrow> Inr (scanTransfer r))"

definition db_ListByState :: "bool \<Rightarrow> tstate list \<Rightarrow> db \<Rightarrow> go_error + Transfer list" where
  "db_ListByState ok states d =
     (if states = [] then Inr []
      else db_read ok (\<lambda>d.
        Inr (map scanTransfer (filter (\<lambda>r. tr_state r \<in> set states) (transfers d)))) d)"

definition db_SetState :: "bool \<Rightarrow> string \<Rightarrow> tstate \<Rightarrow> db \<Rightarrow> (go_error + unit) \<times> db" where
  "db_SetState ok i s =
     db_write ok (\<lambda>d. Inr ((), modify_transfer i (\<lambda>r. r\<lparr>tr_state := s\<rparr>) d))"

definition db_Fail :: "bool \<Rightarrow> string \<Rightarrow> string \<Rightarrow> db \<Rightarrow> (go_error + unit) \<times> db" where
  "db_Fail ok i errorCode = db_write ok (\<lambda>d. Inr ((), modify_transfer i
     (\<lambda>r. r\<lparr>tr_state := StateFailed, tr_last_error_code := Some errorCode\<rparr>) d))"

definition db_SetNoteAndTTL ::
  "bool \<Rightarrow> string \<Rightarrow> string \<Rightarrow> int \<Rightarrow> db \<Rightarrow> (go_error + unit) \<times> db" where
  "db_SetNoteAndTTL ok i note ttlMinutes = db_write ok (\<lambda>d. Inr ((), modify_transfer i
     (\<lambda>r. r\<lparr>tr_note := nullString note, tr_requested_ttl_minutes := ttlMinutes\<rparr>) d))"

definition db_AddWireBytes :: "bool \<Rightarrow> string \<Rightarrow> int \<Rightarrow> db \<Rightarrow> (go_error + unit) \<times> db" where
  "db_AddWireBytes ok i n = db_write ok (\<lambda>d. Inr ((), modify_transfer i
     (\<lambda>r. r\<lparr>tr_wire_bytes := tr_wire_bytes r + n\<rparr>) d))"

definition db_SetReservation :: "bool \<Rightarrow> string \<Rightarrow> int \<Rightarrow> db \<Rightarrow> (go_error + unit) \<times> db" where
  "db_SetReservation ok i bytes = db_write ok (\<lambda>d. Inr ((), modify_transfer i
     (\<lambda>r. r\<lparr>tr_reserved_bytes := bytes\<rparr>) d))"

text \<open>SQL \<^verbatim>\<open>SUM\<close> over integers raises an error as soon as the running sum leaves \<^verbatim>\<open>int64\<close>.\<close>

fun sql_sum :: "int \<Rightarrow> int list \<Rightarrow> int option" where
  "sql_sum acc [] = Some acc"
| "sql_sum acc (x # xs) = (if int64_range (acc + x) then sql_sum (acc + x) xs else None)"

definition db_ReservedBytes :: "bool \<Rightarrow> db \<Rightarrow> go_error + int" where
  "db_ReservedBytes ok = db_read ok (\<lambda>d.
     case sql_sum 0 (map tr_reserved_bytes
            (filter (\<lambda>r. is_precommit (tr_state r)) (transfers d))) of
       None \<Rightarrow> Inl SystemError | Some n \<Rightarrow> Inr n)"

text \<open>
  One attempt of \<^verbatim>\<open>Publish\<close>: the update of the row with that id and a null code, which fails
  on the unique constraint when the code is taken.
\<close>

definition publish_row :: "string \<Rightarrow> time \<Rightarrow> time \<Rightarrow> string \<Rightarrow> int \<Rightarrow> transfer_row \<Rightarrow> transfer_row"
  where
  "publish_row canonical committedAt expiresAt digest bytes r =
     (if tr_code r = None
      then r\<lparr>tr_code := Some canonical, tr_state := StateCommitted,
             tr_committed_at := Some (unix committedAt), tr_expires_at := Some (unix expiresAt),
             tr_manifest_digest := Some digest, tr_materialized_bytes := bytes,
             tr_reserved_bytes := 0\<rparr>
      else r)"

fun publish_loop ::
  "string list \<Rightarrow> Transfer \<Rightarrow> time \<Rightarrow> time \<Rightarrow> string \<Rightarrow> int \<Rightarrow> db \<Rightarrow> go_error + Transfer \<times> db" where
  "publish_loop [] t committedAt expiresAt digest bytes d = Inl (ProtoError ErrInternal)"
| "publish_loop (code # codes) t committedAt expiresAt digest bytes d =
     (let canonical = string_of_null (NormalizeCode code) in
      if \<not> list_ex (\<lambda>r. tr_id r = t_ID t \<and> tr_code r = None) (transfers d)
      then Inl (ProtoError ErrStateConflict)
      else if list_ex (\<lambda>r. tr_code r = Some canonical) (transfers d)
      then publish_loop codes t committedAt expiresAt digest bytes d
      else Inr (t\<lparr>t_Code := canonical, t_State := StateCommitted, t_CommittedAt := committedAt,
                  t_ExpiresAt := expiresAt, t_ManifestDigest := digest,
                  t_MaterializedBytes := bytes\<rparr>,
                modify_transfer (t_ID t)
                  (publish_row canonical committedAt expiresAt digest bytes) d))"

definition db_Publish ::
  "bool \<Rightarrow> (nat \<Rightarrow> 8 word list) \<Rightarrow> string \<Rightarrow> time \<Rightarrow> int \<Rightarrow> string \<Rightarrow> int \<Rightarrow> db
   \<Rightarrow> (go_error + Transfer) \<times> db" where
  "db_Publish ok draws i now ttlMinutes manifestDigest materializedBytes = db_write ok (\<lambda>d.
     case trow d i of None \<Rightarrow> Inl NotFoundError | Some r \<Rightarrow>
       let t = scanTransfer r in
       if t_State t = StateCommitted \<and> t_Code t \<noteq> [] then Inr (t, d)
       else if \<not> is_precommit (t_State t) then Inl (ProtoError ErrStateConflict)
       else let committedAt = truncate_second now;
                expiresAt = committedAt + wrap64 (ttlMinutes * minute)
            in publish_loop (map (\<lambda>n. NewCode (draws n)) [0..<16]) t committedAt expiresAt
                 manifestDigest materializedBytes d)"

section \<open>Segments\<close>

definition db_InsertSegment :: "bool \<Rightarrow> Segment \<Rightarrow> db \<Rightarrow> (go_error + unit) \<times> db" where
  "db_InsertSegment ok seg = db_write ok (\<lambda>d.
     let upload = nullString (sg_UploadID seg) in
     if trow d (sg_TransferID seg) = None then Inl SystemError
     else if upload \<noteq> None \<and> list_ex (\<lambda>r. sr_upload_id r = upload) (segments d)
     then Inl SystemError
     else case tbl_insert segment_key
        \<lparr>sr_id = sg_ID seg, sr_transfer_id = sg_TransferID seg, sr_upload_id = upload,
         sr_kind = sg_Kind seg, sr_expected_length = sg_ExpectedLength seg,
         sr_received_length = sg_ReceivedLength seg,
         sr_digest_algorithm = sg_DigestAlgorithm seg,
         sr_expected_digest = nullString (sg_ExpectedDigest seg), sr_state = sg_State seg,
         sr_relative_storage_path = sg_RelativeStoragePath seg\<rparr> (segments d) of
       None \<Rightarrow> Inl SystemError
     | Some ss \<Rightarrow> Inr ((), d\<lparr>segments := ss\<rparr>))"

definition db_GetSegmentByUploadID :: "bool \<Rightarrow> string \<Rightarrow> db \<Rightarrow> go_error + Segment" where
  "db_GetSegmentByUploadID ok uploadID = db_read ok (\<lambda>d.
     case find (\<lambda>r. sr_upload_id r = Some uploadID) (segments d) of
       None \<Rightarrow> Inl NotFoundError | Some r \<Rightarrow> Inr (scanSegment r))"

definition db_GetSegment :: "bool \<Rightarrow> string \<Rightarrow> string \<Rightarrow> db \<Rightarrow> go_error + Segment" where
  "db_GetSegment ok transferID segmentID = db_read ok (\<lambda>d.
     case srow d transferID segmentID of
       None \<Rightarrow> Inl NotFoundError | Some r \<Rightarrow> Inr (scanSegment r))"

definition db_ListSegments :: "bool \<Rightarrow> string \<Rightarrow> db \<Rightarrow> go_error + Segment list" where
  "db_ListSegments ok transferID = db_read ok (\<lambda>d.
     Inr (map scanSegment
       (sort_key sr_id (filter (\<lambda>r. sr_transfer_id r = transferID) (segments d)))))"

definition db_SetSegmentProgress ::
  "bool \<Rightarrow> string \<Rightarrow> string \<Rightarrow> int \<Rightarrow> sstate \<Rightarrow> db \<Rightarrow> (go_error + unit) \<times> db" where
  "db_SetSegmentProgress ok transferID i received s = db_write ok (\<lambda>d.
     Inr ((), d\<lparr>segments := tbl_modify segment_key (transferID, i)
       (\<lambda>r. r\<lparr>sr_received_length := received, sr_state := s\<rparr>) (segments d)\<rparr>))"

section \<open>Claims\<close>

definition db_CreateClaim :: "bool \<Rightarrow> Claim \<Rightarrow> db \<Rightarrow> (go_error + unit) \<times> db" where
  "db_CreateClaim ok c = db_write ok (\<lambda>d.
     if trow d (c_TransferID c) = None then Inl SystemError
     else case tbl_insert cr_id
        \<lparr>cr_id = c_ID c, cr_transfer_id = c_TransferID c, cr_kind = c_Kind c,
         cr_created_at = unix (c_CreatedAt c), cr_lease_until = unix (c_LeaseUntil c),
         cr_completed_at = None, cr_token_hash = nullString (c_TokenHash c)\<rparr> (claims d) of
       None \<Rightarrow> Inl SystemError
     | Some cs \<Rightarrow> Inr ((), d\<lparr>claims := cs\<rparr>))"

definition db_GetClaim :: "bool \<Rightarrow> string \<Rightarrow> db \<Rightarrow> go_error + Claim" where
  "db_GetClaim ok i = db_read ok (\<lambda>d.
     case crow d i of None \<Rightarrow> Inl NotFoundError | Some r \<Rightarrow> Inr (scanClaim r))"

definition db_RenewClaim :: "bool \<Rightarrow> string \<Rightarrow> time \<Rightarrow> db \<Rightarrow> (go_error + unit) \<times> db" where
  "db_RenewClaim ok i leaseUntil = db_write ok (\<lambda>d.
     Inr ((), d\<lparr>claims := tbl_modify cr_id i
       (\<lambda>r. if cr_completed_at r = None then r\<lparr>cr_lease_until := unix leaseUntil\<rparr> else r)
       (claims d)\<rparr>))"

definition db_CompleteClaim :: "bool \<Rightarrow> string \<Rightarrow> time \<Rightarrow> db \<Rightarrow> (go_error + unit) \<times> db" where
  "db_CompleteClaim ok i at = db_write ok (\<lambda>d.
     Inr ((), d\<lparr>claims := tbl_modify cr_id i
       (\<lambda>r. r\<lparr>cr_completed_at := Some (unix at)\<rparr>) (claims d)\<rparr>))"

definition active_claim :: "time \<Rightarrow> claim_row \<Rightarrow> bool" where
  "active_claim now c \<longleftrightarrow> cr_completed_at c = None \<and> cr_lease_until c > unix now"

definition db_ActiveClaimCount :: "bool \<Rightarrow> string \<Rightarrow> time \<Rightarrow> db \<Rightarrow> go_error + nat" where
  "db_ActiveClaimCount ok transferID now = db_read ok (\<lambda>d.
     Inr (length (filter (\<lambda>c. cr_transfer_id c = transferID \<and> active_claim now c) (claims d))))"

definition db_TotalActiveClaims :: "bool \<Rightarrow> time \<Rightarrow> db \<Rightarrow> go_error + nat" where
  "db_TotalActiveClaims ok now = db_read ok (\<lambda>d.
     Inr (length (filter (active_claim now) (claims d))))"

definition db_CountByState :: "bool \<Rightarrow> tstate list \<Rightarrow> db \<Rightarrow> go_error + nat" where
  "db_CountByState ok states d =
     (if states = [] then Inr 0
      else db_read ok (\<lambda>d.
        Inr (length (filter (\<lambda>r. tr_state r \<in> set states) (transfers d)))) d)"

section \<open>Expiry and deletion\<close>

definition expiry_due :: "time \<Rightarrow> transfer_row \<Rightarrow> bool" where
  "expiry_due now r \<longleftrightarrow>
     tr_state r = StateCommitted
     \<and> (case tr_expires_at r of None \<Rightarrow> False | Some x \<Rightarrow> x \<le> unix now)"

definition db_ExpireDue :: "bool \<Rightarrow> time \<Rightarrow> db \<Rightarrow> (go_error + nat) \<times> db" where
  "db_ExpireDue ok now = db_write ok (\<lambda>d.
     Inr (length (filter (expiry_due now) (transfers d)),
          d\<lparr>transfers := map (\<lambda>r. if expiry_due now r then r\<lparr>tr_state := StateExpired\<rparr> else r)
              (transfers d)\<rparr>))"

definition unpinned :: "time \<Rightarrow> db \<Rightarrow> transfer_row \<Rightarrow> bool" where
  "unpinned now d r \<longleftrightarrow>
     tr_state r \<in> {StateExpired, StateFailed, StateAbandoned}
     \<and> \<not> list_ex (\<lambda>c. cr_transfer_id c = tr_id r \<and> active_claim now c) (claims d)"

definition db_UnpinnedExpired :: "bool \<Rightarrow> time \<Rightarrow> db \<Rightarrow> go_error + Transfer list" where
  "db_UnpinnedExpired ok now = db_read ok (\<lambda>d.
     Inr (map scanTransfer (filter (unpinned now d) (transfers d))))"

definition db_StaleStaging :: "bool \<Rightarrow> time \<Rightarrow> db \<Rightarrow> go_error + Transfer list" where
  "db_StaleStaging ok before = db_read ok (\<lambda>d.
     Inr (map scanTransfer (filter
       (\<lambda>r. is_precommit (tr_state r) \<and> tr_created_at r < unix before) (transfers d))))"

text \<open>The delete of the transfer row cascades, but by then nothing refers to it any more.\<close>

definition purge_rows :: "string \<Rightarrow> db \<Rightarrow> db" where
  "purge_rows i d =
     d\<lparr>claims := filter (\<lambda>c. cr_transfer_id c \<noteq> i) (claims d),
       segments := filter (\<lambda>s. sr_transfer_id s \<noteq> i) (segments d),
       idempotency_keys := filter (\<lambda>k. ir_transfer_id k \<noteq> Some i) (idempotency_keys d),
       transfers := tbl_delete tr_id i (transfers d)\<rparr>"

definition db_Purge :: "bool \<Rightarrow> string \<Rightarrow> db \<Rightarrow> (go_error + unit) \<times> db" where
  "db_Purge ok i = db_write ok (\<lambda>d. Inr ((), purge_rows i d))"

definition db_AllTransferIDs :: "bool \<Rightarrow> db \<Rightarrow> go_error + (string \<times> tstate) list" where
  "db_AllTransferIDs ok = db_read ok (\<lambda>d.
     Inr (map (\<lambda>r. (tr_id r, tr_state r)) (transfers d)))"

section \<open>Idempotency keys\<close>

definition db_LookupIdempotency :: "bool \<Rightarrow> string \<Rightarrow> db \<Rightarrow> go_error + Idempotency" where
  "db_LookupIdempotency ok keyHash = db_read ok (\<lambda>d.
     case irow d keyHash of None \<Rightarrow> Inl NotFoundError | Some r \<Rightarrow> Inr (scanIdempotency r))"

text \<open>The result is the record already stored under the key, if there is one.\<close>

definition db_RememberIdempotency ::
  "bool \<Rightarrow> Idempotency \<Rightarrow> db \<Rightarrow> (go_error + Idempotency option) \<times> db" where
  "db_RememberIdempotency ok rec = db_write ok (\<lambda>d.
     case irow d (i_KeyHash rec) of
       Some r \<Rightarrow> Inr (Some (scanIdempotency r), d)
     | None \<Rightarrow>
       (case tbl_insert ir_key_hash
          \<lparr>ir_key_hash = i_KeyHash rec, ir_operation = i_Operation rec,
           ir_transfer_id = nullString (i_TransferID rec),
           ir_response_code = nullString (i_ResponseCode rec),
           ir_created_at = unix (i_CreatedAt rec), ir_expires_at = unix (i_ExpiresAt rec),
           ir_request_fingerprint = nullString (i_RequestFingerprint rec)\<rparr>
          (idempotency_keys d) of
         None \<Rightarrow> Inl SystemError
       | Some ks \<Rightarrow> Inr (None, d\<lparr>idempotency_keys := ks\<rparr>)))"

definition db_CompleteIdempotency ::
  "bool \<Rightarrow> string \<Rightarrow> string \<Rightarrow> string \<Rightarrow> db \<Rightarrow> (go_error + unit) \<times> db" where
  "db_CompleteIdempotency ok keyHash transferID responseCode = db_write ok (\<lambda>d.
     Inr ((), d\<lparr>idempotency_keys := tbl_modify ir_key_hash keyHash
       (\<lambda>r. r\<lparr>ir_transfer_id := nullString transferID,
              ir_response_code := nullString responseCode\<rparr>) (idempotency_keys d)\<rparr>))"

definition db_ForgetIdempotency :: "bool \<Rightarrow> string \<Rightarrow> db \<Rightarrow> (go_error + unit) \<times> db" where
  "db_ForgetIdempotency ok keyHash = db_write ok (\<lambda>d.
     Inr ((), d\<lparr>idempotency_keys := tbl_delete ir_key_hash keyHash (idempotency_keys d)\<rparr>))"

definition db_PurgeExpiredIdempotency :: "bool \<Rightarrow> time \<Rightarrow> db \<Rightarrow> (go_error + unit) \<times> db" where
  "db_PurgeExpiredIdempotency ok now = db_write ok (\<lambda>d.
     Inr ((), d\<lparr>idempotency_keys :=
       filter (\<lambda>k. \<not> ir_expires_at k \<le> unix now) (idempotency_keys d)\<rparr>))"

section \<open>Integrity of the tables\<close>

definition codes_ok :: "transfer_row list \<Rightarrow> bool" where
  "codes_ok ts \<longleftrightarrow>
     (\<forall>r\<in>set ts. \<forall>c. tr_code r = Some c \<longrightarrow>
        canonical_code c \<and> (\<forall>s\<in>set ts. tr_code s = Some c \<longrightarrow> tr_id r = tr_id s))"

definition uploads_ok :: "segment_row list \<Rightarrow> bool" where
  "uploads_ok ss \<longleftrightarrow>
     (\<forall>a\<in>set ss. \<forall>b\<in>set ss. sr_upload_id a \<noteq> None \<longrightarrow> sr_upload_id a = sr_upload_id b
        \<longrightarrow> segment_key a = segment_key b)"

definition refs_ok :: "db \<Rightarrow> bool" where
  "refs_ok d \<longleftrightarrow>
     (\<forall>s\<in>set (segments d). trow d (sr_transfer_id s) \<noteq> None)
     \<and> (\<forall>c\<in>set (claims d). trow d (cr_transfer_id c) \<noteq> None)"

definition keys_ok :: "db \<Rightarrow> bool" where
  "keys_ok d \<longleftrightarrow>
     tbl_wf tr_id (transfers d) \<and> tbl_wf segment_key (segments d)
     \<and> tbl_wf cr_id (claims d) \<and> tbl_wf ir_key_hash (idempotency_keys d)"

definition db_ok :: "db \<Rightarrow> bool" where
  "db_ok d \<longleftrightarrow> keys_ok d \<and> codes_ok (transfers d) \<and> uploads_ok (segments d) \<and> refs_ok d"

lemma db_okI:
  "keys_ok d \<Longrightarrow> codes_ok (transfers d) \<Longrightarrow> uploads_ok (segments d) \<Longrightarrow> refs_ok d \<Longrightarrow> db_ok d"
  by (simp add: db_ok_def)

lemma db_okD:
  assumes "db_ok d"
  shows "keys_ok d" and "codes_ok (transfers d)" and "uploads_ok (segments d)" and "refs_ok d"
  using assms by (simp_all add: db_ok_def)

lemma empty_db_ok: "db_ok empty_db"
  by (simp add: db_ok_def keys_ok_def codes_ok_def uploads_ok_def refs_ok_def empty_db_def tbl_wf_def)

lemma in_tbl_modify:
  "r \<in> set (tbl_modify key k f rs) \<longleftrightarrow> (\<exists>r0\<in>set rs. r = (if key r0 = k then f r0 else r0))"
proof -
  have "set (tbl_modify key k f rs) = (\<lambda>r. if key r = k then f r else r) ` set rs"
    by (simp add: tbl_modify_def)
  then show ?thesis by (simp only: image_iff)
qed

lemma codes_okI:
  assumes "\<And>r c. r \<in> set ts \<Longrightarrow> tr_code r = Some c \<Longrightarrow> canonical_code c"
    and "\<And>r s c. r \<in> set ts \<Longrightarrow> s \<in> set ts \<Longrightarrow> tr_code r = Some c \<Longrightarrow> tr_code s = Some c
           \<Longrightarrow> tr_id r = tr_id s"
  shows "codes_ok ts"
  using assms unfolding codes_ok_def by blast

lemma codes_okD:
  assumes "codes_ok ts" and "r \<in> set ts" and "tr_code r = Some c"
  shows "canonical_code c" and "s \<in> set ts \<Longrightarrow> tr_code s = Some c \<Longrightarrow> tr_id r = tr_id s"
  using assms unfolding codes_ok_def by blast+

lemma trow_modify:
  assumes "\<And>r. tr_id (f r) = tr_id r"
  shows "trow (modify_transfer i f d) j = (if j = i then map_option f (trow d j) else trow d j)"
  using transfers.lookup_modify [of f, OF assms] by simp

lemma codes_ok_modify:
  assumes "\<And>r. tr_id (f r) = tr_id r" and "\<And>r. tr_code (f r) = tr_code r" and "codes_ok ts"
  shows "codes_ok (tbl_modify tr_id i f ts)"
proof -
  have mem: "\<exists>r0\<in>set ts. tr_code r = tr_code r0 \<and> tr_id r = tr_id r0"
    if "r \<in> set (tbl_modify tr_id i f ts)" for r
  proof -
    from that obtain r0 where "r0 \<in> set ts" "r = (if tr_id r0 = i then f r0 else r0)"
      unfolding in_tbl_modify by blast
    then show ?thesis by (intro bexI [of _ r0]) (simp_all add: assms(1,2))
  qed
  show ?thesis
    by (rule codes_okI) (metis mem codes_okD(1) [OF assms(3)], metis mem codes_okD(2) [OF assms(3)])
qed

lemma db_ok_modify:
  assumes "\<And>r. tr_id (f r) = tr_id r" and "\<And>r. tr_code (f r) = tr_code r" and "db_ok d"
  shows "db_ok (modify_transfer i f d)"
proof (rule db_okI)
  note ok = db_okD [OF assms(3)]
  show "keys_ok (modify_transfer i f d)"
    using ok(1) transfers.wf_modify [of f, OF assms(1)] by (simp add: keys_ok_def)
  show "codes_ok (transfers (modify_transfer i f d))"
    using codes_ok_modify [of f, OF assms(1,2) ok(2)] by simp
  show "uploads_ok (segments (modify_transfer i f d))" using ok(3) by simp
  show "refs_ok (modify_transfer i f d)"
    using ok(4) transfers.lookup_modify [of f, OF assms(1)] by (auto simp: refs_ok_def)
qed

lemma db_ok_map_state: "db_ok d \<Longrightarrow> db_ok (d\<lparr>transfers :=
    map (\<lambda>r. if P r then r\<lparr>tr_state := s\<rparr> else r) (transfers d)\<rparr>)"
proof -
  assume ok: "db_ok d"
  have f: "tbl_find tr_id i (map (\<lambda>r. if P r then r\<lparr>tr_state := s\<rparr> else r) ts) = None
      \<longleftrightarrow> tbl_find tr_id i ts = None" for i ts
    by (induction ts) (auto simp: tbl_find_def)
  show ?thesis
  proof (rule db_okI)
    let ?g = "\<lambda>r. if P r then r\<lparr>tr_state := s\<rparr> else r"
    have g: "tr_id (?g r) = tr_id r" "tr_code (?g r) = tr_code r" for r by simp_all
    have "tbl_wf tr_id (map ?g ts)" if "tbl_wf tr_id ts" for ts
      using that by (simp add: tbl_wf_def o_def if_distrib [of tr_id] cong: if_cong)
    with db_okD(1) [OF ok] show "keys_ok (d\<lparr>transfers := map ?g (transfers d)\<rparr>)"
      by (simp add: keys_ok_def)
    have c: "codes_ok (map ?g ts)" if ts: "codes_ok ts" for ts
    proof (rule codes_okI)
      fix r c assume "r \<in> set (map ?g ts)" "tr_code r = Some c"
      then obtain r0 where "r0 \<in> set ts" "r = ?g r0" unfolding set_map by (elim imageE)
      with \<open>tr_code r = Some c\<close> have "tr_code r0 = Some c" by (simp only: g)
      with \<open>r0 \<in> set ts\<close> show "canonical_code c" using codes_okD(1) [OF ts] by blast
    next
      fix r u c assume "r \<in> set (map ?g ts)" "u \<in> set (map ?g ts)"
        and rc: "tr_code r = Some c" "tr_code u = Some c"
      then obtain r0 u0 where "r0 \<in> set ts" "r = ?g r0" "u0 \<in> set ts" "u = ?g u0"
        unfolding set_map by (elim imageE)
      with rc codes_okD(2) [OF ts, of r0 c u0] have "tr_id r0 = tr_id u0" by (simp only: g)
      with \<open>r = ?g r0\<close> \<open>u = ?g u0\<close> show "tr_id r = tr_id u" by (simp only: g)
    qed
    show "codes_ok (transfers (d\<lparr>transfers := map ?g (transfers d)\<rparr>))"
      using c [OF db_okD(2) [OF ok]] by simp
    show "uploads_ok (segments (d\<lparr>transfers := map ?g (transfers d)\<rparr>))"
      using db_okD(3) [OF ok] by simp
    show "refs_ok (d\<lparr>transfers := map ?g (transfers d)\<rparr>)"
      using db_okD(4) [OF ok] by (simp add: refs_ok_def f)
  qed
qed

lemma find_code:
  assumes "db_ok d" and "trow d i = Some r" and "tr_code r = Some c"
  shows "find (\<lambda>r. tr_code r = Some c) (transfers d) = Some r"
proof -
  have mem: "r \<in> set (transfers d)" using assms(2) by (rule tbl_find_mem)
  then obtain s where s: "find (\<lambda>r. tr_code r = Some c) (transfers d) = Some s"
    using assms(3) by (cases "find (\<lambda>r. tr_code r = Some c) (transfers d)")
      (auto simp: find_None_all)
  from find_Some_mem [OF this] have "s \<in> set (transfers d)" "tr_code s = Some c" by auto
  with codes_okD(2) [OF db_okD(2) [OF assms(1)] mem assms(3)] have "tr_id s = tr_id r" by simp
  then have "s = r"
    using distinct_key_unique [of tr_id "transfers d" s r] db_okD(1) [OF assms(1)] mem
      \<open>s \<in> set (transfers d)\<close> by (simp add: keys_ok_def tbl_wf_def)
  with s show ?thesis by simp
qed

lemma find_code_row:
  assumes "db_ok d" and "find (\<lambda>r. tr_code r = Some c) (transfers d) = Some r"
  shows "trow d (tr_id r) = Some r" and "tr_code r = Some c"
  using assms find_Some_mem [OF assms(2)] tbl_find_wf [of tr_id "transfers d" r]
  by (auto simp: db_ok_def keys_ok_def)

section \<open>Publication\<close>

lemma publish_loop_Inr:
  assumes "publish_loop codes t ca ea dg n d = Inr (t', d')"
  shows "\<exists>code\<in>set codes. \<exists>c. c = string_of_null (NormalizeCode code)
    \<and> (\<forall>r\<in>set (transfers d). tr_code r \<noteq> Some c)
    \<and> (\<exists>r\<in>set (transfers d). tr_id r = t_ID t \<and> tr_code r = None)
    \<and> t' = t\<lparr>t_Code := c, t_State := StateCommitted, t_CommittedAt := ca, t_ExpiresAt := ea,
            t_ManifestDigest := dg, t_MaterializedBytes := n\<rparr>
    \<and> d' = modify_transfer (t_ID t) (publish_row c ca ea dg n) d"
  using assms
proof (induction codes)
  case (Cons code codes)
  let ?c = "string_of_null (NormalizeCode code)"
  have ex: "\<exists>r\<in>set (transfers d). tr_id r = t_ID t \<and> tr_code r = None"
    using Cons.prems by (auto simp: Let_def list_ex_iff split: if_splits)
  show ?case
  proof (cases "list_ex (\<lambda>r. tr_code r = Some ?c) (transfers d)")
    case True
    then have "publish_loop codes t ca ea dg n d = Inr (t', d')"
      using Cons.prems by (simp add: Let_def split: if_splits)
    from Cons.IH [OF this] show ?thesis unfolding set_simps by blast
  next
    case False
    then have "\<forall>r\<in>set (transfers d). tr_code r \<noteq> Some ?c" by (auto simp: list_ex_iff)
    moreover have "t' = t\<lparr>t_Code := ?c, t_State := StateCommitted, t_CommittedAt := ca,
        t_ExpiresAt := ea, t_ManifestDigest := dg, t_MaterializedBytes := n\<rparr>
      \<and> d' = modify_transfer (t_ID t) (publish_row ?c ca ea dg n) d"
      using Cons.prems False by (simp add: Let_def split: if_splits)
    ultimately show ?thesis using ex by (intro bexI [of _ code]) auto
  qed
qed simp

lemma publish_loop_succeeds:
  assumes "code \<in> set codes" and "trow d (t_ID t) = Some r" and "tr_code r = None"
    and "\<forall>s\<in>set (transfers d). tr_code s \<noteq> Some (string_of_null (NormalizeCode code))"
  shows "\<exists>t' d'. publish_loop codes t ca ea dg n d = Inr (t', d')"
proof -
  have "list_ex (\<lambda>r. tr_id r = t_ID t \<and> tr_code r = None) (transfers d)"
    using assms(2,3) tbl_find_mem [OF assms(2)] tbl_find_key [OF assms(2)]
    by (auto simp: list_ex_iff)
  then show ?thesis
    using assms(1,4) by (induction codes) (auto simp: Let_def list_ex_iff)
qed

lemma publish_row_simps [simp]:
  "tr_id (publish_row c ca ea dg n r) = tr_id r"
  by (simp add: publish_row_def)

lemma db_Publish_Inr:
  assumes "db_Publish ok draws i now ttl dg n d = (Inr t, d')" and "tbl_wf tr_id (transfers d)"
  obtains (again) r where "trow d i = Some r" "tr_state r = StateCommitted"
      "t = scanTransfer r" "t_Code t \<noteq> []" "d' = d" "ok"
  | (fresh) r c k where "trow d i = Some r" "is_precommit (tr_state r)" "tr_code r = None" "k < 16"
      "c = string_of_null (NormalizeCode (NewCode (draws k)))"
      "\<forall>s\<in>set (transfers d). tr_code s \<noteq> Some c"
      "t = (scanTransfer r)\<lparr>t_Code := c, t_State := StateCommitted,
         t_CommittedAt := truncate_second now,
         t_ExpiresAt := truncate_second now + wrap64 (ttl * minute),
         t_ManifestDigest := dg, t_MaterializedBytes := n\<rparr>"
      "d' = modify_transfer i (publish_row c (truncate_second now)
         (truncate_second now + wrap64 (ttl * minute)) dg n) d" "ok"
proof -
  from assms have ok: "ok" by (auto simp: db_Publish_def db_write_def split: if_splits)
  from assms obtain r where r: "trow d i = Some r"
    by (auto simp: db_Publish_def db_write_def split: if_splits option.splits sum.splits)
  have ids: "t_ID (scanTransfer r) = i" "t_State (scanTransfer r) = tr_state r"
    using tbl_find_key [OF r] by (simp_all add: scanTransfer_def)
  show thesis
  proof (cases "tr_state r = StateCommitted \<and> t_Code (scanTransfer r) \<noteq> []")
    case True
    then show thesis
      using assms r ids ok by (intro again [of r]) (auto simp: db_Publish_def db_write_def Let_def)
  next
    case False
    then have pre: "is_precommit (tr_state r)"
      and loop: "publish_loop (map (\<lambda>n. NewCode (draws n)) [0..<16]) (scanTransfer r)
        (truncate_second now) (truncate_second now + wrap64 (ttl * minute)) dg n d = Inr (t, d')"
      using assms r ids
      by (auto simp: db_Publish_def db_write_def Let_def split: if_splits sum.splits)
    from publish_loop_Inr [OF loop] obtain k where k: "k < 16"
      and new: "\<forall>s\<in>set (transfers d).
          tr_code s \<noteq> Some (string_of_null (NormalizeCode (NewCode (draws k))))"
      and some: "\<exists>s\<in>set (transfers d). tr_id s = i \<and> tr_code s = None"
      and res: "t = (scanTransfer r)\<lparr>t_Code := string_of_null (NormalizeCode (NewCode (draws k))),
           t_State := StateCommitted, t_CommittedAt := truncate_second now,
           t_ExpiresAt := truncate_second now + wrap64 (ttl * minute),
           t_ManifestDigest := dg, t_MaterializedBytes := n\<rparr>"
         "d' = modify_transfer i (publish_row (string_of_null (NormalizeCode (NewCode (draws k))))
           (truncate_second now) (truncate_second now + wrap64 (ttl * minute)) dg n) d"
      unfolding ids set_map set_upt by (elim bexE imageE exE conjE) (simp, blast)
    have "tr_code r = None"
      using some tbl_find_wf [OF assms(2)] r by (metis option.sel)
    with r pre k new res ok show thesis by (intro fresh [of r k]) simp_all
  qed
qed

section \<open>Every statement keeps the tables intact\<close>

lemma db_write_inv:
  assumes "P d" and "\<And>x d'. fn d = Inr (x, d') \<Longrightarrow> P d'"
  shows "P (snd (db_write ok fn d))"
  using assms by (auto simp: db_write_def split: sum.splits)

lemma db_ok_SetState [inv_intros]: "db_ok d \<Longrightarrow> db_ok (snd (db_SetState ok i s d))"
  unfolding db_SetState_def by (rule db_write_inv) (auto intro: db_ok_modify)

lemma db_ok_Fail [inv_intros]: "db_ok d \<Longrightarrow> db_ok (snd (db_Fail ok i e d))"
  unfolding db_Fail_def by (rule db_write_inv) (auto intro: db_ok_modify)

lemma db_ok_SetNoteAndTTL [inv_intros]: "db_ok d \<Longrightarrow> db_ok (snd (db_SetNoteAndTTL ok i n m d))"
  unfolding db_SetNoteAndTTL_def by (rule db_write_inv) (auto intro: db_ok_modify)

lemma db_ok_AddWireBytes [inv_intros]: "db_ok d \<Longrightarrow> db_ok (snd (db_AddWireBytes ok i n d))"
  unfolding db_AddWireBytes_def by (rule db_write_inv) (auto intro: db_ok_modify)

lemma db_ok_SetReservation [inv_intros]: "db_ok d \<Longrightarrow> db_ok (snd (db_SetReservation ok i n d))"
  unfolding db_SetReservation_def by (rule db_write_inv) (auto intro: db_ok_modify)

lemma db_ok_ExpireDue [inv_intros]: "db_ok d \<Longrightarrow> db_ok (snd (db_ExpireDue ok now d))"
  unfolding db_ExpireDue_def by (rule db_write_inv) (auto intro: db_ok_map_state)

lemma db_ok_insert_transfer:
  assumes "db_ok d" and "tbl_insert tr_id r (transfers d) = Some ts" and "tr_code r = None"
  shows "db_ok (d\<lparr>transfers := ts\<rparr>)"
proof (rule db_okI)
  note ok = db_okD [OF assms(1)]
  show "keys_ok (d\<lparr>transfers := ts\<rparr>)"
    using ok(1) transfers.wf_insert [OF _ assms(2)] by (simp add: keys_ok_def)
  have ts: "ts = transfers d @ [r]" using assms(2) by (simp add: tbl_insert_def split: if_splits)
  have "codes_ok (transfers d @ [r])"
  proof (rule codes_okI)
    fix x c assume "x \<in> set (transfers d @ [r])" "tr_code x = Some c"
    then have "x \<in> set (transfers d)" using assms(3) by auto
    then show "canonical_code c" using codes_okD(1) [OF ok(2)] \<open>tr_code x = Some c\<close> by blast
  next
    fix x y c assume "x \<in> set (transfers d @ [r])" "y \<in> set (transfers d @ [r])"
      and c: "tr_code x = Some c" "tr_code y = Some c"
    then have "x \<in> set (transfers d)" "y \<in> set (transfers d)" using assms(3) by auto
    then show "tr_id x = tr_id y" using codes_okD(2) [OF ok(2) _ c(1) _ c(2)] by blast
  qed
  then show "codes_ok (transfers (d\<lparr>transfers := ts\<rparr>))" by (simp add: ts)
  show "uploads_ok (segments (d\<lparr>transfers := ts\<rparr>))" using ok(3) by simp
  show "refs_ok (d\<lparr>transfers := ts\<rparr>)"
    using ok(4) transfers.lookup_insert [OF assms(2)] by (auto simp: refs_ok_def)
qed

lemma db_ok_CreateTransfer [inv_intros]: "db_ok d \<Longrightarrow> db_ok (snd (db_CreateTransfer ok t d))"
  unfolding db_CreateTransfer_def
  by (rule db_write_inv) (auto simp: new_row_def split: option.splits intro: db_ok_insert_transfer)

lemma db_CreateTransfer_Inr:
  assumes "db_CreateTransfer ok t d = (Inr u, d')"
  shows "ok" and "trow d (t_ID t) = None" and "d' = d\<lparr>transfers := transfers d @ [new_row t]\<rparr>"
  using assms by (auto simp: db_CreateTransfer_def db_write_def tbl_insert_def new_row_def
      split: if_splits option.splits)

lemma db_ok_InsertSegment [inv_intros]: "db_ok d \<Longrightarrow> db_ok (snd (db_InsertSegment ok seg d))"
  unfolding db_InsertSegment_def
proof (rule db_write_inv, assumption, goal_cases)
  case (1 x d')
  let ?u = "nullString (sg_UploadID seg)"
  from 1(2) obtain ss r where ins: "tbl_insert segment_key r (segments d) = Some ss"
    and d': "d' = d\<lparr>segments := ss\<rparr>" and u: "sr_upload_id r = ?u"
    and t: "trow d (sr_transfer_id r) \<noteq> None"
    and free: "?u \<noteq> None \<longrightarrow> (\<forall>s\<in>set (segments d). sr_upload_id s \<noteq> ?u)"
    by (auto simp: Let_def list_ex_iff split: if_splits option.splits)
  note ok = db_okD [OF 1(1)]
  have ss: "ss = segments d @ [r]" using ins by (simp add: tbl_insert_def split: if_splits)
  show ?case
  proof (rule db_okI)
    show "keys_ok d'"
      using ok(1) segments.wf_insert [OF _ ins] by (simp add: keys_ok_def d')
    show "codes_ok (transfers d')" using ok(2) by (simp add: d')
    have "uploads_ok (segments d @ [r])"
      unfolding uploads_ok_def
    proof (intro ballI impI)
      fix a b assume ab: "a \<in> set (segments d @ [r])" "b \<in> set (segments d @ [r])"
        "sr_upload_id a \<noteq> None" "sr_upload_id a = sr_upload_id b"
      show "segment_key a = segment_key b"
      proof (cases "a \<in> set (segments d) \<and> b \<in> set (segments d)")
        case True
        then show ?thesis using ok(3) ab(3,4) unfolding uploads_ok_def by blast
      next
        case False
        then show ?thesis using ab free u by auto
      qed
    qed
    then show "uploads_ok (segments d')" by (simp add: d' ss)
    show "refs_ok d'" using ok(4) t by (auto simp: refs_ok_def d' ss)
  qed
qed

lemma db_ok_SetSegmentProgress [inv_intros]:
  "db_ok d \<Longrightarrow> db_ok (snd (db_SetSegmentProgress ok t i n s d))"
  unfolding db_SetSegmentProgress_def
proof (rule db_write_inv, assumption, goal_cases)
  case (1 x d')
  let ?f = "\<lambda>r :: segment_row. r\<lparr>sr_received_length := n, sr_state := s\<rparr>"
  have k: "segment_key (?f r) = segment_key r" for r by (simp add: segment_key_def)
  have d': "d' = d\<lparr>segments := tbl_modify segment_key (t, i) ?f (segments d)\<rparr>" using 1(2) by simp
  have mem: "\<exists>r0\<in>set (segments d). sr_upload_id r = sr_upload_id r0
      \<and> segment_key r = segment_key r0 \<and> sr_transfer_id r = sr_transfer_id r0"
    if "r \<in> set (tbl_modify segment_key (t, i) ?f (segments d))" for r
  proof -
    from that obtain r0 where "r0 \<in> set (segments d)"
      "r = (if segment_key r0 = (t, i) then ?f r0 else r0)" unfolding in_tbl_modify by blast
    then show ?thesis by (intro bexI [of _ r0]) (simp_all add: segment_key_def)
  qed
  note ok = db_okD [OF 1(1)]
  show ?case
  proof (rule db_okI)
    show "keys_ok d'"
      using ok(1) segments.wf_modify [of ?f, OF k] by (simp add: keys_ok_def d')
    show "codes_ok (transfers d')" using ok(2) by (simp add: d')
    show "uploads_ok (segments d')"
      unfolding uploads_ok_def d' using ok(3) mem
      by (simp add: uploads_ok_def) metis
    show "refs_ok d'" unfolding refs_ok_def d' using ok(4) mem by (simp add: refs_ok_def) metis
  qed
qed

text \<open>Statements on claims and keys leave the other tables alone.\<close>

lemma db_ok_claims:
  assumes "db_ok d" and "tbl_wf cr_id cs"
    and "\<And>c. c \<in> set cs \<Longrightarrow> trow d (cr_transfer_id c) \<noteq> None"
  shows "db_ok (d\<lparr>claims := cs\<rparr>)"
  using assms by (simp add: db_ok_def keys_ok_def refs_ok_def)

lemma db_ok_modify_claim:
  assumes "db_ok d" and "\<And>c. cr_id (f c) = cr_id c"
    and "\<And>c. cr_transfer_id (f c) = cr_transfer_id c"
  shows "db_ok (d\<lparr>claims := tbl_modify cr_id i f (claims d)\<rparr>)"
proof (rule db_ok_claims [OF assms(1)])
  show "tbl_wf cr_id (tbl_modify cr_id i f (claims d))"
    using db_okD(1) [OF assms(1)] claims.wf_modify [of f, OF assms(2)] by (simp add: keys_ok_def)
  fix c assume "c \<in> set (tbl_modify cr_id i f (claims d))"
  then obtain c0 where "c0 \<in> set (claims d)" "c = (if cr_id c0 = i then f c0 else c0)"
    unfolding in_tbl_modify by blast
  then show "trow d (cr_transfer_id c) \<noteq> None"
    using db_okD(4) [OF assms(1)] assms(3) by (simp add: refs_ok_def)
qed

lemma db_ok_CreateClaim [inv_intros]: "db_ok d \<Longrightarrow> db_ok (snd (db_CreateClaim ok c d))"
  unfolding db_CreateClaim_def
proof (rule db_write_inv, assumption, goal_cases)
  case (1 x d')
  from 1(2) obtain cs r where ins: "tbl_insert cr_id r (claims d) = Some cs"
    and d': "d' = d\<lparr>claims := cs\<rparr>" and t: "trow d (cr_transfer_id r) \<noteq> None"
    by (auto split: if_splits option.splits)
  then have cs: "cs = claims d @ [r]" by (simp add: tbl_insert_def split: if_splits)
  show ?case
    unfolding d'
  proof (rule db_ok_claims [OF 1(1)])
    show "tbl_wf cr_id cs"
      using db_okD(1) [OF 1(1)] claims.wf_insert [OF _ ins] by (simp add: keys_ok_def)
    show "trow d (cr_transfer_id c) \<noteq> None" if "c \<in> set cs" for c
      using that t db_okD(4) [OF 1(1)] by (auto simp: cs refs_ok_def)
  qed
qed

lemma db_ok_RenewClaim [inv_intros]: "db_ok d \<Longrightarrow> db_ok (snd (db_RenewClaim ok i at d))"
  unfolding db_RenewClaim_def by (rule db_write_inv) (auto intro!: db_ok_modify_claim)

lemma db_ok_CompleteClaim [inv_intros]: "db_ok d \<Longrightarrow> db_ok (snd (db_CompleteClaim ok i at d))"
  unfolding db_CompleteClaim_def by (rule db_write_inv) (auto intro!: db_ok_modify_claim)

lemma db_ok_keys:
  "db_ok d \<Longrightarrow> tbl_wf ir_key_hash ks \<Longrightarrow> db_ok (d\<lparr>idempotency_keys := ks\<rparr>)"
  by (simp add: db_ok_def keys_ok_def refs_ok_def)

lemma keys_wf: "db_ok d \<Longrightarrow> tbl_wf ir_key_hash (idempotency_keys d)"
  by (simp add: db_ok_def keys_ok_def)

lemma db_ok_RememberIdempotency [inv_intros]:
  "db_ok d \<Longrightarrow> db_ok (snd (db_RememberIdempotency ok rec d))"
  unfolding db_RememberIdempotency_def
  by (rule db_write_inv) (auto split: option.splits intro!: db_ok_keys idem.wf_insert [OF keys_wf])

lemma db_ok_CompleteIdempotency [inv_intros]:
  "db_ok d \<Longrightarrow> db_ok (snd (db_CompleteIdempotency ok k t c d))"
  unfolding db_CompleteIdempotency_def
  by (rule db_write_inv) (auto intro!: db_ok_keys idem.wf_modify keys_wf)

lemma db_ok_ForgetIdempotency [inv_intros]:
  "db_ok d \<Longrightarrow> db_ok (snd (db_ForgetIdempotency ok k d))"
  unfolding db_ForgetIdempotency_def
  by (rule db_write_inv) (auto intro!: db_ok_keys idem.wf_delete keys_wf)

lemma db_ok_PurgeExpiredIdempotency [inv_intros]:
  "db_ok d \<Longrightarrow> db_ok (snd (db_PurgeExpiredIdempotency ok now d))"
  unfolding db_PurgeExpiredIdempotency_def
  by (rule db_write_inv)
    (auto intro!: db_ok_keys distinct_map_filter simp: tbl_wf_def dest: keys_wf)

lemma db_ok_Purge [inv_intros]: "db_ok d \<Longrightarrow> db_ok (snd (db_Purge ok i d))"
  unfolding db_Purge_def
proof (rule db_write_inv, assumption, goal_cases)
  case (1 x d')
  then have d': "d' = purge_rows i d" by simp
  note ok = db_okD [OF 1(1)]
  show ?case
  proof (rule db_okI)
    show "keys_ok d'"
      using ok(1) transfers.wf_delete
      by (auto simp: keys_ok_def d' purge_rows_def tbl_wf_def distinct_map_filter)
    show "codes_ok (transfers d')"
    proof (rule codes_okI)
      fix r c assume "r \<in> set (transfers d')" "tr_code r = Some c"
      then show "canonical_code c"
        using codes_okD(1) [OF ok(2)] by (auto simp: d' purge_rows_def tbl_delete_def)
    next
      fix r u c assume "r \<in> set (transfers d')" "u \<in> set (transfers d')"
        and c: "tr_code r = Some c" "tr_code u = Some c"
      then have "r \<in> set (transfers d)" "u \<in> set (transfers d)"
        by (auto simp: d' purge_rows_def tbl_delete_def)
      then show "tr_id r = tr_id u" using codes_okD(2) [OF ok(2) _ c(1) _ c(2)] by blast
    qed
    show "uploads_ok (segments d')"
      using ok(3) unfolding uploads_ok_def d' purge_rows_def by simp blast
    show "refs_ok d'"
      using ok(4) by (simp add: refs_ok_def d' purge_rows_def tbl_find_delete)
  qed
qed

lemma NewCode_normalizes_canonical:
  assumes "length buf = CodeLength"
  shows "\<exists>c. NormalizeCode (NewCode buf) = Some c \<and> canonical_code c"
  using NewCode_canonical [OF assms] NormalizeCode_FormatCode by (auto simp: NewCode_def)

lemma NewCode_draw:
  assumes "length buf = CodeLength"
  shows "canonical_code (string_of_null (NormalizeCode (NewCode buf)))"
  using NewCode_normalizes_canonical [OF assms] by (auto simp: string_of_null_def)

lemma canonical_nonempty: "canonical_code c \<Longrightarrow> c \<noteq> []"
  by (auto simp: canonical_code_def CodeLength_def)

lemma db_ok_publish_row:
  assumes "db_ok d" and "canonical_code c" and "\<forall>s\<in>set (transfers d). tr_code s \<noteq> Some c"
  shows "db_ok (modify_transfer i (publish_row c ca ea dg n) d)"
proof (rule db_okI)
  note ok = db_okD [OF assms(1)]
  let ?f = "publish_row c ca ea dg n"
  show "keys_ok (modify_transfer i ?f d)"
    using ok(1) transfers.wf_modify [of ?f] by (simp add: keys_ok_def)
  have mem: "\<exists>r0\<in>set (transfers d). tr_id r = tr_id r0 \<and>
      (tr_code r = tr_code r0 \<or> tr_code r = Some c \<and> tr_id r = i)"
    if "r \<in> set (tbl_modify tr_id i ?f (transfers d))" for r
  proof -
    from that obtain r0 where "r0 \<in> set (transfers d)" "r = (if tr_id r0 = i then ?f r0 else r0)"
      unfolding in_tbl_modify by blast
    then show ?thesis by (intro bexI [of _ r0]) (auto simp: publish_row_def)
  qed
  have "codes_ok (tbl_modify tr_id i ?f (transfers d))"
  proof (rule codes_okI)
    fix r x assume "r \<in> set (tbl_modify tr_id i ?f (transfers d))" "tr_code r = Some x"
    then show "canonical_code x"
      using mem [of r] codes_okD(1) [OF ok(2)] assms(2) by (metis option.inject)
  next
    fix r u x assume ru: "r \<in> set (tbl_modify tr_id i ?f (transfers d))"
      "u \<in> set (tbl_modify tr_id i ?f (transfers d))" and x: "tr_code r = Some x" "tr_code u = Some x"
    obtain r0 u0 where 0: "r0 \<in> set (transfers d)" "tr_id r = tr_id r0"
      "tr_code r = tr_code r0 \<or> tr_code r = Some c \<and> tr_id r = i"
      "u0 \<in> set (transfers d)" "tr_id u = tr_id u0"
      "tr_code u = tr_code u0 \<or> tr_code u = Some c \<and> tr_id u = i"
      using mem [OF ru(1)] mem [OF ru(2)] by blast
    show "tr_id r = tr_id u"
    proof (cases "x = c")
      case True
      then show ?thesis using 0 x assms(3) by metis
    next
      case False
      then have "tr_code r0 = Some x" "tr_code u0 = Some x" using 0 x by auto
      then show ?thesis using codes_okD(2) [OF ok(2) 0(1) _ 0(4)] 0(2,5) by simp
    qed
  qed
  then show "codes_ok (transfers (modify_transfer i ?f d))" by simp
  show "uploads_ok (segments (modify_transfer i ?f d))" using ok(3) by simp
  show "refs_ok (modify_transfer i ?f d)"
    using ok(4) transfers.lookup_modify [of ?f] by (auto simp: refs_ok_def)
qed

lemma db_ok_Publish [inv_intros]:
  assumes "db_ok d" and "\<And>k. length (draws k) = CodeLength"
  shows "db_ok (snd (db_Publish ok draws i now ttl dg n d))"
proof (cases "db_Publish ok draws i now ttl dg n d")
  case (Pair res d')
  show ?thesis
  proof (cases res)
    case (Inl e)
    then show ?thesis
      using Pair assms(1)
      by (auto simp: db_Publish_def db_write_def split: if_splits sum.splits)
  next
    case (Inr t)
    have wf: "tbl_wf tr_id (transfers d)" using db_okD(1) [OF assms(1)] by (simp add: keys_ok_def)
    from Pair [unfolded Inr] wf show ?thesis
    proof (cases rule: db_Publish_Inr)
      case again
      then show ?thesis using Pair assms(1) by simp
    next
      case (fresh r c k)
      then show ?thesis
        using Pair db_ok_publish_row [OF assms(1)] NewCode_draw [OF assms(2)] by simp
    qed
  qed
qed

text \<open>One transaction of the store, with any outcome of the driver.\<close>

inductive db_step :: "db \<Rightarrow> db \<Rightarrow> bool" where
  step_CreateTransfer: "db_step d (snd (db_CreateTransfer ok t d))"
| step_SetState: "db_step d (snd (db_SetState ok i s d))"
| step_Fail: "db_step d (snd (db_Fail ok i e d))"
| step_SetNoteAndTTL: "db_step d (snd (db_SetNoteAndTTL ok i note ttl d))"
| step_AddWireBytes: "db_step d (snd (db_AddWireBytes ok i n d))"
| step_SetReservation: "db_step d (snd (db_SetReservation ok i n d))"
| step_Publish: "(\<And>k. length (draws k) = CodeLength) \<Longrightarrow>
    db_step d (snd (db_Publish ok draws i now ttl dg n d))"
| step_InsertSegment: "db_step d (snd (db_InsertSegment ok seg d))"
| step_SetSegmentProgress: "db_step d (snd (db_SetSegmentProgress ok t i n st d))"
| step_CreateClaim: "db_step d (snd (db_CreateClaim ok c d))"
| step_RenewClaim: "db_step d (snd (db_RenewClaim ok i at d))"
| step_CompleteClaim: "db_step d (snd (db_CompleteClaim ok i at d))"
| step_ExpireDue: "db_step d (snd (db_ExpireDue ok now d))"
| step_Purge: "db_step d (snd (db_Purge ok i d))"
| step_RememberIdempotency: "db_step d (snd (db_RememberIdempotency ok rec d))"
| step_CompleteIdempotency: "db_step d (snd (db_CompleteIdempotency ok k t c d))"
| step_ForgetIdempotency: "db_step d (snd (db_ForgetIdempotency ok k d))"
| step_PurgeExpiredIdempotency: "db_step d (snd (db_PurgeExpiredIdempotency ok now d))"

lemma db_step_ok: "db_step d d' \<Longrightarrow> db_ok d \<Longrightarrow> db_ok d'"
  by (induction rule: db_step.induct) (simp_all add: inv_intros)

text \<open>
  C26: in every database the store's transactions can reach from the empty one, with any
  transaction failing at any point, primary keys are unique, every code is eight characters
  of the alphabet and belongs to one transfer, upload ids are unique, and every segment and
  claim refers to a transfer that exists.
\<close>

theorem store_integrity:
  assumes "db_step\<^sup>*\<^sup>* empty_db d"
  shows "db_ok d"
  using assms by (induction rule: rtranclp_induct) (auto intro: empty_db_ok db_step_ok)

definition sample_transfer :: Transfer where
  "sample_transfer =
     \<lparr>t_ID = ''t-0123456789abcdef0123456789abcdef'', t_Code = '''', t_State = StateCreated,
      t_SenderLabel = '''', t_CreatedAt = 1700000000 * second, t_CommittedAt = zero_time,
      t_ExpiresAt = zero_time, t_RequestedTTLMinutes = 30, t_Note = ''hi'',
      t_ManifestDigest = '''', t_WireBytes = 0, t_MaterializedBytes = 0, t_ReservedBytes = 200,
      t_RootPath = ''/data/staging/t-0123456789abcdef0123456789abcdef'',
      t_LastErrorCode = ''''\<rparr>"

definition sample_db :: db where
  "sample_db = snd (db_CreateTransfer True sample_transfer empty_db)"

lemma sample_db_reachable: "db_step\<^sup>*\<^sup>* empty_db sample_db"
  unfolding sample_db_def by (rule r_into_rtranclp) (rule step_CreateTransfer)

theorem store_integrity_witness:
  "db_step\<^sup>*\<^sup>* empty_db sample_db \<and> transfers sample_db \<noteq> [] \<and> db_ok sample_db"
proof -
  have "transfers sample_db \<noteq> []" by code_simp
  then show ?thesis using sample_db_reachable store_integrity [OF sample_db_reachable] by blast
qed

lemma db_Publish_free:
  assumes "trow d i = Some r" and "is_precommit (tr_state r)" and "tr_code r = None"
    and "\<And>k. length (draws k) = CodeLength" and "k < 16"
    and "\<forall>s\<in>set (transfers d). tr_code s \<noteq> NormalizeCode (NewCode (draws k))"
  shows "\<exists>t d'. db_Publish True draws i now ttl dg n d = (Inr t, d')"
proof -
  have id: "t_ID (scanTransfer r) = i" using tbl_find_key [OF assms(1)] by (simp add: scanTransfer_def)
  have free: "\<forall>s\<in>set (transfers d).
      tr_code s \<noteq> Some (string_of_null (NormalizeCode (NewCode (draws k))))"
    using NewCode_normalizes_canonical [of "draws k", OF assms(4)] assms(6)
    by (auto simp: string_of_null_def)
  have "\<exists>t d'. publish_loop (map (\<lambda>n. NewCode (draws n)) [0..<16]) (scanTransfer r)
      (truncate_second now) (truncate_second now + wrap64 (ttl * minute)) dg n d = Inr (t, d')"
    using assms(1,3,5) id by (intro publish_loop_succeeds [OF _ _ _ free, of _ _ r]) auto
  then show ?thesis
    using assms(1,2,3)
    by (auto simp: db_Publish_def db_write_def Let_def scanTransfer_def string_of_null_def)
qed

text \<open>
  publication. For a pre-commit transfer without a code, when one of the sixteen drawn
  codes is free, the transaction succeeds: the code is canonical, the public lifetime is
  exactly the requested minutes from the second of the commit, a lookup by that code finds
  this transfer, and any later publication of it, whatever its arguments, changes nothing and
  returns the same code and expiry.
\<close>

theorem Publish_allocates:
  assumes "db_ok d" and "trow d i = Some r" and "is_precommit (tr_state r)" and "tr_code r = None"
    and "\<And>k. length (draws k) = CodeLength" and "k < 16"
    and "\<forall>s\<in>set (transfers d). tr_code s \<noteq> NormalizeCode (NewCode (draws k))"
    and "int64_range (ttl * minute)"
  shows "\<exists>t d'. db_Publish True draws i now ttl dg n d = (Inr t, d')
    \<and> t_ID t = i \<and> canonical_code (t_Code t)
    \<and> t_CommittedAt t = truncate_second now \<and> t_ExpiresAt t = truncate_second now + ttl * minute
    \<and> db_GetTransferByCode True (t_Code t) d' = Inr (t\<lparr>t_ReservedBytes := 0\<rparr>)
    \<and> db_Publish True draws' i now' ttl' dg' n' d' = (Inr (t\<lparr>t_ReservedBytes := 0\<rparr>), d')"
proof -
  have wf: "tbl_wf tr_id (transfers d)" using db_okD(1) [OF assms(1)] by (simp add: keys_ok_def)
  have id: "t_ID (scanTransfer r) = i" using tbl_find_key [OF assms(2)] by (simp add: scanTransfer_def)
  from db_Publish_free [where draws = draws, OF assms(2-7)] obtain t d' where
    p: "db_Publish True draws i now ttl dg n d = (Inr t, d')" by blast
  from p wf show ?thesis
  proof (cases rule: db_Publish_Inr)
    case (again r')
    then show ?thesis using assms(2,3) by (simp add: is_precommit_def)
  next
    case (fresh r' c k')
    let ?r = "publish_row c (truncate_second now)
         (truncate_second now + wrap64 (ttl * minute)) dg n r"
    have c: "canonical_code c" using fresh(5) NewCode_draw [of "draws k'", OF assms(5)] by simp
    have row: "trow d' i = Some ?r" and code: "tr_code ?r = Some c"
      using fresh assms(2,4) by (simp_all add: tbl_find_modify publish_row_def)
    have sec: "of_unix (unix (truncate_second now)) = truncate_second now"
      "of_unix (unix (truncate_second now + ttl * minute)) = truncate_second now + ttl * minute"
      by (simp_all add: of_unix_unix truncate_second_def minute_def mod_simps)
    have t: "scanTransfer ?r = t\<lparr>t_ReservedBytes := 0\<rparr>"
      using fresh assms(2,4,8) sec
      by (simp add: publish_row_def scanTransfer_def string_of_null_def time_of_null_def)
    have ok': "db_ok d'" using fresh db_ok_publish_row [OF assms(1) c] by simp
    have "db_GetTransferByCode True c d' = Inr (t\<lparr>t_ReservedBytes := 0\<rparr>)"
      using find_code [OF ok' row code] t by (simp add: db_GetTransferByCode_def db_read_def)
    moreover have "t_Code t = c" "t_ID t = i" "t_CommittedAt t = truncate_second now"
      "t_ExpiresAt t = truncate_second now + ttl * minute" "t_State t = StateCommitted"
      using fresh assms(2,8) id by simp_all
    moreover have "db_Publish True draws' i now' ttl' dg' n' d' = (Inr (t\<lparr>t_ReservedBytes := 0\<rparr>), d')"
      using row t canonical_nonempty [OF c] \<open>t_Code t = c\<close> \<open>t_State t = StateCommitted\<close>
      by (simp add: db_Publish_def db_write_def)
    ultimately show ?thesis using p c by auto
  qed
qed

definition sample_draws :: "nat \<Rightarrow> 8 word list" where
  "sample_draws k = [7, 200, 31, 64, 5, 77, 130, 9]"

lemma sample_draws_length: "length (sample_draws k) = CodeLength"
  by (simp add: sample_draws_def CodeLength_def)

theorem Publish_allocates_witness:
  "\<exists>t d'. db_Publish True sample_draws (t_ID sample_transfer) (1700000100 * second + 5) 30
        ''digest'' 100 sample_db = (Inr t, d')
    \<and> t_ID t = t_ID sample_transfer \<and> canonical_code (t_Code t)
    \<and> t_CommittedAt t = truncate_second (1700000100 * second + 5)
    \<and> t_ExpiresAt t = truncate_second (1700000100 * second + 5) + 30 * minute
    \<and> db_GetTransferByCode True (t_Code t) d' = Inr (t\<lparr>t_ReservedBytes := 0\<rparr>)
    \<and> db_Publish True sample_draws (t_ID sample_transfer) (1700000900 * second) 3000 ''other'' 7 d'
      = (Inr (t\<lparr>t_ReservedBytes := 0\<rparr>), d')"
proof (rule Publish_allocates)
  show "db_ok sample_db" using db_step_ok [OF step_CreateTransfer empty_db_ok] by (simp add: sample_db_def)
  show "trow sample_db (t_ID sample_transfer) = Some (hd (transfers sample_db))" by code_simp
  show "is_precommit (tr_state (hd (transfers sample_db)))" by code_simp
  show "tr_code (hd (transfers sample_db)) = None" by code_simp
  show "length (sample_draws k) = CodeLength" for k by (simp add: sample_draws_def CodeLength_def)
  show "(0 :: nat) < 16" by simp
  show "\<forall>s\<in>set (transfers sample_db). tr_code s \<noteq> NormalizeCode (NewCode (sample_draws 0))"
    by code_simp
  show "int64_range (30 * minute)" by code_simp
qed

section \<open>The store as a ledger of reservations\<close>

text \<open>
  Admission reads the outstanding reservations through an interface and each admitted transfer
  adds its own. What the controller needs of the provider is that a recorded reservation is
  counted from then on.
\<close>

locale reservation_ledger =
  fixes outstanding :: "'s \<Rightarrow> int option"
    and reserve :: "int \<Rightarrow> 's \<Rightarrow> 's \<Rightarrow> bool"
  assumes reserve_counted:
    "outstanding s = Some n \<Longrightarrow> reserve b s s' \<Longrightarrow> int64_range (n + b) \<Longrightarrow> outstanding s' = Some (n + b)"
begin

lemma admitted_within_watermark:
  assumes "sane_disk c u" and "outstanding s = Some n" and "0 \<le> n" and "n < 2 ^ 62"
    and "0 \<le> b" and "b < 2 ^ 62" and "Admit c (Some u) (outstanding s) b = None"
    and "reserve (Reserve b) s s'"
  shows "\<exists>n'. outstanding s' = Some n' \<and> n' = n + 2 * b
    \<and> int (TotalBytes_u u) - int (FreeBytes_u u) + n' \<le> int (TotalBytes_u u) * highWatermarkPct c div 100"
proof -
  have r: "Reserve b = 2 * b"
    using assms(5,6) by (simp add: Reserve_def MaterializationOverhead_def int64_range_def)
  have adm: "int (TotalBytes_u u) - int (FreeBytes_u u) + n + Reserve b
      \<le> int (TotalBytes_u u) * highWatermarkPct c div 100"
    using Admit_within [OF assms(1,3,4,5,6)] assms(2,7) by simp
  have "int (TotalBytes_u u) * highWatermarkPct c div 100 \<le> int (TotalBytes_u u)"
    using assms(1) mult_left_mono [of "highWatermarkPct c" 100 "int (TotalBytes_u u)"]
    by (simp add: sane_disk_def)
  then have "int64_range (n + Reserve b)"
    using adm assms(1,3,5) r by (simp add: sane_disk_def int64_range_def)
  with reserve_counted [OF assms(2,8)] adm r show ?thesis by simp
qed

end

definition outstanding_reservations :: "db \<Rightarrow> int option" where
  "outstanding_reservations d = (case db_ReservedBytes True d of Inr n \<Rightarrow> Some n | Inl _ \<Rightarrow> None)"

definition records_reservation :: "int \<Rightarrow> db \<Rightarrow> db \<Rightarrow> bool" where
  "records_reservation b d d' \<longleftrightarrow>
     (\<exists>t. t_State t = StateCreated \<and> t_ReservedBytes t = b \<and> db_CreateTransfer True t d = (Inr (), d'))"

lemma sql_sum_append:
  "sql_sum acc (xs @ [x]) = (case sql_sum acc xs of None \<Rightarrow> None
     | Some n \<Rightarrow> if int64_range (n + x) then Some (n + x) else None)"
  by (induction acc xs rule: sql_sum.induct) auto

interpretation ledger: reservation_ledger outstanding_reservations records_reservation
proof unfold_locales
  fix d d' n b
  assume out: "outstanding_reservations d = Some n" and rec: "records_reservation b d d'"
    and range: "int64_range (n + b)"
  from rec obtain t where t: "t_State t = StateCreated" "t_ReservedBytes t = b"
    and d': "d' = d\<lparr>transfers := transfers d @ [new_row t]\<rparr>"
    by (auto simp: records_reservation_def dest: db_CreateTransfer_Inr)
  from t out range show "outstanding_reservations d' = Some (n + b)"
    by (auto simp: outstanding_reservations_def db_ReservedBytes_def db_read_def d' new_row_def
        is_precommit_def sql_sum_append split: option.splits)
qed

text \<open>
  Admission and the store together never overcommit the disk. When a declared size is
  admitted against the reservations the store reports, and the transfer is recorded with the
  reservation \<^verbatim>\<open>admission.Reserve\<close> computes, then the store reports the old reservations plus
  twice the declared size, and the bytes in use plus all reservations stay at or below the
  high watermark.
\<close>

theorem admission_no_overcommit:
  assumes "sane_disk c u" and "db_ReservedBytes True d = Inr n" and "0 \<le> n" and "n < 2 ^ 62"
    and "0 \<le> b" and "b < 2 ^ 62" and "Admit c (Some u) (Some n) b = None"
    and "t_State t = StateCreated" and "t_ReservedBytes t = Reserve b"
    and "db_CreateTransfer True t d = (Inr (), d')"
  shows "\<exists>n'. db_ReservedBytes True d' = Inr n' \<and> n' = n + 2 * b
    \<and> int (TotalBytes_u u) - int (FreeBytes_u u) + n' \<le> int (TotalBytes_u u) * highWatermarkPct c div 100"
proof -
  have out: "outstanding_reservations d = Some n" using assms(2) by (simp add: outstanding_reservations_def)
  have rec: "records_reservation (Reserve b) d d'"
    using assms(8-10) by (auto simp: records_reservation_def)
  from ledger.admitted_within_watermark [OF assms(1) out assms(3-6) _ rec] assms(7) out
  show ?thesis by (auto simp: outstanding_reservations_def split: sum.splits)
qed

theorem admission_no_overcommit_witness:
  "\<exists>n'. db_ReservedBytes True sample_db = Inr n' \<and> n' = 0 + 2 * 100
    \<and> int (TotalBytes_u \<lparr>TotalBytes_u = 1000, FreeBytes_u = 900\<rparr>)
       - int (FreeBytes_u \<lparr>TotalBytes_u = 1000, FreeBytes_u = 900\<rparr>) + n'
     \<le> int (TotalBytes_u \<lparr>TotalBytes_u = 1000, FreeBytes_u = 900\<rparr>)
       * highWatermarkPct \<lparr>highWatermarkPct = 85, maxTransferBytes = 0\<rparr> div 100"
  by (rule admission_no_overcommit [of _ _ empty_db _ _ sample_transfer]) code_simp+

end
