(* ===== verification/SSS_Manifest.thy ===== *)
theory SSS_Manifest
  imports SSS_Errors SSS_Code
begin

text \<open>
  The manifest of a handoff (\<^verbatim>\<open>internal/protocol/manifest.go\<close>): its data, the portable path
  rules and \<^verbatim>\<open>Manifest.Validate\<close>. Validation is modelled loop by loop with the order of its
  checks and the error each returns; \<open>manifest_ok\<close> states the same rules declaratively, and
  the two agree (\<open>Validate_iff\<close>).
\<close>

section \<open>Data\<close>

record segment =
  seg_ID :: string
  seg_Kind :: string
  seg_WireSize :: int
  seg_Digest :: string
  seg_StoragePath :: string

record entry =
  ent_Path :: string
  ent_Type :: string
  ent_Size :: int
  ent_MTimeUnixNS :: int
  ent_Mode :: nat
  ent_Digest :: string
  ent_SegmentID :: string
  ent_SegmentOffset :: int

record manifest =
  man_SchemaVersion :: int
  man_TransferID :: string
  man_CreatedAt :: time
  man_Note :: string
  man_Roots :: "string list"
  man_DigestAlgorithm :: string
  man_Segments :: "segment list"
  man_Entries :: "entry list"

definition SegmentRaw :: string where "SegmentRaw = ''raw''"
definition SegmentTarZstd :: string where "SegmentTarZstd = ''tar_zstd''"
definition DigestAlgorithm :: string where "DigestAlgorithm = ''blake3''"
definition EntryFile :: string where "EntryFile = ''file''"
definition EntryDirectory :: string where "EntryDirectory = ''directory''"
definition MaxNoteBytesHard :: nat where "MaxNoteBytesHard = 16384"

lemma kind_distinct [simp]:
  "SegmentRaw \<noteq> SegmentTarZstd" "SegmentTarZstd \<noteq> SegmentRaw"
  "EntryFile \<noteq> EntryDirectory" "EntryDirectory \<noteq> EntryFile"
  by (simp_all add: SegmentRaw_def SegmentTarZstd_def EntryFile_def EntryDirectory_def)

abbreviation is_file :: "entry \<Rightarrow> bool" where "is_file e \<equiv> ent_Type e = EntryFile"

section \<open>Queries\<close>

fun FileCount :: "entry list \<Rightarrow> int" where
  "FileCount [] = 0"
| "FileCount (e # es) = (if is_file e then 1 else 0) + FileCount es"

text \<open>The running total is an \<^verbatim>\<open>int64\<close>, so it wraps.\<close>

fun total_bytes :: "int \<Rightarrow> entry list \<Rightarrow> int" where
  "total_bytes n [] = n"
| "total_bytes n (e # es) =
     total_bytes (if is_file e then wrap64 (n + ent_Size e) else n) es"

definition TotalBytes :: "manifest \<Rightarrow> int" where
  "TotalBytes m = total_bytes 0 (man_Entries m)"

fun single_root_file :: "entry option \<Rightarrow> nat \<Rightarrow> entry list \<Rightarrow> entry option" where
  "single_root_file found count [] = (if count = 1 then found else None)"
| "single_root_file found count (e # es) =
     (if ent_Type e = EntryDirectory then None
      else if contains_char (ent_Path e) (CHR ''/'') then None
      else single_root_file (Some e) (Suc count) es)"

definition SingleRootFile :: "manifest \<Rightarrow> entry option" where
  "SingleRootFile m = single_root_file None 0 (man_Entries m)"

definition SegmentByID :: "manifest \<Rightarrow> string \<Rightarrow> segment option" where
  "SegmentByID m i = find (\<lambda>s. seg_ID s = i) (man_Segments m)"

definition SortedEntries :: "manifest \<Rightarrow> entry list" where
  "SortedEntries m = sort_key ent_Path (man_Entries m)"

section \<open>Path rules\<close>

definition digest_pattern :: "string \<Rightarrow> bool" where
  "digest_pattern s \<longleftrightarrow>
     length s = 64
     \<and> list_all (\<lambda>c. (48 \<le> byte c \<and> byte c \<le> 57) \<or> (97 \<le> byte c \<and> byte c \<le> 102)) s"

definition normalizedPathKey :: "unicode_tables \<Rightarrow> string \<Rightarrow> string" where
  "normalizedPathKey U p = ToLower U p"

definition reservedWindowsNames :: "string list" where
  "reservedWindowsNames =
     [''con'', ''prn'', ''aux'', ''nul'',
      ''com1'', ''com2'', ''com3'', ''com4'', ''com5'', ''com6'', ''com7'', ''com8'', ''com9'',
      ''lpt1'', ''lpt2'', ''lpt3'', ''lpt4'', ''lpt5'', ''lpt6'', ''lpt7'', ''lpt8'', ''lpt9'']"

text \<open>The reserved characters \<^verbatim>\<open><>:"|?*\/\<close>.\<close>

definition reserved_rune :: "nat \<Rightarrow> bool" where
  "reserved_rune r \<longleftrightarrow> r \<in> {60, 62, 58, 34, 124, 63, 42, 92, 47}"

fun component_runes :: "unicode_tables \<Rightarrow> (nat \<times> string) list \<Rightarrow> errcode option" where
  "component_runes U [] = None"
| "component_runes U ((r, bs) # rs) =
     (if r = 0 then Some ErrInvalidPath
      else if r < 0x20 \<or> r = 0x7f then Some ErrInvalidPath
      else if reserved_rune r then Some ErrInvalidPath
      else if tab_Cf U r then Some ErrInvalidPath
      else component_runes U rs)"

definition ValidateComponent :: "unicode_tables \<Rightarrow> string \<Rightarrow> errcode option" where
  "ValidateComponent U c =
     (if c = [] then Some ErrInvalidPath
      else if c = ''.'' \<or> c = ''..'' then Some ErrInvalidPath
      else if length c > 255 then Some ErrInvalidPath
      else case component_runes U (runes c) of Some e \<Rightarrow> Some e | None \<Rightarrow>
        if has_suffix c ''.'' \<or> has_suffix c '' '' then Some ErrInvalidPath
        else if takeWhile (\<lambda>x. x \<noteq> CHR ''.'') (ToLower U c) \<in> set reservedWindowsNames
        then Some ErrInvalidPath
        else None)"

fun validate_components :: "unicode_tables \<Rightarrow> string list \<Rightarrow> errcode option" where
  "validate_components U [] = None"
| "validate_components U (c # cs) =
     (case ValidateComponent U c of Some e \<Rightarrow> Some e | None \<Rightarrow> validate_components U cs)"

definition ValidatePortablePath :: "unicode_tables \<Rightarrow> string \<Rightarrow> errcode option" where
  "ValidatePortablePath U p =
     (if p = [] then Some ErrInvalidPath
      else if length p > 4096 then Some ErrInvalidPath
      else if \<not> valid_utf8 p then Some ErrInvalidPath
      else if has_prefix p ''/'' then Some ErrInvalidPath
      else if contains_char p (CHR 0x5C) then Some ErrInvalidPath
      else if length p \<ge> 2 \<and> p ! 1 = CHR '':'' then Some ErrInvalidPath
      else validate_components U (split_on (CHR ''/'') p))"

lemma component_runes_None:
  "component_runes U rs = None \<longleftrightarrow>
     (\<forall>(r, bs)\<in>set rs. 0x20 \<le> r \<and> r \<noteq> 0x7f \<and> \<not> reserved_rune r \<and> \<not> tab_Cf U r)"
  by (induction U rs rule: component_runes.induct) auto

lemma validate_components_None:
  "validate_components U cs = None \<longleftrightarrow> (\<forall>c\<in>set cs. ValidateComponent U c = None)"
  by (induction cs) (auto split: option.splits)

text \<open>Every rejection of a path or component is INVALID\_PATH.\<close>

lemma component_runes_error: "component_runes U rs = Some e \<Longrightarrow> e = ErrInvalidPath"
  by (induction U rs rule: component_runes.induct) (auto split: if_splits)

lemma ValidateComponent_error: "ValidateComponent U c = Some e \<Longrightarrow> e = ErrInvalidPath"
  by (auto simp: ValidateComponent_def split: if_splits option.splits dest: component_runes_error)

lemma ValidatePortablePath_error: "ValidatePortablePath U p = Some e \<Longrightarrow> e = ErrInvalidPath"
proof -
  have "validate_components U cs = Some e \<Longrightarrow> e = ErrInvalidPath" for cs
    by (induction cs) (auto split: option.splits dest: ValidateComponent_error)
  then show "ValidatePortablePath U p = Some e \<Longrightarrow> e = ErrInvalidPath"
    by (auto simp: ValidatePortablePath_def split: if_splits)
qed

text \<open>What an accepted component is free of.\<close>

lemma ValidateComponent_safe:
  assumes "ValidateComponent U c = None"
  shows "c \<noteq> []" and "c \<noteq> ''.''" and "c \<noteq> ''..''" and "length c \<le> 255"
    and "x \<in> set c \<Longrightarrow> byte x \<ge> 0x20" and "CHR ''/'' \<notin> set c" and "CHR 0x5C \<notin> set c"
    and "CHR '':'' \<notin> set c"
proof -
  from assms show "c \<noteq> []" and "c \<noteq> ''.''" and "c \<noteq> ''..''" and "length c \<le> 255"
    by (auto simp: ValidateComponent_def split: if_splits)
  from assms have rs: "component_runes U (runes c) = None"
    by (auto simp: ValidateComponent_def split: if_splits option.splits)
  have ascii: "0x20 \<le> byte y \<and> \<not> reserved_rune (byte y)" if "y \<in> set c" "byte y < 0x80" for y
    using runes_ascii_mem [OF that] rs by (auto simp: component_runes_None)
  show "byte x \<ge> 0x20" if "x \<in> set c"
    using ascii [OF that] by (cases "byte x < 0x80") auto
  show "CHR ''/'' \<notin> set c" and "CHR 0x5C \<notin> set c" and "CHR '':'' \<notin> set c"
    using ascii [of "CHR ''/''"] ascii [of "CHR 0x5C"] ascii [of "CHR '':''"]
    by (auto simp: reserved_rune_def)
qed

lemma ValidatePortablePath_components:
  assumes "ValidatePortablePath U p = None"
  shows "p \<noteq> []" and "c \<in> set (split_on (CHR ''/'') p) \<Longrightarrow> ValidateComponent U c = None"
    and "hd p \<noteq> CHR ''/''"
proof -
  show "p \<noteq> []" using assms by (auto simp: ValidatePortablePath_def)
  then show "hd p \<noteq> CHR ''/''"
    using assms
    by (cases p) (auto simp: ValidatePortablePath_def has_prefix_def split: if_splits)
  show "c \<in> set (split_on (CHR ''/'') p) \<Longrightarrow> ValidateComponent U c = None"
    using assms
    by (auto simp: ValidatePortablePath_def validate_components_None split: if_splits)
qed

section \<open>Validation\<close>

fun validate_roots :: "unicode_tables \<Rightarrow> string list \<Rightarrow> string set \<Rightarrow> string set result" where
  "validate_roots U [] seen = Inr seen"
| "validate_roots U (r # rs) seen =
     (if r = [] \<or> length r > 255 then Inl ErrInvalidPath
      else case ValidateComponent U r of Some e \<Rightarrow> Inl e | None \<Rightarrow>
        if ToLower U r \<in> seen then Inl ErrDuplicatePath
        else validate_roots U rs (insert (ToLower U r) seen))"

fun validate_segments :: "segment list \<Rightarrow> string set \<Rightarrow> string set result" where
  "validate_segments [] ids = Inr ids"
| "validate_segments (s # ss) ids =
     (if seg_ID s = [] \<or> length (seg_ID s) > 128 then Inl ErrInvalidRequest
      else if seg_ID s \<in> ids then Inl ErrInvalidRequest
      else if seg_Kind s \<noteq> SegmentRaw \<and> seg_Kind s \<noteq> SegmentTarZstd then Inl ErrInvalidRequest
      else if seg_WireSize s < 0 then Inl ErrInvalidRequest
      else if \<not> digest_pattern (seg_Digest s) then Inl ErrInvalidRequest
      else validate_segments ss (insert (seg_ID s) ids))"

text \<open>
  One file entry against the segments: the check of its segment and, for a raw segment, that
  no earlier entry claimed it and that sizes and digests agree. The result is the new set of
  claimed raw segments.
\<close>

definition validate_file :: "manifest \<Rightarrow> string set \<Rightarrow> string set \<Rightarrow> entry \<Rightarrow> string set result" where
  "validate_file m segIDs rawUsed e =
     (if ent_Size e < 0 then Inl ErrInvalidRequest
      else if \<not> digest_pattern (ent_Digest e) then Inl ErrInvalidRequest
      else if ent_SegmentID e \<notin> segIDs then Inl ErrInvalidRequest
      else case SegmentByID m (ent_SegmentID e) of
        None \<Rightarrow> (if ent_SegmentOffset e < 0 then Inl ErrInvalidRequest else Inr rawUsed)
      | Some seg \<Rightarrow>
        if seg_Kind seg = SegmentRaw then
          (if ent_SegmentID e \<in> rawUsed then Inl ErrInvalidRequest
           else if seg_WireSize seg \<noteq> ent_Size e then Inl ErrInvalidRequest
           else if seg_Digest seg \<noteq> ent_Digest e then Inl ErrInvalidRequest
           else if ent_SegmentOffset e < 0 then Inl ErrInvalidRequest
           else Inr (insert (ent_SegmentID e) rawUsed))
        else (if ent_SegmentOffset e < 0 then Inl ErrInvalidRequest else Inr rawUsed))"

definition validate_entry ::
  "unicode_tables \<Rightarrow> manifest \<Rightarrow> string set \<Rightarrow> string set \<Rightarrow> entry \<Rightarrow> string set \<Rightarrow> string set
   \<Rightarrow> (string set \<times> string set) result" where
  "validate_entry U m seenRoot segIDs e seenPath rawUsed =
     (case ValidatePortablePath U (ent_Path e) of Some err \<Rightarrow> Inl err | None \<Rightarrow>
       if normalizedPathKey U (ent_Path e) \<in> seenPath then Inl ErrDuplicatePath
       else if ToLower U (hd (split_on (CHR ''/'') (ent_Path e))) \<notin> seenRoot
       then Inl ErrInvalidPath
       else if ent_Mode e > 511 then Inl ErrInvalidRequest
       else if ent_MTimeUnixNS e < 0 then Inl ErrInvalidRequest
       else if ent_Type e = EntryDirectory then
         (if ent_Size e \<noteq> 0 \<or> ent_Digest e \<noteq> [] \<or> ent_SegmentID e \<noteq> []
          then Inl ErrInvalidRequest
          else Inr (insert (normalizedPathKey U (ent_Path e)) seenPath, rawUsed))
       else if ent_Type e = EntryFile then
         (case validate_file m segIDs rawUsed e of
            Inl err \<Rightarrow> Inl err
          | Inr raw' \<Rightarrow> Inr (insert (normalizedPathKey U (ent_Path e)) seenPath, raw'))
       else Inl ErrUnsupportedEntry)"

fun validate_entries ::
  "unicode_tables \<Rightarrow> manifest \<Rightarrow> string set \<Rightarrow> string set \<Rightarrow> entry list \<Rightarrow> string set \<Rightarrow> string set
   \<Rightarrow> errcode option" where
  "validate_entries U m seenRoot segIDs [] seenPath rawUsed = None"
| "validate_entries U m seenRoot segIDs (e # es) seenPath rawUsed =
     (case validate_entry U m seenRoot segIDs e seenPath rawUsed of
        Inl err \<Rightarrow> Some err
      | Inr (seenPath', rawUsed') \<Rightarrow> validate_entries U m seenRoot segIDs es seenPath' rawUsed')"

fun check_referenced :: "string set \<Rightarrow> segment list \<Rightarrow> errcode option" where
  "check_referenced referenced [] = None"
| "check_referenced referenced (s # ss) =
     (if seg_ID s \<notin> referenced then Some ErrInvalidRequest else check_referenced referenced ss)"

definition referenced_segments :: "entry list \<Rightarrow> string set" where
  "referenced_segments es = set (filter (\<lambda>i. i \<noteq> []) (map ent_SegmentID es))"

definition Validate :: "unicode_tables \<Rightarrow> manifest \<Rightarrow> errcode option" where
  "Validate U m =
     (if man_SchemaVersion m \<noteq> 1 then Some ErrInvalidRequest
      else if length (man_TransferID m) < 16 \<or> length (man_TransferID m) > 128
      then Some ErrInvalidRequest
      else if man_CreatedAt m = zero_time then Some ErrInvalidRequest
      else if man_DigestAlgorithm m \<noteq> [] \<and> man_DigestAlgorithm m \<noteq> DigestAlgorithm
      then Some ErrInvalidRequest
      else if length (man_Note m) > MaxNoteBytesHard then Some ErrInvalidRequest
      else if \<not> valid_utf8 (man_Note m) then Some ErrInvalidRequest
      else if man_Roots m = [] then Some ErrNoFiles
      else case validate_roots U (man_Roots m) {} of Inl e \<Rightarrow> Some e | Inr seenRoot \<Rightarrow>
        if man_Segments m = [] then Some ErrInvalidRequest
        else case validate_segments (man_Segments m) {} of Inl e \<Rightarrow> Some e | Inr segIDs \<Rightarrow>
          if man_Entries m = [] then Some ErrNoFiles
          else case validate_entries U m seenRoot segIDs (man_Entries m) {} {} of
              Some e \<Rightarrow> Some e
            | None \<Rightarrow> check_referenced (referenced_segments (man_Entries m)) (man_Segments m))"


section \<open>The rules, declaratively\<close>

definition root_ok :: "unicode_tables \<Rightarrow> string \<Rightarrow> bool" where
  "root_ok U r \<longleftrightarrow> ValidateComponent U r = None"

definition segment_ok :: "segment \<Rightarrow> bool" where
  "segment_ok s \<longleftrightarrow>
     seg_ID s \<noteq> [] \<and> length (seg_ID s) \<le> 128
     \<and> seg_Kind s \<in> {SegmentRaw, SegmentTarZstd}
     \<and> 0 \<le> seg_WireSize s \<and> digest_pattern (seg_Digest s)"

definition file_ok :: "manifest \<Rightarrow> entry \<Rightarrow> bool" where
  "file_ok m e \<longleftrightarrow>
     0 \<le> ent_Size e \<and> digest_pattern (ent_Digest e) \<and> 0 \<le> ent_SegmentOffset e
     \<and> (\<exists>s\<in>set (man_Segments m). seg_ID s = ent_SegmentID e
          \<and> (seg_Kind s = SegmentRaw \<longrightarrow>
               seg_WireSize s = ent_Size e \<and> seg_Digest s = ent_Digest e))"

definition entry_ok :: "unicode_tables \<Rightarrow> manifest \<Rightarrow> entry \<Rightarrow> bool" where
  "entry_ok U m e \<longleftrightarrow>
     ValidatePortablePath U (ent_Path e) = None
     \<and> ToLower U (hd (split_on (CHR ''/'') (ent_Path e))) \<in> ToLower U ` set (man_Roots m)
     \<and> ent_Mode e \<le> 511 \<and> 0 \<le> ent_MTimeUnixNS e
     \<and> (if ent_Type e = EntryDirectory
        then ent_Size e = 0 \<and> ent_Digest e = [] \<and> ent_SegmentID e = []
        else ent_Type e = EntryFile \<and> file_ok m e)"

text \<open>The raw segments that file entries claim, one occurrence per claim.\<close>

definition is_raw_claim :: "manifest \<Rightarrow> entry \<Rightarrow> bool" where
  "is_raw_claim m e \<longleftrightarrow>
     is_file e \<and> (case SegmentByID m (ent_SegmentID e) of
                    Some s \<Rightarrow> seg_Kind s = SegmentRaw | None \<Rightarrow> False)"

definition raw_claims :: "manifest \<Rightarrow> entry list \<Rightarrow> string list" where
  "raw_claims m es = map ent_SegmentID (filter (is_raw_claim m) es)"

definition manifest_ok :: "unicode_tables \<Rightarrow> manifest \<Rightarrow> bool" where
  "manifest_ok U m \<longleftrightarrow>
     man_SchemaVersion m = 1
     \<and> 16 \<le> length (man_TransferID m) \<and> length (man_TransferID m) \<le> 128
     \<and> man_CreatedAt m \<noteq> zero_time
     \<and> man_DigestAlgorithm m \<in> {[], DigestAlgorithm}
     \<and> length (man_Note m) \<le> MaxNoteBytesHard \<and> valid_utf8 (man_Note m)
     \<and> man_Roots m \<noteq> [] \<and> (\<forall>r\<in>set (man_Roots m). root_ok U r)
     \<and> distinct (map (ToLower U) (man_Roots m))
     \<and> man_Segments m \<noteq> [] \<and> (\<forall>s\<in>set (man_Segments m). segment_ok s)
     \<and> distinct (map seg_ID (man_Segments m))
     \<and> man_Entries m \<noteq> [] \<and> (\<forall>e\<in>set (man_Entries m). entry_ok U m e)
     \<and> distinct (map (\<lambda>e. normalizedPathKey U (ent_Path e)) (man_Entries m))
     \<and> distinct (raw_claims m (man_Entries m))
     \<and> (\<forall>s\<in>set (man_Segments m). \<exists>e\<in>set (man_Entries m). ent_SegmentID e = seg_ID s)"

lemma validate_roots_iff:
  "validate_roots U rs seen = Inr seen' \<longleftrightarrow>
     (\<forall>r\<in>set rs. root_ok U r) \<and> distinct (map (ToLower U) rs)
     \<and> ToLower U ` set rs \<inter> seen = {} \<and> seen' = ToLower U ` set rs \<union> seen"
proof (induction U rs seen rule: validate_roots.induct)
  case (2 U r rs seen)
  have "ValidateComponent U r = None \<Longrightarrow> r \<noteq> [] \<and> length r \<le> 255"
    using ValidateComponent_safe by blast
  with "2.IH" show ?case
    by (cases "ValidateComponent U r") (auto simp: root_ok_def)
qed auto

lemma validate_segments_iff:
  "validate_segments ss ids = Inr ids' \<longleftrightarrow>
     (\<forall>s\<in>set ss. segment_ok s) \<and> distinct (map seg_ID ss)
     \<and> seg_ID ` set ss \<inter> ids = {} \<and> ids' = seg_ID ` set ss \<union> ids"
  by (induction ss ids rule: validate_segments.induct) (auto simp: segment_ok_def not_less)

lemma SegmentByID_Some_iff:
  assumes "distinct (map seg_ID (man_Segments m))"
  shows "SegmentByID m i = Some s \<longleftrightarrow> s \<in> set (man_Segments m) \<and> seg_ID s = i"
  using assms distinct_key_unique [of seg_ID "man_Segments m"]
  by (auto simp: SegmentByID_def dest!: find_Some_mem)
     (metis (mono_tags, lifting) find_None_all find_Some_mem option.exhaust)

lemma validate_file_iff:
  assumes d: "distinct (map seg_ID (man_Segments m))"
    and ids: "segIDs = seg_ID ` set (man_Segments m)" and f: "is_file e"
  shows "validate_file m segIDs raw e = Inr raw' \<longleftrightarrow>
     file_ok m e \<and> set (raw_claims m [e]) \<inter> raw = {} \<and> raw' = set (raw_claims m [e]) \<union> raw"
proof (cases "SegmentByID m (ent_SegmentID e)")
  case None
  then have no: "seg_ID s \<noteq> ent_SegmentID e" if "s \<in> set (man_Segments m)" for s
    using that by (auto simp: SegmentByID_def find_None_all)
  have "ent_SegmentID e \<notin> segIDs"
  proof
    assume "ent_SegmentID e \<in> segIDs"
    then obtain s where "s \<in> set (man_Segments m)" "seg_ID s = ent_SegmentID e"
      unfolding ids by (rule imageE) simp
    then show False using no by simp
  qed
  moreover have "\<not> file_ok m e" using no by (simp add: file_ok_def)
  ultimately show ?thesis by (simp add: validate_file_def)
next
  case (Some s)
  then have s: "s \<in> set (man_Segments m)" "seg_ID s = ent_SegmentID e"
    using SegmentByID_Some_iff [OF d] by auto
  have uniq: "t = s" if "t \<in> set (man_Segments m)" "seg_ID t = ent_SegmentID e" for t
    using distinct_key_unique [OF d that(1) s(1)] that(2) s(2) by simp
  have fo: "file_ok m e \<longleftrightarrow> 0 \<le> ent_Size e \<and> digest_pattern (ent_Digest e)
      \<and> 0 \<le> ent_SegmentOffset e
      \<and> (seg_Kind s = SegmentRaw \<longrightarrow> seg_WireSize s = ent_Size e \<and> seg_Digest s = ent_Digest e)"
    unfolding file_ok_def using s uniq by blast
  have "ent_SegmentID e \<in> segIDs" unfolding ids s(2) [symmetric] using s(1) by (rule imageI)
  then show ?thesis
    using f by (auto simp: validate_file_def Some fo raw_claims_def is_raw_claim_def)
qed

lemma raw_claims_dir: "ent_Type e = EntryDirectory \<Longrightarrow> raw_claims m [e] = []"
  by (simp add: raw_claims_def is_raw_claim_def)

lemma raw_claims_Cons: "raw_claims m (e # es) = raw_claims m [e] @ raw_claims m es"
  by (simp add: raw_claims_def)

lemma validate_entry_iff:
  assumes "distinct (map seg_ID (man_Segments m))"
    and "segIDs = seg_ID ` set (man_Segments m)" and "seenRoot = ToLower U ` set (man_Roots m)"
  shows "validate_entry U m seenRoot segIDs e seen raw = Inr (seen', raw') \<longleftrightarrow>
     entry_ok U m e \<and> normalizedPathKey U (ent_Path e) \<notin> seen
     \<and> set (raw_claims m [e]) \<inter> raw = {}
     \<and> seen' = insert (normalizedPathKey U (ent_Path e)) seen
     \<and> raw' = set (raw_claims m [e]) \<union> raw"
proof (cases "is_file e")
  case True
  then have "ent_Type e \<noteq> EntryDirectory" by simp
  then show ?thesis
    using validate_file_iff [OF assms(1,2) True, of raw] True assms(3)
    by (cases "validate_file m segIDs raw e")
       (auto simp: validate_entry_def entry_ok_def not_less split: option.splits)
next
  case False
  then show ?thesis
    using raw_claims_dir [of e m] assms(3)
    by (auto simp: validate_entry_def entry_ok_def split: option.splits)
qed

lemma validate_entries_iff:
  assumes "distinct (map seg_ID (man_Segments m))"
    and "segIDs = seg_ID ` set (man_Segments m)" and "seenRoot = ToLower U ` set (man_Roots m)"
  shows "validate_entries U m seenRoot segIDs es seen raw = None \<longleftrightarrow>
     (\<forall>e\<in>set es. entry_ok U m e)
     \<and> distinct (map (\<lambda>e. normalizedPathKey U (ent_Path e)) es)
     \<and> (\<lambda>e. normalizedPathKey U (ent_Path e)) ` set es \<inter> seen = {}
     \<and> distinct (raw_claims m es) \<and> set (raw_claims m es) \<inter> raw = {}"
proof (induction es arbitrary: seen raw)
  case Nil
  then show ?case by (simp add: raw_claims_def)
next
  case (Cons e es)
  have d1: "distinct (raw_claims m [e])" by (simp add: raw_claims_def)
  show ?case
  proof (cases "validate_entry U m seenRoot segIDs e seen raw")
    case (Inl err)
    with validate_entry_iff [OF assms, of e seen raw]
    have "\<not> (entry_ok U m e \<and> normalizedPathKey U (ent_Path e) \<notin> seen
        \<and> set (raw_claims m [e]) \<inter> raw = {})" by auto
    then show ?thesis using Inl raw_claims_Cons [of m e es] by auto
  next
    case (Inr sr)
    obtain seen' raw' where sr: "sr = (seen', raw')" by fastforce
    with Inr validate_entry_iff [OF assms, of e seen raw seen' raw']
    have "entry_ok U m e" "normalizedPathKey U (ent_Path e) \<notin> seen"
      "set (raw_claims m [e]) \<inter> raw = {}"
      "seen' = insert (normalizedPathKey U (ent_Path e)) seen"
      "raw' = set (raw_claims m [e]) \<union> raw" by auto
    then show ?thesis
      using Inr sr Cons.IH [of seen' raw'] raw_claims_Cons [of m e es] d1 by auto
  qed
qed

lemma check_referenced_iff:
  "check_referenced ref ss = None \<longleftrightarrow> seg_ID ` set ss \<subseteq> ref"
  by (induction ref ss rule: check_referenced.induct) auto

lemma referenced_iff:
  assumes "\<forall>s\<in>set ss. segment_ok s"
  shows "seg_ID ` set ss \<subseteq> referenced_segments es
     \<longleftrightarrow> (\<forall>s\<in>set ss. \<exists>e\<in>set es. ent_SegmentID e = seg_ID s)"
proof -
  have "seg_ID s \<in> referenced_segments es \<longleftrightarrow> (\<exists>e\<in>set es. ent_SegmentID e = seg_ID s)"
    if "s \<in> set ss" for s
  proof -
    from assms that have "seg_ID s \<noteq> []" by (simp add: segment_ok_def)
    then have "seg_ID s \<in> referenced_segments es \<longleftrightarrow> seg_ID s \<in> ent_SegmentID ` set es"
      by (simp add: referenced_segments_def)
    then show ?thesis by (simp add: image_iff eq_commute)
  qed
  then show ?thesis by (simp add: image_subset_iff)
qed

lemma Validate_ok: "Validate U m = None \<longleftrightarrow> manifest_ok U m"
proof -
  let ?R = "ToLower U ` set (man_Roots m)" and ?S = "seg_ID ` set (man_Segments m)"
  have roots: "validate_roots U (man_Roots m) {} = Inr seen \<longleftrightarrow>
      (\<forall>r\<in>set (man_Roots m). root_ok U r) \<and> distinct (map (ToLower U) (man_Roots m))
      \<and> seen = ?R" for seen
    by (auto simp: validate_roots_iff)
  have segs: "validate_segments (man_Segments m) {} = Inr ids \<longleftrightarrow>
      (\<forall>s\<in>set (man_Segments m). segment_ok s) \<and> distinct (map seg_ID (man_Segments m))
      \<and> ids = ?S" for ids
    by (auto simp: validate_segments_iff)
  show ?thesis
  proof (cases "validate_roots U (man_Roots m) {}")
    case (Inl e)
    with roots [of ?R] show ?thesis by (auto simp: Validate_def manifest_ok_def)
  next
    case r: (Inr seen)
    show ?thesis
    proof (cases "validate_segments (man_Segments m) {}")
      case (Inl e)
      with segs [of ?S] r show ?thesis by (auto simp: Validate_def manifest_ok_def)
    next
      case s: (Inr ids)
      from r s roots segs have eqs: "seen = ?R" "ids = ?S"
        and d: "distinct (map seg_ID (man_Segments m))"
        and so: "\<forall>s\<in>set (man_Segments m). segment_ok s"
        and ro: "\<forall>r\<in>set (man_Roots m). root_ok U r"
        and rd: "distinct (map (ToLower U) (man_Roots m))" by auto
      note ents = validate_entries_iff [OF d eqs(2,1), of "man_Entries m" "{}" "{}"]
      show ?thesis
        using r s ents d so ro rd referenced_iff [OF so, of "man_Entries m"]
        by (auto simp: Validate_def manifest_ok_def check_referenced_iff not_less
            split: option.splits)
    qed
  qed
qed

text \<open>
  C25: validation accepts exactly the manifests that obey the declarative rules. The chain of
  loops with its four \<open>seen\<close> maps is equivalent to \<open>manifest_ok\<close>: well-formed header, portable
  and case-insensitively distinct roots and paths, every path under a declared root, distinct
  well-formed segments, files that agree with their raw segment, no raw segment claimed twice,
  no directory with file fields, and no segment that nothing refers to.
\<close>

theorem Validate_iff: "Validate U m = None \<longleftrightarrow> manifest_ok U m"
  by (rule Validate_ok)


section \<open>What an accepted manifest guarantees\<close>

lemma manifest_ok_paths_distinct:
  "manifest_ok U m \<Longrightarrow> distinct (map ent_Path (man_Entries m))"
proof -
  assume "manifest_ok U m"
  then have "distinct (map (normalizedPathKey U) (map ent_Path (man_Entries m)))"
    by (simp add: manifest_ok_def comp_def)
  then show ?thesis by (simp only: distinct_map)
qed

text \<open>The file entries that a segment backs, in manifest order.\<close>

definition segment_files :: "manifest \<Rightarrow> string \<Rightarrow> entry list" where
  "segment_files m i = filter (\<lambda>e. is_file e \<and> ent_SegmentID e = i) (man_Entries m)"

lemma distinct_map_filter_single:
  assumes "distinct (map f xs)" and "\<forall>x\<in>set xs. f x = k" and "xs \<noteq> []"
  shows "\<exists>x. xs = [x]"
proof (cases xs)
  case (Cons x ys)
  then show ?thesis using assms by (cases ys) auto
qed (simp add: assms)

text \<open>
  In an accepted manifest every raw segment backs exactly one file, and that file's size
  and digest are the segment's; every other segment backs at least one file. So no uploaded
  byte is unaccounted for, and a raw segment can be moved into place as the file itself.
\<close>

theorem validated_segments_accounted:
  assumes "Validate U m = None" and "s \<in> set (man_Segments m)"
  shows "segment_files m (seg_ID s) \<noteq> []
    \<and> (seg_Kind s = SegmentRaw \<longrightarrow>
        (\<exists>e. segment_files m (seg_ID s) = [e] \<and> ent_Size e = seg_WireSize s
           \<and> ent_Digest e = seg_Digest s))"
proof -
  from assms(1) have ok: "manifest_ok U m" by (simp add: Validate_ok)
  then have d: "distinct (map seg_ID (man_Segments m))"
    and ents: "\<forall>e\<in>set (man_Entries m). entry_ok U m e"
    and raw: "distinct (raw_claims m (man_Entries m))"
    by (simp_all add: manifest_ok_def)
  have sid: "seg_ID s \<noteq> []" using ok assms(2) by (auto simp: manifest_ok_def segment_ok_def)
  obtain e0 where e0: "e0 \<in> set (man_Entries m)" "ent_SegmentID e0 = seg_ID s"
    using ok assms(2) by (auto simp: manifest_ok_def)
  have "entry_ok U m e0" using ents e0(1) by simp
  then have "is_file e0" using sid e0(2) by (auto simp: entry_ok_def split: if_splits)
  with e0 have ne: "segment_files m (seg_ID s) \<noteq> []"
    by (auto simp: segment_files_def filter_empty_conv)
  have "\<exists>e. segment_files m (seg_ID s) = [e] \<and> ent_Size e = seg_WireSize s
      \<and> ent_Digest e = seg_Digest s" if k: "seg_Kind s = SegmentRaw"
  proof -
    have by_id: "SegmentByID m (seg_ID s) = Some s"
      using SegmentByID_Some_iff [OF d] assms(2) by simp
    have "filter (\<lambda>e. ent_SegmentID e = seg_ID s) (filter (is_raw_claim m) (man_Entries m))
        = segment_files m (seg_ID s)"
      unfolding segment_files_def filter_filter
      by (rule filter_cong) (auto simp: is_raw_claim_def by_id k)
    moreover have "distinct (map ent_SegmentID (filter (\<lambda>e. ent_SegmentID e = seg_ID s)
        (filter (is_raw_claim m) (man_Entries m))))"
      using raw unfolding raw_claims_def by (rule distinct_map_filter)
    ultimately have dm: "distinct (map ent_SegmentID (segment_files m (seg_ID s)))"
      by (simp only:)
    have "\<forall>x\<in>set (segment_files m (seg_ID s)). ent_SegmentID x = seg_ID s"
      by (simp add: segment_files_def)
    from distinct_map_filter_single [OF dm this ne]
    obtain e where e: "segment_files m (seg_ID s) = [e]" by blast
    then have "e \<in> set (segment_files m (seg_ID s))" by simp
    then have mem: "e \<in> set (man_Entries m)" "is_file e" "ent_SegmentID e = seg_ID s"
      by (auto simp: segment_files_def)
    have "file_ok m e" using ents mem(1,2) by (force simp: entry_ok_def)
    then obtain t where "t \<in> set (man_Segments m)" "seg_ID t = seg_ID s"
      "seg_Kind t = SegmentRaw \<longrightarrow> seg_WireSize t = ent_Size e \<and> seg_Digest t = ent_Digest e"
      unfolding file_ok_def mem(3) by blast
    moreover from this have "t = s" using distinct_key_unique [OF d] assms(2) by blast
    ultimately show ?thesis using e k by auto
  qed
  with ne show ?thesis by blast
qed

text \<open>A manifest of one file, used by the witnesses below and in the theories that build on this one.\<close>

definition sample_id :: string where "sample_id = ''t-0123456789abcdef0123456789abcdef''"

definition sample_digest :: string where "sample_digest = replicate 64 (CHR ''a'')"

definition sample_segment :: segment where
  "sample_segment = \<lparr>seg_ID = ''s-1'', seg_Kind = SegmentRaw, seg_WireSize = 5,
     seg_Digest = sample_digest, seg_StoragePath = ''payload/read.me''\<rparr>"

definition sample_entry :: entry where
  "sample_entry = \<lparr>ent_Path = ''read.me'', ent_Type = EntryFile, ent_Size = 5,
     ent_MTimeUnixNS = 0, ent_Mode = 420, ent_Digest = sample_digest,
     ent_SegmentID = ''s-1'', ent_SegmentOffset = 0\<rparr>"

definition sample_manifest :: manifest where
  "sample_manifest = \<lparr>man_SchemaVersion = 1, man_TransferID = sample_id, man_CreatedAt = 0,
     man_Note = ''hi'', man_Roots = [''read.me''], man_DigestAlgorithm = DigestAlgorithm,
     man_Segments = [sample_segment], man_Entries = [sample_entry]\<rparr>"

definition plain_tables :: unicode_tables where
  "plain_tables = \<lparr>tab_lower = (\<lambda>r. r), tab_Cf = (\<lambda>r. r = 0xAD)\<rparr>"

theorem validated_segments_accounted_witness:
  "Validate plain_tables sample_manifest = None
   \<and> segment_files sample_manifest (seg_ID sample_segment) \<noteq> []
   \<and> seg_Kind sample_segment = SegmentRaw
   \<and> (\<exists>e. segment_files sample_manifest (seg_ID sample_segment) = [e]
           \<and> ent_Size e = seg_WireSize sample_segment \<and> ent_Digest e = seg_Digest sample_segment)"
proof -
  have v: "Validate plain_tables sample_manifest = None" by code_simp
  have s: "sample_segment \<in> set (man_Segments sample_manifest)" by (simp add: sample_manifest_def)
  have "seg_Kind sample_segment = SegmentRaw" by (simp add: sample_segment_def)
  with v validated_segments_accounted [OF v s] show ?thesis by blast
qed

end
