(* ===== verification/SSS_Paths.thy ===== *)
theory SSS_Paths
  imports SSS_Manifest
begin

text \<open>
  Path handling: the lexical functions of \<^verbatim>\<open>path/filepath\<close> (Unix separators) that the
  sources use, \<^verbatim>\<open>platform.SafeJoin\<close> and \<^verbatim>\<open>platform.UniqueDestination\<close> from
  \<^verbatim>\<open>internal/platform/fs.go\<close>, and \<^verbatim>\<open>sanitizeUploadName\<close> from \<^verbatim>\<open>internal/transfer/simple.go\<close>.
  The lemmas show that a joined path never leaves its base, and that a path which passed the
  portable-path rules is joined without being rewritten.
\<close>

section \<open>filepath\<close>

abbreviation slash :: char where "slash \<equiv> CHR ''/''"

text \<open>One component of \<^verbatim>\<open>filepath.Clean\<close> against the reversed list of components kept so far.\<close>

definition clean_step :: "bool \<Rightarrow> string \<Rightarrow> string list \<Rightarrow> string list" where
  "clean_step rooted c kept =
     (if c = [] \<or> c = ''.'' then kept
      else if c = ''..'' then
        (case kept of
           k # ks \<Rightarrow> if k \<noteq> ''..'' then ks else ''..'' # kept
         | [] \<Rightarrow> if rooted then [] else [''..''])
      else c # kept)"

definition clean_components :: "bool \<Rightarrow> string list \<Rightarrow> string list" where
  "clean_components rooted cs = rev (fold (clean_step rooted) cs [])"

definition is_abs :: "string \<Rightarrow> bool" where "is_abs p \<longleftrightarrow> has_prefix p ''/''"

definition Clean :: "string \<Rightarrow> string" where
  "Clean p =
     (if p = [] then ''.''
      else let cs = clean_components (is_abs p) (split_on slash p)
           in if is_abs p then slash # join_with slash cs
              else if cs = [] then ''.'' else join_with slash cs)"

definition path_join :: "string \<Rightarrow> string \<Rightarrow> string" where
  "path_join a b =
     (if a \<noteq> [] then Clean (a @ slash # b) else if b \<noteq> [] then Clean b else [])"

text \<open>\<^verbatim>\<open>filepath.Abs\<close>; the working directory is unknown when \<^verbatim>\<open>os.Getwd\<close> fails.\<close>

definition Abs :: "string option \<Rightarrow> string \<Rightarrow> string option" where
  "Abs cwd p = (if is_abs p then Some (Clean p)
     else case cwd of None \<Rightarrow> None | Some d \<Rightarrow> Some (path_join d p))"

text \<open>\<^verbatim>\<open>filepath.Base\<close> and \<^verbatim>\<open>path.Base\<close>: the last component, without trailing slashes.\<close>

definition path_base :: "string \<Rightarrow> string" where
  "path_base p =
     (if p = [] then ''.''
      else let q = rev (dropWhile (\<lambda>c. c = slash) (rev p))
           in if q = [] then ''/'' else last (split_on slash q))"

text \<open>\<^verbatim>\<open>filepath.Dir\<close>: everything up to the last slash, cleaned.\<close>

definition path_dir :: "string \<Rightarrow> string" where
  "path_dir p = Clean (rev (dropWhile (\<lambda>c. c \<noteq> slash) (rev p)))"

section \<open>Joining below a base\<close>

definition SafeJoin :: "string option \<Rightarrow> string \<Rightarrow> string \<Rightarrow> string option" where
  "SafeJoin cwd base rel =
     (if rel = [] then None
      else if is_abs rel \<or> has_prefix rel ''/'' then None
      else case Abs cwd base of None \<Rightarrow> None | Some cleanBase \<Rightarrow>
        let cleaned = Clean (path_join cleanBase rel)
        in if cleaned \<noteq> cleanBase \<and> \<not> has_prefix cleaned (cleanBase @ ''/'') then None
           else Some cleaned)"

definition proper :: "string \<Rightarrow> bool" where
  "proper c \<longleftrightarrow> c \<noteq> [] \<and> c \<noteq> ''.'' \<and> c \<noteq> ''..'' \<and> slash \<notin> set c"

lemma clean_step_proper: "proper c \<Longrightarrow> clean_step rooted c kept = c # kept"
  by (simp add: clean_step_def proper_def)

lemma fold_clean_proper:
  "\<forall>c\<in>set cs. proper c \<Longrightarrow> fold (clean_step rooted) cs kept = rev cs @ kept"
  by (induction cs arbitrary: kept) (simp_all add: clean_step_proper)

lemma fold_clean_rooted:
  assumes "\<forall>c\<in>set cs. slash \<notin> set c" and "\<forall>k\<in>set kept. proper k"
  shows "\<forall>k\<in>set (fold (clean_step True) cs kept). proper k"
  using assms
proof (induction cs arbitrary: kept)
  case (Cons c cs)
  have "\<forall>k\<in>set (clean_step True c kept). proper k"
    using Cons.prems by (cases kept) (auto simp: clean_step_def proper_def)
  with Cons show ?case by simp
qed simp

lemma clean_components_rooted:
  "\<forall>c\<in>set (clean_components True (split_on slash p)). proper c"
  using fold_clean_rooted [of "split_on slash p" "[]"] split_on_parts
  by (auto simp: clean_components_def)

lemma is_abs_Cons [simp]: "is_abs (slash # p)"
  by (simp add: is_abs_def has_prefix_def)

lemma is_abs_conv: "is_abs p \<longleftrightarrow> (\<exists>q. p = slash # q)"
  by (cases p) (auto simp: is_abs_def has_prefix_def)

text \<open>An absolute clean path, by its components.\<close>

definition abs_path :: "string list \<Rightarrow> string" where
  "abs_path cs = slash # join_with slash cs"

lemma Clean_abs: "is_abs p \<Longrightarrow> Clean p = abs_path (clean_components True (split_on slash p))"
  by (auto simp: Clean_def abs_path_def Let_def is_abs_conv)

lemma Clean_abs_obtain:
  assumes "is_abs p"
  obtains cs where "Clean p = abs_path cs" "\<forall>c\<in>set cs. proper c"
  using Clean_abs [OF assms] clean_components_rooted by blast

lemma split_abs_path:
  assumes "\<forall>c\<in>set cs. proper c"
  shows "split_on slash (abs_path cs) = [] # (if cs = [] then [[]] else cs)"
  using assms by (auto simp: abs_path_def split_join proper_def)

lemma Clean_abs_path:
  assumes "\<forall>c\<in>set cs. proper c"
  shows "Clean (abs_path cs) = abs_path cs"
proof -
  have "is_abs (abs_path cs)" by (simp add: abs_path_def)
  moreover have "clean_components True (split_on slash (abs_path cs)) = cs"
    using fold_clean_proper [OF assms, of True "[]"]
    by (simp add: split_abs_path [OF assms] clean_components_def clean_step_def)
  ultimately show ?thesis by (simp add: Clean_abs)
qed

text \<open>
  C32: \<^verbatim>\<open>SafeJoin\<close> never leaves its base. Whatever relative path a peer sends, an accepted
  result is the cleaned base itself or lies below it, and no component of it is \<^verbatim>\<open>..\<close>, so
  resolving it cannot climb out again.
\<close>

theorem SafeJoin_contained:
  assumes "is_abs base" and "SafeJoin cwd base rel = Some p"
  shows "(p = Clean base \<or> has_prefix p (Clean base @ ''/''))
    \<and> ''..'' \<notin> set (split_on slash p)"
proof -
  from assms have c: "p = Clean (path_join (Clean base) rel)"
    and inside: "p = Clean base \<or> has_prefix p (Clean base @ ''/'')"
    by (auto simp: SafeJoin_def Abs_def Let_def split: if_splits)
  obtain bs where bs: "Clean base = abs_path bs" "\<forall>c\<in>set bs. proper c"
    using assms(1) by (rule Clean_abs_obtain)
  have "is_abs (Clean base @ slash # rel)" by (simp add: bs abs_path_def)
  then have "is_abs (path_join (Clean base) rel)"
    by (simp add: path_join_def bs abs_path_def Clean_abs)
  then obtain cs where cs: "p = abs_path cs" "\<forall>c\<in>set cs. proper c"
    unfolding c by (rule Clean_abs_obtain)
  have "''..'' \<notin> set (split_on slash p)"
    unfolding cs(1) split_abs_path [OF cs(2)] using cs(2) by (auto simp: proper_def)
  with inside show ?thesis by blast
qed

theorem SafeJoin_contained_witness:
  "(''/srv/sss/a'' = Clean ''/srv/sss'' \<or> has_prefix ''/srv/sss/a'' (Clean ''/srv/sss'' @ ''/''))
    \<and> ''..'' \<notin> set (split_on slash ''/srv/sss/a'')"
  by (rule SafeJoin_contained [of _ None "''b/../a''"]) code_simp+

lemma ValidateComponent_proper: "ValidateComponent U c = None \<Longrightarrow> proper c"
  by (auto simp: proper_def dest: ValidateComponent_safe)

lemma portable_components:
  assumes "ValidatePortablePath U p = None"
  shows "\<forall>c\<in>set (split_on slash p). proper c"
  using ValidatePortablePath_components(2) [OF assms] ValidateComponent_proper by blast

lemma SafeJoin_joins:
  assumes "ValidatePortablePath U p = None" and "is_abs base" and "Clean base \<noteq> ''/''"
  shows "SafeJoin cwd base p = Some (Clean base @ slash # p)"
proof -
  note pc = portable_components [OF assms(1)]
  have pne: "p \<noteq> []" and "hd p \<noteq> slash"
    using ValidatePortablePath_components(1,3) [OF assms(1)] by auto
  then have rel: "\<not> is_abs p" by (auto simp: is_abs_conv)
  obtain bs where bs: "Clean base = abs_path bs" "\<forall>c\<in>set bs. proper c"
    using assms(2) by (rule Clean_abs_obtain)
  with assms(3) have bne: "bs \<noteq> []" by (auto simp: abs_path_def)
  let ?cs = "bs @ split_on slash p"
  have all: "\<forall>c\<in>set ?cs. proper c" using bs(2) pc by auto
  have join: "abs_path bs @ slash # p = abs_path ?cs"
  proof -
    have "join_with slash (bs @ ps) = join_with slash bs @ slash # join_with slash ps"
      if "bs \<noteq> []" "ps \<noteq> []" for bs ps
      using that by (induction slash bs rule: join_with.induct) (auto simp: neq_Nil_conv)
    then show ?thesis using bne by (simp add: abs_path_def)
  qed
  have "path_join (abs_path bs) p = abs_path ?cs"
    using Clean_abs_path [OF all] by (simp add: path_join_def join) (simp add: abs_path_def)
  then have "SafeJoin cwd base p = Some (abs_path ?cs)"
    using pne rel assms(2) bs(1) Clean_abs_path [OF all]
    by (simp add: SafeJoin_def Abs_def Let_def is_abs_def [symmetric])
       (simp add: join [symmetric] has_prefix_def)
  then show ?thesis by (simp add: join bs(1))
qed

text \<open>
  A portable path is joined verbatim. When \<^verbatim>\<open>ValidatePortablePath\<close> accepts a path, joining
  it below an absolute base (other than the filesystem root) succeeds and gives exactly
  \<^verbatim>\<open>base/path\<close>: nothing is rewritten, so two different accepted paths never meet in one file.
\<close>

theorem SafeJoin_portable:
  assumes "ValidatePortablePath U p = None" and "is_abs base" and "Clean base \<noteq> ''/''"
  shows "SafeJoin cwd base p = Some (Clean base @ slash # p)"
  using assms by (rule SafeJoin_joins)

definition ascii_tables :: unicode_tables where
  "ascii_tables = \<lparr>tab_lower = (\<lambda>r. r), tab_Cf = (\<lambda>r. r = 0xAD \<or> (0x200B \<le> r \<and> r \<le> 0x200F))\<rparr>"

theorem SafeJoin_portable_witness:
  "SafeJoin None ''/srv/sss'' ''docs/read.me'' = Some (Clean ''/srv/sss'' @ slash # ''docs/read.me'')"
  by (rule SafeJoin_portable [of ascii_tables]) code_simp+

section \<open>Upload names and destinations\<close>

definition replace_backslash :: "string \<Rightarrow> string" where
  "replace_backslash = map (\<lambda>c. if c = CHR 0x5C then slash else c)"

definition sanitizeUploadName :: "string \<Rightarrow> string" where
  "sanitizeUploadName name =
     (let n = TrimSpace (path_base (Clean (replace_backslash name)))
      in if n = ''.'' \<or> n = ''/'' \<or> n = ''..'' then [] else n)"

text \<open>
  \<^verbatim>\<open>platform.itoa\<close>: the digits are filled into a 20-byte buffer from its end. The loop is
  kept as a recursion that prepends digits.
\<close>

fun itoa_digits :: "nat \<Rightarrow> string \<Rightarrow> string" where
  "itoa_digits i buf =
     (if i = 0 then buf else itoa_digits (i div 10) (char_of (48 + i mod 10) # buf))"

declare itoa_digits.simps [simp del]

definition itoa :: "nat \<Rightarrow> string" where
  "itoa i = (if i = 0 then ''0'' else itoa_digits i [])"

datatype lstat = Missing | Present | StatError

fun unique_candidates :: "(string \<Rightarrow> lstat) \<Rightarrow> string \<Rightarrow> nat list \<Rightarrow> string option" where
  "unique_candidates stat dst [] = None"
| "unique_candidates stat dst (i # ks) =
     (if stat (dst @ ''-'' @ itoa i) = Missing then Some (dst @ ''-'' @ itoa i)
      else unique_candidates stat dst ks)"

text \<open>The suffixes \<^verbatim>\<open>for i := 2; i < 1000; i++\<close> tries.\<close>

definition dest_suffixes :: "nat list" where "dest_suffixes = [2..<1000]"

definition UniqueDestination :: "(string \<Rightarrow> lstat) \<Rightarrow> string \<Rightarrow> string option" where
  "UniqueDestination stat dst =
     (case stat dst of
        Missing \<Rightarrow> Some dst
      | StatError \<Rightarrow> None
      | Present \<Rightarrow> unique_candidates stat dst dest_suffixes)"

lemma itoa_digits_append: "itoa_digits i buf = itoa_digits i [] @ buf"
proof (induction i arbitrary: buf rule: less_induct)
  case (less i)
  show ?case
  proof (cases "i = 0")
    case False
    let ?d = "char_of (48 + i mod 10) :: char"
    have unf: "itoa_digits i b = itoa_digits (i div 10) (?d # b)" for b
      using False by (subst itoa_digits.simps) simp
    show ?thesis
      using less.IH [of "i div 10" "?d # buf"] less.IH [of "i div 10" "[?d]"] False
      by (simp add: unf)
  qed (simp add: itoa_digits.simps)
qed

text \<open>The decimal value of a digit string, to read \<^verbatim>\<open>itoa\<close> back.\<close>

fun dec_value :: "nat \<Rightarrow> string \<Rightarrow> nat" where
  "dec_value acc [] = acc"
| "dec_value acc (c # cs) = dec_value (10 * acc + (byte c - 48)) cs"

lemma dec_value_append: "dec_value acc (s @ t) = dec_value (dec_value acc s) t"
  by (induction acc s rule: dec_value.induct) simp_all

lemma dec_value_itoa_digits: "dec_value 0 (itoa_digits i []) = i"
proof (induction i rule: less_induct)
  case (less i)
  show ?case
  proof (cases "i = 0")
    case False
    have d: "byte (char_of (48 + i mod 10) :: char) = 48 + i mod 10"
      by simp
    have "itoa_digits i [] = itoa_digits (i div 10) [char_of (48 + i mod 10)]"
      using False by (subst itoa_digits.simps) simp
    also have "\<dots> = itoa_digits (i div 10) [] @ [char_of (48 + i mod 10)]"
      by (rule itoa_digits_append)
    finally have "itoa_digits i [] = itoa_digits (i div 10) [] @ [char_of (48 + i mod 10)]" .
    then show ?thesis
      using less.IH [of "i div 10"] False d by (simp add: dec_value_append)
  qed (simp add: itoa_digits.simps)
qed

lemma dec_value_itoa: "dec_value 0 (itoa i) = i"
  by (simp add: itoa_def dec_value_itoa_digits)

lemma itoa_inject: "itoa i = itoa j \<longleftrightarrow> i = j"
  by (metis dec_value_itoa)

lemma unique_candidates_Some:
  "unique_candidates stat dst ks = Some p \<Longrightarrow>
     stat p = Missing \<and> (\<exists>i\<in>set ks. p = dst @ ''-'' @ itoa i)"
  by (induction ks) (auto split: if_splits)

lemma unique_candidates_None:
  "unique_candidates stat dst ks = None \<longleftrightarrow>
     (\<forall>i\<in>set ks. stat (dst @ ''-'' @ itoa i) \<noteq> Missing)"
  by (induction ks) auto

lemma set_dest_suffixes: "set dest_suffixes = {2..<1000}"
  by (simp only: dest_suffixes_def set_upt)

text \<open>
  \<^verbatim>\<open>UniqueDestination\<close> never picks a path that exists, and gives up only when it must: it
  fails only if the destination cannot be examined, or if it and all 998 numbered candidates
  (pairwise different names) are taken.
\<close>

theorem UniqueDestination_free:
  "(\<forall>p. UniqueDestination stat dst = Some p \<longrightarrow> stat p = Missing)
   \<and> (UniqueDestination stat dst = None \<longleftrightarrow>
        stat dst = StatError
        \<or> (stat dst = Present \<and> (\<forall>i\<in>{2..<1000}. stat (dst @ ''-'' @ itoa i) \<noteq> Missing)))
   \<and> card ((\<lambda>i. dst @ ''-'' @ itoa i) ` {2..<1000}) = 998"
proof -
  have "inj_on (\<lambda>i. dst @ ''-'' @ itoa i) {2..<1000}"
    by (rule inj_onI) (simp add: itoa_inject)
  then have "card ((\<lambda>i. dst @ ''-'' @ itoa i) ` {2..<1000}) = 998"
    by (simp add: card_image)
  moreover have "\<forall>p. UniqueDestination stat dst = Some p \<longrightarrow> stat p = Missing"
    by (auto simp: UniqueDestination_def split: lstat.splits dest: unique_candidates_Some)
  moreover have "UniqueDestination stat dst = None \<longleftrightarrow> stat dst = StatError
      \<or> (stat dst = Present \<and> (\<forall>i\<in>{2..<1000}. stat (dst @ ''-'' @ itoa i) \<noteq> Missing))"
    unfolding set_dest_suffixes [symmetric]
    by (cases "stat dst") (simp_all add: UniqueDestination_def unique_candidates_None)
  ultimately show ?thesis by blast
qed

theorem UniqueDestination_free_witness:
  "UniqueDestination (\<lambda>p. if p = ''x'' then Present else Missing) ''x'' = Some ''x-2''
   \<and> (\<lambda>p. if p = ''x'' then Present else Missing) ''x-2'' = Missing"
proof -
  have "dest_suffixes = 2 # [Suc 2..<1000]"
    unfolding dest_suffixes_def by (rule upt_conv_Cons) simp
  then obtain ks where ks: "dest_suffixes = 2 # ks" by blast
  have "itoa 2 = ''2''" by code_simp
  then have "UniqueDestination (\<lambda>p. if p = ''x'' then Present else Missing) ''x'' = Some ''x-2''"
    by (simp add: UniqueDestination_def ks)
  moreover from this have "(\<lambda>p. if p = ''x'' then Present else Missing) ''x-2'' = Missing"
    using UniqueDestination_free by blast
  ultimately show ?thesis by blast
qed

end
