(* ===== verification/SSS_Files.thy ===== *)
theory SSS_Files
  imports SSS_Store SSS_Manifest SSS_Paths "HOL-Library.AList" "HOL-Library.State_Monad"
begin

text \<open>
  The server's world and its filesystem (\<^verbatim>\<open>internal/store/files\<close>, \<^verbatim>\<open>internal/platform/fs.go\<close>).
  A transfer directory is a value: its payload tree, staged segments, packs, verification
  trees and manifest, addressed by paths relative to it; the directories under staging, live
  and trash are three tables from transfer ids to such values. \<open>layout_paths_disjoint\<close>
  justifies that: the path functions of the code never alias two of these slots.

  Handlers are state transformers over the world (the library's state monad, with its
  do-notation), written in the order of the code's calls. Every operation of the operating
  system or the database takes one element of the world's fault list: on a fault the operation
  reports an error and does nothing. A crash is a list that fails from some point on, so a
  theorem about all fault lists covers every failure and every crash point of a handler.
\<close>

section \<open>The world\<close>

type_synonym bytes = string

text \<open>A payload node: a directory, or a regular file with permission bits and modification time.\<close>

datatype node = NDir | NFile bytes nat int

record tdir =
  d_payload :: "(string \<times> node) list option"
  d_segments :: "(string \<times> bytes) list option"
  d_packs :: "(string \<times> bytes) list option"
  d_outboards :: "(string \<times> bytes) list option"
  d_manifest :: "manifest option"
  d_sealed :: bool

definition empty_tdir :: tdir where
  "empty_tdir = \<lparr>d_payload = None, d_segments = None, d_packs = None, d_outboards = None,
     d_manifest = None, d_sealed = False\<rparr>"

record manifestCache =
  mc_limit :: nat
  mc_order :: "string list"
  mc_items :: "(string \<times> manifest) list"

record world =
  w_db :: db
  w_staging :: "(string \<times> tdir) list"
  w_live :: "(string \<times> tdir) list"
  w_trash :: "(string \<times> tdir) list"
  w_cache :: manifestCache
  w_faults :: "bool list"

type_synonym 'a svc = "(world, 'a) state"

abbreviation staging :: "world \<Rightarrow> string \<Rightarrow> tdir option" where "staging w \<equiv> map_of (w_staging w)"
abbreviation live :: "world \<Rightarrow> string \<Rightarrow> tdir option" where "live w \<equiv> map_of (w_live w)"
abbreviation trash :: "world \<Rightarrow> string \<Rightarrow> tdir option" where "trash w \<equiv> map_of (w_trash w)"

text \<open>An entry of a tar stream: its header and the bytes that follow, possibly cut short by an error.\<close>

record tar_entry =
  th_Regular :: bool
  th_Name :: string
  th_Size :: int
  th_Data :: bytes
  th_DataOK :: bool

text \<open>
  The configuration (\<^verbatim>\<open>config.Server\<close>) and the third-party functions the server calls: the
  BLAKE3 digest in hex, Bao encoding (tree and root) and the size of a tree, zstd and tar decoding (the entries, and
  whether the stream ends cleanly), and the encodings of the standard library that the model
  keeps opaque (\<^verbatim>\<open>json.Marshal\<close> and SHA-256 in hex).
\<close>

record server =
  MaxFiles :: int
  MaxNoteBytes :: int
  MaxTransferBytes :: int
  DiskHighWatermarkPercent :: int
  DefaultTTL :: int
  LocalClaimGraceMinutes :: int
  StagingTTLMinutes :: int
  DataDir :: string
  lib_blake3 :: "bytes \<Rightarrow> string"
  lib_bao :: "bytes \<Rightarrow> bytes \<times> string"
  lib_bao_size :: "int \<Rightarrow> int"
  lib_unpack :: "bytes \<Rightarrow> tar_entry list \<times> bool"
  lib_marshal :: "manifest \<Rightarrow> bytes"
  lib_sha256 :: "bytes \<Rightarrow> string"
  lib_unicode :: unicode_tables

definition adm :: "server \<Rightarrow> controller" where
  "adm S = \<lparr>highWatermarkPct = DiskHighWatermarkPercent S, maxTransferBytes = MaxTransferBytes S\<rparr>"

section \<open>Weakest preconditions\<close>

abbreviation return :: "'a \<Rightarrow> ('s, 'a) state" where "return \<equiv> State_Monad.return"

definition wp :: "('s, 'a) state \<Rightarrow> ('a \<Rightarrow> 's \<Rightarrow> bool) \<Rightarrow> 's \<Rightarrow> bool" where
  "wp m Q w = (case run_state m w of (x, w') \<Rightarrow> Q x w')"

lemma wp_return [simp]: "wp (return x) Q w \<longleftrightarrow> Q x w"
  by (simp add: wp_def)

lemma wp_bind [simp]: "wp (State_Monad.bind m f) Q w \<longleftrightarrow> wp m (\<lambda>x. wp (f x) Q) w"
  by (simp add: wp_def split: prod.splits)

lemma wp_State [simp]: "wp (State f) Q w \<longleftrightarrow> (case f w of (x, w') \<Rightarrow> Q x w')"
  by (simp add: wp_def)

lemma wp_mono: "wp m Q w \<Longrightarrow> (\<And>x w'. Q x w' \<Longrightarrow> R x w') \<Longrightarrow> wp m R w"
  by (auto simp: wp_def split: prod.splits)

lemma wp_bindI:
  assumes "wp m P w" and "\<And>x w'. P x w' \<Longrightarrow> wp (f x) Q w'"
  shows "wp (State_Monad.bind m f) Q w"
  unfolding wp_bind using assms by (rule wp_mono)

lemma wp_skip: "(\<And>x w'. wp (f x) Q w') \<Longrightarrow> wp (State_Monad.bind m f) Q w"
  by (rule wp_bindI [of _ "\<lambda>_ _. True"]) (simp_all add: wp_def split: prod.splits)

lemma wp_conj: "wp m Q w \<Longrightarrow> wp m R w \<Longrightarrow> wp m (\<lambda>x w'. Q x w' \<and> R x w') w"
  by (auto simp: wp_def split: prod.splits)

lemma wp_run: "wp m Q w \<Longrightarrow> run_state m w = (x, w') \<Longrightarrow> Q x w'"
  by (simp add: wp_def)

lemma wp_snd: "wp m (\<lambda>x. P) w \<longleftrightarrow> P (snd (run_state m w))"
  by (simp add: wp_def split: prod.splits)

text \<open>
  An effect that is reflexive and transitive holds of a program when it holds of each of its
  operations, whatever the control flow between them.
\<close>

locale effect =
  fixes R :: "'s \<Rightarrow> 's \<Rightarrow> bool"
  assumes refl: "R s s" and trans: "R s t \<Longrightarrow> R t u \<Longrightarrow> R s u"
begin

lemma ret: "wp (return x) (\<lambda>_. R s) s"
  by (simp add: refl)

lemma bind:
  assumes "wp m (\<lambda>_. R s) s" and "\<And>x t. wp (f x) (\<lambda>_. R t) t"
  shows "wp (State_Monad.bind m f) (\<lambda>_. R s) s"
  unfolding wp_bind using assms(1)
proof (rule wp_mono)
  fix x t assume "R s t"
  from assms(2) show "wp (f x) (\<lambda>_. R s) t"
    by (rule wp_mono) (rule trans [OF \<open>R s t\<close>])
qed

lemma cond: "wp m (\<lambda>_. R s) s \<Longrightarrow> wp n (\<lambda>_. R s) s \<Longrightarrow> wp (if b then m else n) (\<lambda>_. R s) s"
  by simp

lemma case_opt:
  "wp m (\<lambda>_. R s) s \<Longrightarrow> (\<And>x. wp (f x) (\<lambda>_. R s) s) \<Longrightarrow> wp (case v of None \<Rightarrow> m | Some x \<Rightarrow> f x) (\<lambda>_. R s) s"
  by (cases v) simp_all

lemma case_sm:
  "(\<And>e. wp (g e) (\<lambda>_. R s) s) \<Longrightarrow> (\<And>x. wp (f x) (\<lambda>_. R s) s) \<Longrightarrow>
   wp (case v of Inl e \<Rightarrow> g e | Inr x \<Rightarrow> f x) (\<lambda>_. R s) s"
  by (cases v) simp_all

lemma case_pr: "(\<And>x y. wp (f x y) (\<lambda>_. R s) s) \<Longrightarrow> wp (case v of (x, y) \<Rightarrow> f x y) (\<lambda>_. R s) s"
  by (cases v) simp_all

lemma case_li:
  "wp m (\<lambda>_. R s) s \<Longrightarrow> (\<And>x xs. wp (f x xs) (\<lambda>_. R s) s) \<Longrightarrow>
   wp (case v of [] \<Rightarrow> m | x # xs \<Rightarrow> f x xs) (\<lambda>_. R s) s"
  by (cases v) simp_all

lemma case_b:
  "wp m (\<lambda>_. R s) s \<Longrightarrow> wp n (\<lambda>_. R s) s \<Longrightarrow> wp (case v of True \<Rightarrow> m | False \<Rightarrow> n) (\<lambda>_. R s) s"
  by (cases v) simp_all

lemma lets: "(\<And>x. wp (f x) (\<lambda>_. R s) s) \<Longrightarrow> wp (Let v f) (\<lambda>_. R s) s"
  by simp

lemma after:
  assumes "R s t" and "wp m (\<lambda>_. R t) t"
  shows "wp m (\<lambda>_. R s) t"
  using assms(2) by (rule wp_mono) (rule trans [OF assms(1)])

lemmas steps = ret bind cond case_opt case_sm case_pr case_li case_b lets

end

section \<open>Primitive operations\<close>

definition io :: "bool svc" where
  "io = State (\<lambda>w. case w_faults w of [] \<Rightarrow> (True, w) | f # fs \<Rightarrow> (\<not> f, w\<lparr>w_faults := fs\<rparr>))"

definition exec :: "(bool \<Rightarrow> db \<Rightarrow> (go_error + 'a) \<times> db) \<Rightarrow> (go_error + 'a) svc" where
  "exec f = do {
     ok \<leftarrow> io;
     State (\<lambda>w. case f ok (w_db w) of (r, d) \<Rightarrow> (r, w\<lparr>w_db := d\<rparr>))
   }"

definition query :: "(bool \<Rightarrow> db \<Rightarrow> 'a) \<Rightarrow> 'a svc" where
  "query f = do { ok \<leftarrow> io; State (\<lambda>w. (f ok (w_db w), w)) }"

text \<open>
  A change of a staging directory: \<open>f\<close> gives its new contents, or \<open>None\<close> when the operation
  cannot succeed on it.
\<close>

definition stage :: "string \<Rightarrow> (tdir option \<Rightarrow> tdir option) \<Rightarrow> bool svc" where
  "stage i f = do {
     ok \<leftarrow> io;
     State (\<lambda>w. if \<not> ok then (False, w)
       else case f (staging w i) of
           None \<Rightarrow> (False, w)
         | Some t \<Rightarrow> (True, w\<lparr>w_staging := AList.update i t (w_staging w)\<rparr>))
   }"

text \<open>\<^verbatim>\<open>os.Stat\<close>: an error also when the lookup itself fails.\<close>

definition exists_in :: "(world \<Rightarrow> string \<Rightarrow> 'a option) \<Rightarrow> string \<Rightarrow> bool svc" where
  "exists_in tree i = do { ok \<leftarrow> io; State (\<lambda>w. (ok \<and> tree w i \<noteq> None, w)) }"

lemma wp_io: "(\<And>ok fs. Q ok (w\<lparr>w_faults := fs\<rparr>)) \<Longrightarrow> wp io Q w"
proof -
  assume "\<And>ok fs. Q ok (w\<lparr>w_faults := fs\<rparr>)"
  from this [of _ "w_faults w"] this show ?thesis by (simp add: io_def split: list.splits)
qed

lemma wp_exec:
  assumes "\<And>ok fs. Q (fst (f ok (w_db w))) (w\<lparr>w_faults := fs, w_db := snd (f ok (w_db w))\<rparr>)"
  shows "wp (exec f) Q w"
  unfolding exec_def
  by (simp, rule wp_io) (use assms in \<open>simp add: case_prod_beta\<close>)

lemma wp_query: "(\<And>ok fs. Q (f ok (w_db w)) (w\<lparr>w_faults := fs\<rparr>)) \<Longrightarrow> wp (query f) Q w"
  unfolding query_def by (simp, rule wp_io) simp

lemma wp_stage:
  assumes "\<And>fs. Q False (w\<lparr>w_faults := fs\<rparr>)"
    and "\<And>t fs. f (staging w i) = Some t \<Longrightarrow>
           Q True (w\<lparr>w_faults := fs, w_staging := AList.update i t (w_staging w)\<rparr>)"
  shows "wp (stage i f) Q w"
  unfolding stage_def
  by (simp, rule wp_io) (use assms in \<open>auto split: option.splits\<close>)

lemma wp_exists_in:
  assumes "\<And>w fs. tree (w\<lparr>w_faults := fs\<rparr>) = tree w"
    and "\<And>fs. Q False (w\<lparr>w_faults := fs\<rparr>)"
    and "\<And>fs. tree w i \<noteq> None \<Longrightarrow> Q True (w\<lparr>w_faults := fs\<rparr>)"
  shows "wp (exists_in tree i) Q w"
  unfolding exists_in_def
proof (simp, rule wp_io, simp add: assms(1), goal_cases)
  case (1 ok fs)
  then show ?case using assms(2,3) by (cases ok; cases "tree w i") auto
qed

text \<open>Without faults every operation is performed.\<close>

lemma run_io [simp]: "w_faults w = [] \<Longrightarrow> run_state io w = (True, w)"
  by (simp add: io_def)

lemma run_exec [simp]:
  "w_faults w = [] \<Longrightarrow>
   run_state (exec f) w = (case f True (w_db w) of (r, d) \<Rightarrow> (r, w\<lparr>w_db := d\<rparr>))"
  by (simp add: exec_def)

lemma run_query [simp]: "w_faults w = [] \<Longrightarrow> run_state (query f) w = (f True (w_db w), w)"
  by (simp add: query_def)

lemma run_exists_in [simp]:
  "w_faults w = [] \<Longrightarrow> run_state (exists_in tree i) w = (tree w i \<noteq> None, w)"
  by (simp add: exists_in_def)

lemma run_stage [simp]:
  "w_faults w = [] \<Longrightarrow>
   run_state (stage i f) w = (case f (staging w i) of None \<Rightarrow> (False, w)
     | Some t \<Rightarrow> (True, w\<lparr>w_staging := AList.update i t (w_staging w)\<rparr>))"
  by (simp add: stage_def)

section \<open>Layout\<close>

text \<open>\<^verbatim>\<open>filepath.Join\<close> of several elements.\<close>

definition path_joins :: "string list \<Rightarrow> string" where
  "path_joins es =
     (let rest = dropWhile (\<lambda>e. e = []) es in if rest = [] then [] else Clean (join_with slash rest))"

definition Staging :: "server \<Rightarrow> string" where "Staging S = path_joins [DataDir S, ''staging'']"
definition Live :: "server \<Rightarrow> string" where "Live S = path_joins [DataDir S, ''live'']"
definition Trash :: "server \<Rightarrow> string" where "Trash S = path_joins [DataDir S, ''trash'']"

definition Shard :: "string \<Rightarrow> string" where
  "Shard transferID =
     (let trimmed = (if has_prefix transferID ''t-'' then drop 2 transferID else transferID)
      in if length trimmed < 2 then ''00'' else take 2 trimmed)"

definition StagingPath :: "server \<Rightarrow> string \<Rightarrow> string" where
  "StagingPath S i = path_joins [Staging S, i]"

definition LivePath :: "server \<Rightarrow> string \<Rightarrow> string" where
  "LivePath S i = path_joins [Live S, Shard i, i]"

definition TrashPath :: "server \<Rightarrow> string \<Rightarrow> string" where
  "TrashPath S i = path_joins [Trash S, i]"

definition the_tdir :: "tdir option \<Rightarrow> tdir" where
  "the_tdir t = (case t of None \<Rightarrow> empty_tdir | Some t \<Rightarrow> t)"

definition ensure_dir :: "'a list option \<Rightarrow> 'a list option" where
  "ensure_dir v = (case v of None \<Rightarrow> Some [] | Some x \<Rightarrow> Some x)"

text \<open>\<^verbatim>\<open>os.MkdirAll\<close> of the staging root and of its subdirectories; parents are created on the way.\<close>

definition mkdir_root :: "string \<Rightarrow> bool svc" where
  "mkdir_root i = stage i (\<lambda>t. Some (the_tdir t))"

definition mkdir_payload :: "string \<Rightarrow> bool svc" where
  "mkdir_payload i = stage i (\<lambda>t. let t = the_tdir t in Some (t\<lparr>d_payload := ensure_dir (d_payload t)\<rparr>))"

definition mkdir_segments :: "string \<Rightarrow> bool svc" where
  "mkdir_segments i = stage i (\<lambda>t. let t = the_tdir t in Some (t\<lparr>d_segments := ensure_dir (d_segments t)\<rparr>))"

definition mkdir_packs :: "string \<Rightarrow> bool svc" where
  "mkdir_packs i = stage i (\<lambda>t. let t = the_tdir t in Some (t\<lparr>d_packs := ensure_dir (d_packs t)\<rparr>))"

definition mkdir_outboards :: "string \<Rightarrow> bool svc" where
  "mkdir_outboards i = stage i (\<lambda>t. let t = the_tdir t in Some (t\<lparr>d_outboards := ensure_dir (d_outboards t)\<rparr>))"

fun all_ok :: "bool svc list \<Rightarrow> bool svc" where
  "all_ok [] = return True"
| "all_ok (m # ms) = do { ok \<leftarrow> m; if \<not> ok then return False else all_ok ms }"

definition PrepareStaging :: "string \<Rightarrow> bool svc" where
  "PrepareStaging i = all_ok [mkdir_root i, mkdir_payload i, mkdir_segments i, mkdir_packs i]"

text \<open>The rename of a staging directory onto a free live path.\<close>

definition rename_live :: "string \<Rightarrow> bool svc" where
  "rename_live i = do {
     ok \<leftarrow> io;
     State (\<lambda>w. if \<not> ok then (False, w) else case (staging w i, live w i) of
         (Some t, None) \<Rightarrow> (True, w\<lparr>w_staging := AList.delete i (w_staging w),
                                    w_live := AList.update i t (w_live w)\<rparr>)
       | _ \<Rightarrow> (False, w))
   }"

definition lay_Publish :: "string \<Rightarrow> bool svc" where
  "lay_Publish i = do {
     shard \<leftarrow> io;
     if \<not> shard then return False
     else do {
       published \<leftarrow> exists_in live i;
       if published then return True
       else do {
         moved \<leftarrow> rename_live i;
         if \<not> moved then return False else io
       }
     }
   }"

text \<open>\<^verbatim>\<open>RemoveAllForce\<close> on a trash slot and on a staging directory.\<close>

definition remove_trash :: "string \<Rightarrow> bool svc" where
  "remove_trash i = do {
     ok \<leftarrow> io;
     State (\<lambda>w. if ok then (True, w\<lparr>w_trash := AList.delete i (w_trash w)\<rparr>) else (False, w))
   }"

definition RemoveStaging :: "string \<Rightarrow> bool svc" where
  "RemoveStaging i = do {
     ok \<leftarrow> io;
     State (\<lambda>w. if ok then (True, w\<lparr>w_staging := AList.delete i (w_staging w)\<rparr>) else (False, w))
   }"

definition del_live :: "string \<Rightarrow> world \<Rightarrow> world" where
  "del_live i w = w\<lparr>w_live := AList.delete i (w_live w)\<rparr>"

definition del_staging :: "string \<Rightarrow> world \<Rightarrow> world" where
  "del_staging i w = w\<lparr>w_staging := AList.delete i (w_staging w)\<rparr>"

text \<open>
  One source of \<^verbatim>\<open>ToTrash\<close>: \<open>get\<close> reads it and \<open>rem\<close> removes it. The rename needs a free
  trash slot.
\<close>

definition rename_trash ::
  "(world \<Rightarrow> string \<Rightarrow> tdir option) \<Rightarrow> (string \<Rightarrow> world \<Rightarrow> world) \<Rightarrow> string \<Rightarrow> bool svc" where
  "rename_trash get rem i = do {
     ok \<leftarrow> io;
     State (\<lambda>w. if \<not> ok then (False, w) else case (get w i, trash w i) of
         (Some t, None) \<Rightarrow> (True, rem i (w\<lparr>w_trash := AList.update i t (w_trash w)\<rparr>))
       | _ \<Rightarrow> (False, w))
   }"

definition trash_one ::
  "(world \<Rightarrow> string \<Rightarrow> tdir option) \<Rightarrow> (string \<Rightarrow> world \<Rightarrow> world) \<Rightarrow> string \<Rightarrow> bool svc" where
  "trash_one get rem i = do {
     src \<leftarrow> exists_in get i;
     if \<not> src then return True
     else do {
       taken \<leftarrow> exists_in trash i;
       cleared \<leftarrow> (if taken then remove_trash i else return True);
       if \<not> cleared then return False else rename_trash get rem i
     }
   }"

definition ToTrash :: "string \<Rightarrow> bool svc" where
  "ToTrash i = do {
     ok \<leftarrow> trash_one live del_live i;
     if \<not> ok then return False else trash_one staging del_staging i
   }"

fun empty_trash_loop :: "string list \<Rightarrow> nat \<Rightarrow> (nat \<times> bool) svc" where
  "empty_trash_loop [] removed = return (removed, True)"
| "empty_trash_loop (i # ids) removed = do {
     ok \<leftarrow> remove_trash i;
     if \<not> ok then return (removed, False) else empty_trash_loop ids (Suc removed)
   }"

definition EmptyTrash :: "(nat \<times> bool) svc" where
  "EmptyTrash = do {
     names \<leftarrow> State (\<lambda>w. (map fst (w_trash w), w));
     ok \<leftarrow> io;
     if \<not> ok then return (0, False) else empty_trash_loop names 0
   }"

definition ListStagingIDs :: "(go_error + string list) svc" where
  "ListStagingIDs = do {
     ok \<leftarrow> io;
     State (\<lambda>w. (if ok then Inr (map fst (w_staging w)) else Inl SystemError, w))
   }"

definition ListLiveIDs :: "(go_error + string list) svc" where
  "ListLiveIDs = do {
     ok \<leftarrow> io;
     State (\<lambda>w. (if ok then Inr (map fst (w_live w)) else Inl SystemError, w))
   }"

section \<open>Manifests and sealing\<close>

text \<open>The write is a rename of a complete temporary file; the directory sync may still fail after it.\<close>

definition WriteManifest :: "string \<Rightarrow> manifest \<Rightarrow> bool svc" where
  "WriteManifest i m = do {
     ok \<leftarrow> stage i (map_option (\<lambda>t. t\<lparr>d_manifest := Some m\<rparr>));
     if \<not> ok then return False else io
   }"

definition ReadManifest ::
  "server \<Rightarrow> (world \<Rightarrow> string \<Rightarrow> tdir option) \<Rightarrow> string \<Rightarrow> (go_error + manifest) svc" where
  "ReadManifest S get i = do {
     ok \<leftarrow> io;
     State (\<lambda>w. (case Option.bind (get w i) d_manifest of
         None \<Rightarrow> Inl SystemError
       | Some m \<Rightarrow>
         if \<not> ok then Inl SystemError
         else (case Validate (lib_unicode S) m of Some e \<Rightarrow> Inl (ProtoError e) | None \<Rightarrow> Inr m), w))
   }"

definition ManifestExists :: "string \<Rightarrow> bool svc" where
  "ManifestExists i = exists_in (\<lambda>w i. Option.bind (live w i) d_manifest) i"

definition SealPayload :: "string \<Rightarrow> bool svc" where
  "SealPayload i = stage i (map_option (\<lambda>t. t\<lparr>d_sealed := True\<rparr>))"

definition SealPayload_live :: "string \<Rightarrow> bool svc" where
  "SealPayload_live i = do {
     ok \<leftarrow> io;
     State (\<lambda>w. if \<not> ok then (False, w) else case live w i of
         None \<Rightarrow> (False, w)
       | Some t \<Rightarrow> (True, w\<lparr>w_live := AList.update i (t\<lparr>d_sealed := True\<rparr>) (w_live w)\<rparr>))
   }"

section \<open>Manifest cache\<close>

definition newManifestCache :: "nat \<Rightarrow> manifestCache" where
  "newManifestCache limit = \<lparr>mc_limit = limit, mc_order = [], mc_items = []\<rparr>"

definition cache_get :: "manifestCache \<Rightarrow> string \<Rightarrow> manifest option" where
  "cache_get c i = map_of (mc_items c) i"

fun cache_evict :: "nat \<Rightarrow> string list \<Rightarrow> (string \<times> manifest) list \<Rightarrow> string list \<times> (string \<times> manifest) list"
  where
  "cache_evict limit [] items = ([], items)"
| "cache_evict limit (oldest # rest) items =
     (if length (oldest # rest) > limit then cache_evict limit rest (AList.delete oldest items)
      else (oldest # rest, items))"

definition cache_put :: "string \<Rightarrow> manifest \<Rightarrow> manifestCache \<Rightarrow> manifestCache" where
  "cache_put i m c =
     (let (order, items) = (if cache_get c i = None
        then cache_evict (mc_limit c) (mc_order c @ [i]) (mc_items c)
        else (mc_order c, mc_items c))
      in c\<lparr>mc_order := order, mc_items := AList.update i m items\<rparr>)"

definition cache_drop :: "string \<Rightarrow> manifestCache \<Rightarrow> manifestCache" where
  "cache_drop i c = c\<lparr>mc_items := AList.delete i (mc_items c), mc_order := remove1 i (mc_order c)\<rparr>"

definition InvalidateManifest :: "string \<Rightarrow> unit svc" where
  "InvalidateManifest i = State (\<lambda>w. ((), w\<lparr>w_cache := cache_drop i (w_cache w)\<rparr>))"

definition remember_manifest :: "string \<Rightarrow> manifest \<Rightarrow> unit svc" where
  "remember_manifest i m = State (\<lambda>w. ((), w\<lparr>w_cache := cache_put i m (w_cache w)\<rparr>))"

lemma map_leI: "(\<And>j x. f j = Some x \<Longrightarrow> g j = Some x) \<Longrightarrow> f \<subseteq>\<^sub>m g"
  by (auto simp: map_le_def dom_def)

lemma map_leD: "f \<subseteq>\<^sub>m g \<Longrightarrow> f j = Some x \<Longrightarrow> g j = Some x"
  by (auto simp: map_le_def dom_def)

text \<open>
  What the service needs of the cache: a lookup returns the last manifest put under that id or
  nothing, and a dropped id is gone. The client's view is coherence with a source of truth.
\<close>

locale manifest_cache =
  fixes get :: "'c \<Rightarrow> 'k \<Rightarrow> 'v option"
    and put :: "'k \<Rightarrow> 'v \<Rightarrow> 'c \<Rightarrow> 'c"
    and drop :: "'k \<Rightarrow> 'c \<Rightarrow> 'c"
  assumes put_same: "get (put i m c) i = Some m"
    and put_other: "get (put i m c) j = Some x \<Longrightarrow> j \<noteq> i \<Longrightarrow> get c j = Some x"
    and drop_same: "get (drop i c) i = None"
    and drop_other: "get (drop i c) j = Some x \<Longrightarrow> get c j = Some x"
begin

lemma coherent_put: "get c \<subseteq>\<^sub>m truth \<Longrightarrow> truth i = Some m \<Longrightarrow> get (put i m c) \<subseteq>\<^sub>m truth"
proof (rule map_leI)
  fix j x assume "get c \<subseteq>\<^sub>m truth" "truth i = Some m" "get (put i m c) j = Some x"
  then show "truth j = Some x"
    using put_same [of i m c] put_other [of i m c j x] map_leD [of "get c" truth j x]
    by (cases "j = i") auto
qed

lemma coherent_drop: "get c \<subseteq>\<^sub>m truth \<Longrightarrow> get (drop i c) \<subseteq>\<^sub>m truth(i := v)"
proof (rule map_leI)
  fix j x assume "get c \<subseteq>\<^sub>m truth" "get (drop i c) j = Some x"
  then show "(truth(i := v)) j = Some x"
    using drop_same [of i c] drop_other [of i c j x] map_leD [of "get c" truth j x]
    by (cases "j = i") auto
qed

lemma coherent_drop_same: "get c \<subseteq>\<^sub>m truth \<Longrightarrow> get (drop i c) \<subseteq>\<^sub>m truth"
  using coherent_drop [of c truth i "truth i"] by simp

lemma coherent_change: "get c \<subseteq>\<^sub>m truth \<Longrightarrow> get c i = None \<Longrightarrow> get c \<subseteq>\<^sub>m truth(i := v)"
  unfolding map_le_def by auto

end

lemma cache_evict_get:
  "cache_evict limit order items = (order', items') \<Longrightarrow> map_of items' j = Some x \<Longrightarrow> map_of items j = Some x"
  by (induction limit order items rule: cache_evict.induct)
    (auto simp: delete_conv' split: if_splits)

interpretation mcache: manifest_cache cache_get cache_put cache_drop
proof unfold_locales
  fix i m c show "cache_get (cache_put i m c) i = Some m"
    by (simp add: cache_put_def cache_get_def update_conv' split: prod.splits)
next
  fix i m c j x assume "cache_get (cache_put i m c) j = Some x" "j \<noteq> i"
  then show "cache_get c j = Some x"
    by (auto simp: cache_put_def cache_get_def update_conv' split: prod.splits if_splits
        dest: cache_evict_get)
qed (simp_all add: cache_drop_def cache_get_def delete_conv' split: if_splits)

definition cache_wf :: "manifestCache \<Rightarrow> bool" where
  "cache_wf c \<longleftrightarrow>
     distinct (mc_order c) \<and> distinct (map fst (mc_items c))
     \<and> set (mc_order c) = fst ` set (mc_items c)
     \<and> length (mc_order c) \<le> mc_limit c \<and> 0 < mc_limit c"

lemma cache_evict_wf:
  assumes "cache_evict limit order items = (order', items')" and "distinct order"
    and "distinct (map fst items)" and "fst ` set items \<subseteq> set order"
  shows "\<exists>ev. order = ev @ order' \<and> distinct (map fst items')
    \<and> fst ` set items' = fst ` set items - set ev \<and> length order' \<le> limit
    \<and> (ev = [] \<or> length order' = limit)"
  using assms
proof (induction limit order items rule: cache_evict.induct)
  case (2 limit oldest rest items)
  show ?case
  proof (cases "length (oldest # rest) > limit")
    case True
    have "fst ` set (AList.delete oldest items) = fst ` set items - {oldest}"
      by (metis Diff_iff delete_keys set_map set_removeAll)
    moreover from this have "fst ` set items - {oldest} \<subseteq> set rest" using "2.prems"(4) by auto
    ultimately obtain ev where "rest = ev @ order'" "distinct (map fst items')"
      "fst ` set items' = fst ` set items - {oldest} - set ev" "length order' \<le> limit"
      "ev = [] \<or> length order' = limit"
      using "2.IH" [OF True] "2.prems" True by (auto simp: distinct_delete)
    then show ?thesis
      using True by (intro exI [of _ "oldest # ev"]) (auto split: if_splits)
  next
    case False
    then show ?thesis using "2.prems" by auto
  qed
qed auto

lemma cache_wf_new: "0 < n \<Longrightarrow> cache_wf (newManifestCache n)"
  by (simp add: cache_wf_def newManifestCache_def)

lemma cache_wf_drop: "cache_wf c \<Longrightarrow> cache_wf (cache_drop i c)"
proof -
  assume wf: "cache_wf c"
  have "fst ` set (AList.delete i (mc_items c)) = fst ` set (mc_items c) - {i}"
    by (metis delete_keys set_map set_removeAll)
  moreover have "length (remove1 i (mc_order c)) \<le> length (mc_order c)"
    by (simp add: length_remove1)
  ultimately show ?thesis
    using wf by (auto simp: cache_wf_def cache_drop_def distinct_delete)
qed

lemma cache_wf_put: "cache_wf c \<Longrightarrow> cache_wf (cache_put i m c)"
proof (cases "cache_get c i = None")
  case True
  assume wf: "cache_wf c"
  have fresh: "i \<notin> fst ` set (mc_items c)"
    using True by (simp add: cache_get_def map_of_eq_None_iff)
  obtain order items where ev: "cache_evict (mc_limit c) (mc_order c @ [i]) (mc_items c) = (order, items)"
    by fastforce
  from cache_evict_wf [OF ev] wf fresh obtain es where es: "mc_order c @ [i] = es @ order"
    "distinct (map fst items)" "fst ` set items = fst ` set (mc_items c) - set es"
    "length order \<le> mc_limit c" "es = [] \<or> length order = mc_limit c"
    by (auto simp: cache_wf_def)
  have "order \<noteq> []" using es(1,5) wf by (auto simp: cache_wf_def)
  then have i: "i \<in> set order" using es(1) by (metis last_appendR last_in_set last_snoc)
  have "distinct (es @ order)" using es(1) wf fresh by (metis cache_wf_def distinct.simps(2)
        distinct_append distinct_singleton disjoint_insert(1) inf_bot_right list.set(1) list.set(2))
  moreover have "set (es @ order) = insert i (fst ` set (mc_items c))"
    using es(1) wf by (metis cache_wf_def insert_is_Un list.set(1) list.set(2) set_append sup_commute)
  ultimately have "set order = insert i (fst ` set items)" using i es(3) by auto
  moreover have "fst ` set (AList.update i m items) = insert i (fst ` set items)"
    by (metis dom_map_of_conv_image_fst fun_upd_def dom_fun_upd option.distinct(1) update_conv')
  ultimately show ?thesis
    using wf es \<open>distinct (es @ order)\<close> True ev
    by (simp add: cache_wf_def cache_put_def distinct_update)
next
  case False
  assume wf: "cache_wf c"
  then have "fst ` set (AList.update i m (mc_items c)) = fst ` set (mc_items c)"
    using False by (auto simp: dom_map_of_conv_image_fst [symmetric] update_conv' cache_get_def)
  then show ?thesis
    using False wf by (auto simp: cache_wf_def cache_put_def distinct_update)
qed

text \<open>
  the manifest cache stays within its limit and exact through any sequence of puts and
  drops: it never holds more manifests than the limit, its eviction order lists exactly the
  ids it holds, a manifest just put is there, and whatever a lookup returns for another id was
  already there.
\<close>

theorem manifestCache_bounded:
  assumes "cache_wf c"
  shows "cache_wf (cache_put i m c) \<and> cache_wf (cache_drop i c)
    \<and> length (mc_items (cache_put i m c)) \<le> mc_limit c
    \<and> cache_get (cache_put i m c) i = Some m
    \<and> (\<forall>j x. j \<noteq> i \<longrightarrow> cache_get (cache_put i m c) j = Some x \<longrightarrow> cache_get c j = Some x)"
proof -
  have wf': "cache_wf (cache_put i m c)" by (rule cache_wf_put [OF assms])
  have lim: "mc_limit (cache_put i m c) = mc_limit c"
    by (simp add: cache_put_def split: prod.splits)
  have "length (mc_items d) = length (mc_order d)" if "cache_wf d" for d
    using that by (metis cache_wf_def distinct_card length_map set_map)
  with wf' lim have "length (mc_items (cache_put i m c)) \<le> mc_limit c"
    by (metis cache_wf_def)
  with wf' cache_wf_drop [OF assms] mcache.put_same mcache.put_other show ?thesis by blast
qed

theorem manifestCache_bounded_witness:
  "cache_wf (cache_put ''a'' sample_manifest (newManifestCache 64))
    \<and> cache_wf (cache_drop ''a'' (newManifestCache 64))
    \<and> length (mc_items (cache_put ''a'' sample_manifest (newManifestCache 64)))
       \<le> mc_limit (newManifestCache 64)
    \<and> cache_get (cache_put ''a'' sample_manifest (newManifestCache 64)) ''a'' = Some sample_manifest
    \<and> cache_get (cache_put ''a'' sample_manifest (newManifestCache 64)) ''b'' = None"
proof -
  have "cache_wf (newManifestCache 64)" by (simp add: cache_wf_new)
  note b = manifestCache_bounded [OF this, of "''a''" sample_manifest]
  have "cache_get (newManifestCache 64) ''b'' = None" by (simp add: cache_get_def newManifestCache_def)
  with b have "cache_get (cache_put ''a'' sample_manifest (newManifestCache 64)) ''b'' \<noteq> Some x" for x by force
  with b show ?thesis by blast
qed

section \<open>What the layout operations change\<close>

text \<open>Everything but the staging directory of one transfer (and the remaining faults) is as before.\<close>

definition staging_only :: "string \<Rightarrow> world \<Rightarrow> world \<Rightarrow> bool" where
  "staging_only i w w' \<longleftrightarrow>
     w_db w' = w_db w \<and> w_live w' = w_live w \<and> w_trash w' = w_trash w \<and> w_cache w' = w_cache w
     \<and> (\<forall>j. j \<noteq> i \<longrightarrow> staging w' j = staging w j)"

lemma staging_only_refl [simp]: "staging_only i w w"
  by (simp add: staging_only_def)

lemma staging_only_trans: "staging_only i u v \<Longrightarrow> staging_only i v w \<Longrightarrow> staging_only i u w"
  by (simp add: staging_only_def)

interpretation frame: effect "staging_only i" for i
  by unfold_locales (auto intro: staging_only_trans)

lemma staging_only_faults [simp]: "staging_only i w (w'\<lparr>w_faults := fs\<rparr>) = staging_only i w w'"
  by (simp add: staging_only_def)

lemma staging_only_upd [simp]:
  "staging_only i w (w\<lparr>w_faults := fs, w_staging := AList.update i t (w_staging w)\<rparr>)"
  by (simp add: staging_only_def update_conv')

lemma staging_onlyD:
  assumes "staging_only i w w'"
  shows "w_db w' = w_db w" and "w_live w' = w_live w" and "w_trash w' = w_trash w"
    and "w_cache w' = w_cache w" and "j \<noteq> i \<Longrightarrow> staging w' j = staging w j"
  using assms by (simp_all add: staging_only_def)

text \<open>The general rule for a staging operation: a frame and the new contents of the directory.\<close>

lemma wp_stage_frame:
  assumes "\<And>w'. staging_only i w w' \<Longrightarrow> staging w' i = staging w i \<Longrightarrow> Q False w'"
    and "\<And>w' t. staging_only i w w' \<Longrightarrow> f (staging w i) = Some t \<Longrightarrow> staging w' i = Some t \<Longrightarrow> Q True w'"
  shows "wp (stage i f) Q w"
  by (rule wp_stage) (auto intro!: assms simp: update_conv')

lemma wp_io_frame:
  assumes "\<And>ok w'. staging_only i w w' \<Longrightarrow> staging w' i = staging w i \<Longrightarrow> Q ok w'"
  shows "wp io Q w"
  by (rule wp_io) (auto intro!: assms)

lemma wp_RemoveStaging:
  assumes "\<And>ok w'. staging_only i w w' \<Longrightarrow> staging w' i = staging w i \<or> staging w' i = None \<Longrightarrow> Q ok w'"
  shows "wp (RemoveStaging i) Q w"
  unfolding RemoveStaging_def
  by (simp, rule wp_io) (auto intro!: assms simp: staging_only_def delete_conv')

lemma stage_frame: "staging_only i w0 w \<Longrightarrow> wp (stage i f) (\<lambda>_. staging_only i w0) w"
  by (rule wp_stage_frame) (auto intro: staging_only_trans)

lemma all_ok_frame:
  assumes "\<And>m w. m \<in> set ms \<Longrightarrow> staging_only i w0 w \<Longrightarrow> wp m (\<lambda>_. staging_only i w0) w"
    and "staging_only i w0 w"
  shows "wp (all_ok ms) (\<lambda>_. staging_only i w0) w"
  using assms
proof (induction ms arbitrary: w)
  case (Cons m ms)
  have ih: "wp (all_ok ms) (\<lambda>_. staging_only i w0) w'" if "staging_only i w0 w'" for w'
    by (rule Cons.IH) (use Cons.prems(1) that in auto)
  have "wp m (\<lambda>_. staging_only i w0) w" using Cons.prems by simp
  then have "wp m (\<lambda>x. wp (if \<not> x then return False else all_ok ms) (\<lambda>_. staging_only i w0)) w"
    by (rule wp_mono) (simp add: ih)
  then show ?case by simp
qed simp

lemma PrepareStaging_frame: "wp (PrepareStaging i) (\<lambda>_. staging_only i w) w"
  unfolding PrepareStaging_def
  by (rule all_ok_frame)
    (auto intro: stage_frame simp: mkdir_root_def mkdir_payload_def mkdir_segments_def mkdir_packs_def)

lemma wp_frame:
  assumes "wp m (\<lambda>_. staging_only i w) w" and "\<And>x w'. staging_only i w w' \<Longrightarrow> Q x w'"
  shows "wp m Q w"
  using assms(1) by (rule wp_mono) (rule assms(2))

text \<open>
  The publication rename: nothing changes, or the live directory was already there, or the
  staging directory became the live one (and the directory sync may still have failed).
\<close>

definition moved :: "string \<Rightarrow> world \<Rightarrow> world \<Rightarrow> bool" where
  "moved i w w' \<longleftrightarrow>
     w_db w' = w_db w \<and> w_trash w' = w_trash w \<and> w_cache w' = w_cache w
     \<and> live w i = None \<and> staging w i \<noteq> None
     \<and> live w' = (live w)(i := staging w i) \<and> staging w' = (staging w)(i := None)"

definition faults_only :: "world \<Rightarrow> world \<Rightarrow> bool" where
  "faults_only w w' \<longleftrightarrow> (\<exists>fs. w' = w\<lparr>w_faults := fs\<rparr>)"

lemma faults_only_refl [simp]: "faults_only w w"
  unfolding faults_only_def by (rule exI [of _ "w_faults w"]) simp

lemma faults_only_upd [simp]: "faults_only w (w\<lparr>w_faults := fs\<rparr>)"
  by (auto simp: faults_only_def)

lemma faults_only_trans: "faults_only u v \<Longrightarrow> faults_only v w \<Longrightarrow> faults_only u w"
  by (auto simp: faults_only_def)

interpretation faults: effect faults_only
  by unfold_locales (auto intro: faults_only_trans)

lemma faults_onlyD:
  assumes "faults_only w w'"
  shows "w_db w' = w_db w" and "w_staging w' = w_staging w" and "w_live w' = w_live w"
    and "w_trash w' = w_trash w" and "w_cache w' = w_cache w"
  using assms by (auto simp: faults_only_def)

lemma wp_lay_Publish:
  assumes "\<And>w'. faults_only w w' \<Longrightarrow> Q False w'"
    and "\<And>w'. faults_only w w' \<Longrightarrow> live w i \<noteq> None \<Longrightarrow> Q True w'"
    and "\<And>ok w'. moved i w w' \<Longrightarrow> Q ok w'"
  shows "wp (lay_Publish i) Q w"
proof -
  have ren: "wp (rename_live i) (\<lambda>x. wp (if \<not> x then return False else io) Q) w1"
    if "faults_only w w1" for w1
    unfolding rename_live_def
  proof (simp, rule wp_io, goal_cases)
    case (1 ok fs)
    have same: "faults_only w (w1\<lparr>w_faults := fs\<rparr>)" using that faults_only_trans faults_only_upd by blast
    show ?case
    proof (cases "ok \<and> live w i = None \<and> staging w i \<noteq> None")
      case True
      then obtain t where t: "staging w i = Some t" by auto
      then show ?thesis
        using True faults_onlyD [OF that]
        by (auto intro!: wp_io assms(3) simp: moved_def update_conv' delete_conv')
    next
      case False
      then show ?thesis
        using assms(1) [OF same] faults_onlyD [OF that] by (auto split: option.splits)
    qed
  qed
  show ?thesis
    unfolding lay_Publish_def
  proof (simp, rule wp_io, goal_cases)
    case (1 ok fs)
    show ?case
    proof (cases ok)
      case True
      then show ?thesis
        by (simp, intro wp_exists_in) (auto intro!: assms(2) ren simp: faults_only_def)
    next
      case False
      then show ?thesis using assms(1) by simp
    qed
  qed
qed

text \<open>Moving to trash takes the live and the staging directory of that transfer away, or not.\<close>

definition trashed :: "string \<Rightarrow> world \<Rightarrow> world \<Rightarrow> bool" where
  "trashed i w w' \<longleftrightarrow>
     w_db w' = w_db w \<and> w_cache w' = w_cache w
     \<and> (live w' = live w \<or> live w' = (live w)(i := None))
     \<and> (staging w' = staging w \<or> staging w' = (staging w)(i := None))"

lemma trashed_refl [simp]: "trashed i w w"
  by (simp add: trashed_def)

lemma trashed_trans: "trashed i u v \<Longrightarrow> trashed i v w \<Longrightarrow> trashed i u w"
  by (auto simp: trashed_def)

interpretation trashed: effect "trashed i" for i
  by unfold_locales (auto intro: trashed_trans)

lemma trashed_faults [simp]: "trashed i w (w'\<lparr>w_faults := fs\<rparr>) = trashed i w w'"
  by (simp add: trashed_def)

lemma trashed_trash [simp]: "trashed i w (w'\<lparr>w_trash := tr\<rparr>) = trashed i w w'"
  by (simp add: trashed_def)

lemma trash_one_frame:
  assumes "\<And>w fs. get (w\<lparr>w_faults := fs\<rparr>) = get w" and "\<And>w'. trashed i w w' \<Longrightarrow> trashed i w (rem i w')"
    and "trashed i w w1"
  shows "wp (trash_one get rem i) (\<lambda>_. trashed i w) w1"
proof -
  have ren: "wp (rename_trash get rem i) (\<lambda>_. trashed i w) w2" if "trashed i w w2" for w2
    unfolding rename_trash_def
    by (simp, rule wp_io) (use that assms(2) in \<open>auto split: option.splits\<close>)
  have rem: "wp (remove_trash i) (\<lambda>x. wp (if \<not> x then return False else rename_trash get rem i)
      (\<lambda>_. trashed i w)) w2" if "trashed i w w2" for w2
    unfolding remove_trash_def by (simp, rule wp_io) (use that ren in auto)
  show ?thesis
    unfolding trash_one_def
  proof (simp, rule wp_exists_in [OF assms(1)], goal_cases)
    case (1 fs) then show ?case using assms(3) by simp
  next
    case (2 fs)
    show ?case
      by (simp, rule wp_exists_in) (use assms(3) in \<open>auto intro!: ren rem\<close>)
  qed
qed

lemma ToTrash_frame: "wp (ToTrash i) (\<lambda>_. trashed i w) w"
proof -
  have a: "trashed i w (del_live i w')" "trashed i w (del_staging i w')" if "trashed i w w'" for w'
    using that by (auto simp: trashed_def del_live_def del_staging_def delete_conv')
  have "wp (trash_one live del_live i) (\<lambda>_. trashed i w) w"
    by (rule trash_one_frame) (use a in auto)
  then have "wp (trash_one live del_live i)
      (\<lambda>x. wp (if \<not> x then return False else trash_one staging del_staging i) (\<lambda>_. trashed i w)) w"
    by (rule wp_mono) (use a in \<open>auto intro!: trash_one_frame\<close>)
  then show ?thesis by (simp add: ToTrash_def)
qed

text \<open>Without faults both directories are gone afterwards, and the operation reports success.\<close>

lemma run_trash_one:
  assumes "w_faults w = []" and "\<And>w tr. get (w\<lparr>w_trash := tr\<rparr>) = get w"
  shows "run_state (trash_one get rem i) w = (case get w i of None \<Rightarrow> (True, w)
    | Some t \<Rightarrow> (True, rem i (w\<lparr>w_trash := AList.update i t
        (if trash w i = None then w_trash w else AList.delete i (w_trash w))\<rparr>)))"
  using assms
  by (auto simp: trash_one_def rename_trash_def remove_trash_def delete_conv' split: option.splits)

definition trashed_fully :: "string \<Rightarrow> world \<Rightarrow> world \<Rightarrow> bool" where
  "trashed_fully i w w' \<longleftrightarrow>
     w_db w' = w_db w \<and> w_cache w' = w_cache w \<and> w_faults w' = w_faults w
     \<and> w_live w' = AList.delete i (w_live w) \<and> w_staging w' = AList.delete i (w_staging w)"

lemma delete_absent: "map_of xs i = None \<Longrightarrow> AList.delete i xs = xs"
  by (simp add: map_of_eq_None_iff)

lemma run_ToTrash:
  assumes "w_faults w = []"
  shows "\<exists>w'. run_state (ToTrash i) w = (True, w') \<and> trashed_fully i w w'"
proof (cases "live w i"; cases "staging w i")
  assume "live w i = None" "staging w i = None"
  then show ?thesis
    using assms by (simp add: ToTrash_def run_trash_one delete_absent trashed_fully_def)
next
  fix t assume "live w i = None" "staging w i = Some t"
  then show ?thesis
    using assms by (simp add: ToTrash_def run_trash_one delete_absent trashed_fully_def del_staging_def)
next
  fix t assume "live w i = Some t" "staging w i = None"
  then show ?thesis
    using assms by (simp add: ToTrash_def run_trash_one delete_absent trashed_fully_def del_live_def)
next
  fix t u assume "live w i = Some t" "staging w i = Some u"
  then show ?thesis
    using assms by (simp add: ToTrash_def run_trash_one trashed_fully_def del_live_def del_staging_def)
qed

section \<open>The paths of the three areas\<close>

lemma path_joins_abs:
  assumes "\<forall>c\<in>set cs. proper c" and "\<forall>e\<in>set es. proper e" and "cs \<noteq> []"
  shows "path_joins (abs_path cs # es) = abs_path (cs @ es)"
proof -
  have j: "join_with slash (abs_path cs # es) = abs_path (cs @ es)"
  proof (cases es)
    case (Cons e es')
    have "join_with slash (bs @ ps) = join_with slash bs @ slash # join_with slash ps"
      if "bs \<noteq> []" "ps \<noteq> []" for bs ps
      using that by (induction slash bs rule: join_with.induct) (auto simp: neq_Nil_conv)
    then show ?thesis using assms(3) Cons by (simp add: abs_path_def)
  qed (simp add: abs_path_def)
  have "abs_path cs \<noteq> []" by (simp add: abs_path_def)
  then have "path_joins (abs_path cs # es) = Clean (abs_path (cs @ es))"
    by (simp add: path_joins_def j)
  also have "\<dots> = abs_path (cs @ es)" using assms(1,2) by (intro Clean_abs_path) auto
  finally show ?thesis .
qed

lemma abs_path_inject:
  assumes "\<forall>c\<in>set cs. proper c" "\<forall>c\<in>set ds. proper c" "abs_path cs = abs_path ds"
  shows "cs = ds"
proof -
  have "split_on slash (abs_path cs) = split_on slash (abs_path ds)" using assms(3) by simp
  then have "(if cs = [] then [[]] else cs) = (if ds = [] then [[]] else ds)"
    using split_abs_path assms(1,2) by simp
  moreover have "[] \<notin> set cs" "[] \<notin> set ds" using assms(1,2) by (auto simp: proper_def)
  ultimately show ?thesis by (metis list.set_intros(1))
qed

lemma proper_Shard: assumes "proper i" and "has_prefix i ''t-''" and "set (drop 2 i) \<subseteq> set ''0123456789abcdef''"
  shows "proper (Shard i)"
proof -
  have "set (take 2 (drop 2 i)) \<subseteq> set ''0123456789abcdef''" using assms(3) set_take_subset by fast
  then have "slash \<notin> set (take 2 (drop 2 i)) \<and> CHR ''.'' \<notin> set (take 2 (drop 2 i))" by auto
  then show ?thesis
    using assms(2) by (auto simp: Shard_def proper_def Let_def)
qed

text \<open>
  The layout never aliases. Below an absolute data directory, for transfer ids of the form
  the server draws, the staging, live and trash directories of any two transfers are different
  paths unless they are the same area and the same transfer, so renaming or deleting one never
  touches another.
\<close>

theorem layout_paths_disjoint:
  assumes "DataDir S = abs_path cs" and "\<forall>c\<in>set cs. proper c" and "cs \<noteq> []"
    and "i = ids_Transfer a" and "j = ids_Transfer b"
  shows "(StagingPath S i = StagingPath S j \<longleftrightarrow> i = j) \<and> (LivePath S i = LivePath S j \<longleftrightarrow> i = j)
    \<and> (TrashPath S i = TrashPath S j \<longleftrightarrow> i = j)
    \<and> StagingPath S i \<noteq> LivePath S j \<and> StagingPath S i \<noteq> TrashPath S j \<and> LivePath S i \<noteq> TrashPath S j"
proof -
  have hex: "set (hex_encode x) \<subseteq> set ''0123456789abcdef''" for x by (rule hex_encode_alphabet)
  have p: "proper (ids_Transfer x)" for x
    using hex [of x] by (auto simp: ids_Transfer_def ids_New_def proper_def)
  have s: "proper (Shard (ids_Transfer x))" for x
    using hex [of x] by (intro proper_Shard p) (simp_all add: ids_Transfer_def ids_New_def has_prefix_def)
  have c: "proper ''staging''" "proper ''live''" "proper ''trash''" by (simp_all add: proper_def)
  have areas: "Staging S = abs_path (cs @ [''staging''])" "Live S = abs_path (cs @ [''live''])"
    "Trash S = abs_path (cs @ [''trash''])"
    using assms(1-3) c by (simp_all add: Staging_def Live_def Trash_def path_joins_abs)
  have paths: "StagingPath S x = abs_path (cs @ [''staging'', x])"
    "LivePath S x = abs_path (cs @ [''live'', Shard x, x])" "TrashPath S x = abs_path (cs @ [''trash'', x])"
    if "x \<in> {i, j}" for x
    using that assms(2,4,5) p s c by (auto simp: StagingPath_def LivePath_def TrashPath_def areas path_joins_abs)
  have inj: "abs_path (cs @ xs) = abs_path (cs @ ys) \<longleftrightarrow> xs = ys"
    if "\<forall>x\<in>set (xs @ ys). proper x" for xs ys
    using abs_path_inject [of "cs @ xs" "cs @ ys"] that assms(2) by auto
  show ?thesis
    using p s c assms(4,5) by (auto simp: paths inj)
qed

definition sample_server :: server where
  "sample_server = \<lparr>MaxFiles = 100, MaxNoteBytes = 1000, MaxTransferBytes = 0,
     DiskHighWatermarkPercent = 85, DefaultTTL = 30, LocalClaimGraceMinutes = 10,
     StagingTTLMinutes = 60, DataDir = ''/srv/sss'', lib_blake3 = (\<lambda>b. sample_digest),
     lib_bao = (\<lambda>b. (''tree'', sample_digest)), lib_bao_size = (\<lambda>n. 4), lib_unpack = (\<lambda>b. ([], True)),
     lib_marshal = (\<lambda>m. man_Note m), lib_sha256 = (\<lambda>b. ''h'' @ b), lib_unicode = plain_tables\<rparr>"

theorem layout_paths_disjoint_witness:
  "LivePath sample_server (ids_Transfer [1, 2]) = ''/srv/sss/live/01/t-0102''
   \<and> StagingPath sample_server (ids_Transfer [1, 2]) \<noteq> LivePath sample_server (ids_Transfer [1, 3])"
proof -
  have "LivePath sample_server (ids_Transfer [1, 2]) = ''/srv/sss/live/01/t-0102''" by code_simp
  moreover have "DataDir sample_server = abs_path [''srv'', ''sss'']" by code_simp
  ultimately show ?thesis
    using layout_paths_disjoint [of sample_server "[''srv'', ''sss'']" _ "[1, 2]" _ "[1, 3]"]
    by (simp add: proper_def)
qed

end
