(* ===== verification/SSS_Materialize.thy ===== *)
theory SSS_Materialize
  imports SSS_Files
begin

text \<open>
  Materialization (\<^verbatim>\<open>internal/materialize/materialize.go\<close>): the staged segments of a transfer
  become its payload tree, and every file is hashed again before the result may be published.
  The payload is a table from relative paths to nodes; \<open>safe_rel\<close> is the place below the
  payload directory that \<^verbatim>\<open>platform.SafeJoin\<close> computes. Decompression and tar parsing are the
  server's parameter \<open>lib_unpack\<close>, of which nothing is assumed. The workers of \<^verbatim>\<open>verify\<close> only
  read, and the code keeps one failure of any of them; the model visits the files in order.
  Modification times of directories are not modelled.
\<close>

section \<open>Payload trees\<close>

type_synonym payload = "(string \<times> node) list"

definition rel_base :: string where "rel_base = ''/transfer/payload''"

definition safe_rel :: "string \<Rightarrow> string option" where
  "safe_rel p = map_option (drop (Suc (length rel_base))) (SafeJoin None rel_base p)"

lemma safe_rel_portable:
  assumes "ValidatePortablePath U p = None"
  shows "safe_rel p = Some p"
proof -
  have "Clean rel_base = rel_base" by code_simp
  moreover have "is_abs rel_base" "rel_base \<noteq> ''/''" by code_simp+
  ultimately have "SafeJoin None rel_base p = Some (rel_base @ slash # p)"
    using SafeJoin_joins [OF assms, of rel_base None] by simp
  then show ?thesis by (simp add: safe_rel_def)
qed

definition is_dir :: "payload \<Rightarrow> string \<Rightarrow> bool" where
  "is_dir pl k \<longleftrightarrow> k = ''.'' \<or> k = [] \<or> map_of pl k = Some NDir"

text \<open>\<^verbatim>\<open>os.MkdirAll\<close>: every prefix of the path becomes a directory; a file in the way is an error.\<close>

definition path_prefixes :: "string \<Rightarrow> string list" where
  "path_prefixes k =
     (let cs = split_on slash k in map (\<lambda>n. join_with slash (take n cs)) [1..<Suc (length cs)])"

fun mkdir_prefixes :: "string list \<Rightarrow> payload \<Rightarrow> payload option" where
  "mkdir_prefixes [] pl = Some pl"
| "mkdir_prefixes (k # ks) pl =
     (case map_of pl k of
        None \<Rightarrow> mkdir_prefixes ks (AList.update k NDir pl)
      | Some NDir \<Rightarrow> mkdir_prefixes ks pl
      | Some (NFile c p mt) \<Rightarrow> None)"

definition mkdir_all :: "string \<Rightarrow> payload \<Rightarrow> payload option" where
  "mkdir_all k pl = (if k = ''.'' \<or> k = [] then Some pl else mkdir_prefixes (path_prefixes k) pl)"

text \<open>\<^verbatim>\<open>os.Rename\<close> of a regular file onto a path: it replaces a file but not a directory.\<close>

definition place_file :: "string \<Rightarrow> bytes \<Rightarrow> payload \<Rightarrow> payload option" where
  "place_file k c pl =
     (if \<not> is_dir pl (path_dir k) then None
      else case map_of pl k of
          Some NDir \<Rightarrow> None
        | _ \<Rightarrow> if k = [] then None else Some (AList.update k (NFile c 416 0) pl))"

text \<open>\<^verbatim>\<open>os.OpenFile\<close> with \<^verbatim>\<open>O_CREATE|O_EXCL\<close>.\<close>

definition create_excl :: "string \<Rightarrow> bytes \<Rightarrow> payload \<Rightarrow> payload option" where
  "create_excl k c pl =
     (if \<not> is_dir pl (path_dir k) \<or> map_of pl k \<noteq> None \<or> k = [] then None
      else Some (AList.update k (NFile c 416 0) pl))"

text \<open>Writing into an open file.\<close>

definition write_file :: "string \<Rightarrow> bytes \<Rightarrow> payload \<Rightarrow> payload option" where
  "write_file k c pl =
     (case map_of pl k of
        Some (NFile _ p mt) \<Rightarrow> Some (AList.update k (NFile c p mt) pl)
      | _ \<Rightarrow> None)"

definition chmod_node :: "string \<Rightarrow> nat \<Rightarrow> payload \<Rightarrow> payload option" where
  "chmod_node k mode pl =
     (case map_of pl k of
        None \<Rightarrow> (if k = [] then Some pl else None)
      | Some NDir \<Rightarrow> Some pl
      | Some (NFile c p mt) \<Rightarrow> Some (AList.update k (NFile c mode mt) pl))"

definition chtimes_node :: "string \<Rightarrow> int \<Rightarrow> payload \<Rightarrow> payload option" where
  "chtimes_node k t pl =
     (case map_of pl k of
        None \<Rightarrow> (if k = [] then Some pl else None)
      | Some NDir \<Rightarrow> Some pl
      | Some (NFile c p mt) \<Rightarrow> Some (AList.update k (NFile c p t) pl))"

text \<open>An operation on the payload tree of a staging directory.\<close>

definition on_payload :: "string \<Rightarrow> (payload \<Rightarrow> payload option) \<Rightarrow> bool svc" where
  "on_payload i f = stage i (\<lambda>t. case t of None \<Rightarrow> None | Some t \<Rightarrow>
     (case d_payload t of None \<Rightarrow> None | Some pl \<Rightarrow>
        map_option (\<lambda>pl'. t\<lparr>d_payload := Some pl'\<rparr>) (f pl)))"

section \<open>Materialization\<close>

text \<open>Directories first.\<close>

fun make_dirs :: "string \<Rightarrow> entry list \<Rightarrow> (errcode + unit) svc" where
  "make_dirs i [] = return (Inr ())"
| "make_dirs i (e # es) =
     (if ent_Type e \<noteq> EntryDirectory \<and> path_dir (ent_Path e) = ''.'' then make_dirs i es
      else case safe_rel (if ent_Type e = EntryDirectory then ent_Path e else path_dir (ent_Path e)) of
        None \<Rightarrow> return (Inl ErrInvalidPath)
      | Some k \<Rightarrow> do {
          ok \<leftarrow> on_payload i (mkdir_all k);
          if \<not> ok then return (Inl ErrInternal) else make_dirs i es
        })"

definition staged_segment :: "world \<Rightarrow> string \<Rightarrow> string \<Rightarrow> bytes option" where
  "staged_segment w i sid =
     (case staging w i of None \<Rightarrow> None | Some t \<Rightarrow>
        (case d_segments t of None \<Rightarrow> None | Some ss \<Rightarrow> map_of ss sid))"

text \<open>The rename of a staged segment into the payload, and into the packs directory.\<close>

definition rename_segment_payload :: "string \<Rightarrow> string \<Rightarrow> string \<Rightarrow> bool svc" where
  "rename_segment_payload i sid k = stage i (\<lambda>t. case t of None \<Rightarrow> None | Some t \<Rightarrow>
     (case (d_segments t, d_payload t) of
        (Some ss, Some pl) \<Rightarrow>
          (case map_of ss sid of None \<Rightarrow> None | Some c \<Rightarrow>
             map_option (\<lambda>pl'. t\<lparr>d_payload := Some pl', d_segments := Some (AList.delete sid ss)\<rparr>)
               (place_file k c pl))
      | _ \<Rightarrow> None))"

definition rename_segment_pack :: "string \<Rightarrow> string \<Rightarrow> bool svc" where
  "rename_segment_pack i sid = stage i (\<lambda>t. case t of None \<Rightarrow> None | Some t \<Rightarrow>
     (case (d_segments t, d_packs t) of
        (Some ss, Some ps) \<Rightarrow>
          (case map_of ss sid of None \<Rightarrow> None | Some c \<Rightarrow>
             Some (t\<lparr>d_packs := Some (AList.update sid c ps), d_segments := Some (AList.delete sid ss)\<rparr>))
      | _ \<Rightarrow> None))"

definition read_pack :: "string \<Rightarrow> string \<Rightarrow> bytes option svc" where
  "read_pack i sid = do {
     ok \<leftarrow> io;
     State (\<lambda>w. (if \<not> ok then None else case staging w i of None \<Rightarrow> None | Some t \<Rightarrow>
        (case d_packs t of None \<Rightarrow> None | Some ps \<Rightarrow> map_of ps sid), w))
   }"

text \<open>
  One pack: the entries of the tar stream against the allowed ones. A cancelled context and a
  failing write are faults of the checks at those points.
\<close>

fun extract_loop ::
  "server \<Rightarrow> string \<Rightarrow> (string \<rightharpoonup> entry) \<Rightarrow> tar_entry list \<Rightarrow> bool \<Rightarrow> string list
   \<Rightarrow> (errcode + string list) svc" where
  "extract_loop S i allowed [] clean seen = do {
     live_ctx \<leftarrow> io;
     return (if \<not> live_ctx then Inl ErrInternal else if clean then Inr seen else Inl ErrHashMismatch)
   }"
| "extract_loop S i allowed (h # hs) clean seen = do {
     live_ctx \<leftarrow> io;
     if \<not> live_ctx then return (Inl ErrInternal)
     else if \<not> th_Regular h then return (Inl ErrUnsupportedEntry)
     else case ValidatePortablePath (lib_unicode S) (th_Name h) of Some e \<Rightarrow> return (Inl e) | None \<Rightarrow>
       (case allowed (th_Name h) of None \<Rightarrow> return (Inl ErrInvalidPath) | Some entry \<Rightarrow>
         if th_Name h \<in> set seen then return (Inl ErrDuplicatePath)
         else if th_Size h \<noteq> ent_Size entry then return (Inl ErrHashMismatch)
         else case safe_rel (th_Name h) of None \<Rightarrow> return (Inl ErrInvalidPath) | Some k \<Rightarrow> do {
           dir \<leftarrow> on_payload i (mkdir_all (path_dir k));
           if \<not> dir then return (Inl ErrInternal)
           else do {
             created \<leftarrow> on_payload i (create_excl k []);
             if \<not> created then return (Inl ErrInternal)
             else do {
               let limit = nat (wrap64 (ent_Size entry + 1));
               let body = take limit (th_Data h);
               copied \<leftarrow> on_payload i (write_file k body);
               if \<not> copied \<or> (\<not> th_DataOK h \<and> length (th_Data h) < limit) then return (Inl ErrInternal)
               else if int (length body) \<noteq> ent_Size entry then return (Inl ErrHashMismatch)
               else extract_loop S i allowed hs clean (th_Name h # seen)
             }
           }
         })
   }"

definition extractPack :: "server \<Rightarrow> string \<Rightarrow> string \<Rightarrow> entry list \<Rightarrow> (errcode + unit) svc" where
  "extractPack S i sid declared = do {
     pack \<leftarrow> read_pack i sid;
     case pack of
       None \<Rightarrow> return (Inl ErrInternal)
     | Some b \<Rightarrow> do {
         reader \<leftarrow> io;
         if \<not> reader then return (Inl ErrInternal)
         else do {
           r \<leftarrow> extract_loop S i (map_of (rev (map (\<lambda>e. (ent_Path e, e)) declared)))
                  (fst (lib_unpack S b)) (snd (lib_unpack S b)) [];
           case r of
             Inl e \<Rightarrow> return (Inl e)
           | Inr seen \<Rightarrow>
               return (if length seen \<noteq> length (remdups (map ent_Path declared))
                       then Inl ErrHashMismatch else Inr ())
         }
       }
   }"

definition entriesBySegment :: "manifest \<Rightarrow> string \<Rightarrow> entry list" where
  "entriesBySegment m sid = filter (\<lambda>e. is_file e \<and> ent_SegmentID e = sid) (man_Entries m)"

definition place_segment :: "server \<Rightarrow> string \<Rightarrow> manifest \<Rightarrow> segment \<Rightarrow> (errcode + segment) svc" where
  "place_segment S i m seg = do {
     there \<leftarrow> exists_in (\<lambda>w sid. staged_segment w i sid) (seg_ID seg);
     if \<not> there then return (Inl ErrStateConflict)
     else if seg_Kind seg = SegmentRaw then
       (case entriesBySegment m (seg_ID seg) of
          [e] \<Rightarrow>
            (case safe_rel (ent_Path e) of None \<Rightarrow> return (Inl ErrInvalidPath) | Some k \<Rightarrow> do {
               ok \<leftarrow> rename_segment_payload i (seg_ID seg) k;
               return (if \<not> ok then Inl ErrInternal
                       else Inr (seg\<lparr>seg_StoragePath := ''payload/'' @ ent_Path e\<rparr>))
             })
        | _ \<Rightarrow> return (Inl ErrInvalidRequest))
     else if seg_Kind seg = SegmentTarZstd then do {
       packs \<leftarrow> mkdir_packs i;
       if \<not> packs then return (Inl ErrInternal)
       else do {
         ok \<leftarrow> rename_segment_pack i (seg_ID seg);
         if \<not> ok then return (Inl ErrInternal)
         else do {
           r \<leftarrow> extractPack S i (seg_ID seg) (entriesBySegment m (seg_ID seg));
           return (case r of Inl e \<Rightarrow> Inl e
             | Inr _ \<Rightarrow> Inr (seg\<lparr>seg_StoragePath := ''packs/'' @ seg_ID seg\<rparr>))
         }
       }
     }
     else return (Inl ErrInvalidRequest)
   }"

fun place_segments ::
  "server \<Rightarrow> string \<Rightarrow> manifest \<Rightarrow> segment list \<Rightarrow> (errcode + segment list) svc" where
  "place_segments S i m [] = return (Inr [])"
| "place_segments S i m (seg # segs) = do {
     r \<leftarrow> place_segment S i m seg;
     case r of Inl e \<Rightarrow> return (Inl e) | Inr seg' \<Rightarrow> do {
       rs \<leftarrow> place_segments S i m segs;
       return (case rs of Inl e \<Rightarrow> Inl e | Inr segs' \<Rightarrow> Inr (seg' # segs'))
     }
   }"

text \<open>Permission bits 0755 when any execute bit is set, else 0644.\<close>

definition executable :: "nat \<Rightarrow> bool" where
  "executable mode \<longleftrightarrow> and mode 73 \<noteq> 0"

fun apply_metadata :: "string \<Rightarrow> entry list \<Rightarrow> (errcode + unit) svc" where
  "apply_metadata i [] = return (Inr ())"
| "apply_metadata i (e # es) =
     (if \<not> is_file e then apply_metadata i es
      else case safe_rel (ent_Path e) of
        None \<Rightarrow> return (Inl ErrInvalidPath)
      | Some k \<Rightarrow> do {
          chmod \<leftarrow> on_payload i (chmod_node k (if executable (ent_Mode e) then 493 else 420));
          if \<not> chmod then return (Inl ErrInternal)
          else do {
            times \<leftarrow> on_payload i (chtimes_node k (ent_MTimeUnixNS e));
            if \<not> times then return (Inl ErrInternal) else apply_metadata i es
          }
        })"

definition read_node :: "string \<Rightarrow> string \<Rightarrow> node option svc" where
  "read_node i k = do {
     ok \<leftarrow> io;
     State (\<lambda>w. (if \<not> ok then None else case staging w i of None \<Rightarrow> None | Some t \<Rightarrow>
        (case d_payload t of None \<Rightarrow> None | Some pl \<Rightarrow>
          if k = [] then Some NDir else map_of pl k), w))
   }"

definition verify_entry :: "server \<Rightarrow> string \<Rightarrow> entry \<Rightarrow> errcode option svc" where
  "verify_entry S i e = do {
     live_ctx \<leftarrow> io;
     if \<not> live_ctx then return (Some ErrInternal)
     else case safe_rel (ent_Path e) of
       None \<Rightarrow> return (Some ErrInvalidPath)
     | Some k \<Rightarrow> do {
         info \<leftarrow> read_node i k;
         case info of
           None \<Rightarrow> return (Some ErrHashMismatch)
         | Some NDir \<Rightarrow> return (Some ErrUnsupportedEntry)
         | Some (NFile c _ _) \<Rightarrow>
             if int (length c) \<noteq> ent_Size e then return (Some ErrHashMismatch)
             else do {
               hashed \<leftarrow> io;
               return (if \<not> hashed then Some ErrInternal
                 else if lib_blake3 S c \<noteq> ent_Digest e then Some ErrHashMismatch else None)
             }
       }
   }"

fun verify :: "server \<Rightarrow> string \<Rightarrow> entry list \<Rightarrow> errcode option svc" where
  "verify S i [] = return None"
| "verify S i (e # es) =
     (if \<not> is_file e then verify S i es
      else do {
        r \<leftarrow> verify_entry S i e;
        rs \<leftarrow> verify S i es;
        return (case r of Some err \<Rightarrow> Some err | None \<Rightarrow> rs)
      })"

text \<open>\<^verbatim>\<open>os.Remove\<close> of the segments directory: absent is fine, not empty is an error.\<close>

definition remove_segments_dir :: "string \<Rightarrow> bool svc" where
  "remove_segments_dir i = do {
     ok \<leftarrow> io;
     State (\<lambda>w. if \<not> ok then (False, w) else case staging w i of None \<Rightarrow> (True, w) | Some t \<Rightarrow>
       (case d_segments t of
          None \<Rightarrow> (True, w)
        | Some ss \<Rightarrow> if ss = []
            then (True, w\<lparr>w_staging := AList.update i (t\<lparr>d_segments := None\<rparr>) (w_staging w)\<rparr>)
            else (False, w)))
   }"

record mat_result =
  Published :: manifest
  MaterializedBytes :: int

definition mat_Run :: "server \<Rightarrow> string \<Rightarrow> manifest \<Rightarrow> (errcode + mat_result) svc" where
  "mat_Run S i m = do {
     root \<leftarrow> mkdir_payload i;
     if \<not> root then return (Inl ErrInternal)
     else do {
       dirs \<leftarrow> make_dirs i (SortedEntries m);
       case dirs of Inl e \<Rightarrow> return (Inl e) | Inr _ \<Rightarrow> do {
         placed \<leftarrow> place_segments S i m (man_Segments m);
         case placed of Inl e \<Rightarrow> return (Inl e) | Inr segs \<Rightarrow> do {
           meta \<leftarrow> apply_metadata i (man_Entries m);
           case meta of Inl e \<Rightarrow> return (Inl e) | Inr _ \<Rightarrow> do {
             failure \<leftarrow> verify S i (man_Entries m);
             case failure of Some e \<Rightarrow> return (Inl e) | None \<Rightarrow> do {
               removed \<leftarrow> remove_segments_dir i;
               return (if \<not> removed then Inl ErrStateConflict
                 else Inr \<lparr>Published = m\<lparr>man_Segments := segs\<rparr>, MaterializedBytes = TotalBytes m\<rparr>)
             }
           }
         }
       }
     }
   }"

section \<open>What materialization changes\<close>

definition keeps_dirs :: "payload \<Rightarrow> payload \<Rightarrow> bool" where
  "keeps_dirs pl pl' \<longleftrightarrow> (\<forall>k. map_of pl k = Some NDir \<longrightarrow> map_of pl' k = Some NDir)"

lemma keeps_dirs_refl [simp]: "keeps_dirs pl pl"
  by (simp add: keeps_dirs_def)

lemma keeps_dirs_trans: "keeps_dirs a b \<Longrightarrow> keeps_dirs b c \<Longrightarrow> keeps_dirs a c"
  by (simp add: keeps_dirs_def)

lemma keeps_dirs_update: "map_of pl k \<noteq> Some NDir \<or> v = NDir \<Longrightarrow> keeps_dirs pl (AList.update k v pl)"
  by (auto simp: keeps_dirs_def update_conv')

lemma is_dir_keeps: "keeps_dirs pl pl' \<Longrightarrow> is_dir pl k \<Longrightarrow> is_dir pl' k"
  by (auto simp: is_dir_def keeps_dirs_def)

lemma mkdir_prefixes_keeps: "mkdir_prefixes ks pl = Some pl' \<Longrightarrow> keeps_dirs pl pl'"
proof (induction ks pl rule: mkdir_prefixes.induct)
  case (2 k ks pl)
  then show ?case
    by (auto split: option.splits node.splits
        intro: keeps_dirs_trans [OF keeps_dirs_update])
qed simp

lemma mkdir_prefixes_dir:
  "mkdir_prefixes ks pl = Some pl' \<Longrightarrow> k \<in> set ks \<Longrightarrow> map_of pl' k = Some NDir"
proof (induction ks pl rule: mkdir_prefixes.induct)
  case (2 a ks pl)
  have keep: "map_of q a = Some NDir \<Longrightarrow> mkdir_prefixes ks q = Some pl' \<Longrightarrow> map_of pl' a = Some NDir" for q
    using mkdir_prefixes_keeps [of ks q pl'] by (simp add: keeps_dirs_def)
  from "2.prems" show ?case
    using keep [of pl] keep [of "AList.update a NDir pl"]
    by (auto split: option.splits node.splits intro: "2.IH" simp: update_conv')
qed simp

lemma mkdir_all_dir: "mkdir_all k pl = Some pl' \<Longrightarrow> is_dir pl' k \<and> keeps_dirs pl pl'"
proof (cases "k = ''.'' \<or> k = []")
  case False
  assume m: "mkdir_all k pl = Some pl'"
  have "k \<in> set (path_prefixes k)"
    by (auto simp: path_prefixes_def Let_def image_iff intro!: bexI [of _ "length (split_on slash k)"])
       (metis Suc_leI length_greater_0_conv split_on_nonempty)
  then show ?thesis
    using m False mkdir_prefixes_dir [of "path_prefixes k" pl pl' k] mkdir_prefixes_keeps
    by (auto simp: mkdir_all_def is_dir_def)
qed (auto simp: mkdir_all_def is_dir_def)

lemma payload_ops_keep:
  "mkdir_all k pl = Some pl' \<Longrightarrow> keeps_dirs pl pl'"
  "place_file k c pl = Some pl' \<Longrightarrow> keeps_dirs pl pl'"
  "create_excl k c pl = Some pl' \<Longrightarrow> keeps_dirs pl pl'"
  "write_file k c pl = Some pl' \<Longrightarrow> keeps_dirs pl pl'"
  "chmod_node k n pl = Some pl' \<Longrightarrow> keeps_dirs pl pl'"
  "chtimes_node k x pl = Some pl' \<Longrightarrow> keeps_dirs pl pl'"
  by (auto simp: mkdir_all_dir place_file_def create_excl_def write_file_def chmod_node_def
      chtimes_node_def intro!: keeps_dirs_update split: if_splits option.splits node.splits)

text \<open>Only this staging directory changes, and no directory of its payload disappears.\<close>

definition grows :: "string \<Rightarrow> world \<Rightarrow> world \<Rightarrow> bool" where
  "grows i w w' \<longleftrightarrow> staging_only i w w'
     \<and> (\<forall>t pl. staging w i = Some t \<longrightarrow> d_payload t = Some pl \<longrightarrow>
          (\<exists>t' pl'. staging w' i = Some t' \<and> d_payload t' = Some pl' \<and> keeps_dirs pl pl'))"

interpretation grows: effect "grows i" for i
proof unfold_locales
  fix s t u assume "grows i s t" "grows i t u"
  then show "grows i s u"
    unfolding grows_def by (meson keeps_dirs_trans staging_only_trans)
qed (auto simp: grows_def)

lemma grows_io: "wp io (\<lambda>_. grows i w) w"
  by (rule wp_io) (auto simp: grows_def)

lemma grows_exists: "(\<And>w fs. tree (w\<lparr>w_faults := fs\<rparr>) = tree w) \<Longrightarrow> wp (exists_in tree k) (\<lambda>_. grows i w) w"
  by (rule wp_exists_in) (auto simp: grows_def)

lemma grows_stage:
  assumes "\<And>t pl t'. f (Some t) = Some t' \<Longrightarrow> d_payload t = Some pl \<Longrightarrow>
      \<exists>pl'. d_payload t' = Some pl' \<and> keeps_dirs pl pl'"
  shows "wp (stage i f) (\<lambda>_. grows i w) w"
  by (rule wp_stage_frame) (use assms in \<open>auto simp: grows_def\<close>)

lemma grows_on_payload:
  assumes "\<And>pl pl'. f pl = Some pl' \<Longrightarrow> keeps_dirs pl pl'"
  shows "wp (on_payload i f) (\<lambda>_. grows i w) w"
  unfolding on_payload_def by (rule grows_stage) (use assms in \<open>auto split: option.splits\<close>)

lemma grows_rename_payload: "wp (rename_segment_payload i sid k) (\<lambda>_. grows i w) w"
  unfolding rename_segment_payload_def
  by (rule grows_stage) (auto split: option.splits dest: payload_ops_keep)

lemma grows_rename_pack: "wp (rename_segment_pack i sid) (\<lambda>_. grows i w) w"
  unfolding rename_segment_pack_def by (rule grows_stage) (auto split: option.splits)

lemma grows_mkdir_packs: "wp (mkdir_packs i) (\<lambda>_. grows i w) w"
  unfolding mkdir_packs_def by (rule grows_stage) (auto simp: Let_def the_tdir_def)

lemma grows_reads:
  "wp (read_pack i sid) (\<lambda>_. grows i w) w" "wp (read_node i k) (\<lambda>_. grows i w) w"
  unfolding read_pack_def read_node_def by (simp_all, (rule wp_io, simp add: grows_def)+)

lemma grows_payload_ops:
  "wp (on_payload i (mkdir_all k)) (\<lambda>_. grows i w) w"
  "wp (on_payload i (create_excl k c)) (\<lambda>_. grows i w) w"
  "wp (on_payload i (write_file k c)) (\<lambda>_. grows i w) w"
  "wp (on_payload i (chmod_node k n)) (\<lambda>_. grows i w) w"
  "wp (on_payload i (chtimes_node k x)) (\<lambda>_. grows i w) w"
  by (rule grows_on_payload; erule payload_ops_keep)+

lemmas grows_prims = grows_io grows_rename_payload grows_rename_pack grows_mkdir_packs grows_reads
  grows_payload_ops

lemma grows_extract_loop: "wp (extract_loop S i al hs cl seen) (\<lambda>_. grows i w) w"
proof (induction hs arbitrary: seen w)
  case Nil
  show ?case unfolding extract_loop.simps by (intro grows.steps grows_prims)
next
  case (Cons h hs)
  show ?case unfolding extract_loop.simps by (intro grows.steps grows_prims Cons.IH)
qed

lemma grows_place_segments: "wp (place_segments S i m segs) (\<lambda>_. grows i w) w"
proof (induction segs arbitrary: w)
  case Nil
  show ?case unfolding place_segments.simps by (rule grows.ret)
next
  case (Cons seg segs)
  show ?case
    unfolding place_segments.simps place_segment_def extractPack_def
    by (intro grows.steps grows_prims Cons.IH grows_exists grows_extract_loop)
      (simp add: staged_segment_def fun_eq_iff)
qed

lemma grows_apply_metadata: "wp (apply_metadata i es) (\<lambda>_. grows i w) w"
proof (induction es arbitrary: w)
  case Nil
  show ?case unfolding apply_metadata.simps by (rule grows.ret)
next
  case (Cons e es)
  show ?case unfolding apply_metadata.simps by (intro grows.steps grows_prims Cons.IH)
qed

section \<open>What materialization guarantees\<close>

definition payload_of :: "world \<Rightarrow> string \<Rightarrow> payload option" where
  "payload_of w i = Option.bind (staging w i) d_payload"

definition dirs_ok :: "payload \<Rightarrow> entry list \<Rightarrow> bool" where
  "dirs_ok pl es \<longleftrightarrow>
     (\<forall>e\<in>set es. ent_Type e = EntryDirectory \<longrightarrow> (\<exists>k. safe_rel (ent_Path e) = Some k \<and> is_dir pl k))"

definition file_there :: "server \<Rightarrow> payload \<Rightarrow> entry \<Rightarrow> bool" where
  "file_there S pl e \<longleftrightarrow>
     (\<exists>k c p mt. safe_rel (ent_Path e) = Some k \<and> map_of pl k = Some (NFile c p mt)
        \<and> int (length c) = ent_Size e \<and> lib_blake3 S c = ent_Digest e)"

definition files_ok :: "server \<Rightarrow> payload \<Rightarrow> entry list \<Rightarrow> bool" where
  "files_ok S pl es \<longleftrightarrow> (\<forall>e\<in>set es. is_file e \<longrightarrow> file_there S pl e)"

lemma growsD:
  assumes "grows i w w'"
  shows "staging_only i w w'"
    and "payload_of w i = Some pl \<Longrightarrow> \<exists>pl'. payload_of w' i = Some pl' \<and> keeps_dirs pl pl'"
  using assms by (auto simp: grows_def payload_of_def bind_eq_Some_conv)

lemma dirs_ok_keeps: "keeps_dirs pl pl' \<Longrightarrow> dirs_ok pl es \<Longrightarrow> dirs_ok pl' es"
  unfolding dirs_ok_def using is_dir_keeps by blast

lemma wp_on_payload:
  assumes "\<And>w'. grows i w w' \<Longrightarrow> Q False w'"
    and "\<And>w' pl pl'. grows i w w' \<Longrightarrow> payload_of w i = Some pl \<Longrightarrow> f pl = Some pl' \<Longrightarrow>
           payload_of w' i = Some pl' \<Longrightarrow> Q True w'"
    and "\<And>pl pl'. f pl = Some pl' \<Longrightarrow> keeps_dirs pl pl'"
  shows "wp (on_payload i f) Q w"
  unfolding on_payload_def
proof (rule wp_stage_frame, goal_cases)
  case (1 w') then show ?case by (intro assms(1)) (auto simp: grows_def)
next
  case (2 w' t)
  then obtain t0 pl pl' where "staging w i = Some t0" "d_payload t0 = Some pl" "f pl = Some pl'"
    "t = t0\<lparr>d_payload := Some pl'\<rparr>" by (auto split: option.splits)
  with 2 assms(3) [of pl pl'] show ?case by (intro assms(2)) (auto simp: grows_def payload_of_def)
qed

lemma make_dirs_post:
  assumes "payload_of w i \<noteq> None"
  shows "wp (make_dirs i es) (\<lambda>r w'. grows i w w' \<and>
    (r = Inr () \<longrightarrow> (\<exists>pl. payload_of w' i = Some pl \<and> dirs_ok pl es))) w"
  using assms
proof (induction es arbitrary: w)
  case Nil
  then show ?case by (auto simp: grows.refl dirs_ok_def)
next
  case (Cons e es)
  show ?case
  proof (cases "ent_Type e \<noteq> EntryDirectory \<and> path_dir (ent_Path e) = ''.''")
    case True
    have "wp (make_dirs i es) (\<lambda>r w'. grows i w w' \<and>
        (r = Inr () \<longrightarrow> (\<exists>pl. payload_of w' i = Some pl \<and> dirs_ok pl (e # es)))) w"
      using Cons.IH [OF Cons.prems] by (rule wp_mono) (use True in \<open>auto simp: dirs_ok_def\<close>)
    with True show ?thesis by simp
  next
    case False
    let ?p = "if ent_Type e = EntryDirectory then ent_Path e else path_dir (ent_Path e)"
    show ?thesis
    proof (cases "safe_rel ?p")
      case None
      then show ?thesis using False by (auto simp: grows.refl split: if_splits)
    next
      case (Some k)
      have "wp (on_payload i (mkdir_all k)) (\<lambda>ok. wp (if \<not> ok then return (Inl ErrInternal) else make_dirs i es)
        (\<lambda>r w'. grows i w w' \<and> (r = Inr () \<longrightarrow> (\<exists>pl. payload_of w' i = Some pl \<and> dirs_ok pl (e # es))))) w"
      proof (rule wp_on_payload, goal_cases)
        case (1 w') then show ?case by simp
      next
        case (2 w1 pl pl1)
        have "wp (make_dirs i es) (\<lambda>r w'. grows i w1 w' \<and>
            (r = Inr () \<longrightarrow> (\<exists>pl. payload_of w' i = Some pl \<and> dirs_ok pl es))) w1"
          using Cons.IH [of w1] 2(4) by simp
        then have "wp (make_dirs i es) (\<lambda>r w'. grows i w w' \<and>
            (r = Inr () \<longrightarrow> (\<exists>pl. payload_of w' i = Some pl \<and> dirs_ok pl (e # es)))) w1"
        proof (rule wp_mono, safe)
          fix w' assume g: "grows i w1 w'"
          then show "grows i w w'" using 2(1) grows.trans by blast
          fix pl' assume p: "payload_of w' i = Some pl'" "dirs_ok pl' es"
          have "keeps_dirs pl1 pl'" using growsD(2) [OF g 2(4)] p(1) by auto
          moreover have "is_dir pl1 k" using mkdir_all_dir [OF 2(3)] by simp
          ultimately have "is_dir pl' k" by (rule is_dir_keeps)
          with p Some show "\<exists>pl. payload_of w' i = Some pl \<and> dirs_ok pl (e # es)"
            by (auto simp: dirs_ok_def split: if_splits)
        next
          fix w' assume g: "grows i w1 w'"
          then show "grows i w w'" using 2(1) grows.trans by blast
        qed
        then show ?case by simp
      qed (erule payload_ops_keep)
      moreover have "\<not> (ent_Type e \<noteq> EntryDirectory \<and> path_dir (ent_Path e) = ''.'')" using False by blast
      ultimately show ?thesis using Some by (simp del: de_Morgan_conj)
    qed
  qed
qed

definition seg_same :: "segment \<Rightarrow> segment \<Rightarrow> bool" where
  "seg_same s s' \<longleftrightarrow> s' = s\<lparr>seg_StoragePath := seg_StoragePath s'\<rparr>"

lemma place_segment_post:
  "wp (place_segment S i m seg) (\<lambda>r w'. \<forall>seg'. r = Inr seg' \<longrightarrow> seg_same seg seg') w"
  unfolding place_segment_def wp_def
  by (auto simp: seg_same_def split: prod.splits if_splits option.splits sum.splits list.splits)

lemma place_segments_post:
  "wp (place_segments S i m segs) (\<lambda>r w'. \<forall>segs'. r = Inr segs' \<longrightarrow> list_all2 seg_same segs segs') w"
proof (induction segs arbitrary: w)
  case (Cons seg segs)
  show ?case
    unfolding place_segments.simps
  proof (rule wp_bindI [OF place_segment_post], goal_cases)
    case (1 r w1)
    then show ?case
      by (cases r) (auto intro!: wp_mono [OF Cons.IH] split: sum.splits)
  qed
qed simp

lemma wp_read_node:
  assumes "\<And>w'. faults_only w w' \<Longrightarrow> Q None w'"
    and "\<And>w' pl n. faults_only w w' \<Longrightarrow> payload_of w i = Some pl \<Longrightarrow>
           (if k = [] then Some NDir else map_of pl k) = Some n \<Longrightarrow> Q (Some n) w'"
  shows "wp (read_node i k) Q w"
  unfolding read_node_def
proof (simp, rule wp_io, simp, goal_cases)
  case (1 ok fs)
  show ?case
  proof (cases "ok \<and> payload_of w i \<noteq> None")
    case True
    then obtain pl where pl: "payload_of w i = Some pl" by auto
    then show ?thesis
      using True assms(1) [of "w\<lparr>w_faults := fs\<rparr>"] assms(2) [of "w\<lparr>w_faults := fs\<rparr>" pl]
      by (cases "if k = [] then Some NDir else map_of pl k")
        (auto simp: payload_of_def bind_eq_Some_conv split: if_splits)
  next
    case False
    then show ?thesis using assms(1) by (auto simp: payload_of_def split: option.splits)
  qed
qed

lemma payload_of_faults: "faults_only w w' \<Longrightarrow> payload_of w' i = payload_of w i"
  by (auto simp: faults_only_def payload_of_def)

lemma wp_io_faults: "(\<And>ok w'. faults_only w w' \<Longrightarrow> Q ok w') \<Longrightarrow> wp io Q w"
  by (rule wp_io) auto

lemma verify_entry_post:
  "wp (verify_entry S i e) (\<lambda>r w'. faults_only w w' \<and>
     (r = None \<longrightarrow> (\<exists>pl. payload_of w i = Some pl \<and> file_there S pl e))) w"
  unfolding verify_entry_def
proof (simp, rule wp_io_faults, goal_cases)
  case (1 ok w1)
  show ?case
  proof (cases "ok \<and> safe_rel (ent_Path e) \<noteq> None")
    case False
    then show ?thesis using 1 by (auto split: option.splits)
  next
    case True
    then obtain k where k: "safe_rel (ent_Path e) = Some k" by auto
    have "wp (read_node i k) (\<lambda>info. wp (case info of
           None \<Rightarrow> return (Some ErrHashMismatch)
         | Some NDir \<Rightarrow> return (Some ErrUnsupportedEntry)
         | Some (NFile c _ _) \<Rightarrow>
             if int (length c) \<noteq> ent_Size e then return (Some ErrHashMismatch)
             else State_Monad.bind io (\<lambda>hashed.
               return (if \<not> hashed then Some ErrInternal
                 else if lib_blake3 S c \<noteq> ent_Digest e then Some ErrHashMismatch else None)))
         (\<lambda>r w'. faults_only w w' \<and> (r = None \<longrightarrow> (\<exists>pl. payload_of w i = Some pl \<and> file_there S pl e)))) w1"
    proof (rule wp_read_node, goal_cases)
      case (1 w2) then show ?case using \<open>faults_only w w1\<close> faults.trans by auto
    next
      case (2 w2 pl n)
      have f: "faults_only w w2" using 2(1) \<open>faults_only w w1\<close> faults.trans by blast
      have pl: "payload_of w i = Some pl" using 2(2) payload_of_faults [OF \<open>faults_only w w1\<close>] by simp
      show ?case
      proof (cases n)
        case NDir then show ?thesis using f by simp
      next
        case (NFile c p mt)
        then have "map_of pl k = Some (NFile c p mt)" using 2(3) by (auto split: if_splits)
        then have there: "int (length c) = ent_Size e \<Longrightarrow> lib_blake3 S c = ent_Digest e \<Longrightarrow>
            file_there S pl e" using k by (auto simp: file_there_def)
        show ?thesis
          using NFile f pl there
          by (auto intro!: wp_io_faults dest: faults.trans)
      qed
    qed
    then show ?thesis using True k by simp
  qed
qed

lemma verify_post:
  "wp (verify S i es) (\<lambda>r w'. faults_only w w' \<and>
     (r = None \<longrightarrow> (\<forall>pl. payload_of w i = Some pl \<longrightarrow> files_ok S pl es))) w"
proof (induction es arbitrary: w)
  case Nil
  show ?case by (simp add: files_ok_def)
next
  case (Cons e es)
  show ?case
  proof (cases "is_file e")
    case False
    then show ?thesis using Cons.IH [of w] by (simp add: files_ok_def)
  next
    case True
    have "wp (State_Monad.bind (verify_entry S i e) (\<lambda>r. State_Monad.bind (verify S i es)
        (\<lambda>rs. return (case r of Some err \<Rightarrow> Some err | None \<Rightarrow> rs)))) (\<lambda>r w'. faults_only w w' \<and>
        (r = None \<longrightarrow> (\<forall>pl. payload_of w i = Some pl \<longrightarrow> files_ok S pl (e # es)))) w"
    proof (rule wp_bindI [OF verify_entry_post], rule wp_bindI [OF Cons.IH], goal_cases)
      case (1 r w1 rs w2)
      then show ?case
        by (auto simp: files_ok_def payload_of_faults dest: faults.trans split: option.splits)
    qed
    then show ?thesis using True by simp
  qed
qed

text \<open>The published manifest differs from the client's in storage paths only, which no rule looks at.\<close>

lemma seg_same_simps:
  assumes "seg_same s s'"
  shows "seg_ID s' = seg_ID s" "seg_Kind s' = seg_Kind s" "seg_WireSize s' = seg_WireSize s"
    "seg_Digest s' = seg_Digest s" "segment_ok s' = segment_ok s"
proof -
  have s': "s' = s\<lparr>seg_StoragePath := seg_StoragePath s'\<rparr>" using assms by (simp add: seg_same_def)
  show "seg_ID s' = seg_ID s" by (subst s') simp
  show "seg_Kind s' = seg_Kind s" by (subst s') simp
  show "seg_WireSize s' = seg_WireSize s" by (subst s') simp
  show "seg_Digest s' = seg_Digest s" by (subst s') simp
  show "segment_ok s' = segment_ok s" by (subst s') (simp add: segment_ok_def)
qed

lemma validate_segments_same:
  "list_all2 seg_same ss ss' \<Longrightarrow> validate_segments ss' ids = validate_segments ss ids"
proof (induction ss ss' arbitrary: ids rule: list_all2_induct)
  case (Cons s ss s' ss')
  show ?case
    unfolding validate_segments.simps seg_same_simps [OF Cons.hyps(1)] Cons.IH ..
qed simp

lemma check_referenced_same:
  "list_all2 seg_same ss ss' \<Longrightarrow> check_referenced r ss' = check_referenced r ss"
proof (induction ss ss' rule: list_all2_induct)
  case (Cons s ss s' ss')
  show ?case unfolding check_referenced.simps seg_same_simps [OF Cons.hyps(1)] Cons.IH ..
qed simp

lemma find_segment_same:
  assumes "list_all2 seg_same ss ss'"
  shows "rel_option seg_same (find (\<lambda>s. seg_ID s = i) ss) (find (\<lambda>s. seg_ID s = i) ss')"
  using assms by (induction ss ss' rule: list_all2_induct) (auto simp: seg_same_simps)

lemma validate_file_same:
  assumes "list_all2 seg_same (man_Segments m) segs'"
  shows "validate_file (m\<lparr>man_Segments := segs'\<rparr>) ids raw e = validate_file m ids raw e"
  using find_segment_same [OF assms, of "ent_SegmentID e"]
  by (auto simp: validate_file_def SegmentByID_def option_rel_Some1 option_rel_Some2 seg_same_simps
      split: option.splits)

lemma validate_entries_same:
  assumes "list_all2 seg_same (man_Segments m) segs'"
  shows "validate_entries U (m\<lparr>man_Segments := segs'\<rparr>) roots ids es seen raw
    = validate_entries U m roots ids es seen raw"
  by (induction es arbitrary: seen raw)
    (simp_all add: validate_entry_def validate_file_same [OF assms] split: option.splits sum.splits prod.splits)

lemma Validate_published:
  assumes "list_all2 seg_same (man_Segments m) segs'"
  shows "Validate U (m\<lparr>man_Segments := segs'\<rparr>) = Validate U m"
proof -
  let ?m = "m\<lparr>man_Segments := segs'\<rparr>"
  have sel: "man_SchemaVersion ?m = man_SchemaVersion m" "man_TransferID ?m = man_TransferID m"
    "man_CreatedAt ?m = man_CreatedAt m" "man_Note ?m = man_Note m" "man_Roots ?m = man_Roots m"
    "man_DigestAlgorithm ?m = man_DigestAlgorithm m" "man_Segments ?m = segs'"
    "man_Entries ?m = man_Entries m" by simp_all
  have ne: "segs' = [] \<longleftrightarrow> man_Segments m = []" using assms by auto
  show ?thesis
    unfolding Validate_def sel validate_segments_same [OF assms] validate_entries_same [OF assms]
      check_referenced_same [OF assms] ne ..
qed

definition run_ok :: "server \<Rightarrow> string \<Rightarrow> manifest \<Rightarrow> mat_result \<Rightarrow> world \<Rightarrow> bool" where
  "run_ok S i m res w' \<longleftrightarrow>
     (\<exists>t pl. staging w' i = Some t \<and> d_payload t = Some pl \<and> d_segments t = None
        \<and> files_ok S pl (man_Entries m) \<and> dirs_ok pl (man_Entries m))
     \<and> (\<exists>segs. list_all2 seg_same (man_Segments m) segs \<and> Published res = m\<lparr>man_Segments := segs\<rparr>)
     \<and> MaterializedBytes res = TotalBytes m"

lemma remove_segments_dir_post:
  assumes "payload_of w i = Some pl"
  shows "wp (remove_segments_dir i) (\<lambda>ok w'. staging_only i w w'
    \<and> (ok \<longrightarrow> (\<exists>t. staging w' i = Some t \<and> d_payload t = Some pl \<and> d_segments t = None))) w"
  unfolding remove_segments_dir_def
  by (simp, rule wp_io)
    (use assms in \<open>auto simp: payload_of_def bind_eq_Some_conv update_conv' staging_only_def split: option.splits\<close>)

lemma set_SortedEntries: "set (SortedEntries m) = set (man_Entries m)"
  by (simp add: SortedEntries_def)

lemma mat_Run_post:
  "wp (mat_Run S i m) (\<lambda>r w'. staging_only i w w' \<and> (\<forall>res. r = Inr res \<longrightarrow> run_ok S i m res w')) w"
  unfolding mat_Run_def
proof (rule wp_bindI [of _ "\<lambda>ok w'. staging_only i w w' \<and> (ok \<longrightarrow> payload_of w' i \<noteq> None)"], goal_cases)
  case 1
  show ?case
    unfolding mkdir_payload_def
    by (rule wp_stage_frame) (auto simp: payload_of_def Let_def ensure_dir_def split: option.splits)
next
  case (2 root w1)
  show ?case
  proof (cases root)
    case True
    then have pne: "payload_of w1 i \<noteq> None" and f1: "staging_only i w w1" using 2 by auto
    show ?thesis
    proof (simp only: True not_True_eq_False if_False, rule wp_bindI [OF make_dirs_post [OF pne]], goal_cases)
      case (1 dirs w2)
      then have f2: "staging_only i w w2" using f1 growsD(1) staging_only_trans by blast
      show ?case
      proof (cases dirs)
        case (Inr u)
        then obtain pl where pl: "payload_of w2 i = Some pl" "dirs_ok pl (SortedEntries m)" using 1 by auto
        note place = wp_conj [OF grows_place_segments [of S i m "man_Segments m" w2]
            place_segments_post [of S i m "man_Segments m" w2]]
        show ?thesis
        proof (simp only: Inr sum.case, rule wp_bindI [OF place], goal_cases)
          case (1 placed w3)
          then have g3: "grows i w2 w3" by blast
          show ?case
          proof (cases placed)
            case (Inr segs)
            then have segs: "list_all2 seg_same (man_Segments m) segs" using 1 by blast
            show ?thesis
            proof (simp only: Inr sum.case, rule wp_bindI [OF grows_apply_metadata], goal_cases)
              case (1 meta w4)
              have g4: "grows i w2 w4" using g3 1 grows.trans by blast
              then obtain pl4 where pl4: "payload_of w4 i = Some pl4" "keeps_dirs pl pl4"
                using growsD(2) pl(1) by blast
              have f4: "staging_only i w w4" using f2 growsD(1) [OF g4] staging_only_trans by blast
              have d4: "dirs_ok pl4 (man_Entries m)"
                using dirs_ok_keeps [OF pl4(2) pl(2)] by (simp add: dirs_ok_def set_SortedEntries)
              show ?case
              proof (cases meta)
                case (Inr u')
                show ?thesis
                proof (simp only: Inr sum.case, rule wp_bindI [OF verify_post], goal_cases)
                  case (1 failure w5)
                  have f5: "staging_only i w w5"
                    using f4 1 by (auto simp: faults_only_def)
                  show ?case
                  proof (cases failure)
                    case None
                    have pl5: "payload_of w5 i = Some pl4" using 1 pl4(1) payload_of_faults by auto
                    have files: "files_ok S pl4 (man_Entries m)" using 1 None pl4(1) by blast
                    show ?thesis
                      by (simp only: None option.case, rule wp_bindI [OF remove_segments_dir_post [OF pl5]])
                        (use f5 files d4 segs in \<open>auto simp: run_ok_def intro: staging_only_trans\<close>)
                  qed (use f5 in simp)
                qed
              qed (use f4 in simp)
            qed
          next
            case (Inl e)
            then show ?thesis using staging_only_trans [OF f2 growsD(1) [OF g3]] by simp
          qed
        qed
      qed (use f2 in simp)
    qed
  qed (use 2 in simp)
qed


definition sample_staged :: tdir where
  "sample_staged = empty_tdir\<lparr>d_payload := Some [], d_segments := Some [(''s-1'', ''hello'')],
     d_packs := Some []\<rparr>"

definition sample_world :: world where
  "sample_world = \<lparr>w_db = sample_db, w_staging = [(sample_id, sample_staged)], w_live = [],
     w_trash = [], w_cache = newManifestCache 64, w_faults = []\<rparr>"


end
