(* ===== verification/SSS_Invariant.thy ===== *)
theory SSS_Invariant
  imports SSS_Materialize
begin

text \<open>
  The invariant of the server's world, which every handler, the janitor and the start-up
  reconciliation preserve under any faults. It states what the storage contract of the
  repository promises: whatever is in live is complete, whatever is cached is what is live, a
  public code only ever belongs to a transfer that was committed, and a transfer that still
  accepts bytes has nothing in live.
\<close>

definition dir_complete :: "server \<Rightarrow> string \<Rightarrow> tdir \<Rightarrow> bool" where
  "dir_complete S i t \<longleftrightarrow>
     (\<exists>m pl. d_manifest t = Some m \<and> d_payload t = Some pl
        \<and> Validate (lib_unicode S) m = None \<and> man_TransferID m = i
        \<and> files_ok S pl (man_Entries m) \<and> dirs_ok pl (man_Entries m))"

definition row_ok :: "transfer_row \<Rightarrow> bool" where
  "row_ok r \<longleftrightarrow>
     1 \<le> tr_requested_ttl_minutes r \<and> tr_requested_ttl_minutes r \<le> 3000
     \<and> (case tr_code r of
          None \<Rightarrow> tr_state r \<noteq> StateCommitted \<and> tr_state r \<noteq> StateExpired
            \<and> tr_committed_at r = None \<and> tr_expires_at r = None
        | Some c \<Rightarrow> tr_state r \<in> {StateCommitted, StateExpired, StateDeleting}
            \<and> (\<exists>a m. tr_committed_at r = Some a \<and> 0 \<le> a \<and> tr_expires_at r = Some (a + 60 * m)
                 \<and> 1 \<le> m \<and> m \<le> 3000))"

abbreviation live_manifest :: "world \<Rightarrow> string \<Rightarrow> manifest option" where
  "live_manifest w \<equiv> (\<lambda>i. Option.bind (live w i) d_manifest)"

definition rows_ok :: "db \<Rightarrow> bool" where
  "rows_ok d \<longleftrightarrow> (\<forall>i r. trow d i = Some r \<longrightarrow> row_ok r)"

definition areas_ok :: "server \<Rightarrow> world \<Rightarrow> bool" where
  "areas_ok S w \<longleftrightarrow> (\<forall>i t. live w i = Some t \<longrightarrow>
     dir_complete S i t
     \<and> (\<forall>r. trow (w_db w) i = Some r \<longrightarrow> tr_state r \<noteq> StateCreated \<and> tr_state r \<noteq> StateUploading)
     \<and> (\<forall>t'. staging w i = Some t' \<longrightarrow> d_segments t' = None))"

definition server_inv :: "server \<Rightarrow> world \<Rightarrow> bool" where
  "server_inv S w \<longleftrightarrow>
     db_ok (w_db w) \<and> rows_ok (w_db w) \<and> areas_ok S w
     \<and> cache_get (w_cache w) \<subseteq>\<^sub>m live_manifest w"

definition config_ok :: "server \<Rightarrow> bool" where
  "config_ok S \<longleftrightarrow> 1 \<le> DefaultTTL S \<and> DefaultTTL S \<le> 3000"

lemma server_invD:
  assumes "server_inv S w"
  shows "db_ok (w_db w)" and "rows_ok (w_db w)" and "areas_ok S w"
    and "cache_get (w_cache w) \<subseteq>\<^sub>m live_manifest w"
  using assms by (simp_all add: server_inv_def)

lemma inv_faults [simp]: "server_inv S (w\<lparr>w_faults := fs\<rparr>) = server_inv S w"
  by (simp add: server_inv_def areas_ok_def)

lemma inv_faults_only: "faults_only w w' \<Longrightarrow> server_inv S w' = server_inv S w"
  by (auto simp: faults_only_def)

lemma inv_trash [simp]: "server_inv S (w\<lparr>w_trash := tr\<rparr>) = server_inv S w"
  by (simp add: server_inv_def areas_ok_def)

section \<open>Changes of the database\<close>

text \<open>The rows of a database after a change refine those before: same ids, states allowed to move on.\<close>

definition rows_step :: "db \<Rightarrow> db \<Rightarrow> bool" where
  "rows_step d d' \<longleftrightarrow> (\<forall>i r'. trow d' i = Some r' \<longrightarrow> row_ok r' \<and>
     (\<exists>r. trow d i = Some r \<and>
        (tr_state r' \<in> {StateCreated, StateUploading} \<longrightarrow> tr_state r \<in> {StateCreated, StateUploading})))"

lemma inv_db:
  assumes "server_inv S w" and "db_ok d'" and "rows_step (w_db w) d'"
  shows "server_inv S (w\<lparr>w_db := d'\<rparr>)"
proof -
  note inv = server_invD [OF assms(1)]
  have "rows_ok d'" using assms(3) by (auto simp: rows_ok_def rows_step_def)
  moreover have "areas_ok S (w\<lparr>w_db := d'\<rparr>)"
    unfolding areas_ok_def
  proof (intro allI impI conjI)
    fix i t assume "live (w\<lparr>w_db := d'\<rparr>) i = Some t"
    then have t: "live w i = Some t" by simp
    then show "dir_complete S i t" using inv(3) by (simp add: areas_ok_def)
    fix r' assume "trow (w_db (w\<lparr>w_db := d'\<rparr>)) i = Some r'"
    then obtain r where "trow (w_db w) i = Some r"
      "tr_state r' \<in> {StateCreated, StateUploading} \<longrightarrow> tr_state r \<in> {StateCreated, StateUploading}"
      using assms(3) by (auto simp: rows_step_def)
    with t inv(3) have "tr_state r' \<notin> {StateCreated, StateUploading}" by (auto simp: areas_ok_def)
    then show "tr_state r' \<noteq> StateCreated" "tr_state r' \<noteq> StateUploading" by auto
  next
    fix i t t' assume "live (w\<lparr>w_db := d'\<rparr>) i = Some t" "staging (w\<lparr>w_db := d'\<rparr>) i = Some t'"
    then show "d_segments t' = None" using inv(3) by (auto simp: areas_ok_def)
  qed
  ultimately show ?thesis using assms(2) inv(4) by (simp add: server_inv_def)
qed

lemma rows_step_refl: "rows_ok d \<Longrightarrow> rows_step d d"
  by (auto simp: rows_step_def rows_ok_def)

lemma rows_step_same: "rows_ok d \<Longrightarrow> transfers d' = transfers d \<Longrightarrow> rows_step d d'"
  by (auto simp: rows_step_def rows_ok_def)

lemma rows_step_modify:
  assumes "rows_ok d" and "\<And>r. tr_id (f r) = tr_id r"
    and "\<And>r. trow d i = Some r \<Longrightarrow> row_ok r \<Longrightarrow> row_ok (f r) \<and>
      (tr_state (f r) \<in> {StateCreated, StateUploading} \<longrightarrow> tr_state r \<in> {StateCreated, StateUploading})"
  shows "rows_step d (modify_transfer i f d)"
  unfolding rows_step_def trow_modify [of f, OF assms(2)]
  using assms(1,3) by (auto simp: rows_ok_def split: if_splits)

text \<open>Failed transactions change nothing.\<close>

lemma snd_db_write:
  "snd (db_write ok fn d) = d \<or> (\<exists>x d'. ok \<and> fn d = Inr (x, d') \<and> snd (db_write ok fn d) = d')"
  by (auto simp: db_write_def split: sum.splits)

lemma rows_step_write:
  assumes "rows_ok d" and "\<And>x d'. fn d = Inr (x, d') \<Longrightarrow> rows_step d d'"
  shows "rows_step d (snd (db_write ok fn d))"
  using snd_db_write [of ok fn d] assms rows_step_refl by auto

lemma rows_step_claims:
  assumes "rows_ok d"
  shows "rows_step d (snd (db_CreateClaim ok c d))" and "rows_step d (snd (db_RenewClaim ok i at d))"
    and "rows_step d (snd (db_CompleteClaim ok i at d))"
    and "rows_step d (snd (db_SetSegmentProgress ok a b n st d))"
    and "rows_step d (snd (db_InsertSegment ok seg d))"
    and "rows_step d (snd (db_PurgeExpiredIdempotency ok now d))"
  unfolding db_CreateClaim_def db_RenewClaim_def db_CompleteClaim_def db_SetSegmentProgress_def
    db_InsertSegment_def db_PurgeExpiredIdempotency_def
  by (rule rows_step_write [OF assms];
      auto intro!: rows_step_same [OF assms] simp: Let_def split: if_splits option.splits)+

lemma row_ok_code_None: "row_ok r \<Longrightarrow> is_precommit (tr_state r) \<Longrightarrow> tr_code r = None"
  by (auto simp: row_ok_def is_precommit_def split: option.splits)

text \<open>A state may be set when it fits the row.\<close>

definition state_fits :: "transfer_row \<Rightarrow> tstate \<Rightarrow> bool" where
  "state_fits r s \<longleftrightarrow>
     (case tr_code r of None \<Rightarrow> s \<noteq> StateCommitted \<and> s \<noteq> StateExpired
      | Some c \<Rightarrow> s \<in> {StateCommitted, StateExpired, StateDeleting})
     \<and> (s \<in> {StateCreated, StateUploading} \<longrightarrow> tr_state r \<in> {StateCreated, StateUploading})"

lemma rows_step_SetState:
  assumes "rows_ok d" and "\<And>r. trow d i = Some r \<Longrightarrow> state_fits r s"
  shows "rows_step d (snd (db_SetState ok i s d))"
  unfolding db_SetState_def
  by (rule rows_step_write [OF assms(1)], clarsimp, rule rows_step_modify [OF assms(1)])
    (use assms in \<open>auto simp: row_ok_def state_fits_def split: option.splits\<close>)

lemma rows_step_Fail:
  assumes "rows_ok d" and "\<And>r. trow d i = Some r \<Longrightarrow> tr_code r = None"
  shows "rows_step d (snd (db_Fail ok i e d))"
  unfolding db_Fail_def
  by (rule rows_step_write [OF assms(1)], clarsimp, rule rows_step_modify [OF assms(1)])
    (use assms in \<open>auto simp: row_ok_def split: option.splits\<close>)

lemma rows_step_SetNoteAndTTL:
  assumes "rows_ok d" and "1 \<le> ttl" and "ttl \<le> 3000"
  shows "rows_step d (snd (db_SetNoteAndTTL ok i note ttl d))"
  unfolding db_SetNoteAndTTL_def
  by (rule rows_step_write [OF assms(1)], clarsimp, rule rows_step_modify [OF assms(1)])
    (use assms in \<open>auto simp: row_ok_def split: option.splits\<close>)

lemma rows_step_AddWireBytes:
  assumes "rows_ok d"
  shows "rows_step d (snd (db_AddWireBytes ok i n d))"
  unfolding db_AddWireBytes_def
  by (rule rows_step_write [OF assms(1)], clarsimp, rule rows_step_modify [OF assms(1)])
    (use assms in \<open>auto simp: row_ok_def split: option.splits\<close>)

lemma rows_step_Purge:
  assumes "rows_ok d"
  shows "rows_step d (snd (db_Purge ok i d))"
  unfolding db_Purge_def
  by (rule rows_step_write [OF assms(1)])
    (use assms in \<open>auto simp: rows_step_def rows_ok_def purge_rows_def tbl_find_delete split: if_splits\<close>)

lemma unix_plus_minutes: "unix (t + m * minute) = unix t + 60 * m"
proof -
  have "t + m * minute = t + (60 * m) * second" by (simp add: minute_def)
  then show ?thesis by (simp only: unix_def div_mult_self1 second_pos [THEN less_imp_neq, symmetric] simp_thms)
qed

lemma unix_truncate: "unix (truncate_second t) = unix t"
  by (metis of_unix_unix unix_of_unix)

lemma unix_zero: "unix 0 = 0"
  by (simp add: unix_def)

lemma rows_step_Publish:
  assumes "db_ok d" and "rows_ok d" and "1 \<le> ttl" and "ttl \<le> 3000" and "0 \<le> now"
  shows "rows_step d (snd (db_Publish ok draws i now ttl dg n d))"
proof (cases "db_Publish ok draws i now ttl dg n d")
  case (Pair res d')
  have wf: "tbl_wf tr_id (transfers d)" using assms(1) by (simp add: db_ok_def keys_ok_def)
  show ?thesis
  proof (cases res)
    case (Inl e)
    then have "d' = d" using Pair by (auto simp: db_Publish_def db_write_def split: if_splits sum.splits)
    then show ?thesis using Pair rows_step_refl [OF assms(2)] by simp
  next
    case (Inr t)
    from Pair [unfolded Inr] wf show ?thesis
    proof (cases rule: db_Publish_Inr)
      case again
      then show ?thesis using Pair rows_step_refl [OF assms(2)] by simp
    next
      case (fresh r c k)
      have "wrap64 (ttl * minute) = ttl * minute"
        using assms(3,4) by (intro wrap64_id) (simp add: int64_range_def minute_def second_def)
      then have "row_ok (publish_row c (truncate_second now) (truncate_second now + wrap64 (ttl * minute)) dg n r)"
        using assms(2-4) fresh(1,3) unix_mono [OF assms(5)]
        by (auto simp: rows_ok_def row_ok_def publish_row_def unix_plus_minutes unix_truncate unix_zero)
      then have "rows_step d d'"
        unfolding fresh(8)
        by (intro rows_step_modify [OF assms(2)]) (use fresh in \<open>auto simp: publish_row_def\<close>)
      then show ?thesis using Pair by simp
    qed
  qed
qed

text \<open>A new row, for an id with nothing in live.\<close>

lemma inv_CreateTransfer:
  assumes "server_inv S w" and "live w (t_ID t) = None" and "t_State t = StateCreated"
    and "1 \<le> t_RequestedTTLMinutes t" and "t_RequestedTTLMinutes t \<le> 3000"
  shows "server_inv S (w\<lparr>w_db := snd (db_CreateTransfer ok t (w_db w))\<rparr>)"
proof (cases "db_CreateTransfer ok t (w_db w)")
  case (Pair res d')
  note inv = server_invD [OF assms(1)]
  show ?thesis
  proof (cases res)
    case (Inl e)
    then have "d' = w_db w" using Pair by (auto simp: db_CreateTransfer_def db_write_def split: if_splits option.splits)
    then show ?thesis using Pair assms(1) by simp
  next
    case (Inr u)
    note c = db_CreateTransfer_Inr [OF Pair [unfolded Inr]]
    have row: "trow d' j = (if trow (w_db w) j = None \<and> j = t_ID t then Some (new_row t) else trow (w_db w) j)" for j
      unfolding c(3) by (auto simp: tbl_find_append new_row_def split: option.splits)
    have "db_ok d'" using db_ok_CreateTransfer [OF inv(1), of ok t] Pair by simp
    moreover have "row_ok (new_row t)" using assms(3-5) by (simp add: row_ok_def new_row_def)
    then have "rows_ok d'" using inv(2) by (auto simp: rows_ok_def row split: if_splits)
    moreover have "areas_ok S (w\<lparr>w_db := d'\<rparr>)"
      using inv(3) assms(2) by (auto simp: areas_ok_def row split: if_splits)
    ultimately show ?thesis using inv(4) Pair by (simp add: server_inv_def)
  qed
qed

section \<open>Changes of the filesystem and the cache\<close>

lemma inv_staging_only:
  assumes "server_inv S w" and "staging_only i w w'"
    and "live w i = None \<or> (\<forall>t. staging w' i = Some t \<longrightarrow> d_segments t = None)"
  shows "server_inv S w'"
proof -
  note inv = server_invD [OF assms(1)]
  note same = staging_onlyD [OF assms(2)]
  have "areas_ok S w'"
    unfolding areas_ok_def
  proof (intro allI impI conjI)
    fix j t assume "live w' j = Some t"
    then have t: "live w j = Some t" using same by simp
    then show "dir_complete S j t" using inv(3) by (simp add: areas_ok_def)
    show "tr_state r \<noteq> StateCreated" "tr_state r \<noteq> StateUploading"
      if "trow (w_db w') j = Some r" for r
      using that t inv(3) same(1) by (auto simp: areas_ok_def)
    show "d_segments t' = None" if "staging w' j = Some t'" for t'
      using that t inv(3) same(5) [of j] assms(3) by (cases "j = i") (auto simp: areas_ok_def)
  qed
  then show ?thesis using inv same by (simp add: server_inv_def)
qed

lemma inv_remember:
  assumes "server_inv S w" and "live_manifest w i = Some m"
  shows "server_inv S (w\<lparr>w_cache := cache_put i m (w_cache w)\<rparr>)"
  using assms mcache.coherent_put [OF server_invD(4) [OF assms(1)], of i m]
  by (simp add: server_inv_def areas_ok_def)

lemma inv_invalidate:
  assumes "server_inv S w"
  shows "server_inv S (w\<lparr>w_cache := cache_drop i (w_cache w)\<rparr>)"
  using assms mcache.coherent_drop_same [OF server_invD(4) [OF assms(1)], of i]
  by (simp add: server_inv_def areas_ok_def)

lemma inv_trashed:
  assumes "server_inv S w" and "trashed i w w'" and "cache_get (w_cache w) i = None"
  shows "server_inv S w'"
proof -
  note inv = server_invD [OF assms(1)]
  have tr: "w_db w' = w_db w" "w_cache w' = w_cache w"
    "live w' = live w \<or> live w' = (live w)(i := None)"
    "staging w' = staging w \<or> staging w' = (staging w)(i := None)"
    using assms(2) by (auto simp: trashed_def)
  have le: "live w' j = Some t \<Longrightarrow> live w j = Some t" "staging w' j = Some t \<Longrightarrow> staging w j = Some t" for j t
    using tr(3,4) by (auto split: if_splits)
  have "areas_ok S w'" using inv(3) le unfolding areas_ok_def tr(1) by blast
  moreover have "cache_get (w_cache w') \<subseteq>\<^sub>m live_manifest w'"
  proof (rule map_leI)
    fix j x assume j: "cache_get (w_cache w') j = Some x"
    then have "j \<noteq> i" using assms(3) tr(2) by auto
    then have "live w' j = live w j" using tr(3) by auto
    then show "live_manifest w' j = Some x" using map_leD [OF inv(4)] j tr(2) by simp
  qed
  ultimately show ?thesis using inv tr by (simp add: server_inv_def)
qed

lemma inv_moved:
  assumes "server_inv S w" and "moved i w w'" and "\<And>t. staging w i = Some t \<Longrightarrow> dir_complete S i t"
    and "\<And>r. trow (w_db w) i = Some r \<Longrightarrow> tr_state r \<noteq> StateCreated \<and> tr_state r \<noteq> StateUploading"
  shows "server_inv S w'"
proof -
  note inv = server_invD [OF assms(1)]
  have mv: "w_db w' = w_db w" "w_cache w' = w_cache w" "live w i = None"
    "live w' = (live w)(i := staging w i)" "staging w' = (staging w)(i := None)"
    using assms(2) by (auto simp: moved_def)
  have "areas_ok S w'"
    using inv(3) assms(3,4) mv by (auto simp: areas_ok_def split: if_splits)
  moreover have "cache_get (w_cache w') \<subseteq>\<^sub>m live_manifest w'"
  proof (rule map_leI)
    fix j x assume j: "cache_get (w_cache w') j = Some x"
    then have "live_manifest w j = Some x" using map_leD [OF inv(4)] mv(2) by simp
    moreover from this have "j \<noteq> i" using mv(3) by auto
    ultimately show "live_manifest w' j = Some x" by (simp add: mv(4))
  qed
  ultimately show ?thesis using inv mv by (simp add: server_inv_def)
qed

lemma live_complete: "server_inv S w \<Longrightarrow> live w i = Some t \<Longrightarrow> dir_complete S i t"
  by (auto simp: server_inv_def areas_ok_def)

text \<open>Programs whose every operation keeps the invariant.\<close>

definition kept :: "server \<Rightarrow> world \<Rightarrow> world \<Rightarrow> bool" where
  "kept S w w' \<longleftrightarrow> (server_inv S w \<longrightarrow> server_inv S w')"

interpretation kept: effect "kept S" for S
  by unfold_locales (auto simp: kept_def)

lemma kept_wp: "(\<And>w. server_inv S w \<Longrightarrow> wp m (\<lambda>_. server_inv S) w) \<Longrightarrow> wp m (\<lambda>_. kept S w) w"
  by (cases "server_inv S w") (auto simp: kept_def wp_def split: prod.splits)

lemma wp_kept: "wp m (\<lambda>_. kept S w) w \<Longrightarrow> server_inv S w \<Longrightarrow> wp m (\<lambda>_. server_inv S) w"
  by (auto simp: kept_def wp_def split: prod.splits)

lemma kept_io: "wp io (\<lambda>_. kept S w) w"
  by (rule wp_io) (simp add: kept_def)

lemma kept_query: "wp (query f) (\<lambda>_. kept S w) w"
  by (rule wp_query) (simp add: kept_def)

lemma kept_exists: "(\<And>w fs. tree (w\<lparr>w_faults := fs\<rparr>) = tree w) \<Longrightarrow> wp (exists_in tree i) (\<lambda>_. kept S w) w"
  by (rule wp_exists_in) (simp_all add: kept_def)

lemma inv_exec:
  assumes "server_inv S w" and "\<And>ok. db_ok (snd (f ok (w_db w)))" and "\<And>ok. rows_step (w_db w) (snd (f ok (w_db w)))"
  shows "wp (exec f) (\<lambda>_. server_inv S) w"
proof (rule wp_exec)
  fix ok fs
  have "server_inv S (w\<lparr>w_faults := fs\<rparr>)" using assms(1) by simp
  from inv_db [OF this] show "server_inv S (w\<lparr>w_faults := fs, w_db := snd (f ok (w_db w))\<rparr>)"
    using assms(2,3) by simp
qed

lemma kept_claims:
  "wp (exec (\<lambda>ok. db_CreateClaim ok c)) (\<lambda>_. kept S w) w"
  "wp (exec (\<lambda>ok. db_RenewClaim ok i at)) (\<lambda>_. kept S w) w"
  "wp (exec (\<lambda>ok. db_CompleteClaim ok i at)) (\<lambda>_. kept S w) w"
  "wp (exec (\<lambda>ok. db_SetSegmentProgress ok a b n st)) (\<lambda>_. kept S w) w"
  "wp (exec (\<lambda>ok. db_InsertSegment ok seg)) (\<lambda>_. kept S w) w"
  "wp (exec (\<lambda>ok. db_PurgeExpiredIdempotency ok now)) (\<lambda>_. kept S w) w"
  "wp (exec (\<lambda>ok. db_Purge ok i)) (\<lambda>_. kept S w) w"
  "wp (exec (\<lambda>ok. db_AddWireBytes ok i n)) (\<lambda>_. kept S w) w"
  by (rule kept_wp, rule inv_exec;
      auto intro: inv_intros rows_step_claims rows_step_Purge rows_step_AddWireBytes dest: server_invD)+

lemma kept_invalidate: "wp (InvalidateManifest i) (\<lambda>_. kept S w) w"
  by (simp add: InvalidateManifest_def kept_def inv_invalidate)

lemmas kept_prims = kept_io kept_query kept_claims kept_invalidate

end
