(* ===== verification/SSS_Service.thy ===== *)
theory SSS_Service
  imports SSS_Invariant SSS_Wire
begin

text \<open>
  The receiving half of the transfer service (\<^verbatim>\<open>internal/transfer/service.go\<close>): codes resolve
  to committed transfers, manifests come from the cache or from live, receive sessions hold a
  token and a lease, and a local receiver gets the payload path. Each clock reading of a
  handler is an argument of its own, and so are the identifiers and tokens it draws. The
  bounded upload and download slots are channels and are not modelled; neither is logging.
\<close>

section \<open>Requests\<close>

definition ResolveTTL :: "server \<Rightarrow> int \<Rightarrow> int result" where
  "ResolveTTL S minutes =
     (if minutes = 0 then Inr (DefaultTTL S)
      else case ValidateTTL minutes of Some e \<Rightarrow> Inl e | None \<Rightarrow> Inr minutes)"

definition CheckNote :: "server \<Rightarrow> string \<Rightarrow> errcode option" where
  "CheckNote S note = (if int (length note) > MaxNoteBytes S then Some ErrInvalidRequest else None)"

definition SimpleRawTTL :: "server \<Rightarrow> (string \<Rightarrow> int option) \<Rightarrow> string \<Rightarrow> int result" where
  "SimpleRawTTL S ParseDuration raw =
     (if TrimSpace raw = [] then Inr (DefaultTTL S)
      else case ParseTTL ParseDuration raw of Inl e \<Rightarrow> Inl e | Inr minutes \<Rightarrow> Inr minutes)"

definition RemoteLeaseMinutes :: int where "RemoteLeaseMinutes = 30"

section \<open>Codes and manifests\<close>

definition lookupCommitted :: "time \<Rightarrow> string \<Rightarrow> (Transfer result) svc" where
  "lookupCommitted now codeInput =
     (case NormalizeCode codeInput of
        None \<Rightarrow> return (Inl ErrInvalidCode)
      | Some canonical \<Rightarrow> do {
          r \<leftarrow> query (\<lambda>ok. db_GetTransferByCode ok canonical);
          case r of
            Inl e \<Rightarrow> return (Inl (if e = NotFoundError then ErrTransferNotFound else ErrInternal))
          | Inr t \<Rightarrow>
              if t_State t \<in> {StateExpired, StateDeleting, StateDeleted} then return (Inl ErrTransferExpired)
              else if t_State t \<noteq> StateCommitted then return (Inl ErrTransferNotFound)
              else if t_ExpiresAt t \<noteq> zero_time \<and> \<not> now < t_ExpiresAt t then do {
                _ \<leftarrow> exec (\<lambda>ok. db_SetState ok (t_ID t) StateExpired);
                return (Inl ErrTransferExpired)
              }
              else return (Inr t)
        })"

definition svc_Manifest :: "server \<Rightarrow> Transfer \<Rightarrow> (manifest result) svc" where
  "svc_Manifest S t = do {
     cached \<leftarrow> State (\<lambda>w. (cache_get (w_cache w) (t_ID t), w));
     case cached of
       Some m \<Rightarrow> return (Inr m)
     | None \<Rightarrow> do {
         r \<leftarrow> ReadManifest S live (t_ID t);
         case r of
           Inl _ \<Rightarrow> return (Inl ErrInternal)
         | Inr m \<Rightarrow> do { _ \<leftarrow> remember_manifest (t_ID t) m; return (Inr m) }
       }
   }"

definition PayloadDir :: "server \<Rightarrow> Transfer \<Rightarrow> string" where
  "PayloadDir S t = path_joins [LivePath S (t_ID t), ''payload'']"

record TransferMetadata =
  tm_Code :: string
  tm_Note :: string
  tm_CommittedAt :: time
  tm_ExpiresAt :: time
  tm_FileCount :: int
  tm_TotalBytes :: int
  tm_Entries :: "(string \<times> string \<times> int) list"

definition svc_Metadata :: "server \<Rightarrow> time \<Rightarrow> string \<Rightarrow> (TransferMetadata result) svc" where
  "svc_Metadata S now codeInput = do {
     r \<leftarrow> lookupCommitted now codeInput;
     case r of Inl e \<Rightarrow> return (Inl e) | Inr t \<Rightarrow> do {
       rm \<leftarrow> svc_Manifest S t;
       case rm of Inl e \<Rightarrow> return (Inl e) | Inr m \<Rightarrow>
         return (Inr \<lparr>tm_Code = FormatCode (t_Code t), tm_Note = t_Note t,
           tm_CommittedAt = t_CommittedAt t, tm_ExpiresAt = t_ExpiresAt t,
           tm_FileCount = FileCount (man_Entries m), tm_TotalBytes = TotalBytes m,
           tm_Entries = map (\<lambda>e. (ent_Path e, ent_Type e, ent_Size e)) (SortedEntries m)\<rparr>)
     }
   }"

record Download =
  dl_Transfer :: Transfer
  dl_Manifest :: manifest
  dl_PayloadDir :: string

definition OpenDownload :: "server \<Rightarrow> time \<Rightarrow> string \<Rightarrow> (Download result) svc" where
  "OpenDownload S now codeInput = do {
     r \<leftarrow> lookupCommitted now codeInput;
     case r of Inl e \<Rightarrow> return (Inl e) | Inr t \<Rightarrow> do {
       rm \<leftarrow> svc_Manifest S t;
       case rm of Inl e \<Rightarrow> return (Inl e) | Inr m \<Rightarrow>
         return (Inr \<lparr>dl_Transfer = t, dl_Manifest = m, dl_PayloadDir = PayloadDir S t\<rparr>)
     }
   }"

section \<open>Receive sessions\<close>

record ClaimSegment =
  cs_ID :: string
  cs_Kind :: string
  cs_Length :: int
  cs_Digest :: string
  cs_Path :: string
  cs_OutboardPath :: string
  cs_OutboardLength :: int

record ClaimResponse =
  rs_ClaimID :: string
  rs_Token :: string
  rs_LeaseUntil :: time
  rs_Manifest :: manifest
  rs_Segments :: "ClaimSegment list"

definition hashToken :: "server \<Rightarrow> string \<Rightarrow> string" where
  "hashToken S token = lib_sha256 S token"

definition outboardsPresent :: "Transfer \<Rightarrow> bool svc" where
  "outboardsPresent t = exists_in (\<lambda>w i. Option.bind (live w i) d_outboards) (t_ID t)"

definition claim_segment_of :: "server \<Rightarrow> string \<Rightarrow> bool \<Rightarrow> segment \<Rightarrow> ClaimSegment" where
  "claim_segment_of S claimID outboards seg =
     (let p = ''/v1/claims/'' @ claimID @ ''/segments/'' @ seg_ID seg in
      \<lparr>cs_ID = seg_ID seg, cs_Kind = seg_Kind seg, cs_Length = seg_WireSize seg,
       cs_Digest = seg_Digest seg, cs_Path = p,
       cs_OutboardPath = (if outboards then p @ ''/outboard'' else []),
       cs_OutboardLength = (if outboards then lib_bao_size S (seg_WireSize seg) else 0)\<rparr>)"

definition svc_CreateClaim ::
  "server \<Rightarrow> time \<Rightarrow> time \<Rightarrow> string \<Rightarrow> string \<Rightarrow> string \<Rightarrow> (ClaimResponse result) svc" where
  "svc_CreateClaim S now1 now2 token claimID codeInput = do {
     r \<leftarrow> lookupCommitted now1 codeInput;
     case r of Inl e \<Rightarrow> return (Inl e) | Inr t \<Rightarrow> do {
       rm \<leftarrow> svc_Manifest S t;
       case rm of Inl e \<Rightarrow> return (Inl e) | Inr m \<Rightarrow> do {
         let lease = now2 + RemoteLeaseMinutes * minute;
         c \<leftarrow> exec (\<lambda>ok. db_CreateClaim ok
           \<lparr>c_ID = claimID, c_TransferID = t_ID t, c_Kind = ClaimRemote, c_CreatedAt = now2,
            c_LeaseUntil = lease, c_CompletedAt = zero_time, c_TokenHash = hashToken S token\<rparr>);
         case c of Inl _ \<Rightarrow> return (Inl ErrInternal) | Inr _ \<Rightarrow> do {
           outboards \<leftarrow> outboardsPresent t;
           return (Inr \<lparr>rs_ClaimID = claimID, rs_Token = token, rs_LeaseUntil = lease, rs_Manifest = m,
             rs_Segments = map (claim_segment_of S claimID outboards) (man_Segments m)\<rparr>)
         }
       }
     }
   }"

definition authorizeClaim :: "server \<Rightarrow> time \<Rightarrow> string \<Rightarrow> string \<Rightarrow> (Claim result) svc" where
  "authorizeClaim S now claimID token = do {
     r \<leftarrow> query (\<lambda>ok. db_GetClaim ok claimID);
     case r of
       Inl e \<Rightarrow> return (Inl (if e = NotFoundError then ErrTransferNotFound else ErrInternal))
     | Inr c \<Rightarrow>
         if token = [] \<or> hashToken S token \<noteq> c_TokenHash c then return (Inl ErrAuthInvalid)
         else if \<not> now < c_LeaseUntil c then return (Inl ErrClaimExpired)
         else return (Inr c)
   }"

definition claimSegment ::
  "server \<Rightarrow> time \<Rightarrow> string \<Rightarrow> string \<Rightarrow> string \<Rightarrow> ((Transfer \<times> segment) result) svc" where
  "claimSegment S now claimID token segmentID = do {
     rc \<leftarrow> authorizeClaim S now claimID token;
     case rc of Inl e \<Rightarrow> return (Inl e) | Inr c \<Rightarrow> do {
       rt \<leftarrow> query (\<lambda>ok. db_GetTransfer ok (c_TransferID c));
       case rt of Inl _ \<Rightarrow> return (Inl ErrTransferNotFound) | Inr t \<Rightarrow>
         if t_State t = StateDeleting \<or> t_State t = StateDeleted then return (Inl ErrTransferExpired)
         else do {
           rm \<leftarrow> svc_Manifest S t;
           case rm of Inl e \<Rightarrow> return (Inl e) | Inr m \<Rightarrow>
             (case SegmentByID m segmentID of
                None \<Rightarrow> return (Inl ErrTransferNotFound)
              | Some seg \<Rightarrow> return (Inr (t, seg)))
         }
     }
   }"

text \<open>The file at a slash-separated path below a transfer directory.\<close>

definition dir_file :: "tdir \<Rightarrow> string \<Rightarrow> bytes option" where
  "dir_file t p =
     (let area = takeWhile (\<lambda>c. c \<noteq> slash) p; rest = drop (Suc (length area)) p in
      if area = ''payload'' then
        (case Option.bind (d_payload t) (\<lambda>pl. map_of pl rest) of Some (NFile c _ _) \<Rightarrow> Some c | _ \<Rightarrow> None)
      else if area = ''packs'' then Option.bind (d_packs t) (\<lambda>ps. map_of ps rest)
      else if area = ''segments'' then Option.bind (d_segments t) (\<lambda>ps. map_of ps rest)
      else if area = ''outboards'' then Option.bind (d_outboards t) (\<lambda>ps. map_of ps rest)
      else None)"

definition open_live :: "string \<Rightarrow> string \<Rightarrow> bytes option svc" where
  "open_live i p = do {
     ok \<leftarrow> io;
     State (\<lambda>w. (if ok then Option.bind (live w i) (\<lambda>t. dir_file t p) else None, w))
   }"

definition ClaimSegmentFile ::
  "server \<Rightarrow> time \<Rightarrow> time \<Rightarrow> string \<Rightarrow> string \<Rightarrow> string \<Rightarrow> (bytes result) svc" where
  "ClaimSegmentFile S now1 now2 claimID token segmentID = do {
     r \<leftarrow> claimSegment S now1 claimID token segmentID;
     case r of Inl e \<Rightarrow> return (Inl e) | Inr (t, seg) \<Rightarrow>
       if seg_StoragePath seg = [] then return (Inl ErrInternal)
       else case safe_rel (seg_StoragePath seg) of None \<Rightarrow> return (Inl ErrInternal) | Some p \<Rightarrow> do {
         f \<leftarrow> open_live (t_ID t) p;
         case f of None \<Rightarrow> return (Inl ErrInternal) | Some b \<Rightarrow> do {
           info \<leftarrow> io;
           if \<not> info then return (Inl ErrInternal)
           else do {
             _ \<leftarrow> exec (\<lambda>ok. db_RenewClaim ok claimID (now2 + RemoteLeaseMinutes * minute));
             return (Inr b)
           }
         }
       }
   }"

definition ClaimOutboardFile ::
  "server \<Rightarrow> time \<Rightarrow> time \<Rightarrow> string \<Rightarrow> string \<Rightarrow> string \<Rightarrow> (bytes result) svc" where
  "ClaimOutboardFile S now1 now2 claimID token segmentID = do {
     r \<leftarrow> claimSegment S now1 claimID token segmentID;
     case r of Inl e \<Rightarrow> return (Inl e) | Inr (t, seg) \<Rightarrow> do {
       f \<leftarrow> open_live (t_ID t) (''outboards/'' @ seg_ID seg @ ''.obao'');
       case f of None \<Rightarrow> return (Inl ErrTransferNotFound) | Some b \<Rightarrow> do {
         info \<leftarrow> io;
         if \<not> info then return (Inl ErrInternal)
         else do {
           _ \<leftarrow> exec (\<lambda>ok. db_RenewClaim ok claimID (now2 + RemoteLeaseMinutes * minute));
           return (Inr b)
         }
       }
     }
   }"

definition svc_CompleteClaim :: "server \<Rightarrow> time \<Rightarrow> time \<Rightarrow> string \<Rightarrow> string \<Rightarrow> errcode option svc" where
  "svc_CompleteClaim S now1 now2 claimID token = do {
     r \<leftarrow> authorizeClaim S now1 claimID token;
     case r of Inl e \<Rightarrow> return (Some e) | Inr c \<Rightarrow> do {
       d \<leftarrow> exec (\<lambda>ok. db_CompleteClaim ok (c_ID c) now2);
       return (case d of Inl _ \<Rightarrow> Some ErrInternal | Inr _ \<Rightarrow> None)
     }
   }"

record LocalClaim =
  lc_OK :: bool
  lc_Code :: string
  lc_Path :: string
  lc_ReadOnly :: bool
  lc_LeaseUntil :: time

definition LocalPath :: "server \<Rightarrow> time \<Rightarrow> time \<Rightarrow> string \<Rightarrow> string \<Rightarrow> (LocalClaim result) svc" where
  "LocalPath S now1 now2 claimID codeInput = do {
     r \<leftarrow> lookupCommitted now1 codeInput;
     case r of Inl e \<Rightarrow> return (Inl e) | Inr t \<Rightarrow> do {
       payload \<leftarrow> exists_in (\<lambda>w i. Option.bind (live w i) d_payload) (t_ID t);
       if \<not> payload then return (Inl ErrInternal)
       else do {
         let lease = now2 + LocalClaimGraceMinutes S * minute;
         c \<leftarrow> exec (\<lambda>ok. db_CreateClaim ok
           \<lparr>c_ID = claimID, c_TransferID = t_ID t, c_Kind = ClaimLocal, c_CreatedAt = now2,
            c_LeaseUntil = lease, c_CompletedAt = zero_time, c_TokenHash = []\<rparr>);
         return (case c of Inl _ \<Rightarrow> Inl ErrInternal
           | Inr _ \<Rightarrow> Inr \<lparr>lc_OK = True, lc_Code = FormatCode (t_Code t), lc_Path = PayloadDir S t,
               lc_ReadOnly = True, lc_LeaseUntil = lease\<rparr>)
       }
     }
   }"

section \<open>Resolution of codes\<close>

text \<open>What a successful lookup has established, in the unchanged database.\<close>

definition resolved :: "time \<Rightarrow> string \<Rightarrow> world \<Rightarrow> Transfer \<Rightarrow> bool" where
  "resolved now codeInput w t \<longleftrightarrow>
     (\<exists>r c. NormalizeCode codeInput = Some c \<and> trow (w_db w) (t_ID t) = Some r \<and> t = scanTransfer r
        \<and> tr_code r = Some c \<and> tr_state r = StateCommitted \<and> now < t_ExpiresAt t)"

lemma row_expires:
  assumes "row_ok r" and "tr_code r = Some c"
  shows "t_ExpiresAt (scanTransfer r) \<noteq> zero_time"
proof -
  obtain a m where "tr_expires_at r = Some (a + 60 * m)" "0 \<le> a" "1 \<le> m"
    using assms by (auto simp: row_ok_def)
  moreover from this have "0 \<le> of_unix (a + 60 * m)" by (simp add: of_unix_def second_def)
  ultimately show ?thesis by (simp add: scanTransfer_def time_of_null_def zero_time_def second_def)
qed

lemma lookupCommitted_post:
  assumes inv: "server_inv S w"
  shows "wp (lookupCommitted now code) (\<lambda>r w'. server_inv S w'
    \<and> (\<forall>t. r = Inr t \<longrightarrow> faults_only w w' \<and> resolved now code w t)) w"
proof (cases "NormalizeCode code")
  case None
  then show ?thesis using inv by (simp add: lookupCommitted_def)
next
  case (Some c)
  have q: "wp (query (\<lambda>ok. db_GetTransferByCode ok c)) (\<lambda>r w1. faults_only w w1 \<and>
      (\<forall>t. r = Inr t \<longrightarrow> (\<exists>row. trow (w_db w) (t_ID t) = Some row \<and> t = scanTransfer row \<and> tr_code row = Some c))) w"
  proof (rule wp_query, intro conjI allI impI)
    fix ok fs t assume "db_GetTransferByCode ok c (w_db w) = Inr t"
    then obtain row where "find (\<lambda>r. tr_code r = Some c) (transfers (w_db w)) = Some row" "t = scanTransfer row"
      by (auto simp: db_GetTransferByCode_def db_read_def split: if_splits option.splits)
    moreover from find_code_row [OF server_invD(1) [OF inv] this(1)]
    have "trow (w_db w) (tr_id row) = Some row" "tr_code row = Some c" by simp_all
    ultimately show "\<exists>row. trow (w_db w) (t_ID t) = Some row \<and> t = scanTransfer row \<and> tr_code row = Some c"
      by (intro exI [of _ row]) simp
  qed simp
  show ?thesis
    unfolding lookupCommitted_def Some option.case
  proof (rule wp_bindI [OF q], goal_cases)
    case (1 r w1)
    have inv1: "server_inv S w1" using inv 1 inv_faults_only by blast
    show ?case
    proof (cases r)
      case (Inl e)
      then show ?thesis using inv1 by simp
    next
      case (Inr t)
      then obtain row where row: "trow (w_db w) (t_ID t) = Some row" "t = scanTransfer row" "tr_code row = Some c"
        using 1 by blast
      have rok: "row_ok row" using server_invD(2) [OF inv] row(1) by (auto simp: rows_ok_def)
      have "wp (exec (\<lambda>ok. db_SetState ok (t_ID t) StateExpired)) (\<lambda>_. server_inv S) w1"
        using server_invD(1,2) [OF inv1] 1 row(1,3)
        by (intro inv_exec [OF inv1] inv_intros rows_step_SetState)
          (auto simp: state_fits_def faults_only_def)
      then have exp: "wp (State_Monad.bind (exec (\<lambda>ok. db_SetState ok (t_ID t) StateExpired))
          (\<lambda>_. return (Inl ErrTransferExpired))) (\<lambda>r w'. server_inv S w'
          \<and> (\<forall>t. r = Inr t \<longrightarrow> faults_only w w' \<and> resolved now code w t)) w1"
        by (rule wp_bindI) simp
      let ?Q = "\<lambda>r w'. server_inv S w' \<and> (\<forall>t. r = Inr t \<longrightarrow> faults_only w w' \<and> resolved now code w t)"
      have nz: "t_ExpiresAt t \<noteq> zero_time" using row_expires [OF rok row(3)] row(2) by simp
      show ?thesis
      proof (cases "t_State t = StateCommitted \<and> now < t_ExpiresAt t")
        case True
        then have "resolved now code w t" using row Some by (auto simp: resolved_def)
        then have "?Q (Inr t) w1" using inv1 1 by simp
        then show ?thesis using True Inr by simp
      next
        case False
        have err: "?Q (Inl e) w1" for e using inv1 by simp
        show ?thesis
          using False nz exp err [of ErrTransferExpired] err [of ErrTransferNotFound]
          unfolding Inr sum.case by (simp only: simp_thms if_True if_False wp_return split: if_split) blast
      qed
    qed
  qed
qed

lemma ReadManifest_post:
  "wp (ReadManifest S get i) (\<lambda>r w'. faults_only w w' \<and> (\<forall>m. r = Inr m \<longrightarrow> Option.bind (get w i) d_manifest = Some m)) w"
  if "\<And>w fs. get (w\<lparr>w_faults := fs\<rparr>) = get w"
  unfolding ReadManifest_def
  by (simp, rule wp_io) (auto simp: that split: option.splits)

lemma svc_Manifest_post:
  assumes inv: "server_inv S w"
  shows "wp (svc_Manifest S t) (\<lambda>r w'. server_inv S w' \<and> w_db w' = w_db w \<and> w_live w' = w_live w
    \<and> (\<forall>m. r = Inr m \<longrightarrow> live_manifest w (t_ID t) = Some m)) w"
proof (cases "cache_get (w_cache w) (t_ID t)")
  case (Some m)
  then show ?thesis
    using inv map_leD [OF server_invD(4) [OF inv] Some] by (simp add: svc_Manifest_def)
next
  case None
  have "wp (State_Monad.bind (ReadManifest S live (t_ID t)) (case_sum (\<lambda>_. return (Inl ErrInternal))
      (\<lambda>m. State_Monad.bind (remember_manifest (t_ID t) m) (\<lambda>_. return (Inr m)))))
    (\<lambda>r w'. server_inv S w' \<and> w_db w' = w_db w \<and> w_live w' = w_live w
    \<and> (\<forall>m. r = Inr m \<longrightarrow> live_manifest w (t_ID t) = Some m)) w"
  proof (rule wp_bindI [OF ReadManifest_post], simp, goal_cases)
    case (1 r w1)
    have inv1: "server_inv S w1" using inv 1 inv_faults_only by blast
    show ?case
      using 1 inv1 inv_remember [OF inv1, of "t_ID t"]
      by (cases r) (auto simp: remember_manifest_def faults_only_def)
  qed
  then show ?thesis using None by (simp add: svc_Manifest_def)
qed

lemma OpenDownload_sound:
  assumes "server_inv S w" and "run_state (OpenDownload S now code) w = (Inr dl, w')"
  shows "NormalizeCode code = Some (t_Code (dl_Transfer dl)) \<and> t_State (dl_Transfer dl) = StateCommitted
    \<and> now < t_ExpiresAt (dl_Transfer dl)
    \<and> Validate (lib_unicode S) (dl_Manifest dl) = None
    \<and> man_TransferID (dl_Manifest dl) = t_ID (dl_Transfer dl)
    \<and> (\<exists>t pl. live w' (t_ID (dl_Transfer dl)) = Some t \<and> d_manifest t = Some (dl_Manifest dl)
         \<and> d_payload t = Some pl \<and> files_ok S pl (man_Entries (dl_Manifest dl))
         \<and> dirs_ok pl (man_Entries (dl_Manifest dl)))
    \<and> server_inv S w'"
proof -
  let ?Q = "\<lambda>r w'. server_inv S w' \<and> (\<forall>dl. r = Inr dl \<longrightarrow> resolved now code w (dl_Transfer dl)
      \<and> live_manifest w' (t_ID (dl_Transfer dl)) = Some (dl_Manifest dl))"
  have "wp (OpenDownload S now code) ?Q w"
    unfolding OpenDownload_def
  proof (rule wp_bindI [OF lookupCommitted_post [OF assms(1)]], goal_cases)
    case (1 r w1)
    show ?case
    proof (cases r)
      case (Inr t)
      have inv1: "server_inv S w1" using 1 by blast
      show ?thesis
        unfolding Inr sum.case
        by (rule wp_bindI [OF svc_Manifest_post [OF inv1]])
          (use 1 Inr in \<open>auto split: sum.splits\<close>)
    qed (use 1 in simp)
  qed
  from wp_run [OF this assms(2)] have inv': "server_inv S w'"
    and res: "resolved now code w (dl_Transfer dl)"
    and man: "live_manifest w' (t_ID (dl_Transfer dl)) = Some (dl_Manifest dl)" by auto
  from man obtain t where t: "live w' (t_ID (dl_Transfer dl)) = Some t" "d_manifest t = Some (dl_Manifest dl)"
    by (auto simp: bind_eq_Some_conv)
  with live_complete [OF inv' t(1)] res inv' show ?thesis
    by (auto simp: resolved_def dir_complete_def string_of_null_def)
qed

text \<open>
  The promise of a code. In a world that satisfies the server invariant, whatever faults
  occur, when a code opens a download then the transfer is committed under exactly that code
  and not expired, and its live directory holds the returned manifest, which is valid, and
  every file the manifest lists with exactly the listed size and digest.
\<close>

theorem OpenDownload_complete:
  assumes "server_inv S w" and "run_state (OpenDownload S now code) w = (Inr dl, w')"
  shows "NormalizeCode code = Some (t_Code (dl_Transfer dl)) \<and> t_State (dl_Transfer dl) = StateCommitted
    \<and> now < t_ExpiresAt (dl_Transfer dl)
    \<and> Validate (lib_unicode S) (dl_Manifest dl) = None
    \<and> man_TransferID (dl_Manifest dl) = t_ID (dl_Transfer dl)
    \<and> (\<exists>t pl. live w' (t_ID (dl_Transfer dl)) = Some t \<and> d_manifest t = Some (dl_Manifest dl)
         \<and> d_payload t = Some pl \<and> files_ok S pl (man_Entries (dl_Manifest dl))
         \<and> dirs_ok pl (man_Entries (dl_Manifest dl)))
    \<and> server_inv S w'"
  by (rule OpenDownload_sound [OF assms])

section \<open>The receiving handlers keep the invariant\<close>

lemma kept_lookupCommitted: "wp (lookupCommitted now code) (\<lambda>_. kept S w) w"
  by (rule kept_wp, rule wp_mono [OF lookupCommitted_post]) auto

lemma kept_Manifest: "wp (svc_Manifest S t) (\<lambda>_. kept S w) w"
  by (rule kept_wp, rule wp_mono [OF svc_Manifest_post]) auto

lemma kept_authorizeClaim: "wp (authorizeClaim S now cid tok) (\<lambda>_. kept S w) w"
  unfolding authorizeClaim_def by (intro kept.steps kept_prims)

lemma kept_live_reads:
  "wp (open_live i p) (\<lambda>_. kept S w) w" "wp (outboardsPresent t) (\<lambda>_. kept S w) w"
  unfolding open_live_def outboardsPresent_def
  by (simp_all, rule wp_io, simp add: kept_def, rule kept_exists, simp)

lemma kept_claimSegment: "wp (claimSegment S now cid tok sid) (\<lambda>_. kept S w) w"
  unfolding claimSegment_def
  by (intro kept.steps kept_prims kept_authorizeClaim kept_Manifest)

lemma kept_Metadata: "wp (svc_Metadata S now code) (\<lambda>_. kept S w) w"
  unfolding svc_Metadata_def by (intro kept.steps kept_lookupCommitted kept_Manifest)

lemma kept_OpenDownload: "wp (OpenDownload S now code) (\<lambda>_. kept S w) w"
  unfolding OpenDownload_def by (intro kept.steps kept_lookupCommitted kept_Manifest)

lemma kept_CreateClaim: "wp (svc_CreateClaim S now1 now2 tok cid code) (\<lambda>_. kept S w) w"
  unfolding svc_CreateClaim_def
  by (intro kept.steps kept_prims kept_lookupCommitted kept_Manifest kept_live_reads)

lemma kept_ClaimSegmentFile: "wp (ClaimSegmentFile S now1 now2 cid tok sid) (\<lambda>_. kept S w) w"
  unfolding ClaimSegmentFile_def
  by (intro kept.steps kept_prims kept_claimSegment kept_live_reads)

lemma kept_ClaimOutboardFile: "wp (ClaimOutboardFile S now1 now2 cid tok sid) (\<lambda>_. kept S w) w"
  unfolding ClaimOutboardFile_def
  by (intro kept.steps kept_prims kept_claimSegment kept_live_reads)

lemma kept_CompleteClaim: "wp (svc_CompleteClaim S now1 now2 cid tok) (\<lambda>_. kept S w) w"
  unfolding svc_CompleteClaim_def by (intro kept.steps kept_prims kept_authorizeClaim)

lemma kept_LocalPath: "wp (LocalPath S now1 now2 cid code) (\<lambda>_. kept S w) w"
  unfolding LocalPath_def
  by (intro kept.steps kept_prims kept_lookupCommitted kept_exists) simp

lemmas kept_receiving = kept_Metadata kept_OpenDownload kept_CreateClaim kept_ClaimSegmentFile
  kept_ClaimOutboardFile kept_CompleteClaim kept_LocalPath

section \<open>Receiving consumes nothing\<close>

text \<open>Files are untouched, and no row changes except that a transfer may be marked expired.\<close>

definition receives :: "world \<Rightarrow> world \<Rightarrow> bool" where
  "receives w w' \<longleftrightarrow>
     w_live w' = w_live w \<and> w_staging w' = w_staging w \<and> w_trash w' = w_trash w
     \<and> segments (w_db w') = segments (w_db w)
     \<and> (\<forall>i. rel_option (\<lambda>r r'. r' = r \<or> r' = r\<lparr>tr_state := StateExpired\<rparr>)
            (trow (w_db w) i) (trow (w_db w') i))"

lemma receives_refl: "receives w w"
  by (simp add: receives_def option.rel_refl)

interpretation receives: effect receives
proof unfold_locales
  fix s t u assume a: "receives s t" "receives t u"
  have "rel_option (\<lambda>r r'. r' = r \<or> r' = r\<lparr>tr_state := StateExpired\<rparr>) (trow (w_db s) i) (trow (w_db u) i)" for i
  proof -
    have 1: "rel_option (\<lambda>r r'. r' = r \<or> r' = r\<lparr>tr_state := StateExpired\<rparr>) (trow (w_db s) i) (trow (w_db t) i)"
      and 2: "rel_option (\<lambda>r r'. r' = r \<or> r' = r\<lparr>tr_state := StateExpired\<rparr>) (trow (w_db t) i) (trow (w_db u) i)"
      using a by (simp_all add: receives_def)
    show ?thesis using 1 2 by (cases "trow (w_db s) i"; cases "trow (w_db t) i"; cases "trow (w_db u) i") auto
  qed
  then show "receives s u" using a by (simp add: receives_def)
qed (rule receives_refl)

lemma receives_faults: "receives w (w\<lparr>w_faults := fs\<rparr>)"
  using receives_refl [of w] by (simp add: receives_def)

lemma receives_reads:
  "wp io (\<lambda>_. receives w) w" "wp (query f) (\<lambda>_. receives w) w"
  "wp (open_live i p) (\<lambda>_. receives w) w" "wp (outboardsPresent t) (\<lambda>_. receives w) w"
  by (auto simp: open_live_def outboardsPresent_def intro!: wp_io wp_query wp_exists_in receives_faults)

lemma receives_exec:
  assumes "\<And>ok. segments (snd (f ok (w_db w))) = segments (w_db w)"
    and "\<And>ok i. rel_option (\<lambda>r r'. r' = r \<or> r' = r\<lparr>tr_state := StateExpired\<rparr>)
      (trow (w_db w) i) (trow (snd (f ok (w_db w))) i)"
  shows "wp (exec f) (\<lambda>_. receives w) w"
  by (rule wp_exec) (use assms in \<open>simp add: receives_def\<close>)

lemma rel_option_same: "rel_option (\<lambda>r r'. r' = r \<or> Q r r') x x"
  by (cases x) simp_all

lemma receives_claims:
  "wp (exec (\<lambda>ok. db_CreateClaim ok c)) (\<lambda>_. receives w) w"
  "wp (exec (\<lambda>ok. db_RenewClaim ok i at)) (\<lambda>_. receives w) w"
  "wp (exec (\<lambda>ok. db_CompleteClaim ok i at)) (\<lambda>_. receives w) w"
  by (rule receives_exec;
      auto simp: db_CreateClaim_def db_RenewClaim_def db_CompleteClaim_def db_write_def rel_option_same
        split: option.splits)+

lemma receives_lookup: "wp (lookupCommitted now code) (\<lambda>_. receives w) w"
  unfolding lookupCommitted_def
proof (intro receives.steps receives_reads receives_exec)
  fix ok d t i
  show "rel_option (\<lambda>r r'. r' = r \<or> r' = r\<lparr>tr_state := StateExpired\<rparr>)
      (trow d i) (trow (snd (db_SetState ok t StateExpired d)) i)"
    by (cases "trow d i") (auto simp: db_SetState_def db_write_def tbl_find_modify)
qed (simp add: db_SetState_def db_write_def)

lemma receives_Manifest: "wp (svc_Manifest S t) (\<lambda>_. receives w) w"
  unfolding svc_Manifest_def ReadManifest_def
  by (intro receives.steps receives_reads)
    (auto simp: remember_manifest_def receives_def rel_option_same)

lemma receives_authorize: "wp (authorizeClaim S now cid tok) (\<lambda>_. receives w) w"
  unfolding authorizeClaim_def by (intro receives.steps receives_reads)

lemma receives_claimSegment: "wp (claimSegment S now cid tok sid) (\<lambda>_. receives w) w"
  unfolding claimSegment_def
  by (intro receives.steps receives_reads receives_authorize receives_Manifest)

lemmas receives_prims = receives_reads receives_claims receives_lookup receives_Manifest
  receives_authorize receives_claimSegment

text \<open>
  Receiving consumes nothing. Opening a download, reading its metadata, opening, using or
  completing a receive session and taking the local path leave every file, every staged
  segment and every transfer row as they were, whatever fails, except that an expired
  transfer may be marked so. A transfer can be received any number of times.
\<close>

theorem receiving_consumes_nothing:
  "receives w (snd (run_state (OpenDownload S n1 code) w))
   \<and> receives w (snd (run_state (svc_Metadata S n1 code) w))
   \<and> receives w (snd (run_state (svc_CreateClaim S n1 n2 tok cid code) w))
   \<and> receives w (snd (run_state (ClaimSegmentFile S n1 n2 cid tok sid) w))
   \<and> receives w (snd (run_state (ClaimOutboardFile S n1 n2 cid tok sid) w))
   \<and> receives w (snd (run_state (svc_CompleteClaim S n1 n2 cid tok) w))
   \<and> receives w (snd (run_state (LocalPath S n1 n2 cid code) w))"
  unfolding wp_snd [symmetric] OpenDownload_def svc_Metadata_def svc_CreateClaim_def
    ClaimSegmentFile_def ClaimOutboardFile_def svc_CompleteClaim_def LocalPath_def
  by (intro conjI receives.steps receives_prims)
    (auto intro!: wp_exists_in receives_faults)

section \<open>Receive sessions\<close>

lemma db_CreateClaim_Inr:
  assumes "db_CreateClaim ok c d = (Inr u, d')"
  shows "crow d' (c_ID c) = Some
    \<lparr>cr_id = c_ID c, cr_transfer_id = c_TransferID c, cr_kind = c_Kind c,
     cr_created_at = unix (c_CreatedAt c), cr_lease_until = unix (c_LeaseUntil c),
     cr_completed_at = None, cr_token_hash = nullString (c_TokenHash c)\<rparr>"
    and "transfers d' = transfers d" and "ok"
  using assms
  by (auto simp: db_CreateClaim_def db_write_def split: if_splits option.splits
      dest: claims.lookup_after_insert)

definition sample_live_world :: world where
  "sample_live_world =
     (let t = sample_staged\<lparr>d_payload := Some [(''read.me'', NFile ''hello'' 292 0)],
                d_segments := None, d_manifest := Some sample_manifest, d_sealed := True\<rparr>;
          d = snd (db_Publish True sample_draws sample_id (1700000100 * second) 30 ''digest'' 5 sample_db)
      in sample_world\<lparr>w_db := d, w_staging := [], w_live := [(sample_id, t)]\<rparr>)"

definition sample_code :: string where
  "sample_code = string_of_null (NormalizeCode (NewCode (sample_draws 0)))"

text \<open>
  C27: a receive session is bound to its token, its transfer and its lease. When a session was
  opened, the code resolved to a committed, unexpired transfer; the response carries its live
  manifest; presenting the token before the lease ends (to the second) authorizes the claim
  for that transfer, presenting another token is refused as invalid, and from the end of the
  lease on even the right token is refused as expired.
\<close>

theorem CreateClaim_session:
  assumes "server_inv S w" and "run_state (svc_CreateClaim S now1 now2 token cid code) w = (Inr rs, w')"
    and "token \<noteq> []" and "hashToken S token \<noteq> []" and "w_faults w' = []"
  shows "\<exists>t. resolved now1 code w t \<and> live_manifest w' (t_ID t) = Some (rs_Manifest rs)
    \<and> (now3 < truncate_second (now2 + 30 * minute) \<longrightarrow>
         (\<exists>c. fst (run_state (authorizeClaim S now3 cid token) w') = Inr c
            \<and> c_TransferID c = t_ID t \<and> c_Kind c = ClaimRemote))
    \<and> (\<not> now3 < truncate_second (now2 + 30 * minute) \<longrightarrow>
         fst (run_state (authorizeClaim S now3 cid token) w') = Inl ErrClaimExpired)
    \<and> (hashToken S other \<noteq> hashToken S token \<longrightarrow>
         fst (run_state (authorizeClaim S now3 cid other) w') = Inl ErrAuthInvalid)"
proof -
  let ?row = "\<lambda>t. \<lparr>cr_id = cid, cr_transfer_id = t_ID t, cr_kind = ClaimRemote, cr_created_at = unix now2,
     cr_lease_until = unix (now2 + RemoteLeaseMinutes * minute), cr_completed_at = None,
     cr_token_hash = nullString (hashToken S token)\<rparr>"
  have "wp (svc_CreateClaim S now1 now2 token cid code) (\<lambda>r w'. \<forall>rs. r = Inr rs \<longrightarrow>
      (\<exists>t. resolved now1 code w t \<and> live_manifest w' (t_ID t) = Some (rs_Manifest rs)
         \<and> crow (w_db w') cid = Some (?row t))) w"
    unfolding svc_CreateClaim_def Let_def
  proof (rule wp_bindI [OF lookupCommitted_post [OF assms(1)]], goal_cases)
    case (1 r w1)
    show ?case
    proof (cases r)
      case (Inr t)
      have inv1: "server_inv S w1" using 1 by blast
      show ?thesis
        unfolding Inr sum.case
      proof (rule wp_bindI [OF svc_Manifest_post [OF inv1]], goal_cases)
        case (1 rm w2)
        show ?case
        proof (cases rm)
          case m: (Inr m)
          have lm: "live_manifest w2 (t_ID t) = Some m" using 1 m by simp
          have res: "resolved now1 code w t"
            using \<open>server_inv S w1 \<and> _\<close> Inr by blast
          show ?thesis
            unfolding m sum.case wp_bind
          proof (rule wp_exec, goal_cases)
            case (1 ok fs)
            let ?c = "\<lparr>c_ID = cid, c_TransferID = t_ID t, c_Kind = ClaimRemote, c_CreatedAt = now2,
              c_LeaseUntil = now2 + RemoteLeaseMinutes * minute, c_CompletedAt = zero_time,
              c_TokenHash = hashToken S token\<rparr>"
            show ?case
            proof (cases "db_CreateClaim ok ?c (w_db w2)")
              case (Pair q d)
              show ?thesis
              proof (cases q)
                case (Inr u)
                note cr = db_CreateClaim_Inr [OF Pair [unfolded Inr]]
                show ?thesis
                  unfolding Pair Inr fst_conv snd_conv sum.case outboardsPresent_def
                  by (rule wp_bindI [of _ "\<lambda>_ w'. live_manifest w' (t_ID t) = Some m \<and> crow (w_db w') cid = Some (?row t)"],
                      rule wp_exists_in) (use lm cr(1) res in auto)
              qed (simp add: Pair)
            qed
          qed
        qed simp
      qed
    qed simp
  qed
  from wp_run [OF this assms(2)] obtain t where t: "resolved now1 code w t"
    "live_manifest w' (t_ID t) = Some (rs_Manifest rs)" "crow (w_db w') cid = Some (?row t)" by blast
  have get: "db_GetClaim True cid (w_db w') = Inr (scanClaim (?row t))"
    using t(3) by (simp add: db_GetClaim_def db_read_def)
  have lease: "c_LeaseUntil (scanClaim (?row t)) = truncate_second (now2 + 30 * minute)"
    by (simp add: scanClaim_def of_unix_unix RemoteLeaseMinutes_def)
  have hash: "c_TokenHash (scanClaim (?row t)) = hashToken S token"
    using assms(4) by (simp add: scanClaim_def nullString_def string_of_null_def)
  have auth: "fst (run_state (authorizeClaim S now3 cid tok) w') =
      (if tok = [] \<or> hashToken S tok \<noteq> hashToken S token then Inl ErrAuthInvalid
       else if \<not> now3 < truncate_second (now2 + 30 * minute) then Inl ErrClaimExpired
       else Inr (scanClaim (?row t)))" for tok
    using assms(5) get lease hash by (simp add: authorizeClaim_def)
  have "c_TransferID (scanClaim (?row t)) = t_ID t" "c_Kind (scanClaim (?row t)) = ClaimRemote"
    by (simp_all add: scanClaim_def)
  with t(1,2) auth assms(3) show ?thesis by auto
qed

text \<open>The sample world satisfies the invariant, so it serves as input of the witnesses.\<close>

definition sample_published_row :: transfer_row where
  "sample_published_row = hd (transfers (w_db sample_live_world))"

lemma sample_published:
  "transfers (w_db sample_live_world) = [sample_published_row]"
  "tr_id sample_published_row = sample_id" "tr_code sample_published_row = Some sample_code"
  "tr_state sample_published_row = StateCommitted" "tr_requested_ttl_minutes sample_published_row = 30"
  "tr_committed_at sample_published_row = Some 1700000100"
  "tr_expires_at sample_published_row = Some 1700001900"
  "claims (w_db sample_live_world) = []" "segments (w_db sample_live_world) = []"
  by code_simp+

lemma rows_okI: "(\<And>r. r \<in> set (transfers d) \<Longrightarrow> row_ok r) \<Longrightarrow> rows_ok d"
  using tbl_find_mem by (fastforce simp: rows_ok_def)

lemma sample_file_there:
  "file_there sample_server [(''read.me'', NFile ''hello'' 292 0)] sample_entry"
proof -
  have "safe_rel (ent_Path sample_entry) = Some ''read.me''" by code_simp
  then show ?thesis by (simp add: file_there_def sample_entry_def sample_server_def)
qed

lemma sample_live_inv: "server_inv sample_server sample_live_world"
proof -
  let ?w = sample_live_world
  have ok0: "db_ok sample_db" using db_step_ok [OF step_CreateTransfer empty_db_ok] by (simp add: sample_db_def)
  have "db_ok (snd (db_Publish True sample_draws sample_id (1700000100 * second) 30 ''digest'' 5 sample_db))"
    by (intro db_ok_Publish ok0) (simp add: sample_draws_def CodeLength_def)
  then have db: "db_ok (w_db ?w)" by (simp add: sample_live_world_def Let_def)
  have "row_ok sample_published_row"
    using sample_published by (auto simp: row_ok_def intro!: exI [of _ 30])
  then have rows: "rows_ok (w_db ?w)" by (intro rows_okI) (simp add: sample_published(1))
  have live: "live ?w i = (if i = sample_id then Some (sample_staged\<lparr>
      d_payload := Some [(''read.me'', NFile ''hello'' 292 0)], d_segments := None,
      d_manifest := Some sample_manifest, d_sealed := True\<rparr>) else None)" for i
    by (simp add: sample_live_world_def Let_def)
  have "Validate (lib_unicode sample_server) sample_manifest = None" by code_simp
  then have complete: "dir_complete sample_server sample_id (sample_staged\<lparr>
      d_payload := Some [(''read.me'', NFile ''hello'' 292 0)], d_segments := None,
      d_manifest := Some sample_manifest, d_sealed := True\<rparr>)"
    using sample_file_there
    by (simp add: dir_complete_def files_ok_def dirs_ok_def sample_manifest_def)
      (simp add: sample_entry_def)
  have "areas_ok sample_server ?w"
    unfolding areas_ok_def
  proof (intro allI impI conjI)
    fix i t assume "live ?w i = Some t"
    then show "dir_complete sample_server i t" using complete by (simp add: live split: if_splits)
  next
    fix i t r assume "live ?w i = Some t" "trow (w_db ?w) i = Some r"
    then have "r = sample_published_row" using tbl_find_mem sample_published(1) by fastforce
    then show "tr_state r \<noteq> StateCreated" "tr_state r \<noteq> StateUploading"
      by (simp_all add: sample_published)
  qed (simp add: sample_live_world_def Let_def)
  moreover have "cache_get (w_cache ?w) = Map.empty"
    by (simp add: sample_live_world_def Let_def sample_world_def newManifestCache_def cache_get_def fun_eq_iff)
  ultimately show ?thesis using db rows by (simp add: server_inv_def)
qed

theorem OpenDownload_complete_witness:
  "\<exists>dl w'. run_state (OpenDownload sample_server (1700000200 * second) (FormatCode sample_code)) sample_live_world = (Inr dl, w')
    \<and> (\<exists>t pl. live w' (t_ID (dl_Transfer dl)) = Some t \<and> d_manifest t = Some (dl_Manifest dl)
         \<and> d_payload t = Some pl \<and> files_ok sample_server pl (man_Entries (dl_Manifest dl)))"
proof -
  let ?r = "run_state (OpenDownload sample_server (1700000200 * second) (FormatCode sample_code)) sample_live_world"
  have "case fst ?r of Inl _ \<Rightarrow> False | Inr _ \<Rightarrow> True" by code_simp
  then obtain dl where "?r = (Inr dl, snd ?r)" by (cases "fst ?r") (simp_all add: prod_eq_iff)
  with OpenDownload_complete [OF sample_live_inv this] show ?thesis by blast
qed

theorem CreateClaim_session_witness:
  "\<exists>rs w' t. run_state (svc_CreateClaim sample_server (1700000200 * second) (1700000201 * second) ''tok'' ''c-1''
        (FormatCode sample_code)) sample_live_world = (Inr rs, w')
    \<and> resolved (1700000200 * second) (FormatCode sample_code) sample_live_world t
    \<and> (\<exists>c. fst (run_state (authorizeClaim sample_server (1700000300 * second) ''c-1'' ''tok'') w') = Inr c
         \<and> c_TransferID c = t_ID t)
    \<and> fst (run_state (authorizeClaim sample_server (1700000300 * second) ''c-1'' ''guess'') w') = Inl ErrAuthInvalid"
proof -
  let ?r = "run_state (svc_CreateClaim sample_server (1700000200 * second) (1700000201 * second) ''tok'' ''c-1''
    (FormatCode sample_code)) sample_live_world"
  have "case fst ?r of Inl _ \<Rightarrow> False | Inr _ \<Rightarrow> True" by code_simp
  then obtain rs where r: "?r = (Inr rs, snd ?r)" by (cases "fst ?r") (simp_all add: prod_eq_iff)
  have nf: "w_faults (snd ?r) = []" by code_simp
  have tok: "hashToken sample_server ''tok'' \<noteq> []" "hashToken sample_server ''guess'' \<noteq> hashToken sample_server ''tok''"
    by code_simp+
  have "1700000300 * second < truncate_second (1700000201 * second + 30 * minute)" by code_simp
  with CreateClaim_session [OF sample_live_inv r _ tok(1) nf, of "1700000300 * second" "''guess''"] tok(2) r
  show ?thesis by blast
qed

end
