(* ===== verification/SSS_Janitor.thy ===== *)
theory SSS_Janitor
  imports SSS_Service
begin

text \<open>
  The janitor (\<^verbatim>\<open>internal/janitor/janitor.go\<close>): one cleanup pass expires, abandons and deletes. It
  keeps the server invariant, never touches what is still promised (unexpired, or pinned by an
  active lease), deletes everything else when nothing fails, and is idempotent.
\<close>

section \<open>The pass\<close>

record CleanupResult =
  r_Expired :: nat
  r_StagingCleaned :: nat
  r_Deleted :: nat
  r_TrashEmptied :: nat

fun abandon_stale :: "Transfer list \<Rightarrow> nat \<Rightarrow> nat svc" where
  "abandon_stale [] n = return n"
| "abandon_stale (t # ts) n = do {
     r \<leftarrow> exec (\<lambda>ok. db_SetState ok (t_ID t) StateAbandoned);
     case r of Inl _ \<Rightarrow> abandon_stale ts n | Inr _ \<Rightarrow> abandon_stale ts (Suc n)
   }"

fun delete_unpinned :: "Transfer list \<Rightarrow> nat \<Rightarrow> nat svc" where
  "delete_unpinned [] n = return n"
| "delete_unpinned (t # ts) n = do {
     r \<leftarrow> exec (\<lambda>ok. db_SetState ok (t_ID t) StateDeleting);
     case r of Inl _ \<Rightarrow> delete_unpinned ts n | Inr _ \<Rightarrow> do {
       _ \<leftarrow> InvalidateManifest (t_ID t);
       moved \<leftarrow> ToTrash (t_ID t);
       if \<not> moved then delete_unpinned ts n
       else do {
         p \<leftarrow> exec (\<lambda>ok. db_Purge ok (t_ID t));
         case p of Inl _ \<Rightarrow> delete_unpinned ts n | Inr _ \<Rightarrow> delete_unpinned ts (Suc n)
       }
     }
   }"

definition Sweep :: "server \<Rightarrow> time \<Rightarrow> (go_error + CleanupResult) svc" where
  "Sweep S now = do {
     e \<leftarrow> exec (\<lambda>ok. db_ExpireDue ok now);
     case e of Inl err \<Rightarrow> return (Inl err) | Inr expired \<Rightarrow> do {
       st \<leftarrow> query (\<lambda>ok. db_StaleStaging ok (now - StagingTTLMinutes S * minute));
       case st of Inl err \<Rightarrow> return (Inl err) | Inr stale \<Rightarrow> do {
         cleaned \<leftarrow> abandon_stale stale 0;
         un \<leftarrow> query (\<lambda>ok. db_UnpinnedExpired ok now);
         case un of Inl err \<Rightarrow> return (Inl err) | Inr due \<Rightarrow> do {
           deleted \<leftarrow> delete_unpinned due 0;
           (emptied, _) \<leftarrow> EmptyTrash;
           _ \<leftarrow> exec (\<lambda>ok. db_PurgeExpiredIdempotency ok now);
           return (Inr \<lparr>r_Expired = expired, r_StagingCleaned = cleaned, r_Deleted = deleted, r_TrashEmptied = emptied\<rparr>)
         }
       }
     }
   }"

section \<open>The pass keeps the invariant\<close>

lemma trow_ExpireDue:
  "trow (snd (db_ExpireDue ok now d)) i = (if ok then map_option
     (\<lambda>r. if expiry_due now r then r\<lparr>tr_state := StateExpired\<rparr> else r) (trow d i) else trow d i)"
proof -
  have "tbl_find tr_id i (map (\<lambda>r. if expiry_due now r then r\<lparr>tr_state := StateExpired\<rparr> else r) rs)
    = map_option (\<lambda>r. if expiry_due now r then r\<lparr>tr_state := StateExpired\<rparr> else r) (tbl_find tr_id i rs)" for rs
    by (induction rs) (auto simp: tbl_find_def)
  then show ?thesis by (simp add: db_ExpireDue_def db_write_def)
qed

lemma row_ok_expire: "row_ok r \<Longrightarrow> expiry_due now r \<Longrightarrow> row_ok (r\<lparr>tr_state := StateExpired\<rparr>)"
  by (cases "tr_code r") (auto simp: row_ok_def expiry_due_def)

lemma rows_step_ExpireDue:
  assumes "rows_ok d"
  shows "rows_step d (snd (db_ExpireDue ok now d))"
  unfolding rows_step_def
proof (intro allI impI)
  fix i r' assume "trow (snd (db_ExpireDue ok now d)) i = Some r'"
  then obtain r where r: "trow d i = Some r" "r' = r \<or> expiry_due now r \<and> r' = r\<lparr>tr_state := StateExpired\<rparr>"
    by (auto simp: trow_ExpireDue split: if_splits)
  then have "row_ok r" using assms by (auto simp: rows_ok_def)
  then have "row_ok r'" using r(2) row_ok_expire by blast
  then show "row_ok r' \<and> (\<exists>r. trow d i = Some r
      \<and> (tr_state r' \<in> {StateCreated, StateUploading} \<longrightarrow> tr_state r \<in> {StateCreated, StateUploading}))"
    using r by auto
qed

lemma kept_ExpireDue: "wp (exec (\<lambda>ok. db_ExpireDue ok now)) (\<lambda>_. kept S w) w"
  by (rule kept_wp, rule inv_exec) (auto intro: inv_intros rows_step_ExpireDue dest: server_invD)

text \<open>Any row may go to deleting; a row without a code may be abandoned.\<close>

lemma kept_SetState_Deleting: "wp (exec (\<lambda>ok. db_SetState ok i StateDeleting)) (\<lambda>_. kept S w) w"
  by (rule kept_wp, rule inv_exec)
    (auto intro!: inv_intros rows_step_SetState simp: state_fits_def split: option.splits dest: server_invD)

lemma codes_SetState:
  "trow (snd (db_SetState ok j s d)) i = Some r' \<Longrightarrow> \<exists>r. trow d i = Some r \<and> tr_code r' = tr_code r"
  by (auto simp: db_SetState_def db_write_def tbl_find_modify split: if_splits)

lemma wp_abandon_stale:
  assumes "server_inv S w" and "\<And>t r. t \<in> set ts \<Longrightarrow> trow (w_db w) (t_ID t) = Some r \<Longrightarrow> tr_code r = None"
  shows "wp (abandon_stale ts n) (\<lambda>_. server_inv S) w"
  using assms
proof (induction ts arbitrary: n w)
  case (Cons t ts)
  have "wp (exec (\<lambda>ok. db_SetState ok (t_ID t) StateAbandoned)) (\<lambda>_ w'. server_inv S w'
      \<and> (\<forall>i r'. trow (w_db w') i = Some r' \<longrightarrow> (\<exists>r. trow (w_db w) i = Some r \<and> tr_code r' = tr_code r))) w"
  proof (rule wp_conj)
    show "wp (exec (\<lambda>ok. db_SetState ok (t_ID t) StateAbandoned)) (\<lambda>_. server_inv S) w"
    proof -
      have "state_fits r StateAbandoned" if "trow (w_db w) (t_ID t) = Some r" for r
        using Cons.prems(2) [of t r] that by (simp add: state_fits_def)
      then show ?thesis
        using Cons.prems(1) server_invD [OF Cons.prems(1)]
        by (intro inv_exec inv_intros rows_step_SetState) auto
    qed
    show "wp (exec (\<lambda>ok. db_SetState ok (t_ID t) StateAbandoned)) (\<lambda>_ w'.
      \<forall>i r'. trow (w_db w') i = Some r' \<longrightarrow> (\<exists>r. trow (w_db w) i = Some r \<and> tr_code r' = tr_code r)) w"
      by (rule wp_exec) (auto dest: codes_SetState)
  qed
  then show ?case
    unfolding abandon_stale.simps
  proof (rule wp_bindI, goal_cases)
    case (1 r w1)
    have "wp (abandon_stale ts k) (\<lambda>_. server_inv S) w1" for k
    proof (rule Cons.IH)
      show "server_inv S w1" using 1 by blast
      fix t' r assume "t' \<in> set ts" "trow (w_db w1) (t_ID t') = Some r"
      then show "tr_code r = None" using 1 Cons.prems(2) [of t'] by fastforce
    qed
    then show ?case by (cases r) simp_all
  qed
qed simp

lemma wp_trash_invalidated:
  assumes "server_inv S w"
  shows "wp (State_Monad.bind (InvalidateManifest i) (\<lambda>_. ToTrash i)) (\<lambda>_. server_inv S) w"
proof -
  let ?w = "w\<lparr>w_cache := cache_drop i (w_cache w)\<rparr>"
  have "server_inv S ?w" by (rule inv_invalidate [OF assms])
  moreover have "cache_get (w_cache ?w) i = None" by (simp add: mcache.drop_same)
  ultimately have "wp (ToTrash i) (\<lambda>_. server_inv S) ?w"
    by (intro wp_mono [OF ToTrash_frame]) (rule inv_trashed)
  then show ?thesis by (simp add: InvalidateManifest_def)
qed

lemma kept_trash:
  assumes "\<And>b w. wp (f b) (\<lambda>_. kept S w) w"
  shows "wp (State_Monad.bind (InvalidateManifest i) (\<lambda>_. State_Monad.bind (ToTrash i) f)) (\<lambda>_. kept S w) w"
proof (rule kept_wp)
  fix w assume "server_inv S w"
  from wp_trash_invalidated [OF this, of i]
  show "wp (State_Monad.bind (InvalidateManifest i) (\<lambda>_. State_Monad.bind (ToTrash i) f)) (\<lambda>_. server_inv S) w"
    by (simp only: wp_bind) (auto elim!: wp_mono intro: wp_kept [OF assms])
qed

lemma kept_delete_unpinned: "wp (delete_unpinned ts n) (\<lambda>_. kept S w) w"
proof (induction ts arbitrary: n w)
  case (Cons t ts)
  show ?case
    unfolding delete_unpinned.simps
    by (intro kept.steps kept_SetState_Deleting kept_trash kept_prims Cons.IH)
qed (simp add: kept.refl)

lemma kept_EmptyTrash: "wp EmptyTrash (\<lambda>_. kept S w) w"
proof -
  have rem: "wp (remove_trash i) (\<lambda>_. kept S w) w" for i w
    unfolding remove_trash_def by (simp, rule wp_io) (simp add: kept_def)
  have loop: "wp (empty_trash_loop ids n) (\<lambda>_. kept S w) w" for ids n w
  proof (induction ids arbitrary: n w)
    case (Cons i ids)
    show ?case unfolding empty_trash_loop.simps by (intro kept.steps rem Cons.IH)
  qed (simp add: kept.refl)
  have names: "wp (State (\<lambda>w. (map fst (w_trash w), w))) (\<lambda>_. kept S w) w" for w
    by (simp add: kept.refl)
  show ?thesis
    unfolding EmptyTrash_def by (intro kept.steps names kept_io loop)
qed

lemma stale_uncoded:
  assumes "server_inv S w" and "db_StaleStaging ok before (w_db w) = Inr stale" and "t \<in> set stale"
    and "trow (w_db w) (t_ID t) = Some r"
  shows "tr_code r = None"
proof -
  from assms(2,3) obtain r0 where r0: "r0 \<in> set (transfers (w_db w))" "t = scanTransfer r0" "is_precommit (tr_state r0)"
    by (auto simp: db_StaleStaging_def db_read_def split: if_splits)
  have "trow (w_db w) (tr_id r0) = Some r0"
    using server_invD(1) [OF assms(1)] r0(1) by (intro tbl_find_wf) (simp_all add: db_ok_def keys_ok_def)
  then have "r = r0" using assms(4) r0(2) by simp
  then show ?thesis
    using row_ok_code_None r0(3) server_invD(2) [OF assms(1)] assms(4) by (auto simp: rows_ok_def)
qed

lemma kept_Sweep: "wp (Sweep S now) (\<lambda>_. kept S w) w"
proof (rule kept_wp)
  fix w assume inv: "server_inv S w"
  show "wp (Sweep S now) (\<lambda>_. server_inv S) w"
    unfolding Sweep_def
  proof (rule wp_bindI [OF wp_kept [OF kept_ExpireDue inv]], goal_cases)
    case (1 e w1)
    show ?case
    proof (cases e)
      case (Inr expired)
      let ?before = "now - StagingTTLMinutes S * minute"
      have "wp (query (\<lambda>ok. db_StaleStaging ok ?before)) (\<lambda>st w2. server_inv S w2 \<and> (\<exists>ok. st = db_StaleStaging ok ?before (w_db w2))) w1"
        by (rule wp_query) (use 1 in auto)
      then show ?thesis
        unfolding Inr sum.case
      proof (rule wp_bindI, goal_cases)
        case (1 st w2)
        show ?case
        proof (cases st)
          case (Inr stale)
          have st: "wp (abandon_stale stale 0) (\<lambda>_. server_inv S) w2"
          proof (rule wp_abandon_stale)
            show "server_inv S w2" using 1 by blast
            fix t r assume "t \<in> set stale" "trow (w_db w2) (t_ID t) = Some r"
            then show "tr_code r = None" using 1 Inr stale_uncoded [of S w2 _ ?before stale t r] by auto
          qed
          show ?thesis
            unfolding Inr sum.case
          proof (rule wp_bindI [OF st], goal_cases)
            case (1 cleaned w3)
            have "wp (State_Monad.bind (query (\<lambda>ok. db_UnpinnedExpired ok now)) (\<lambda>un. case un of Inl err \<Rightarrow> return (Inl err)
                | Inr due \<Rightarrow> State_Monad.bind (delete_unpinned due 0) (\<lambda>deleted.
                    State_Monad.bind EmptyTrash (\<lambda>(emptied, _). State_Monad.bind (exec (\<lambda>ok. db_PurgeExpiredIdempotency ok now))
                      (\<lambda>_. return (Inr \<lparr>r_Expired = expired, r_StagingCleaned = cleaned, r_Deleted = deleted, r_TrashEmptied = emptied\<rparr>))))))
              (\<lambda>_. kept S w3) w3"
              by (intro kept.steps kept_prims kept_delete_unpinned kept_EmptyTrash)
            from wp_kept [OF this 1] show ?case .
          qed
        qed (use 1 in simp)
      qed
    qed (use 1 in simp)
  qed
qed

section \<open>What the pass spares\<close>

definition spares :: "string \<Rightarrow> world \<Rightarrow> world \<Rightarrow> bool" where
  "spares i w w' \<longleftrightarrow>
     trow (w_db w') i = trow (w_db w) i \<and> live w' i = live w i \<and> staging w' i = staging w i
     \<and> filter (\<lambda>c. cr_transfer_id c = i) (claims (w_db w')) = filter (\<lambda>c. cr_transfer_id c = i) (claims (w_db w))"

interpretation spares: effect "spares i" for i
  by unfold_locales (auto simp: spares_def)

lemma spares_exec:
  assumes "\<And>ok d. trow (snd (f ok d)) i = trow d i"
    and "\<And>ok d. filter (\<lambda>c. cr_transfer_id c = i) (claims (snd (f ok d))) = filter (\<lambda>c. cr_transfer_id c = i) (claims d)"
  shows "wp (exec f) (\<lambda>_. spares i w) w"
  by (rule wp_exec) (simp add: spares_def assms)

lemma filter_purge: "j \<noteq> i \<Longrightarrow> filter (\<lambda>c. cr_transfer_id c = i) (filter (\<lambda>c. cr_transfer_id c \<noteq> j) cs)
    = filter (\<lambda>c. cr_transfer_id c = i) cs"
  by (induction cs) auto

lemma spares_db:
  "j \<noteq> i \<Longrightarrow> wp (exec (\<lambda>ok. db_SetState ok j s)) (\<lambda>_. spares i w) w"
  "j \<noteq> i \<Longrightarrow> wp (exec (\<lambda>ok. db_Purge ok j)) (\<lambda>_. spares i w) w"
  "wp (exec (\<lambda>ok. db_PurgeExpiredIdempotency ok now)) (\<lambda>_. spares i w) w"
  by (rule spares_exec;
      simp add: db_SetState_def db_Purge_def db_PurgeExpiredIdempotency_def db_write_def purge_rows_def
        tbl_find_modify tbl_find_delete filter_purge del: filter_filter)+

lemma spares_ToTrash: "j \<noteq> i \<Longrightarrow> wp (ToTrash j) (\<lambda>_. spares i w) w"
  by (rule wp_mono [OF ToTrash_frame]) (auto simp: trashed_def spares_def)

lemma spares_io: "wp io (\<lambda>_. spares i w) w"
  by (rule wp_io) (simp add: spares_def)

lemma spares_misc: "wp (InvalidateManifest j) (\<lambda>_. spares i w) w" "wp (query f) (\<lambda>_. spares i w) w"
  by (simp add: InvalidateManifest_def spares_def, rule wp_query, simp add: spares_def)

lemma spares_EmptyTrash: "wp EmptyTrash (\<lambda>_. spares i w) w"
proof -
  have rem: "wp (remove_trash j) (\<lambda>_. spares i w) w" for j w
    unfolding remove_trash_def by (simp, rule wp_io) (simp add: spares_def)
  have loop: "wp (empty_trash_loop ids n) (\<lambda>_. spares i w) w" for ids n w
  proof (induction ids arbitrary: n w)
    case (Cons j ids)
    show ?case unfolding empty_trash_loop.simps by (intro spares.steps rem Cons.IH)
  qed (simp add: spares.refl)
  have names: "wp (State (\<lambda>w. (map fst (w_trash w), w))) (\<lambda>_. spares i w) w" for w
    by (simp add: spares.refl)
  show ?thesis unfolding EmptyTrash_def by (intro spares.steps names spares_io loop)
qed

lemma spares_abandon: "i \<notin> t_ID ` set ts \<Longrightarrow> wp (abandon_stale ts n) (\<lambda>_. spares i w) w"
proof (induction ts arbitrary: n w)
  case (Cons t ts)
  then have "t_ID t \<noteq> i" "i \<notin> t_ID ` set ts" by auto
  then show ?case unfolding abandon_stale.simps by (intro spares.steps spares_db Cons.IH)
qed (simp add: spares.refl)

lemma spares_delete: "i \<notin> t_ID ` set ts \<Longrightarrow> wp (delete_unpinned ts n) (\<lambda>_. spares i w) w"
proof (induction ts arbitrary: n w)
  case (Cons t ts)
  then have "t_ID t \<noteq> i" "i \<notin> t_ID ` set ts" by auto
  then show ?case
    unfolding delete_unpinned.simps by (intro spares.steps spares_db spares_ToTrash spares_misc Cons.IH)
qed (simp add: spares.refl)

text \<open>What a pass at that time must not touch.\<close>

definition promised :: "server \<Rightarrow> time \<Rightarrow> db \<Rightarrow> transfer_row \<Rightarrow> bool" where
  "promised S now d r \<longleftrightarrow>
     tr_state r = StateCommitted \<and> \<not> expiry_due now r
     \<or> tr_state r \<in> {StateCommitted, StateExpired} \<and> (\<exists>c\<in>set (claims d). cr_transfer_id c = tr_id r \<and> active_claim now c)
     \<or> is_precommit (tr_state r) \<and> \<not> tr_created_at r < unix (now - StagingTTLMinutes S * minute)"

definition expired_only :: "time \<Rightarrow> transfer_row \<Rightarrow> transfer_row" where
  "expired_only now r = (if expiry_due now r then r\<lparr>tr_state := StateExpired\<rparr> else r)"

lemma ExpireDue_frame:
  "claims (snd (db_ExpireDue ok now d)) = claims d" "fst (db_ExpireDue ok now d) = Inr n \<Longrightarrow> ok"
  by (simp_all add: db_ExpireDue_def db_write_def split: if_splits)

lemma row_unique: "db_ok d \<Longrightarrow> r \<in> set (transfers d) \<Longrightarrow> trow d (tr_id r) = Some r"
  by (rule tbl_find_wf) (simp_all add: db_ok_def keys_ok_def)

lemma stale_member:
  assumes "db_ok d" and "db_StaleStaging ok before d = Inr ts" and "i \<in> t_ID ` set ts"
  obtains r where "trow d i = Some r" "is_precommit (tr_state r)" "tr_created_at r < unix before"
  using assms row_unique [OF assms(1)] by (auto simp: db_StaleStaging_def db_read_def split: if_splits)

lemma unpinned_member:
  assumes "db_ok d" and "db_UnpinnedExpired ok now d = Inr ts" and "i \<in> t_ID ` set ts"
  obtains r where "trow d i = Some r" "unpinned now d r"
  using assms row_unique [OF assms(1)] by (auto simp: db_UnpinnedExpired_def db_read_def split: if_splits)

lemma promised_kept:
  assumes "promised S now d r \<or> tr_state r = StateDeleting" and "tr_id r = i"
    and "filter (\<lambda>c. cr_transfer_id c = i) (claims d') = filter (\<lambda>c. cr_transfer_id c = i) (claims d)"
  shows "\<not> (is_precommit (tr_state (expired_only now r)) \<and> tr_created_at (expired_only now r) < unix (now - StagingTTLMinutes S * minute))"
    and "\<not> unpinned now d' (expired_only now r)"
proof -
  have "set (filter (\<lambda>c. cr_transfer_id c = i) (claims d')) = set (filter (\<lambda>c. cr_transfer_id c = i) (claims d))"
    using assms(3) by simp
  then have c: "c \<in> set (claims d') \<and> cr_transfer_id c = i \<longleftrightarrow> c \<in> set (claims d) \<and> cr_transfer_id c = i" for c
    by auto
  show "\<not> (is_precommit (tr_state (expired_only now r)) \<and> tr_created_at (expired_only now r) < unix (now - StagingTTLMinutes S * minute))"
    using assms(1) by (auto simp: promised_def expired_only_def is_precommit_def expiry_due_def)
  show "\<not> unpinned now d' (expired_only now r)"
    using assms(1,2) c by (auto simp: promised_def unpinned_def list_ex_iff expired_only_def is_precommit_def expiry_due_def)
qed

lemma Sweep_spares:
  assumes inv: "server_inv S w" and r: "trow (w_db w) i = Some r" and p: "promised S now (w_db w) r \<or> tr_state r = StateDeleting"
  shows "wp (Sweep S now) (\<lambda>_ w'. (trow (w_db w') i = Some r \<or> trow (w_db w') i = Some (expired_only now r))
    \<and> live w' i = live w i \<and> staging w' i = staging w i) w"
proof -
  have id: "tr_id r = i" using tbl_find_key [OF r] .
  let ?r = "expired_only now r"
  let ?before = "now - StagingTTLMinutes S * minute"
  let ?I = "\<lambda>w'. trow (w_db w') i = Some ?r \<and> live w' i = live w i \<and> staging w' i = staging w i
    \<and> filter (\<lambda>c. cr_transfer_id c = i) (claims (w_db w')) = filter (\<lambda>c. cr_transfer_id c = i) (claims (w_db w))"
  have step: "?I u \<Longrightarrow> spares i u v \<Longrightarrow> ?I v" for u v by (simp add: spares_def)
  have fstep: "?I u \<Longrightarrow> faults_only u v \<Longrightarrow> ?I v" for u v by (auto simp: faults_only_def)
  have e: "wp (exec (\<lambda>ok. db_ExpireDue ok now)) (\<lambda>e w1. (trow (w_db w1) i = Some r \<or> trow (w_db w1) i = Some ?r)
      \<and> live w1 i = live w i \<and> staging w1 i = staging w i \<and> (\<forall>x. e = Inr x \<longrightarrow> ?I w1)) w"
    by (rule wp_exec) (auto simp: trow_ExpireDue ExpireDue_frame r expired_only_def dest: ExpireDue_frame(2))
  show ?thesis
    unfolding Sweep_def
  proof (rule wp_bindI [OF wp_conj [OF wp_kept [OF kept_ExpireDue inv] e]], goal_cases)
    case (1 e w1)
    show ?case
    proof (cases e)
      case (Inr expired)
      then have i1: "server_inv S w1" "?I w1" using 1 by auto
      have st: "wp (query (\<lambda>ok. db_StaleStaging ok ?before)) (\<lambda>st w2. faults_only w1 w2
          \<and> (\<exists>ok. st = db_StaleStaging ok ?before (w_db w2))) w1"
        by (rule wp_query) auto
      show ?thesis
        unfolding Inr sum.case
      proof (rule wp_bindI [OF st], goal_cases)
        case (1 st w2)
        then have i2: "server_inv S w2" "?I w2" using i1 fstep inv_faults_only by blast+
        show ?case
        proof (cases st)
          case (Inr stale)
          then obtain ok where q: "db_StaleStaging ok ?before (w_db w2) = Inr stale" using 1 by auto
          have "i \<notin> t_ID ` set stale"
          proof
            assume "i \<in> t_ID ` set stale"
            from stale_member [OF server_invD(1) [OF i2(1)] q this] obtain r0 where
              "trow (w_db w2) i = Some r0" "is_precommit (tr_state r0)" "tr_created_at r0 < unix ?before" .
            then show False using promised_kept(1) [OF p id, of "w_db w2"] i2(2) by auto
          qed
          then have ab: "wp (abandon_stale stale 0) (\<lambda>_. spares i w2) w2" by (rule spares_abandon)
          have ab': "wp (abandon_stale stale 0) (\<lambda>_. server_inv S) w2"
            using stale_uncoded [OF i2(1) q] by (intro wp_abandon_stale [OF i2(1)])
          show ?thesis
            unfolding Inr sum.case
          proof (rule wp_bindI [OF wp_conj [OF ab ab']], goal_cases)
            case (1 cleaned w3)
            then have i3: "server_inv S w3" "?I w3" using step i2(2) by blast+
            have un: "wp (query (\<lambda>ok. db_UnpinnedExpired ok now)) (\<lambda>un w4. faults_only w3 w4
                \<and> (\<exists>ok. un = db_UnpinnedExpired ok now (w_db w4))) w3"
              by (rule wp_query) auto
            show ?case
            proof (rule wp_bindI [OF un], goal_cases)
              case (1 un w4)
              then have i4: "server_inv S w4" "?I w4" using i3 fstep inv_faults_only by blast+
              show ?case
              proof (cases un)
                case (Inr due)
                then obtain ok' where q: "db_UnpinnedExpired ok' now (w_db w4) = Inr due" using 1 by auto
                have "i \<notin> t_ID ` set due"
                proof
                  assume "i \<in> t_ID ` set due"
                  from unpinned_member [OF server_invD(1) [OF i4(1)] q this] obtain r0 where
                    "trow (w_db w4) i = Some r0" "unpinned now (w_db w4) r0" .
                  then show False using promised_kept(2) [OF p id, of "w_db w4"] i4(2) by auto
                qed
                then have "wp (State_Monad.bind (delete_unpinned due 0) (\<lambda>deleted. State_Monad.bind EmptyTrash
                    (\<lambda>(emptied, _). State_Monad.bind (exec (\<lambda>ok. db_PurgeExpiredIdempotency ok now))
                      (\<lambda>_. return (Inr \<lparr>r_Expired = expired, r_StagingCleaned = cleaned, r_Deleted = deleted,
                         r_TrashEmptied = emptied\<rparr>))))) (\<lambda>_. spares i w4) w4"
                  by (intro spares.steps spares_delete spares_EmptyTrash spares_db)
                then show ?thesis
                  unfolding Inr sum.case by (rule wp_mono) (use step [OF i4(2)] in blast)
              qed (use i4 in simp)
            qed
          qed
        qed (use i2 in simp)
      qed
    qed (use 1 in auto)
  qed
qed

text \<open>
  C22: the janitor spares what is promised, whatever fails. A pass never removes or changes the
  files of a transfer that is committed and not yet due, of one that a receiver's active lease
  still pins, or of an upload within its staging time; its row stays too, at most marked
  expired when it is due.
\<close>

theorem Sweep_spares_promised:
  assumes "server_inv S w" and "trow (w_db w) i = Some r" and "promised S now (w_db w) r"
    and "run_state (Sweep S now) w = (res, w')"
  shows "(trow (w_db w') i = Some r \<or> trow (w_db w') i = Some (expired_only now r))
    \<and> live w' i = live w i \<and> staging w' i = staging w i \<and> server_inv S w'"
  using wp_run [OF wp_conj [OF Sweep_spares [OF assms(1,2) disjI1 [OF assms(3)]] wp_kept [OF kept_Sweep assms(1)]] assms(4)] by blast


text \<open>
  A deletion that was interrupted is not retried by the janitor. Once a transfer is marked
  as being deleted (the pass that marked it failed to move or purge it), no later pass, with or
  without faults, touches its row or its files; only the reconciliation of the next start does.
\<close>

theorem Sweep_never_retries_deleting:
  assumes "server_inv S w" and "trow (w_db w) i = Some r" and "tr_state r = StateDeleting"
    and "run_state (Sweep S now) w = (res, w')"
  shows "trow (w_db w') i = Some r \<and> live w' i = live w i \<and> staging w' i = staging w i"
proof -
  have "expired_only now r = r" using assms(3) by (simp add: expired_only_def expiry_due_def)
  then show ?thesis using wp_run [OF Sweep_spares [OF assms(1,2) disjI2 [OF assms(3)]] assms(4)] by simp
qed

section \<open>What the pass does when nothing fails\<close>

abbreviation to_state :: "tstate \<Rightarrow> transfer_row \<Rightarrow> transfer_row" where
  "to_state s \<equiv> \<lambda>r. r\<lparr>tr_state := s\<rparr>"

lemma run_SetState: "db_SetState True i s d = (Inr (), modify_transfer i (to_state s) d)"
  by (simp add: db_SetState_def db_write_def)

lemma run_Purge: "db_Purge True i d = (Inr (), purge_rows i d)"
  by (simp add: db_Purge_def db_write_def)

lemma run_abandon:
  "w_faults w = [] \<Longrightarrow> run_state (abandon_stale ts n) w = (n + length ts,
     w\<lparr>w_db := (w_db w)\<lparr>transfers := map (\<lambda>r. if tr_id r \<in> t_ID ` set ts then to_state StateAbandoned r else r)
       (transfers (w_db w))\<rparr>\<rparr>)"
proof (induction ts arbitrary: n w)
  case (Cons t ts)
  let ?g = "\<lambda>ids r. if tr_id r \<in> ids then to_state StateAbandoned r else r"
  have "map (?g (t_ID ` set ts)) (tbl_modify tr_id (t_ID t) (to_state StateAbandoned) rs) = map (?g (t_ID ` set (t # ts))) rs" for rs
    unfolding tbl_modify_def map_map by (rule map_cong) auto
  then show ?case
    using Cons.prems Cons.IH [of "w\<lparr>w_db := modify_transfer (t_ID t) (to_state StateAbandoned) (w_db w)\<rparr>" "Suc n"]
    by (simp add: run_SetState)
qed simp

text \<open>Deletion leaves exactly the other rows, and nothing of the deleted ones.\<close>

definition deleted_all :: "string set \<Rightarrow> world \<Rightarrow> world \<Rightarrow> bool" where
  "deleted_all ids w w' \<longleftrightarrow> w_faults w' = []
     \<and> transfers (w_db w') = filter (\<lambda>r. tr_id r \<notin> ids) (transfers (w_db w))
     \<and> claims (w_db w') = filter (\<lambda>c. cr_transfer_id c \<notin> ids) (claims (w_db w))
     \<and> segments (w_db w') = filter (\<lambda>s. sr_transfer_id s \<notin> ids) (segments (w_db w))
     \<and> idempotency_keys (w_db w') = filter (\<lambda>k. ir_transfer_id k \<notin> Some ` ids) (idempotency_keys (w_db w))
     \<and> (\<forall>i. live w' i = (if i \<in> ids then None else live w i))
     \<and> (\<forall>i. staging w' i = (if i \<in> ids then None else staging w i))"

lemma delete_modify: "(\<And>r. tr_id (f r) = tr_id r) \<Longrightarrow> tbl_delete tr_id i (tbl_modify tr_id i f rs) = tbl_delete tr_id i rs"
  by (induction rs) (auto simp: tbl_delete_def tbl_modify_def)

lemma run_delete:
  "w_faults w = [] \<Longrightarrow>
   \<exists>w'. run_state (delete_unpinned ts n) w = (n + length ts, w') \<and> deleted_all (t_ID ` set ts) w w'"
proof (induction ts arbitrary: n w)
  case Nil
  then show ?case by (auto simp: deleted_all_def)
next
  case (Cons t ts)
  let ?i = "t_ID t"
  let ?w1 = "w\<lparr>w_db := modify_transfer ?i (to_state StateDeleting) (w_db w), w_cache := cache_drop ?i (w_cache w)\<rparr>"
  have "w_faults ?w1 = []" using Cons.prems by simp
  from run_ToTrash [OF this, of ?i] obtain w2 where w2: "run_state (ToTrash ?i) ?w1 = (True, w2)" "trashed_fully ?i ?w1 w2"
    by blast
  let ?w3 = "w2\<lparr>w_db := purge_rows ?i (w_db w2)\<rparr>"
  have "w_faults ?w3 = []" using w2(2) Cons.prems by (simp add: trashed_fully_def)
  from Cons.IH [OF this, of "Suc n"] obtain w' where
    w': "run_state (delete_unpinned ts (Suc n)) ?w3 = (Suc n + length ts, w')" "deleted_all (t_ID ` set ts) ?w3 w'" by blast
  have "run_state (delete_unpinned (t # ts) n) w = (n + length (t # ts), w')"
    using Cons.prems w2(1) w'(1) \<open>w_faults ?w3 = []\<close> by (simp add: run_SetState run_Purge InvalidateManifest_def)
  moreover have "transfers (w_db ?w3) = tbl_delete tr_id ?i (transfers (w_db w))"
    "claims (w_db ?w3) = filter (\<lambda>c. cr_transfer_id c \<noteq> ?i) (claims (w_db w))"
    "segments (w_db ?w3) = filter (\<lambda>s. sr_transfer_id s \<noteq> ?i) (segments (w_db w))"
    "idempotency_keys (w_db ?w3) = filter (\<lambda>k. ir_transfer_id k \<noteq> Some ?i) (idempotency_keys (w_db w))"
    using w2(2) by (simp_all add: trashed_fully_def purge_rows_def delete_modify)
  moreover have "live ?w3 i = (if i = ?i then None else live w i)" "staging ?w3 i = (if i = ?i then None else staging w i)" for i
    using w2(2) by (simp_all add: trashed_fully_def delete_conv')
  ultimately show ?case
    using w'(2) by (auto simp: deleted_all_def tbl_delete_def filter_filter conj_commute intro!: filter_cong)
qed

lemma run_empty_trash:
  "w_faults w = [] \<Longrightarrow> run_state (empty_trash_loop ids n) w
    = ((n + length ids, True), w\<lparr>w_trash := fold AList.delete ids (w_trash w)\<rparr>)"
  by (induction ids arbitrary: n w) (simp_all add: remove_trash_def)

lemma fold_delete_all: "set (map fst xs) \<subseteq> set ids \<Longrightarrow> fold AList.delete ids xs = []"
proof (induction ids arbitrary: xs)
  case (Cons i ids)
  have "set (map fst (AList.delete i xs)) \<subseteq> set ids"
    using Cons.prems by (auto simp: AList.delete_eq)
  then show ?case using Cons.IH by simp
qed simp

lemma run_EmptyTrash:
  "w_faults w = [] \<Longrightarrow> run_state EmptyTrash w = ((length (w_trash w), True), w\<lparr>w_trash := []\<rparr>)"
  by (simp add: EmptyTrash_def run_empty_trash fold_delete_all)

definition is_stale :: "server \<Rightarrow> time \<Rightarrow> transfer_row \<Rightarrow> bool" where
  "is_stale S now r \<longleftrightarrow> is_precommit (tr_state r) \<and> tr_created_at r < unix (now - StagingTTLMinutes S * minute)"

definition swept_rows :: "server \<Rightarrow> time \<Rightarrow> db \<Rightarrow> transfer_row list" where
  "swept_rows S now d = map (\<lambda>r. if is_stale S now r then to_state StateAbandoned r else expired_only now r) (transfers d)"

definition swept :: "server \<Rightarrow> time \<Rightarrow> db \<Rightarrow> string set" where
  "swept S now d = tr_id ` set (filter (unpinned now d) (swept_rows S now d))"

lemma ids_filter: "distinct (map f xs) \<Longrightarrow> x \<in> set xs \<Longrightarrow> f x \<in> f ` set (filter P xs) \<longleftrightarrow> P x"
  by (auto simp: distinct_map dest: inj_onD)

lemma swept_mem: "db_ok d \<Longrightarrow> r \<in> set (swept_rows S now d) \<Longrightarrow> tr_id r \<in> swept S now d \<longleftrightarrow> unpinned now d r"
proof -
  assume ok: "db_ok d" and r: "r \<in> set (swept_rows S now d)"
  have "map tr_id (swept_rows S now d) = map tr_id (transfers d)" by (simp add: swept_rows_def expired_only_def)
  then have "distinct (map tr_id (swept_rows S now d))" using ok by (simp add: db_ok_def keys_ok_def tbl_wf_def)
  from ids_filter [OF this r] show ?thesis by (simp only: swept_def)
qed

lemma swept_spec:
  assumes nf: "w_faults w = []" and ok: "db_ok (w_db w)"
  shows "\<exists>res w'. run_state (Sweep S now) w = (Inr res, w')
    \<and> transfers (w_db w') = filter (\<lambda>r. \<not> unpinned now (w_db w) r) (swept_rows S now (w_db w))
    \<and> claims (w_db w') = filter (\<lambda>c. cr_transfer_id c \<notin> swept S now (w_db w)) (claims (w_db w))
    \<and> segments (w_db w') = filter (\<lambda>s. sr_transfer_id s \<notin> swept S now (w_db w)) (segments (w_db w))
    \<and> idempotency_keys (w_db w') = filter (\<lambda>k. unix now < ir_expires_at k \<and> ir_transfer_id k \<notin> Some ` swept S now (w_db w))
         (idempotency_keys (w_db w))
    \<and> (\<forall>i. live w' i = (if i \<in> swept S now (w_db w) then None else live w i))
    \<and> (\<forall>i. staging w' i = (if i \<in> swept S now (w_db w) then None else staging w i))
    \<and> w_trash w' = [] \<and> w_faults w' = []
    \<and> r_Expired res = length (filter (expiry_due now) (transfers (w_db w)))
    \<and> r_StagingCleaned res = length (filter (is_stale S now) (transfers (w_db w)))
    \<and> r_Deleted res = length (filter (unpinned now (w_db w)) (swept_rows S now (w_db w)))"
proof -
  let ?d = "w_db w"
  let ?e = "map (expired_only now) (transfers ?d)"
  let ?s = "filter (is_stale S now) ?e"
  let ?rows = "swept_rows S now ?d"
  let ?un = "map scanTransfer (filter (unpinned now ?d) ?rows)"
  have keys: "distinct (map tr_id (transfers ?d))" using ok by (simp add: db_ok_def keys_ok_def tbl_wf_def)
  have eid: "tr_id (expired_only now r) = tr_id r" for r by (simp add: expired_only_def)
  have est: "is_stale S now (expired_only now r) = is_stale S now r" for r
    by (auto simp: expired_only_def is_stale_def expiry_due_def is_precommit_def)
  have fe: "length ?s = length (filter (is_stale S now) (transfers ?d))"
    by (simp add: filter_map o_def est)
  have ek: "distinct (map tr_id ?e)" using keys by (simp add: o_def eid)
  have sweep: "map (\<lambda>r. if tr_id r \<in> t_ID ` set (map scanTransfer ?s) then to_state StateAbandoned r else r) ?e = ?rows"
  proof -
    have "tr_id r \<in> t_ID ` set (map scanTransfer ?s) \<longleftrightarrow> is_stale S now r" if "r \<in> set ?e" for r
      using ids_filter [OF ek that, of "is_stale S now"] by (simp only: set_map image_image scanTransfer_simps)
    then have "map (\<lambda>r. if tr_id r \<in> t_ID ` set (map scanTransfer ?s) then to_state StateAbandoned r else r) ?e
        = map (\<lambda>r. if is_stale S now r then to_state StateAbandoned r else r) ?e" by (intro map_cong) auto
    also have "\<dots> = ?rows"
    proof -
      have "\<not> (is_stale S now r \<and> expiry_due now r)" for r by (auto simp: is_stale_def expiry_due_def is_precommit_def)
      then show ?thesis by (auto simp: swept_rows_def est) (simp_all add: expired_only_def)
    qed
    finally show ?thesis .
  qed
  let ?w1 = "w\<lparr>w_db := ?d\<lparr>transfers := ?e\<rparr>\<rparr>"
  let ?w2 = "w\<lparr>w_db := ?d\<lparr>transfers := ?rows\<rparr>\<rparr>"
  have r1: "run_state (exec (\<lambda>ok. db_ExpireDue ok now)) w
      = (Inr (length (filter (expiry_due now) (transfers ?d))), ?w1)"
    using nf by (simp add: db_ExpireDue_def db_write_def expired_only_def [abs_def])
  have r2: "run_state (query (\<lambda>ok. db_StaleStaging ok (now - StagingTTLMinutes S * minute))) ?w1 = (Inr (map scanTransfer ?s), ?w1)"
    using nf by (simp add: db_StaleStaging_def db_read_def is_stale_def [abs_def])
  have r3: "run_state (abandon_stale (map scanTransfer ?s) 0) ?w1 = (length ?s, ?w2)"
  proof -
    have f: "transfers (w_db ?w1) = ?e" "w_faults ?w1 = []" using nf by simp_all
    show ?thesis unfolding run_abandon [OF f(2)] f(1) sweep by simp
  qed
  have "unpinned now (?d\<lparr>transfers := ts\<rparr>) = unpinned now ?d" for ts by (simp add: unpinned_def fun_eq_iff)
  then have r4: "run_state (query (\<lambda>ok. db_UnpinnedExpired ok now)) ?w2 = (Inr ?un, ?w2)"
    using nf by (simp add: db_UnpinnedExpired_def db_read_def)
  have "w_faults ?w2 = []" using nf by simp
  from run_delete [OF this, of ?un 0] obtain w3 where
    r5: "run_state (delete_unpinned ?un 0) ?w2 = (length ?un, w3)" and d: "deleted_all (t_ID ` set ?un) ?w2 w3" by auto
  have r6: "run_state EmptyTrash w3 = ((length (w_trash w3), True), w3\<lparr>w_trash := []\<rparr>)"
    using d by (intro run_EmptyTrash) (simp add: deleted_all_def)
  let ?w5 = "w3\<lparr>w_trash := [], w_db := (w_db w3)\<lparr>idempotency_keys := filter (\<lambda>k. \<not> ir_expires_at k \<le> unix now) (idempotency_keys (w_db w3))\<rparr>\<rparr>"
  have r7: "run_state (exec (\<lambda>ok. db_PurgeExpiredIdempotency ok now)) (w3\<lparr>w_trash := []\<rparr>) = (Inr (), ?w5)"
    using d by (simp add: db_PurgeExpiredIdempotency_def db_write_def deleted_all_def)
  have ids: "t_ID ` set ?un = swept S now ?d" by (simp add: swept_def image_image)
  have rows: "filter (\<lambda>r. tr_id r \<notin> swept S now ?d) ?rows = filter (\<lambda>r. \<not> unpinned now ?d r) ?rows"
    by (rule filter_cong [OF refl]) (simp add: swept_mem [OF ok])
  define res where "res = \<lparr>r_Expired = length (filter (expiry_due now) (transfers ?d)), r_StagingCleaned = length ?s,
    r_Deleted = length ?un, r_TrashEmptied = length (w_trash w3)\<rparr>"
  have "run_state (Sweep S now) w = (Inr res, ?w5)"
    unfolding Sweep_def res_def by (simp only: run_state_bind r1 r2 r3 r4 r5 r6 r7 prod.case sum.case run_state_return)
  moreover have "transfers (w_db ?w5) = filter (\<lambda>r. \<not> unpinned now ?d r) ?rows"
    "claims (w_db ?w5) = filter (\<lambda>c. cr_transfer_id c \<notin> swept S now ?d) (claims ?d)"
    "segments (w_db ?w5) = filter (\<lambda>s. sr_transfer_id s \<notin> swept S now ?d) (segments ?d)"
    "idempotency_keys (w_db ?w5) = filter (\<lambda>k. unix now < ir_expires_at k \<and> ir_transfer_id k \<notin> Some ` swept S now ?d) (idempotency_keys ?d)"
    "\<forall>i. live ?w5 i = (if i \<in> swept S now ?d then None else live w i)"
    "\<forall>i. staging ?w5 i = (if i \<in> swept S now ?d then None else staging w i)" "w_faults ?w5 = []"
    using d [unfolded ids] rows by (simp_all add: deleted_all_def not_le conj_commute)
  ultimately show ?thesis
    by (intro exI [of _ res] exI [of _ ?w5]) (simp add: res_def o_def est not_le)
qed


text \<open>
  C23: the pass refines its specification. When nothing fails, a pass marks the due transfers
  expired and the stale uploads abandoned, deletes exactly the terminal transfers that no active
  lease pins, with their claims, live and staging directories, empties the trash, drops the
  expired idempotency keys, leaves every other row and directory alone, and reports those counts.
\<close>

theorem Sweep_refines:
  assumes nf: "w_faults w = []" and ok: "db_ok (w_db w)"
  shows "\<exists>res w'. run_state (Sweep S now) w = (Inr res, w')
    \<and> transfers (w_db w') = filter (\<lambda>r. \<not> unpinned now (w_db w) r) (swept_rows S now (w_db w))
    \<and> claims (w_db w') = filter (\<lambda>c. cr_transfer_id c \<notin> swept S now (w_db w)) (claims (w_db w))
    \<and> segments (w_db w') = filter (\<lambda>s. sr_transfer_id s \<notin> swept S now (w_db w)) (segments (w_db w))
    \<and> idempotency_keys (w_db w') = filter (\<lambda>k. unix now < ir_expires_at k \<and> ir_transfer_id k \<notin> Some ` swept S now (w_db w))
         (idempotency_keys (w_db w))
    \<and> (\<forall>i. live w' i = (if i \<in> swept S now (w_db w) then None else live w i))
    \<and> (\<forall>i. staging w' i = (if i \<in> swept S now (w_db w) then None else staging w i))
    \<and> w_trash w' = [] \<and> w_faults w' = []
    \<and> r_Expired res = length (filter (expiry_due now) (transfers (w_db w)))
    \<and> r_StagingCleaned res = length (filter (is_stale S now) (transfers (w_db w)))
    \<and> r_Deleted res = length (filter (unpinned now (w_db w)) (swept_rows S now (w_db w)))"
  using swept_spec [OF assms] .

lemma run_Sweep_idle:
  assumes "w_faults w = []" and "w_trash w = []" and "\<forall>r\<in>set (transfers (w_db w)). \<not> expiry_due now r \<and> \<not> is_stale S now r \<and> \<not> unpinned now (w_db w) r"
    and "idempotency_keys (w_db w) = filter (\<lambda>k. unix now < ir_expires_at k) (idempotency_keys (w_db w))"
  shows "run_state (Sweep S now) w = (Inr \<lparr>r_Expired = 0, r_StagingCleaned = 0, r_Deleted = 0, r_TrashEmptied = 0\<rparr>, w)"
proof -
  let ?d = "w_db w"
  have none: "filter (expiry_due now) (transfers ?d) = []" "filter (is_stale S now) (transfers ?d) = []"
    "filter (unpinned now ?d) (transfers ?d) = []"
    using assms(3) by (auto simp: filter_empty_conv)
  have "map (\<lambda>r. if expiry_due now r then r\<lparr>tr_state := StateExpired\<rparr> else r) (transfers ?d) = transfers ?d"
    using assms(3) by (intro map_idI) auto
  then have r1: "run_state (exec (\<lambda>ok. db_ExpireDue ok now)) w = (Inr 0, w)"
    using assms(1) by (simp add: db_ExpireDue_def db_write_def none)
  have r2: "run_state (query (\<lambda>ok. db_StaleStaging ok (now - StagingTTLMinutes S * minute))) w = (Inr [], w)"
    using assms(1) none(2) by (simp add: db_StaleStaging_def db_read_def is_stale_def [abs_def])
  have r3: "run_state (query (\<lambda>ok. db_UnpinnedExpired ok now)) w = (Inr [], w)"
    using assms(1) by (simp add: db_UnpinnedExpired_def db_read_def none)
  have r4: "run_state EmptyTrash w = ((0, True), w)" using run_EmptyTrash [OF assms(1)] assms(2) by simp
  have r5: "run_state (exec (\<lambda>ok. db_PurgeExpiredIdempotency ok now)) w = (Inr (), w)"
    using assms(1,4) by (simp add: db_PurgeExpiredIdempotency_def db_write_def not_le)
  show ?thesis
    unfolding Sweep_def
    by (simp only: run_state_bind r1 r2 r3 r4 r5 prod.case sum.case run_state_return abandon_stale.simps delete_unpinned.simps)
qed

text \<open>
  The pass is idempotent. When nothing fails, a second pass at the same time finds nothing
  to do: it reports zero everywhere and leaves the world as it is.
\<close>

theorem Sweep_idempotent:
  assumes nf: "w_faults w = []" and ok: "db_ok (w_db w)" and run: "run_state (Sweep S now) w = (res, w1)"
  shows "run_state (Sweep S now) w1 = (Inr \<lparr>r_Expired = 0, r_StagingCleaned = 0, r_Deleted = 0, r_TrashEmptied = 0\<rparr>, w1)"
proof -
  let ?d = "w_db w"
  let ?rows = "swept_rows S now ?d"
  have t: "transfers (w_db w1) = filter (\<lambda>r. \<not> unpinned now ?d r) ?rows"
    and c: "claims (w_db w1) = filter (\<lambda>c. cr_transfer_id c \<notin> swept S now ?d) (claims ?d)"
    and k: "idempotency_keys (w_db w1) = filter (\<lambda>k. unix now < ir_expires_at k \<and> ir_transfer_id k \<notin> Some ` swept S now ?d)
      (idempotency_keys ?d)"
    and z: "w_trash w1 = []" "w_faults w1 = []"
    using swept_spec [OF nf ok, of S now] run by auto
  have "idempotency_keys (w_db w1) = filter (\<lambda>k. unix now < ir_expires_at k) (idempotency_keys (w_db w1))"
    unfolding k filter_filter by (rule filter_cong) auto
  note k = this
  show ?thesis
  proof (rule run_Sweep_idle [OF z(2) z(1) _ k], intro ballI conjI)
    fix r assume r: "r \<in> set (transfers (w_db w1))"
    then have m: "r \<in> set ?rows" "\<not> unpinned now ?d r" by (auto simp: t)
    from m(1) show "\<not> expiry_due now r"
      by (auto simp: swept_rows_def expired_only_def expiry_due_def)
    from m(1) show "\<not> is_stale S now r"
      by (auto simp: swept_rows_def expired_only_def is_stale_def is_precommit_def)
    have "tr_id r \<notin> swept S now ?d" using swept_mem [OF ok m(1)] m(2) by simp
    then show "\<not> unpinned now (w_db w1) r"
      using m(2) by (auto simp: unpinned_def c list_ex_iff)
  qed
qed

text \<open>The committed sample, and the same world with its deletion interrupted.\<close>

lemma sample_live_row: "trow (w_db sample_live_world) sample_id = Some sample_published_row"
  by (simp add: tbl_find_def sample_published)

theorem Sweep_spares_promised_witness:
  "live (snd (run_state (Sweep sample_server (1700000200 * second)) sample_live_world)) sample_id = live sample_live_world sample_id"
proof -
  have "promised sample_server (1700000200 * second) (w_db sample_live_world) sample_published_row"
    by code_simp
  from Sweep_spares_promised [OF sample_live_inv sample_live_row this] show ?thesis using prod.collapse [symmetric] by blast
qed

definition sample_deleting_world :: world where
  "sample_deleting_world = snd (run_state (exec (\<lambda>ok. db_SetState ok sample_id StateDeleting)) sample_live_world)"

theorem Sweep_never_retries_deleting_witness:
  "live (snd (run_state (Sweep sample_server (1700009000 * second)) sample_deleting_world)) sample_id = live sample_deleting_world sample_id"
proof -
  have inv: "server_inv sample_server sample_deleting_world"
    unfolding sample_deleting_world_def
    by (rule wp_run [OF wp_kept [OF kept_SetState_Deleting sample_live_inv] prod.collapse [symmetric]])
  have "trow (w_db sample_deleting_world) sample_id = Some (to_state StateDeleting sample_published_row)" by code_simp
  from Sweep_never_retries_deleting [OF inv this _ prod.collapse [symmetric]] show ?thesis by simp
qed

theorem Sweep_refines_witness:
  "case run_state (Sweep sample_server (1700009000 * second)) sample_live_world of
     (Inr res, w') \<Rightarrow> transfers (w_db w') = [] \<and> live w' sample_id = None \<and> r_Deleted res = 1
   | (Inl _, _) \<Rightarrow> False"
proof -
  have nf: "w_faults sample_live_world = []" by code_simp
  have "swept_rows sample_server (1700009000 * second) (w_db sample_live_world) = [to_state StateExpired sample_published_row]"
    "filter (unpinned (1700009000 * second) (w_db sample_live_world)) [to_state StateExpired sample_published_row]
      = [to_state StateExpired sample_published_row]"
    "tr_id sample_published_row = sample_id" by code_simp+
  then show ?thesis
    using Sweep_refines [OF nf server_invD(1) [OF sample_live_inv], of sample_server "1700009000 * second"]
    by (auto simp: swept_def filter_empty_conv split: if_splits)
qed

theorem Sweep_idempotent_witness:
  "run_state (Sweep sample_server (1700009000 * second)) (snd (run_state (Sweep sample_server (1700009000 * second)) sample_live_world))
   = (Inr \<lparr>r_Expired = 0, r_StagingCleaned = 0, r_Deleted = 0, r_TrashEmptied = 0\<rparr>,
      snd (run_state (Sweep sample_server (1700009000 * second)) sample_live_world))"
proof -
  have nf: "w_faults sample_live_world = []" by code_simp
  show ?thesis
    by (rule Sweep_idempotent [OF nf server_invD(1) [OF sample_live_inv] prod.collapse [symmetric]])
qed

end
