(* ===== verification/SSS_Publish.thy ===== *)
theory SSS_Publish
  imports SSS_Service
begin

text \<open>
  The publication protocol of \<^verbatim>\<open>internal/transfer/publish.go\<close>, which both sending paths end in and
  which the start-up reconciliation completes when a crash cut it short: manifest, seal, rename,
  database transaction, in this order. It keeps the server invariant whatever fails, and its
  response is given only for a transfer that is published.
\<close>

section \<open>Publication\<close>

record CommitResponse =
  cp_Code :: string
  cp_CommittedAt :: time
  cp_ExpiresAt :: time

text \<open>\<^verbatim>\<open>json.Marshal\<close> cannot fail on this type; the digest is of its output.\<close>

definition writeAndDigestManifest :: "server \<Rightarrow> string \<Rightarrow> manifest \<Rightarrow> (string result) svc" where
  "writeAndDigestManifest S i m = do {
     ok \<leftarrow> WriteManifest i m;
     return (if \<not> ok then Inl ErrInternal else Inr (lib_blake3 S (lib_marshal S m)))
   }"

definition publish_error :: "go_error \<Rightarrow> errcode" where
  "publish_error e = (if AsError e \<noteq> ErrInternal then AsError e else ErrInternal)"

definition svc_publish ::
  "server \<Rightarrow> (nat \<Rightarrow> 8 word list) \<Rightarrow> time \<Rightarrow> string \<Rightarrow> manifest \<Rightarrow> int \<Rightarrow> string \<Rightarrow> int
   \<Rightarrow> (CommitResponse result) svc" where
  "svc_publish S draws now i m ttlMinutes note materializedBytes = do {
     st \<leftarrow> exec (\<lambda>ok. db_SetState ok i StateVerifying);
     case st of Inl _ \<Rightarrow> return (Inl ErrInternal) | Inr _ \<Rightarrow> do {
       nt \<leftarrow> exec (\<lambda>ok. db_SetNoteAndTTL ok i note ttlMinutes);
       case nt of Inl _ \<Rightarrow> return (Inl ErrInternal) | Inr _ \<Rightarrow> do {
         dg \<leftarrow> writeAndDigestManifest S i m;
         case dg of Inl e \<Rightarrow> return (Inl e) | Inr digest \<Rightarrow> do {
           sealed \<leftarrow> SealPayload i;
           if \<not> sealed then return (Inl ErrInternal)
           else do {
             published \<leftarrow> lay_Publish i;
             if \<not> published then return (Inl ErrInternal)
             else do {
               r \<leftarrow> exec (\<lambda>ok. db_Publish ok draws i now ttlMinutes digest materializedBytes);
               case r of Inl e \<Rightarrow> return (Inl (publish_error e)) | Inr t \<Rightarrow> do {
                 _ \<leftarrow> remember_manifest i m;
                 return (Inr \<lparr>cp_Code = FormatCode (t_Code t), cp_CommittedAt = t_CommittedAt t,
                   cp_ExpiresAt = t_ExpiresAt t\<rparr>)
               }
             }
           }
         }
       }
     }
   }"

text \<open>The check of a live directory, and the completion of a commit that was cut short.\<close>

fun payload_entries_present :: "string \<Rightarrow> entry list \<Rightarrow> bool svc" where
  "payload_entries_present i [] = return True"
| "payload_entries_present i (e # es) =
     (case safe_rel (ent_Path e) of
        None \<Rightarrow> return False
      | Some k \<Rightarrow> do {
          ok \<leftarrow> io;
          info \<leftarrow> State (\<lambda>w. (if \<not> ok then None else
            Option.bind (Option.bind (live w i) d_payload) (\<lambda>pl. if k = [] then Some NDir else map_of pl k), w));
          case info of
            None \<Rightarrow> return False
          | Some n \<Rightarrow>
              if is_file e \<and> (case n of NDir \<Rightarrow> True | NFile c _ _ \<Rightarrow> int (length c) \<noteq> ent_Size e)
              then return False else payload_entries_present i es
        })"

definition livePayloadValid :: "server \<Rightarrow> string \<Rightarrow> bool svc" where
  "livePayloadValid S i = do {
     there \<leftarrow> ManifestExists i;
     if \<not> there then return False
     else do {
       r \<leftarrow> ReadManifest S live i;
       case r of Inl _ \<Rightarrow> return False | Inr m \<Rightarrow> payload_entries_present i (man_Entries m)
     }
   }"

definition completeInterruptedPublish ::
  "server \<Rightarrow> (nat \<Rightarrow> 8 word list) \<Rightarrow> time \<Rightarrow> Transfer \<Rightarrow> (go_error + Transfer) svc" where
  "completeInterruptedPublish S draws now t = do {
     r \<leftarrow> ReadManifest S live (t_ID t);
     case r of Inl e \<Rightarrow> return (Inl e) | Inr m \<Rightarrow> do {
       sealed \<leftarrow> SealPayload_live (t_ID t);
       if \<not> sealed then return (Inl SystemError)
       else do {
         let ttl = (if t_RequestedTTLMinutes t = 0 then DefaultTTL S else t_RequestedTTLMinutes t);
         exec (\<lambda>ok. db_Publish ok draws (t_ID t) now ttl (lib_blake3 S (lib_marshal S m)) (TotalBytes m))
       }
     }
   }"

section \<open>Publication keeps the invariant\<close>

text \<open>
  Ready for publication: the staged payload is complete for the manifest, nothing is live under
  the id, and the row (if there is one) has no code.
\<close>

definition staged_complete :: "server \<Rightarrow> string \<Rightarrow> manifest \<Rightarrow> world \<Rightarrow> bool" where
  "staged_complete S i m w \<longleftrightarrow>
     live w i = None \<and> Validate (lib_unicode S) m = None \<and> man_TransferID m = i
     \<and> (\<exists>t pl. staging w i = Some t \<and> d_payload t = Some pl
          \<and> files_ok S pl (man_Entries m) \<and> dirs_ok pl (man_Entries m))"

definition uncoded :: "string \<Rightarrow> db \<Rightarrow> bool" where
  "uncoded i d \<longleftrightarrow> (\<forall>r. trow d i = Some r \<longrightarrow> tr_code r = None)"

definition verifying :: "string \<Rightarrow> db \<Rightarrow> bool" where
  "verifying i d \<longleftrightarrow> (\<forall>r. trow d i = Some r \<longrightarrow> tr_code r = None \<and> tr_state r = StateVerifying)"

text \<open>What a commit response promises about the row and the live directory.\<close>

definition published :: "string \<Rightarrow> manifest \<Rightarrow> CommitResponse \<Rightarrow> world \<Rightarrow> bool" where
  "published i m resp w \<longleftrightarrow>
     (\<exists>r c. trow (w_db w) i = Some r \<and> tr_code r = Some c \<and> tr_state r = StateCommitted
        \<and> canonical_code c \<and> cp_Code resp = FormatCode c \<and> cp_ExpiresAt resp = t_ExpiresAt (scanTransfer r)
        \<and> cp_CommittedAt resp = t_CommittedAt (scanTransfer r))
     \<and> live_manifest w i = Some m"

lemma staged_complete_db [simp]:
  "staged_complete S i m (w\<lparr>w_faults := fs, w_db := d\<rparr>) = staged_complete S i m w"
  "staged_complete S i m (w\<lparr>w_faults := fs\<rparr>) = staged_complete S i m w"
  by (simp_all add: staged_complete_def)

lemma SetState_Inr: "db_SetState ok i s d = (Inr u, d') \<Longrightarrow> d' = modify_transfer i (\<lambda>r. r\<lparr>tr_state := s\<rparr>) d"
  by (simp add: db_SetState_def db_write_def split: if_splits)

lemma wp_SetState_verifying:
  assumes "server_inv S w" and "uncoded i (w_db w)"
  shows "wp (exec (\<lambda>ok. db_SetState ok i StateVerifying)) (\<lambda>r w'. server_inv S w'
    \<and> (staged_complete S i m w \<longrightarrow> staged_complete S i m w') \<and> w_staging w' = w_staging w \<and> w_live w' = w_live w
    \<and> uncoded i (w_db w') \<and> (\<forall>u. r = Inr u \<longrightarrow> verifying i (w_db w'))) w"
proof (rule wp_exec, goal_cases)
  case (1 ok fs)
  let ?d = "snd (db_SetState ok i StateVerifying (w_db w))"
  note inv = server_invD [OF assms(1)]
  have "server_inv S (w\<lparr>w_faults := fs\<rparr>)" using assms(1) by simp
  then have "server_inv S (w\<lparr>w_faults := fs, w_db := ?d\<rparr>)"
    by (rule inv_db)
      (use assms(2) inv in \<open>auto intro!: inv_intros rows_step_SetState simp: uncoded_def state_fits_def\<close>)
  moreover have "uncoded i ?d \<and> (ok \<longrightarrow> verifying i ?d)"
    using assms(2) by (auto simp: uncoded_def verifying_def db_SetState_def db_write_def tbl_find_modify split: option.splits)
  moreover have "fst (db_SetState ok i StateVerifying (w_db w)) = Inr u \<Longrightarrow> ok" for u
    by (auto simp: db_SetState_def db_write_def split: if_splits)
  ultimately show ?case by auto
qed

lemma wp_SetNoteAndTTL:
  assumes "server_inv S w" and "verifying i (w_db w)" and "1 \<le> ttl" and "ttl \<le> 3000"
  shows "wp (exec (\<lambda>ok. db_SetNoteAndTTL ok i note ttl)) (\<lambda>r w'. server_inv S w'
    \<and> (staged_complete S i m w \<longrightarrow> staged_complete S i m w') \<and> verifying i (w_db w')) w"
proof (rule wp_exec, goal_cases)
  case (1 ok fs)
  let ?d = "snd (db_SetNoteAndTTL ok i note ttl (w_db w))"
  note inv = server_invD [OF assms(1)]
  have "server_inv S (w\<lparr>w_faults := fs\<rparr>)" using assms(1) by simp
  then have "server_inv S (w\<lparr>w_faults := fs, w_db := ?d\<rparr>)"
    by (rule inv_db) (use assms inv in \<open>auto intro!: inv_intros rows_step_SetNoteAndTTL\<close>)
  moreover have "verifying i ?d"
    using assms(2) by (auto simp: verifying_def db_SetNoteAndTTL_def db_write_def tbl_find_modify split: option.splits)
  ultimately show ?case by auto
qed

text \<open>Writing the manifest and sealing change the staging directory, not its payload.\<close>

definition readied :: "string \<Rightarrow> manifest \<Rightarrow> world \<Rightarrow> world \<Rightarrow> bool" where
  "readied i m w w' \<longleftrightarrow> staging_only i w w'
     \<and> (\<exists>t t'. staging w i = Some t \<and> staging w' i = Some t' \<and> d_payload t' = d_payload t \<and> d_manifest t' = Some m)"

lemma staged_complete_frame:
  assumes "staged_complete S i m w" and "staging_only i w w'"
    and "staging w i = Some t" and "staging w' i = Some t'" and "d_payload t' = d_payload t"
  shows "staged_complete S i m w'"
  using assms by (auto simp: staged_complete_def staging_only_def)

lemma wp_writeAndDigestManifest:
  "wp (writeAndDigestManifest S i m) (\<lambda>r w'. staging_only i w w' \<and> (\<forall>d. r = Inr d \<longrightarrow> readied i m w w')) w"
  unfolding writeAndDigestManifest_def WriteManifest_def wp_bind
proof (rule wp_stage_frame, goal_cases)
  case (1 w1) then show ?case by simp
next
  case (2 w1 t)
  then have "readied i m w w1" by (auto simp: readied_def)
  then show ?case
    using 2(1) by (simp, intro wp_io) (auto simp: readied_def)
qed

lemma wp_SealPayload:
  "wp (SealPayload i) (\<lambda>ok w'. staging_only i w w' \<and> (ok \<longrightarrow> (\<exists>t t'. staging w i = Some t \<and> staging w' i = Some t'
     \<and> d_payload t' = d_payload t \<and> d_manifest t' = d_manifest t))) w"
  unfolding SealPayload_def
proof (rule wp_stage_frame, goal_cases)
  case (2 w' t)
  then obtain t0 where "staging w i = Some t0" "t = t0\<lparr>d_sealed := True\<rparr>" by (auto simp only: map_option_eq_Some)
  with 2 show ?case by simp
qed simp

lemma inv_staged:
  assumes "server_inv S w" and "staged_complete S i m w" and "staging_only i w w'"
  shows "server_inv S w'"
  using assms(2) by (intro inv_staging_only [OF assms(1,3)]) (simp add: staged_complete_def)

lemma published_by_row:
  assumes "db_Publish ok draws i now ttl dg n d = (Inr t, d')" and "db_ok d" and "verifying i d"
    and "\<And>k. length (draws k) = CodeLength" and "1 \<le> ttl" and "ttl \<le> 3000"
  shows "\<exists>r c. trow d' i = Some r \<and> tr_code r = Some c \<and> tr_state r = StateCommitted \<and> canonical_code c
    \<and> t_Code t = c \<and> t_ExpiresAt t = t_ExpiresAt (scanTransfer r) \<and> t_CommittedAt t = t_CommittedAt (scanTransfer r)"
proof -
  have wf: "tbl_wf tr_id (transfers d)" using db_okD(1) [OF assms(2)] by (simp add: keys_ok_def)
  have range: "wrap64 (ttl * minute) = ttl * minute"
    using assms(5,6) by (intro wrap64_id) (simp add: int64_range_def minute_def second_def)
  from assms(1) wf show ?thesis
  proof (cases rule: db_Publish_Inr)
    case (again r)
    then show ?thesis using assms(3) by (simp add: verifying_def)
  next
    case (fresh r c k)
    have c: "canonical_code c" using fresh(5) NewCode_draw [of "draws k", OF assms(4)] by simp
    let ?r = "publish_row c (truncate_second now) (truncate_second now + wrap64 (ttl * minute)) dg n r"
    have row: "trow d' i = Some ?r" using fresh by (simp add: tbl_find_modify publish_row_def)
    have sec: "of_unix (unix (truncate_second now)) = truncate_second now"
      "of_unix (unix (truncate_second now + ttl * minute)) = truncate_second now + ttl * minute"
      by (simp_all add: of_unix_unix truncate_second_def minute_def mod_simps)
    show ?thesis
      using row fresh(3,7) c sec range
      by (intro exI [of _ ?r] exI [of _ c]) (simp add: publish_row_def scanTransfer_def time_of_null_def)
  qed
qed

text \<open>The database transaction and the cache, once the directory is live.\<close>

lemma wp_publish_tail:
  assumes "server_inv S w" and "verifying i (w_db w)" and "live_manifest w i = Some m"
    and "1 \<le> ttl" and "ttl \<le> 3000" and "0 \<le> now" and "\<And>k. length (draws k) = CodeLength"
  shows "wp (State_Monad.bind (exec (\<lambda>ok. db_Publish ok draws i now ttl digest n))
      (\<lambda>r. case r of Inl e \<Rightarrow> return (Inl (publish_error e)) | Inr t \<Rightarrow>
         State_Monad.bind (remember_manifest i m) (\<lambda>_. return (Inr \<lparr>cp_Code = FormatCode (t_Code t),
           cp_CommittedAt = t_CommittedAt t, cp_ExpiresAt = t_ExpiresAt t\<rparr>))))
    (\<lambda>r w'. server_inv S w' \<and> (\<forall>resp. r = Inr resp \<longrightarrow> published i m resp w')) w"
  unfolding wp_bind
proof (rule wp_exec, goal_cases)
  case (1 ok fs)
  note inv = server_invD [OF assms(1)]
  obtain r d' where p: "db_Publish ok draws i now ttl digest n (w_db w) = (r, d')" by fastforce
  let ?w = "w\<lparr>w_faults := fs, w_db := d'\<rparr>"
  have "server_inv S (w\<lparr>w_faults := fs\<rparr>)" using assms(1) by simp
  from inv_db [OF this, of d'] have inv': "server_inv S ?w"
    using rows_step_Publish [OF inv(1,2) assms(4-6), of ok draws i digest n]
      db_ok_Publish [OF inv(1), of draws ok i now ttl digest n] assms(7) p by simp
  show ?case
  proof (cases r)
    case (Inr t)
    have lm: "live_manifest ?w i = Some m" using assms(3) by simp
    have "published i m \<lparr>cp_Code = FormatCode (t_Code t), cp_CommittedAt = t_CommittedAt t,
        cp_ExpiresAt = t_ExpiresAt t\<rparr> (?w\<lparr>w_cache := cache_put i m (w_cache ?w)\<rparr>)"
      using published_by_row [OF p [unfolded Inr] inv(1) assms(2,7,4,5)] lm by (auto simp: published_def)
    then show ?thesis
      using inv_remember [OF inv' lm] p Inr by (simp add: remember_manifest_def)
  qed (use p inv' in simp)
qed

definition committed_to :: "server \<Rightarrow> string \<Rightarrow> manifest \<Rightarrow> CommitResponse result \<Rightarrow> world \<Rightarrow> bool" where
  "committed_to S i m r w' \<longleftrightarrow> server_inv S w' \<and> (\<forall>resp. r = Inr resp \<longrightarrow> published i m resp w')"

lemma svc_publish_post:
  assumes "server_inv S w" and "staged_complete S i m w" and "uncoded i (w_db w)"
    and "1 \<le> ttl" and "ttl \<le> 3000" and "0 \<le> now" and "\<And>k. length (draws k) = CodeLength"
  shows "wp (svc_publish S draws now i m ttl note n) (committed_to S i m) w"
  unfolding svc_publish_def
proof (rule wp_bindI [OF wp_SetState_verifying [OF assms(1,3), of m]], goal_cases)
  case (1 st w1)
  then have s1: "server_inv S w1" "staged_complete S i m w1" using assms(2) by blast+
  show ?case
  proof (cases st)
    case (Inr u1)
    then have v1: "verifying i (w_db w1)" using 1 by blast
    show ?thesis
      unfolding Inr sum.case
    proof (rule wp_bindI [OF wp_SetNoteAndTTL [OF s1(1) v1 assms(4,5), of _ m]], goal_cases)
      case (1 nt w2)
      then have s2: "server_inv S w2" "staged_complete S i m w2" "verifying i (w_db w2)" using s1 by blast+
      show ?case
      proof (cases nt)
        case (Inr u2)
        show ?thesis
          unfolding Inr sum.case
        proof (rule wp_bindI [OF wp_writeAndDigestManifest], goal_cases)
          case (1 dg w3)
          then have inv3: "server_inv S w3" using inv_staged [OF s2(1,2)] by blast
          show ?case
          proof (cases dg)
            case (Inr digest)
            then obtain t2 t3 where t3: "staging_only i w2 w3" "staging w2 i = Some t2" "staging w3 i = Some t3"
              "d_payload t3 = d_payload t2" "d_manifest t3 = Some m"
              using 1 by (auto simp: readied_def)
            have c3: "staged_complete S i m w3" by (rule staged_complete_frame [OF s2(2) t3(1-4)])
            show ?thesis
              unfolding Inr sum.case
            proof (rule wp_bindI [OF wp_SealPayload], goal_cases)
              case (1 sealed w4)
              then have f4: "staging_only i w3 w4" and inv4: "server_inv S w4"
                using inv_staged [OF inv3 c3] by blast+
              show ?case
              proof (cases sealed)
                case True
                then obtain t4 where t4: "staging w4 i = Some t4" "d_payload t4 = d_payload t3" "d_manifest t4 = Some m"
                  using 1 t3(3,5) by auto
                have c4: "staged_complete S i m w4" by (rule staged_complete_frame [OF c3 f4 t3(3) t4(1,2)])
                have v4: "verifying i (w_db w4)"
                  using s2(3) staging_onlyD(1) [OF t3(1)] staging_onlyD(1) [OF f4] by simp
                have complete: "dir_complete S i t4"
                  using c4 t4 by (auto simp: staged_complete_def dir_complete_def)
                have lp: "wp (lay_Publish i) (\<lambda>ok w5. server_inv S w5 \<and> (ok \<longrightarrow> live_manifest w5 i = Some m
                    \<and> w_db w5 = w_db w4)) w4"
                proof (rule wp_lay_Publish, goal_cases)
                  case (1 w') then show ?case using inv4 inv_faults_only by simp
                next
                  case (2 w') then show ?case using c4 by (simp add: staged_complete_def)
                next
                  case (3 ok w')
                  then have "server_inv S w'"
                    by (rule inv_moved [OF inv4]) (use t4(1) complete v4 in \<open>auto simp: verifying_def\<close>)
                  then show ?case using 3 t4 by (simp add: moved_def)
                qed
                show ?thesis
                proof (simp only: True not_True_eq_False if_False, rule wp_bindI [OF lp], goal_cases)
                  case (1 ok w5)
                  show ?case
                  proof (cases ok)
                    case True
                    then have "verifying i (w_db w5)" "live_manifest w5 i = Some m" "server_inv S w5"
                      using 1 v4 by simp_all
                    with wp_publish_tail [of S w5 i m ttl now draws digest n] assms(4-7) show ?thesis
                      by (simp add: True committed_to_def [abs_def])
                  qed (use 1 in \<open>simp add: committed_to_def\<close>)
                qed
              qed (use inv4 in \<open>simp add: committed_to_def\<close>)
            qed
          qed (use inv3 in \<open>simp add: committed_to_def\<close>)
        qed
      qed (use s2 in \<open>simp add: committed_to_def\<close>)
    qed
  qed (use s1 in \<open>simp add: committed_to_def\<close>)
qed

end
