(* ===== verification/SSS_Reconcile.thy ===== *)
theory SSS_Reconcile
  imports SSS_Janitor SSS_Publish
begin

text \<open>
  Start-up reconciliation (\<^verbatim>\<open>internal/reconcile/reconcile.go\<close>), which runs after a crash and
  before the server is ready. It keeps the server invariant under every fault, and when nothing
  fails it settles every transfer: interrupted commits are completed, what cannot be completed
  is failed or removed, and directories without a record disappear.
\<close>

section \<open>The pass\<close>

record Report =
  CompletedCommits :: nat
  FailedTransfers :: nat
  OrphanLive :: nat
  OrphanStaging :: nat
  FinishedDeletes :: nat

definition empty_report :: Report where
  "empty_report = \<lparr>CompletedCommits = 0, FailedTransfers = 0, OrphanLive = 0, OrphanStaging = 0, FinishedDeletes = 0\<rparr>"

definition stagingExists :: "string \<Rightarrow> bool svc" where
  "stagingExists i = do {
     r \<leftarrow> ListStagingIDs;
     return (case r of Inl _ \<Rightarrow> False | Inr ids \<Rightarrow> i \<in> set ids)
   }"

definition reconcile_committed :: "server \<Rightarrow> string \<Rightarrow> Report \<Rightarrow> Report svc" where
  "reconcile_committed S i rep = do {
     valid \<leftarrow> livePayloadValid S i;
     if valid then return rep
     else do {
       _ \<leftarrow> InvalidateManifest i;
       _ \<leftarrow> ToTrash i;
       _ \<leftarrow> exec (\<lambda>ok. db_Purge ok i);
       return (rep\<lparr>FailedTransfers := Suc (FailedTransfers rep)\<rparr>)
     }
   }"

definition reconcile_precommit ::
  "server \<Rightarrow> (nat \<Rightarrow> 8 word list) \<Rightarrow> time \<Rightarrow> string \<Rightarrow> tstate \<Rightarrow> Report \<Rightarrow> Report svc" where
  "reconcile_precommit S draws now i state rep = do {
     there \<leftarrow> ManifestExists i;
     valid \<leftarrow> (if there then livePayloadValid S i else return False);
     if valid then do {
       rt \<leftarrow> query (\<lambda>ok. db_GetTransfer ok i);
       case rt of Inl _ \<Rightarrow> return rep | Inr t \<Rightarrow> do {
         c \<leftarrow> completeInterruptedPublish S draws now t;
         case c of Inl _ \<Rightarrow> return rep
         | Inr _ \<Rightarrow> return (rep\<lparr>CompletedCommits := Suc (CompletedCommits rep)\<rparr>)
       }
     }
     else if state = StateVerifying then do {
       _ \<leftarrow> exec (\<lambda>ok. db_Fail ok i ''INTERNAL'');
       _ \<leftarrow> ToTrash i;
       return (rep\<lparr>FailedTransfers := Suc (FailedTransfers rep)\<rparr>)
     }
     else do {
       m \<leftarrow> ReadManifest S staging i;
       case m of Inr _ \<Rightarrow> return rep | Inl _ \<Rightarrow> do {
         there \<leftarrow> stagingExists i;
         if there then return rep
         else do {
           _ \<leftarrow> exec (\<lambda>ok. db_Fail ok i ''INTERNAL'');
           return (rep\<lparr>FailedTransfers := Suc (FailedTransfers rep)\<rparr>)
         }
       }
     }
   }"

definition reconcile_one ::
  "server \<Rightarrow> (nat \<Rightarrow> 8 word list) \<Rightarrow> time \<Rightarrow> string \<Rightarrow> tstate \<Rightarrow> Report \<Rightarrow> Report svc" where
  "reconcile_one S draws now i state rep =
     (if state = StateCommitted then reconcile_committed S i rep
      else if is_precommit state then reconcile_precommit S draws now i state rep
      else if state = StateDeleting then do {
        _ \<leftarrow> ToTrash i;
        _ \<leftarrow> exec (\<lambda>ok. db_Purge ok i);
        return (rep\<lparr>FinishedDeletes := Suc (FinishedDeletes rep)\<rparr>)
      }
      else return rep)"

fun reconcile_loop ::
  "server \<Rightarrow> (string \<Rightarrow> nat \<Rightarrow> 8 word list) \<Rightarrow> (string \<Rightarrow> time) \<Rightarrow> (string \<times> tstate) list \<Rightarrow> Report \<Rightarrow> Report svc" where
  "reconcile_loop S draws now [] rep = return rep"
| "reconcile_loop S draws now ((i, state) # known) rep = do {
     rep \<leftarrow> reconcile_one S (draws i) (now i) i state rep;
     reconcile_loop S draws now known rep
   }"

fun trash_orphans :: "string list \<Rightarrow> string list \<Rightarrow> Report \<Rightarrow> Report svc" where
  "trash_orphans known [] rep = return rep"
| "trash_orphans known (i # ids) rep =
     (if i \<in> set known then trash_orphans known ids rep
      else do { _ \<leftarrow> ToTrash i; trash_orphans known ids (rep\<lparr>OrphanLive := Suc (OrphanLive rep)\<rparr>) })"

fun remove_orphans :: "string list \<Rightarrow> string list \<Rightarrow> Report \<Rightarrow> Report svc" where
  "remove_orphans known [] rep = return rep"
| "remove_orphans known (i # ids) rep =
     (if i \<in> set known then remove_orphans known ids rep
      else do { _ \<leftarrow> RemoveStaging i; remove_orphans known ids (rep\<lparr>OrphanStaging := Suc (OrphanStaging rep)\<rparr>) })"

text \<open>
  The order in which the code's map of known transfers is visited is not determined, so it is
  an argument; so are the codes drawn for, and the clock read at, the completion of each commit.
\<close>

definition reconcile_Run ::
  "server \<Rightarrow> ((string \<times> tstate) list \<Rightarrow> (string \<times> tstate) list) \<Rightarrow> (string \<Rightarrow> nat \<Rightarrow> 8 word list)
   \<Rightarrow> (string \<Rightarrow> time) \<Rightarrow> (Report \<times> go_error option) svc" where
  "reconcile_Run S order draws now = do {
     k \<leftarrow> query (\<lambda>ok. db_AllTransferIDs ok);
     case k of Inl e \<Rightarrow> return (empty_report, Some e) | Inr known \<Rightarrow> do {
       rep \<leftarrow> reconcile_loop S draws now (order known) empty_report;
       l \<leftarrow> ListLiveIDs;
       case l of Inl e \<Rightarrow> return (rep, Some e) | Inr liveIDs \<Rightarrow> do {
         rep \<leftarrow> trash_orphans (map fst known) liveIDs rep;
         s \<leftarrow> ListStagingIDs;
         case s of Inl e \<Rightarrow> return (rep, Some e) | Inr stagingIDs \<Rightarrow> do {
           rep \<leftarrow> remove_orphans (map fst known) stagingIDs rep;
           _ \<leftarrow> EmptyTrash;
           return (rep, None)
         }
       }
     }
   }"

section \<open>The pass keeps the invariant\<close>

text \<open>At start-up the manifest cache is empty, and the pass never fills it.\<close>

definition start_inv :: "server \<Rightarrow> world \<Rightarrow> bool" where
  "start_inv S w \<longleftrightarrow> server_inv S w \<and> (\<forall>i. cache_get (w_cache w) i = None)"

definition starts :: "server \<Rightarrow> world \<Rightarrow> world \<Rightarrow> bool" where
  "starts S w w' \<longleftrightarrow> (start_inv S w \<longrightarrow> start_inv S w')"

interpretation starts: effect "starts S" for S
  by unfold_locales (auto simp: starts_def)

lemma starts_faults: "faults_only w w' \<Longrightarrow> starts S w w'"
  by (auto simp: starts_def start_inv_def faults_only_def)

lemma starts_wp: "(start_inv S w \<Longrightarrow> wp m (\<lambda>_. start_inv S) w) \<Longrightarrow> wp m (\<lambda>_. starts S w) w"
  by (cases "start_inv S w") (auto simp: starts_def wp_def split: prod.splits)

lemma wp_starts: "wp m (\<lambda>_. starts S w) w \<Longrightarrow> start_inv S w \<Longrightarrow> wp m (\<lambda>_. start_inv S) w"
  by (auto simp: starts_def wp_def split: prod.splits)

lemma start_exec:
  assumes "start_inv S w" and "\<And>ok. db_ok (snd (f ok (w_db w)))" and "\<And>ok. rows_step (w_db w) (snd (f ok (w_db w)))"
  shows "wp (exec f) (\<lambda>_. start_inv S) w"
proof -
  have "wp (exec f) (\<lambda>_ w'. w_cache w' = w_cache w) w" by (rule wp_exec) simp
  with wp_conj [OF inv_exec [of S w f] this] assms show ?thesis
    by (auto simp: start_inv_def elim!: wp_mono)
qed

lemma starts_Purge: "wp (exec (\<lambda>ok. db_Purge ok i)) (\<lambda>_. starts S w) w"
  by (rule starts_wp, rule start_exec)
    (auto simp: start_inv_def intro: inv_intros rows_step_Purge dest: server_invD)

lemma starts_ToTrash: "wp (ToTrash i) (\<lambda>_. starts S w) w"
proof (rule wp_mono [OF ToTrash_frame])
  fix w' assume t: "trashed i w w'"
  then show "starts S w w'"
    using inv_trashed [OF _ t, of S] by (auto simp: starts_def start_inv_def trashed_def)
qed

lemma cache_drop_empty: "\<forall>j. cache_get c j = None \<Longrightarrow> cache_get (cache_drop i c) j = None"
  using mcache.drop_other [of i c j] by (cases "cache_get (cache_drop i c) j") auto

lemma starts_invalidate: "wp (InvalidateManifest i) (\<lambda>_. starts S w) w"
proof -
  have "run_state (InvalidateManifest i) w = ((), w\<lparr>w_cache := cache_drop i (w_cache w)\<rparr>)"
    by (simp add: InvalidateManifest_def)
  moreover have "starts S w (w\<lparr>w_cache := cache_drop i (w_cache w)\<rparr>)"
    unfolding starts_def start_inv_def using inv_invalidate [of S w i] cache_drop_empty [of "w_cache w" i] by simp
  ultimately show ?thesis by (simp add: wp_def)
qed

lemma starts_RemoveStaging: "wp (RemoveStaging i) (\<lambda>_. starts S w) w"
proof (rule wp_RemoveStaging)
  fix ok :: bool and w'
  assume so: "staging_only i w w'" and s: "staging w' i = staging w i \<or> staging w' i = None"
  show "starts S w w'"
    unfolding starts_def
  proof
    assume w: "start_inv S w"
    then have "live w i = None \<or> (\<forall>t. staging w' i = Some t \<longrightarrow> d_segments t = None)"
      using s server_invD(3) [of S w] unfolding start_inv_def areas_ok_def by (metis option.distinct(1) option.exhaust)
    then have "server_inv S w'" using w by (intro inv_staging_only [OF _ so]) (simp_all only: start_inv_def)
    moreover have "w_cache w' = w_cache w" using so by (simp add: staging_only_def)
    ultimately show "start_inv S w'" using w by (simp add: start_inv_def)
  qed
qed

lemma wp_reads:
  "wp io (\<lambda>_. faults_only w) w" "wp (query f) (\<lambda>_. faults_only w) w"
  "wp ListLiveIDs (\<lambda>_. faults_only w) w" "wp ListStagingIDs (\<lambda>_. faults_only w) w"
  "(\<And>w fs. get (w\<lparr>w_faults := fs\<rparr>) = get w) \<Longrightarrow> wp (ReadManifest S get i) (\<lambda>_. faults_only w) w"
  "wp (ManifestExists i) (\<lambda>_. faults_only w) w"
proof -
  show "wp io (\<lambda>_. faults_only w) w" by (rule wp_io) simp
  show "wp (query f) (\<lambda>_. faults_only w) w" by (rule wp_query) simp
  show "wp ListLiveIDs (\<lambda>_. faults_only w) w" unfolding ListLiveIDs_def by (simp, rule wp_io) simp
  show "wp ListStagingIDs (\<lambda>_. faults_only w) w" unfolding ListStagingIDs_def by (simp, rule wp_io) simp
  show "wp (ReadManifest S get i) (\<lambda>_. faults_only w) w" unfolding ReadManifest_def by (simp, rule wp_io) simp
  show "wp (ManifestExists i) (\<lambda>_. faults_only w) w"
    unfolding ManifestExists_def by (rule wp_exists_in) simp_all
qed

lemma reads_stagingExists: "wp (stagingExists i) (\<lambda>_. faults_only w) w"
  unfolding stagingExists_def by (intro faults.steps wp_reads)

lemma reads_entries: "wp (payload_entries_present i es) (\<lambda>_. faults_only w) w"
proof (induction es arbitrary: w)
  case (Cons e es)
  have st: "wp (State (\<lambda>w. (f w, w))) (\<lambda>_. faults_only w) w" for f :: "world \<Rightarrow> node option" and w by simp
  show ?case
    unfolding payload_entries_present.simps by (intro faults.steps wp_reads st Cons.IH)
qed simp

lemma reads_livePayloadValid: "wp (livePayloadValid S i) (\<lambda>_. faults_only w) w"
  unfolding livePayloadValid_def by (intro faults.steps wp_reads reads_entries) simp_all


lemma start_faults_only: "start_inv S w \<Longrightarrow> faults_only w w' \<Longrightarrow> start_inv S w'"
  using starts_faults [of w w' S] by (simp add: starts_def)

lemma start_Fail:
  assumes "start_inv S w" and "uncoded i (w_db w)"
  shows "wp (exec (\<lambda>ok. db_Fail ok i e)) (\<lambda>_. start_inv S) w"
  by (rule start_exec)
    (use assms in \<open>auto simp: start_inv_def uncoded_def intro!: inv_intros rows_step_Fail dest: server_invD\<close>)

text \<open>Completing a commit: sealing changes the flag only, and the transaction is the publication's.\<close>

lemma wp_SealPayload_live:
  assumes "start_inv S w"
  shows "wp (SealPayload_live i) (\<lambda>_ w'. start_inv S w' \<and> w_db w' = w_db w
    \<and> (\<forall>j. live_manifest w' j = live_manifest w j)) w"
proof -
  have upd: "start_inv S (w\<lparr>w_faults := fs, w_live := AList.update i (t\<lparr>d_sealed := True\<rparr>) (w_live w)\<rparr>)
      \<and> (\<forall>j. live_manifest (w\<lparr>w_faults := fs, w_live := AList.update i (t\<lparr>d_sealed := True\<rparr>) (w_live w)\<rparr>) j = live_manifest w j)"
    if t: "live w i = Some t" for t fs
  proof -
    let ?w = "w\<lparr>w_faults := fs, w_live := AList.update i (t\<lparr>d_sealed := True\<rparr>) (w_live w)\<rparr>"
    have l: "live ?w = (live w)(i \<mapsto> t\<lparr>d_sealed := True\<rparr>)" by (simp add: update_conv')
    have m: "live_manifest ?w j = live_manifest w j" for j using t by (simp add: update_conv')
    have c: "dir_complete S i (t\<lparr>d_sealed := True\<rparr>) = dir_complete S i t" by (simp add: dir_complete_def)
    have "areas_ok S ?w"
      unfolding areas_ok_def
    proof (intro allI impI conjI)
      fix j t' assume j: "live ?w j = Some t'"
      obtain t0 where t0: "live w j = Some t0" "dir_complete S j t0 \<Longrightarrow> dir_complete S j t'"
        using j t c by (cases "j = i") (auto simp: update_conv')
      with assms show "dir_complete S j t'" by (auto simp: start_inv_def server_inv_def areas_ok_def)
      show "tr_state r \<noteq> StateCreated" "tr_state r \<noteq> StateUploading" if "trow (w_db ?w) j = Some r" for r
        using t0(1) that assms by (auto simp: start_inv_def server_inv_def areas_ok_def)
      show "d_segments u = None" if "staging ?w j = Some u" for u
        using t0(1) that assms by (auto simp: start_inv_def server_inv_def areas_ok_def)
    qed
    then show ?thesis
      using assms m by (auto simp: start_inv_def server_inv_def map_le_def)
  qed
  show ?thesis
    unfolding SealPayload_live_def
    by (simp, rule wp_io) (use assms upd in \<open>auto simp: start_inv_def split: option.splits\<close>)
qed

lemma start_Publish:
  assumes "start_inv S w" and "1 \<le> ttl" and "ttl \<le> 3000" and "0 \<le> now" and "\<And>k. length (draws k) = CodeLength"
  shows "wp (exec (\<lambda>ok. db_Publish ok draws i now ttl dg n)) (\<lambda>_. start_inv S) w"
proof -
  have "db_ok (w_db w)" "rows_ok (w_db w)" using assms(1) by (auto simp: start_inv_def dest: server_invD)
  then show ?thesis
    using assms by (intro start_exec rows_step_Publish db_ok_Publish)
qed

lemma start_complete:
  assumes "start_inv S w" and "1 \<le> t_RequestedTTLMinutes t" and "t_RequestedTTLMinutes t \<le> 3000"
    and "0 \<le> now" and "\<And>k. length (draws k) = CodeLength"
  shows "wp (completeInterruptedPublish S draws now t) (\<lambda>_. start_inv S) w"
  unfolding completeInterruptedPublish_def
proof (rule wp_bindI [OF wp_reads(5)], goal_cases)
  case (2 r w1)
  then have s1: "start_inv S w1" using assms(1) start_faults_only by blast
  show ?case
  proof (cases r)
    case (Inr m)
    show ?thesis
      unfolding Inr sum.case
    proof (rule wp_bindI [OF wp_SealPayload_live [OF s1]], goal_cases)
      case (1 sealed w2)
      then show ?case
        using start_Publish [of S w2 "t_RequestedTTLMinutes t" now draws] assms(2-5) by simp
    qed
  qed (use s1 in simp)
qed simp

lemma GetTransfer_row: "db_GetTransfer ok i d = Inr t \<Longrightarrow> \<exists>r. trow d i = Some r \<and> t = scanTransfer r"
  by (auto simp: db_GetTransfer_def db_read_def split: if_splits option.splits)

definition state_is :: "string \<Rightarrow> tstate \<Rightarrow> db \<Rightarrow> bool" where
  "state_is i s d \<longleftrightarrow> (\<exists>r. trow d i = Some r \<and> tr_state r = s)"

lemma start_precommit:
  assumes "start_inv S w" and st: "state_is i s (w_db w)" and "is_precommit s"
    and "0 \<le> now" and "\<And>k. length (draws k) = CodeLength"
  shows "wp (reconcile_precommit S draws now i s rep) (\<lambda>_. start_inv S) w"
proof -
  have good: "start_inv S w' \<and> uncoded i (w_db w') \<and> state_is i s (w_db w')" if "faults_only w w'" for w'
  proof -
    have "rows_ok (w_db w)" using assms(1) by (auto simp: start_inv_def dest: server_invD)
    then have "uncoded i (w_db w)"
      using st assms(3) row_ok_code_None by (auto simp: state_is_def uncoded_def rows_ok_def)
    then show ?thesis using that st start_faults_only [OF assms(1)] by (auto simp: faults_only_def)
  qed
  have valid: "wp (if b then livePayloadValid S i else return False) (\<lambda>_. faults_only w) w1" if "faults_only w w1" for b w1
    using that reads_livePayloadValid [of S i w1] by (auto elim!: wp_mono intro: faults_only_trans)
  show ?thesis
    unfolding reconcile_precommit_def
  proof (rule wp_bindI [OF wp_reads(6)], goal_cases)
    case (1 b w1)
    show ?case
    proof (rule wp_bindI [OF valid [OF 1]], goal_cases)
      case (1 v w2)
      show ?case
      proof (cases v)
        case True
        have q: "wp (query (\<lambda>ok. db_GetTransfer ok i)) (\<lambda>rt w3. faults_only w w3
            \<and> (\<forall>t. rt = Inr t \<longrightarrow> 1 \<le> t_RequestedTTLMinutes t \<and> t_RequestedTTLMinutes t \<le> 3000)) w2"
        proof (rule wp_query, intro conjI allI impI, goal_cases)
          case (1 ok fs) then show ?case using \<open>faults_only w w2\<close> by (auto intro: faults_only_trans)
        next
          case (2 ok fs t)
          then obtain r where r: "trow (w_db w2) i = Some r" "t = scanTransfer r" using GetTransfer_row by blast
          have "row_ok r" using r(1) good [OF 1] by (auto simp: start_inv_def rows_ok_def dest: server_invD)
          then show ?case using r(2) by (simp add: row_ok_def)
        next
          case (3 ok fs t)
          then obtain r where r: "trow (w_db w2) i = Some r" "t = scanTransfer r" using GetTransfer_row by blast
          have "row_ok r" using r(1) good [OF 1] by (auto simp: start_inv_def rows_ok_def dest: server_invD)
          then show ?case using r(2) by (simp add: row_ok_def)
        qed
        show ?thesis
          unfolding if_P [OF True]
        proof (rule wp_bindI [OF q], goal_cases)
          case (1 rt w3)
          show ?case
          proof (cases rt)
            case (Inr t)
            have "wp (completeInterruptedPublish S draws now t) (\<lambda>_. start_inv S) w3"
              using 1 good Inr assms(4,5) by (intro start_complete) auto
            then show ?thesis
              unfolding Inr sum.case by (rule wp_bindI) (simp split: sum.splits)
          qed (use 1 good in simp)
        qed
      next
        case False
        show ?thesis
        proof (cases "s = StateVerifying")
          case True
          have "wp (exec (\<lambda>ok. db_Fail ok i ''INTERNAL'')) (\<lambda>_. start_inv S) w2"
            using good [OF 1] by (intro start_Fail) auto
          then show ?thesis
            unfolding if_not_P [OF False] if_P [OF True]
          proof (rule wp_bindI, goal_cases)
            case (1 x w3)
            from wp_starts [OF starts_ToTrash 1] show ?case by (rule wp_bindI) simp
          qed
        next
          case nv: False
          show ?thesis
            unfolding if_not_P [OF False] if_not_P [OF nv]
          proof (rule wp_bindI [OF wp_reads(5)], simp, goal_cases)
            case (1 m w3)
            then have f3: "faults_only w w3" using \<open>faults_only w w2\<close> by (auto intro: faults_only_trans)
            show ?case
            proof (cases m)
              case (Inl e)
              show ?thesis
                unfolding Inl sum.case
              proof (rule wp_bindI [OF reads_stagingExists], goal_cases)
                case (1 th w4)
                then have g: "start_inv S w4 \<and> uncoded i (w_db w4)" using good f3 faults_only_trans by blast
                then have "wp (exec (\<lambda>ok. db_Fail ok i ''INTERNAL'')) (\<lambda>_. start_inv S) w4"
                  by (intro start_Fail) auto
                then show ?case using g by (auto elim!: wp_mono)
              qed
            qed (use f3 good in simp)
          qed
        qed
      qed
    qed
  qed
qed

lemma start_one:
  assumes "start_inv S w" and "state_is i s (w_db w)"
    and "0 \<le> now" and "\<And>k. length (draws k) = CodeLength"
  shows "wp (reconcile_one S draws now i s rep) (\<lambda>_. start_inv S) w"
proof -
  have com: "wp (reconcile_committed S i rep) (\<lambda>_. starts S w) w"
    unfolding reconcile_committed_def
    by (intro starts.steps starts_invalidate starts_ToTrash starts_Purge)
      (rule wp_mono [OF reads_livePayloadValid starts_faults])
  have del: "wp (State_Monad.bind (ToTrash i) (\<lambda>_. State_Monad.bind (exec (\<lambda>ok. db_Purge ok i))
      (\<lambda>_. return (rep\<lparr>FinishedDeletes := Suc (FinishedDeletes rep)\<rparr>)))) (\<lambda>_. starts S w) w"
    by (intro starts.steps starts_ToTrash starts_Purge)
  show ?thesis
    unfolding reconcile_one_def
    using wp_starts [OF com assms(1)] wp_starts [OF del assms(1)] start_precommit [OF assms(1,2) _ assms(3,4)] assms(1)
    by (simp del: wp_bind)
qed


text \<open>The step of one transfer leaves every other transfer alone.\<close>

definition only :: "string \<Rightarrow> world \<Rightarrow> world \<Rightarrow> bool" where
  "only i w w' \<longleftrightarrow> (\<forall>j. j \<noteq> i \<longrightarrow>
     trow (w_db w') j = trow (w_db w) j \<and> live w' j = live w j \<and> staging w' j = staging w j)"

interpretation only: effect "only i" for i
  by unfold_locales (auto simp: only_def)

lemma only_faults: "faults_only w w' \<Longrightarrow> only i w w'"
  by (auto simp: only_def faults_only_def)

lemma only_exec:
  assumes "\<And>ok d j. j \<noteq> i \<Longrightarrow> trow (snd (f ok d)) j = trow d j"
  shows "wp (exec f) (\<lambda>_. only i w) w"
  by (rule wp_exec) (simp add: only_def assms)

lemma trow_Publish: "j \<noteq> i \<Longrightarrow> trow (snd (db_Publish ok draws i now ttl dg n d)) j = trow d j"
proof -
  assume ji: "j \<noteq> i"
  have loop: "trow d' j = trow d j" if "publish_loop codes t ca ea dg n d = Inr (t', d')" "t_ID t = i" for codes t ca ea t' d'
    using publish_loop_Inr [OF that(1)] that(2) ji by (auto simp: tbl_find_modify)
  show ?thesis
    using ji loop tbl_find_key [of tr_id i "transfers d"]
    by (auto simp: db_Publish_def db_write_def Let_def split: sum.splits option.splits)
qed

lemma only_db:
  "wp (exec (\<lambda>ok. db_Purge ok i)) (\<lambda>_. only i w) w"
  "wp (exec (\<lambda>ok. db_Fail ok i e)) (\<lambda>_. only i w) w"
  "wp (exec (\<lambda>ok. db_Publish ok draws i now ttl dg n)) (\<lambda>_. only i w) w"
proof -
  show "wp (exec (\<lambda>ok. db_Purge ok i)) (\<lambda>_. only i w) w"
    by (rule only_exec) (simp add: db_Purge_def db_write_def purge_rows_def tbl_find_delete)
  show "wp (exec (\<lambda>ok. db_Fail ok i e)) (\<lambda>_. only i w) w"
    by (rule only_exec) (simp add: db_Fail_def db_write_def tbl_find_modify)
  show "wp (exec (\<lambda>ok. db_Publish ok draws i now ttl dg n)) (\<lambda>_. only i w) w"
    by (rule only_exec) (rule trow_Publish)
qed

lemma only_ToTrash: "wp (ToTrash i) (\<lambda>_. only i w) w"
  by (rule wp_mono [OF ToTrash_frame]) (auto simp: trashed_def only_def)

lemma only_RemoveStaging: "wp (RemoveStaging i) (\<lambda>_. only i w) w"
  by (rule wp_RemoveStaging) (auto simp: staging_only_def only_def)

lemma only_invalidate: "wp (InvalidateManifest i) (\<lambda>_. only j w) w"
  by (simp add: InvalidateManifest_def only_def)

lemma only_seal: "wp (SealPayload_live i) (\<lambda>_. only i w) w"
  unfolding SealPayload_live_def
  by (simp, rule wp_io) (auto simp: only_def update_conv' split: option.splits)

lemma only_reads:
  "wp (query f) (\<lambda>_. only i w) w" "wp (stagingExists j) (\<lambda>_. only i w) w"
  "(\<And>w fs. get (w\<lparr>w_faults := fs\<rparr>) = get w) \<Longrightarrow> wp (ReadManifest S get j) (\<lambda>_. only i w) w"
  "wp (ManifestExists j) (\<lambda>_. only i w) w" "wp (livePayloadValid S j) (\<lambda>_. only i w) w"
  by (rule wp_mono [OF wp_reads(2)] wp_mono [OF reads_stagingExists] wp_mono [OF wp_reads(5)]
      wp_mono [OF wp_reads(6)] wp_mono [OF reads_livePayloadValid]; simp add: only_faults)+

lemma only_complete: "t_ID t = i \<Longrightarrow> wp (completeInterruptedPublish S draws now t) (\<lambda>_. only i w) w"
  unfolding completeInterruptedPublish_def by (intro only.steps only_reads) (auto intro: only_db only_seal)

lemma only_precommit: "wp (reconcile_precommit S draws now i s rep) (\<lambda>_. only i w) w"
proof -
  have q: "wp (query (\<lambda>ok. db_GetTransfer ok i)) (\<lambda>rt w'. only i w w' \<and> (\<forall>t. rt = Inr t \<longrightarrow> t_ID t = i)) w" for w
  proof (rule wp_query, intro conjI allI impI, goal_cases)
    case (2 ok fs t)
    then obtain r where "trow (w_db w) i = Some r" "t = scanTransfer r" using GetTransfer_row by blast
    then show ?case using tbl_find_key [of tr_id i "transfers (w_db w)" r] by simp
  qed (simp add: only_def)
  have get: "wp (State_Monad.bind (query (\<lambda>ok. db_GetTransfer ok i)) (\<lambda>rt. case rt of Inl _ \<Rightarrow> return rep | Inr t \<Rightarrow>
      State_Monad.bind (completeInterruptedPublish S draws now t) (\<lambda>c. case c of Inl _ \<Rightarrow> return rep
        | Inr _ \<Rightarrow> return (rep\<lparr>CompletedCommits := Suc (CompletedCommits rep)\<rparr>)))) (\<lambda>_. only i w) w" for w
  proof (rule wp_bindI [OF q], goal_cases)
    case (1 rt w')
    show ?case
    proof (cases rt)
      case (Inr t)
      have c: "wp (completeInterruptedPublish S draws now t) (\<lambda>_. only i w') w'"
        using 1 Inr by (intro only_complete) blast
      have "only i w w'" using 1 by blast
      then show ?thesis
        unfolding Inr sum.case by (rule only.after) (intro only.bind [OF c] only.steps)
    qed (use 1 in simp)
  qed
  show ?thesis
    unfolding reconcile_precommit_def
  proof (rule only.bind [OF only_reads(4)], rule only.bind, goal_cases)
    case 1 show ?case by (intro only.steps only_reads)
  next
    case (2 b w' v w'')
    show ?case
      by (rule only.cond [OF get]) (intro only.steps only_reads only_db only_ToTrash; simp)
  qed
qed

lemma only_one: "wp (reconcile_one S draws now i s rep) (\<lambda>_. only i w) w"
  unfolding reconcile_one_def reconcile_committed_def
  by (intro only.steps only_reads only_db only_ToTrash only_invalidate only_precommit)

lemma state_is_only: "only i w w' \<Longrightarrow> j \<noteq> i \<Longrightarrow> state_is j s (w_db w') = state_is j s (w_db w)"
  by (simp add: only_def state_is_def)

lemma start_loop:
  assumes "start_inv S w" and "distinct (map fst known)" and "\<forall>(i, s)\<in>set known. state_is i s (w_db w)"
    and "\<And>i. 0 \<le> now i" and "\<And>i k. length (draws i k) = CodeLength"
  shows "wp (reconcile_loop S draws now known rep) (\<lambda>_. start_inv S) w"
  using assms(1-3)
proof (induction known arbitrary: rep w)
  case (Cons p known)
  obtain i s where p: "p = (i, s)" by fastforce
  have "wp (reconcile_one S (draws i) (now i) i s rep) (\<lambda>_ w'. start_inv S w' \<and> only i w w') w"
    using Cons.prems p assms(4,5) by (intro wp_conj start_one only_one) auto
  then show ?case
    unfolding p reconcile_loop.simps
  proof (rule wp_bindI, goal_cases)
    case (1 rep' w')
    show ?case
    proof (rule Cons.IH)
      show "\<forall>(j, s)\<in>set known. state_is j s (w_db w')"
      proof clarify
        fix j s' assume j: "(j, s') \<in> set known"
        then have "j \<noteq> i" using Cons.prems(2) p by force
        then show "state_is j s' (w_db w')" using j Cons.prems(3) 1 state_is_only by fastforce
      qed
    qed (use 1 Cons.prems in auto)
  qed
qed simp

lemma start_orphans:
  "wp (trash_orphans known ids rep) (\<lambda>_. starts S w) w"
  "wp (remove_orphans known ids rep) (\<lambda>_. starts S w) w"
proof -
  show "wp (trash_orphans known ids rep) (\<lambda>_. starts S w) w"
  proof (induction ids arbitrary: rep w)
    case (Cons i ids) show ?case unfolding trash_orphans.simps by (intro starts.steps starts_ToTrash Cons.IH)
  qed (simp add: starts.refl)
  show "wp (remove_orphans known ids rep) (\<lambda>_. starts S w) w"
  proof (induction ids arbitrary: rep w)
    case (Cons i ids) show ?case unfolding remove_orphans.simps by (intro starts.steps starts_RemoveStaging Cons.IH)
  qed (simp add: starts.refl)
qed

lemma starts_EmptyTrash: "wp EmptyTrash (\<lambda>_. starts S w) w"
proof -
  have rem: "wp (remove_trash i) (\<lambda>_. starts S w) w" for i w
    unfolding remove_trash_def by (simp, rule wp_io) (simp add: starts_def start_inv_def)
  have loop: "wp (empty_trash_loop ids n) (\<lambda>_. starts S w) w" for ids n w
  proof (induction ids arbitrary: n w)
    case (Cons i ids)
    show ?case unfolding empty_trash_loop.simps by (intro starts.steps rem Cons.IH)
  qed (simp add: starts.refl)
  have names: "wp (State (\<lambda>w. (map fst (w_trash w), w))) (\<lambda>_. starts S w) w" for w
    by (simp add: starts.refl)
  have io: "wp io (\<lambda>_. starts S w) w" for w by (rule wp_mono [OF wp_reads(1) starts_faults])
  show ?thesis
    unfolding EmptyTrash_def by (intro starts.steps names io loop)
qed

lemma starts_lists: "wp ListLiveIDs (\<lambda>_. starts S w) w" "wp ListStagingIDs (\<lambda>_. starts S w) w"
  by (rule wp_mono [OF wp_reads(3) starts_faults], assumption) (rule wp_mono [OF wp_reads(4) starts_faults])

text \<open>An order of the visit is a rearrangement of what is known.\<close>

definition visits :: "((string \<times> tstate) list \<Rightarrow> (string \<times> tstate) list) \<Rightarrow> bool" where
  "visits order \<longleftrightarrow> (\<forall>xs. distinct (map fst xs) \<longrightarrow> distinct (map fst (order xs)) \<and> set (order xs) = set xs)"

lemma known_ids:
  assumes "db_AllTransferIDs ok d = Inr known" and "db_ok d"
  shows "distinct (map fst known)" and "(i, s) \<in> set known \<longleftrightarrow> state_is i s d" and "set (map fst known) = {i. trow d i \<noteq> None}"
proof -
  have k: "known = map (\<lambda>r. (tr_id r, tr_state r)) (transfers d)"
    using assms(1) by (simp add: db_AllTransferIDs_def db_read_def split: if_splits)
  show "distinct (map fst known)" using assms(2) by (simp add: k o_def db_ok_def keys_ok_def tbl_wf_def)
  have mem: "r \<in> set (transfers d) \<longleftrightarrow> trow d (tr_id r) = Some r" for r
    using row_unique [OF assms(2)] tbl_find_mem by metis
  show "(i, s) \<in> set known \<longleftrightarrow> state_is i s d"
    using mem tbl_find_key by (fastforce simp: k state_is_def)
  show "set (map fst known) = {i. trow d i \<noteq> None}"
    using mem tbl_find_key by (fastforce simp: k)
qed

lemma start_Run:
  assumes "start_inv S w" and "visits order" and "\<And>i. 0 \<le> now i" and "\<And>i k. length (draws i k) = CodeLength"
  shows "wp (reconcile_Run S order draws now) (\<lambda>_. start_inv S) w"
proof -
  have q: "wp (query (\<lambda>ok. db_AllTransferIDs ok)) (\<lambda>k w'. start_inv S w' \<and> (\<exists>ok. k = db_AllTransferIDs ok (w_db w'))) w"
    by (rule wp_query) (use start_faults_only [OF assms(1)] in auto)
  show ?thesis
    unfolding reconcile_Run_def
  proof (rule wp_bindI [OF q], goal_cases)
    case (1 k w1)
    show ?case
    proof (cases k)
      case (Inr known)
      then obtain ok where k: "db_AllTransferIDs ok (w_db w1) = Inr known" using 1 by auto
      have "db_ok (w_db w1)" using 1 by (simp add: start_inv_def server_inv_def)
      note ids = known_ids [OF k this]
      have "distinct (map fst (order known))" "set (order known) = set known"
        using assms(2) ids(1) by (simp_all add: visits_def)
      then have "wp (reconcile_loop S draws now (order known) empty_report) (\<lambda>_. start_inv S) w1"
        using 1 ids(2) assms(3,4) by (intro start_loop) auto
      then show ?thesis
        unfolding Inr sum.case
      proof (rule wp_bindI, goal_cases)
        case (1 rep w2)
        have "wp (State_Monad.bind ListLiveIDs (\<lambda>l. case l of Inl e \<Rightarrow> return (rep, Some e) | Inr liveIDs \<Rightarrow>
            State_Monad.bind (trash_orphans (map fst known) liveIDs rep) (\<lambda>rep. State_Monad.bind ListStagingIDs (\<lambda>s.
              case s of Inl e \<Rightarrow> return (rep, Some e) | Inr stagingIDs \<Rightarrow>
                State_Monad.bind (remove_orphans (map fst known) stagingIDs rep) (\<lambda>rep.
                  State_Monad.bind EmptyTrash (\<lambda>_. return (rep, None))))))) (\<lambda>_. starts S w2) w2"
          by (intro starts.steps start_orphans starts_EmptyTrash starts_lists)
        from wp_starts [OF this 1] show ?case .
      qed
    qed (use 1 in simp)
  qed
qed


section \<open>What the pass does when nothing fails\<close>

lemma run_entries:
  assumes "w_faults w = []" and "live w i = Some t" and "d_payload t = Some pl"
    and "\<forall>e\<in>set es. \<exists>k. safe_rel (ent_Path e) = Some k \<and> k \<noteq> [] \<and> k \<noteq> ''.''
      \<and> (if is_file e then file_there S pl e else is_dir pl k)"
  shows "run_state (payload_entries_present i es) w = (True, w)"
  using assms(4)
proof (induction es)
  case (Cons e es)
  then obtain k where k: "safe_rel (ent_Path e) = Some k" "k \<noteq> []" "k \<noteq> ''.''"
    "if is_file e then file_there S pl e else is_dir pl k" by auto
  show ?case
  proof (cases "is_file e")
    case True
    then obtain c p mt where "map_of pl k = Some (NFile c p mt)" "int (length c) = ent_Size e"
      using k by (auto simp: file_there_def)
    then show ?thesis using Cons assms(1-3) k by simp
  next
    case False
    then have "map_of pl k = Some NDir" using k by (simp add: is_dir_def)
    then show ?thesis using Cons assms(1-3) k False by simp
  qed
qed simp

lemma entry_places:
  assumes "dir_complete S i t" and "d_manifest t = Some m" and "d_payload t = Some pl" and "e \<in> set (man_Entries m)"
  shows "\<exists>k. safe_rel (ent_Path e) = Some k \<and> k \<noteq> [] \<and> k \<noteq> ''.''
    \<and> (if is_file e then file_there S pl e else is_dir pl k)"
proof -
  have ok: "manifest_ok (lib_unicode S) m" and f: "files_ok S pl (man_Entries m)" and d: "dirs_ok pl (man_Entries m)"
    using assms(1-3) by (auto simp: dir_complete_def Validate_ok)
  have e: "entry_ok (lib_unicode S) m e" using ok assms(4) by (simp add: manifest_ok_def)
  then have p: "ValidatePortablePath (lib_unicode S) (ent_Path e) = None" by (simp add: entry_ok_def)
  have "ent_Path e \<noteq> ''.''"
  proof
    assume dot: "ent_Path e = ''.''"
    then have "''.'' \<in> set (split_on (CHR ''/'') (ent_Path e))" by simp
    from ValidateComponent_safe(2) [OF ValidatePortablePath_components(2) [OF p this]] show False by simp
  qed
  moreover have "if is_file e then file_there S pl e else is_dir pl (ent_Path e)"
  proof (cases "is_file e")
    case False
    then have "ent_Type e = EntryDirectory" using e by (auto simp: entry_ok_def split: if_splits)
    then show ?thesis using d assms(4) False safe_rel_portable [OF p] by (auto simp: dirs_ok_def)
  qed (use f assms(4) in \<open>simp add: files_ok_def\<close>)
  ultimately show ?thesis
    using safe_rel_portable [OF p] ValidatePortablePath_components(1) [OF p] by simp
qed

lemma run_ReadManifest_live:
  assumes "w_faults w = []" and "server_inv S w" and "live w i = Some t"
  obtains m pl where "d_manifest t = Some m" "d_payload t = Some pl" "dir_complete S i t"
    "run_state (ReadManifest S live i) w = (Inr m, w)"
proof -
  have c: "dir_complete S i t" by (rule live_complete [OF assms(2,3)])
  then obtain m pl where "d_manifest t = Some m" "d_payload t = Some pl" "Validate (lib_unicode S) m = None"
    by (auto simp: dir_complete_def)
  then show thesis using that c assms(1,3) by (simp add: ReadManifest_def)
qed

lemma run_livePayloadValid:
  assumes "w_faults w = []" and "server_inv S w"
  shows "run_state (livePayloadValid S i) w = (live w i \<noteq> None, w)"
proof (cases "live w i")
  case None
  then show ?thesis using assms(1) by (simp add: livePayloadValid_def ManifestExists_def)
next
  case (Some t)
  from run_ReadManifest_live [OF assms Some] obtain m pl where t: "d_manifest t = Some m" "d_payload t = Some pl"
    "dir_complete S i t" "run_state (ReadManifest S live i) w = (Inr m, w)" .
  have "run_state (payload_entries_present i (man_Entries m)) w = (True, w)"
    by (rule run_entries [of w i t pl _ S]) (use assms(1) Some t entry_places [OF t(3,1,2)] in auto)
  then show ?thesis using assms(1) Some t by (simp add: livePayloadValid_def ManifestExists_def)
qed

definition gone :: "string \<Rightarrow> world \<Rightarrow> bool" where
  "gone i w \<longleftrightarrow> trow (w_db w) i = None \<and> live w i = None \<and> staging w i = None"

definition same :: "string \<Rightarrow> world \<Rightarrow> world \<Rightarrow> bool" where
  "same i w w' \<longleftrightarrow> trow (w_db w') i = trow (w_db w) i \<and> live w' i = live w i \<and> staging w' i = staging w i"

definition failed_row :: "transfer_row \<Rightarrow> transfer_row" where
  "failed_row r = r\<lparr>tr_state := StateFailed, tr_last_error_code := Some ''INTERNAL''\<rparr>"

definition drawn :: "(nat \<Rightarrow> 8 word list) \<Rightarrow> string option set" where
  "drawn draws = (\<lambda>k. NormalizeCode (NewCode (draws k))) ` {..<16}"

definition completed :: "(nat \<Rightarrow> 8 word list) \<Rightarrow> time \<Rightarrow> string \<Rightarrow> transfer_row \<Rightarrow> world \<Rightarrow> world \<Rightarrow> bool" where
  "completed draws now i r w w' \<longleftrightarrow>
     (\<exists>r' c. trow (w_db w') i = Some r' \<and> tr_code r' = Some c \<and> Some c \<in> drawn draws \<and> canonical_code c \<and> tr_state r' = StateCommitted
        \<and> tr_expires_at r' = Some (unix now + 60 * tr_requested_ttl_minutes r))
     \<and> live_manifest w' i = live_manifest w i \<and> staging w' i = staging w i"

text \<open>What becomes of a transfer with row \<open>r\<close>.\<close>

definition settled :: "(nat \<Rightarrow> 8 word list) \<Rightarrow> time \<Rightarrow> string \<Rightarrow> transfer_row \<Rightarrow> world \<Rightarrow> world \<Rightarrow> bool" where
  "settled draws now i r w w' \<longleftrightarrow>
     (if tr_state r = StateDeleting \<or> tr_state r = StateCommitted \<and> live w i = None then gone i w'
      else if is_precommit (tr_state r) \<and> live w i \<noteq> None then completed draws now i r w w'
      else if tr_state r = StateVerifying \<or> is_precommit (tr_state r) \<and> staging w i = None
      then trow (w_db w') i = Some (failed_row r) \<and> live w' i = None \<and> staging w' i = None
      else same i w w')"

lemma run_complete:
  assumes nf: "w_faults w = []" and inv: "server_inv S w" and t: "live w i = Some t"
    and r: "trow (w_db w) i = Some r" "is_precommit (tr_state r)"
    and draws: "\<And>k. length (draws k) = CodeLength" "drawn draws \<inter> tr_code ` set (transfers (w_db w)) = {}"
  shows "\<exists>t' w'. run_state (completeInterruptedPublish S draws now (scanTransfer r)) w = (Inr t', w')
    \<and> w_faults w' = [] \<and> completed draws now i r w w'"
proof -
  note iv = server_invD [OF inv]
  have id: "tr_id r = i" using tbl_find_key [OF r(1)] .
  have ok: "row_ok r" using iv(2) r(1) by (auto simp: rows_ok_def)
  then have code: "tr_code r = None" using r(2) by (rule row_ok_code_None)
  have ttl: "1 \<le> tr_requested_ttl_minutes r" "tr_requested_ttl_minutes r \<le> 3000" using ok by (simp_all add: row_ok_def)
  from run_ReadManifest_live [OF nf inv t] obtain m pl where m: "d_manifest t = Some m" "d_payload t = Some pl"
    "run_state (ReadManifest S live i) w = (Inr m, w)" .
  let ?w1 = "w\<lparr>w_live := AList.update i (t\<lparr>d_sealed := True\<rparr>) (w_live w)\<rparr>"
  have seal: "run_state (SealPayload_live i) w = (True, ?w1)"
    using nf t by (simp add: SealPayload_live_def)
  have "(0::nat) < 16" "\<forall>s\<in>set (transfers (w_db w)). tr_code s \<noteq> NormalizeCode (NewCode (draws 0))"
  proof -
    have "NormalizeCode (NewCode (draws 0)) \<in> drawn draws" by (auto simp: drawn_def)
    then show "\<forall>s\<in>set (transfers (w_db w)). tr_code s \<noteq> NormalizeCode (NewCode (draws 0))"
      using draws(2) by force
  qed simp
  from db_Publish_free [where draws = draws, OF r code draws(1) this]
  obtain t' d' where p: "db_Publish True draws i now (tr_requested_ttl_minutes r)
      (lib_blake3 S (lib_marshal S m)) (TotalBytes m) (w_db w) = (Inr t', d')" by metis
  let ?w2 = "?w1\<lparr>w_db := d'\<rparr>"
  have wf: "tbl_wf tr_id (transfers (w_db w))" using iv(1) by (simp add: db_ok_def keys_ok_def)
  have "\<exists>r' c. trow d' i = Some r' \<and> tr_code r' = Some c \<and> Some c \<in> drawn draws \<and> canonical_code c \<and> tr_state r' = StateCommitted
      \<and> tr_expires_at r' = Some (unix now + 60 * tr_requested_ttl_minutes r)"
    using p wf
  proof (cases rule: db_Publish_Inr)
    case (again r') then show ?thesis using r by (simp add: is_precommit_def)
  next
    case (fresh r' c k)
    have "wrap64 (tr_requested_ttl_minutes r * minute) = tr_requested_ttl_minutes r * minute"
      using ttl by (intro wrap64_id) (simp add: int64_range_def minute_def second_def)
    moreover have "Some c \<in> drawn draws"
      using fresh(4,5) NewCode_normalizes_canonical [of "draws k", OF draws(1)]
      unfolding drawn_def by (intro image_eqI [of _ _ k]) (auto simp: string_of_null_def)
    ultimately show ?thesis
      using fresh r NewCode_draw [of "draws k", OF draws(1)]
      by (auto simp: tbl_find_modify publish_row_def unix_plus_minutes unix_truncate)
  qed
  then have "completed draws now i r w ?w2"
    using m(1) t by (simp add: completed_def update_conv')
  moreover have "run_state (completeInterruptedPublish S draws now (scanTransfer r)) w = (Inr t', ?w2)"
    using ttl(1) nf m(3) seal p id by (simp add: completeInterruptedPublish_def)
  ultimately show ?thesis using nf by (intro exI [of _ t'] exI [of _ ?w2]) simp
qed


lemma run_Fail: "db_Fail True i e d = (Inr (), modify_transfer i (\<lambda>r. r\<lparr>tr_state := StateFailed, tr_last_error_code := Some e\<rparr>) d)"
  by (simp add: db_Fail_def db_write_def)

lemma trow_Fail: "trow d i = Some r \<Longrightarrow> trow (modify_transfer i (\<lambda>r. r\<lparr>tr_state := StateFailed, tr_last_error_code := Some ''INTERNAL''\<rparr>) d) i = Some (failed_row r)"
  by (simp add: tbl_find_modify failed_row_def)

lemma trashed_fully_files: "trashed_fully i w w' \<Longrightarrow> live w' i = None \<and> staging w' i = None"
  by (simp add: trashed_fully_def delete_conv')

lemma run_trash_purge:
  assumes "w_faults w = []"
  shows "\<exists>w'. run_state (State_Monad.bind (ToTrash i) (\<lambda>_. State_Monad.bind (exec (\<lambda>ok. db_Purge ok i)) (\<lambda>_. return x))) w = (x, w')
    \<and> w_faults w' = [] \<and> gone i w'"
proof -
  from run_ToTrash [OF assms, of i] obtain w2 where w2: "run_state (ToTrash i) w = (True, w2)" "trashed_fully i w w2" by blast
  have "w_faults w2 = []" using w2(2) assms by (simp add: trashed_fully_def)
  then show ?thesis
    using w2 trashed_fully_files [OF w2(2)] by (simp add: run_Purge gone_def purge_rows_def tbl_find_delete)
qed

lemma run_one:
  assumes nf: "w_faults w = []" and inv: "server_inv S w" and r: "trow (w_db w) i = Some r" "tr_state r = s"
    and draws: "\<And>k. length (draws k) = CodeLength" "drawn draws \<inter> tr_code ` set (transfers (w_db w)) = {}"
  shows "\<exists>rep' w'. run_state (reconcile_one S draws now i s rep) w = (rep', w')
    \<and> w_faults w' = [] \<and> settled draws now i r w w'"
proof -
  note valid = run_livePayloadValid [OF nf inv, of i]
  have there: "run_state (ManifestExists i) w = (live w i \<noteq> None, w)"
  proof (cases "live w i")
    case (Some t)
    from run_ReadManifest_live [OF nf inv Some] obtain m where "d_manifest t = Some m" by blast
    then show ?thesis using Some nf by (simp add: ManifestExists_def)
  qed (use nf in \<open>simp add: ManifestExists_def\<close>)
  consider (committed) "s = StateCommitted" | (precommit) "is_precommit s" | (deleting) "s = StateDeleting"
    | (other) "s \<noteq> StateCommitted" "\<not> is_precommit s" "s \<noteq> StateDeleting" by blast
  then show ?thesis
  proof cases
    case committed
    show ?thesis
    proof (cases "live w i")
      case None
      let ?w1 = "w\<lparr>w_cache := cache_drop i (w_cache w)\<rparr>"
      have f: "w_faults ?w1 = []" using nf by simp
      from run_trash_purge [OF f, of i "rep\<lparr>FailedTransfers := Suc (FailedTransfers rep)\<rparr>"] obtain w' where
        "run_state (State_Monad.bind (ToTrash i) (\<lambda>_. State_Monad.bind (exec (\<lambda>ok. db_Purge ok i)) (\<lambda>_.
          return (rep\<lparr>FailedTransfers := Suc (FailedTransfers rep)\<rparr>)))) ?w1 = (rep\<lparr>FailedTransfers := Suc (FailedTransfers rep)\<rparr>, w')"
        "w_faults w' = []" "gone i w'" by blast
      then show ?thesis
        using committed None valid r by (auto simp: reconcile_one_def reconcile_committed_def InvalidateManifest_def settled_def)
    next
      case (Some t)
      then show ?thesis
        using committed valid r nf
        by (auto simp: reconcile_one_def reconcile_committed_def settled_def same_def is_precommit_def)
    qed
  next
    case deleting
    from run_trash_purge [OF nf, of i] show ?thesis
      using deleting r by (fastforce simp: reconcile_one_def settled_def is_precommit_def)
  next
    case other
    then show ?thesis using nf r by (auto simp: reconcile_one_def settled_def same_def is_precommit_def)
  next
    case precommit
    then have one: "reconcile_one S draws now i s rep = reconcile_precommit S draws now i s rep"
      by (auto simp: reconcile_one_def is_precommit_def)
    have sd: "s \<noteq> StateDeleting" "s \<noteq> StateCommitted" using precommit by (auto simp: is_precommit_def)
    show ?thesis
    proof (cases "live w i")
      case (Some t)
      from run_complete [where draws = draws, OF nf inv Some r(1) _ draws] precommit r(2) obtain t' w' where
        "run_state (completeInterruptedPublish S draws now (scanTransfer r)) w = (Inr t', w')"
        "w_faults w' = []" "completed draws now i r w w'" by metis
      then show ?thesis
        unfolding one reconcile_precommit_def
        using Some there valid precommit r nf sd by (simp add: db_GetTransfer_def db_read_def settled_def)
    next
      case None
      show ?thesis
      proof (cases "s = StateVerifying")
        case True
        let ?w1 = "w\<lparr>w_db := modify_transfer i (\<lambda>r. r\<lparr>tr_state := StateFailed, tr_last_error_code := Some ''INTERNAL''\<rparr>) (w_db w)\<rparr>"
        have "w_faults ?w1 = []" using nf by simp
        from run_ToTrash [OF this, of i] obtain w2 where w2: "run_state (ToTrash i) ?w1 = (True, w2)" "trashed_fully i ?w1 w2" by blast
        have "trow (w_db w2) i = Some (failed_row r)" "w_faults w2 = []"
          using w2(2) trow_Fail [OF r(1)] nf by (simp_all add: trashed_fully_def)
        then have "settled draws now i r w w2" "w_faults w2 = []"
          using trashed_fully_files [OF w2(2)] True r(2) None by (simp_all add: settled_def is_precommit_def)
        then show ?thesis
          unfolding one reconcile_precommit_def
          using None there True nf w2(1) by (simp add: run_Fail)
      next
        case False
        have lists: "run_state (stagingExists i) w = (staging w i \<noteq> None, w)"
          using nf by (simp add: stagingExists_def ListStagingIDs_def map_of_eq_None_iff)
        show ?thesis
        proof (cases "staging w i")
          case sn: None
          let ?w1 = "w\<lparr>w_db := modify_transfer i (\<lambda>r. r\<lparr>tr_state := StateFailed, tr_last_error_code := Some ''INTERNAL''\<rparr>) (w_db w)\<rparr>"
          have "settled draws now i r w ?w1"
            using trow_Fail [OF r(1)] precommit False sd r(2) None sn by (simp add: settled_def)
          then show ?thesis
            unfolding one reconcile_precommit_def
            using None there False nf sn lists by (simp add: run_Fail ReadManifest_def)
        next
          case (Some t)
          have "settled draws now i r w w"
            using precommit False sd r(2) None Some by (simp add: settled_def same_def)
          then show ?thesis
            unfolding one reconcile_precommit_def
            using None there False nf Some lists by (simp add: ReadManifest_def split: sum.splits option.splits)
        qed
      qed
    qed
  qed
qed


lemma only_same: "only i w w' \<longleftrightarrow> (\<forall>j. j \<noteq> i \<longrightarrow> same j w w')"
  by (auto simp: only_def same_def)

lemma same_trans: "same i u v \<Longrightarrow> same i v w \<Longrightarrow> same i u w"
  by (simp add: same_def)

lemma settled_cong:
  "same i w w1 \<Longrightarrow> settled draws now i r w1 w' = settled draws now i r w w'"
  "same i w' w1 \<Longrightarrow> settled draws now i r w w1 = settled draws now i r w w'"
proof -
  assume "same i w w1"
  then have e: "trow (w_db w1) i = trow (w_db w) i" "live w1 i = live w i" "staging w1 i = staging w i"
    by (simp_all add: same_def)
  show "settled draws now i r w1 w' = settled draws now i r w w'"
    unfolding settled_def completed_def same_def gone_def e ..
next
  assume "same i w' w1"
  then have e: "trow (w_db w1) i = trow (w_db w') i" "live w1 i = live w' i" "staging w1 i = staging w' i"
    by (simp_all add: same_def)
  show "settled draws now i r w w1 = settled draws now i r w w'"
    unfolding settled_def completed_def same_def gone_def e ..
qed

text \<open>The drawn codes of different transfers, and the codes in use, do not collide.\<close>

definition clear_draws :: "(string \<Rightarrow> nat \<Rightarrow> 8 word list) \<Rightarrow> string set \<Rightarrow> db \<Rightarrow> bool" where
  "clear_draws draws ids d \<longleftrightarrow>
     (\<forall>i\<in>ids. drawn (draws i) \<inter> tr_code ` set (transfers d) = {})
     \<and> (\<forall>i\<in>ids. \<forall>j\<in>ids. i \<noteq> j \<longrightarrow> drawn (draws i) \<inter> drawn (draws j) = {})"

lemma codes_after:
  assumes "settled draws now i r w w'" and "only i w w'" and "trow (w_db w) i = Some r" and "db_ok (w_db w')"
  shows "tr_code ` set (transfers (w_db w')) \<subseteq> tr_code ` set (transfers (w_db w)) \<union> drawn draws"
proof
  fix c assume "c \<in> tr_code ` set (transfers (w_db w'))"
  then obtain s where s: "s \<in> set (transfers (w_db w'))" "c = tr_code s" by blast
  have row: "trow (w_db w') (tr_id s) = Some s" by (rule row_unique [OF assms(4) s(1)])
  have old: "tr_code r \<in> tr_code ` set (transfers (w_db w))" using tbl_find_mem [OF assms(3)] by blast
  show "c \<in> tr_code ` set (transfers (w_db w)) \<union> drawn draws"
  proof (cases "tr_id s = i")
    case False
    then have "trow (w_db w) (tr_id s) = Some s" using row assms(2) by (simp add: only_def)
    then show ?thesis using tbl_find_mem s(2) by fast
  next
    case True
    then have "trow (w_db w') i = Some s" using row by simp
    then have "s = r \<or> s = failed_row r \<or> tr_code s \<in> drawn draws"
      using assms(1,3) by (auto simp: settled_def gone_def completed_def same_def split: if_splits)
    then show ?thesis using old s(2) by (auto simp: failed_row_def)
  qed
qed

lemma run_loop:
  assumes "w_faults w = []" and "start_inv S w" and "distinct (map fst known)"
    and "\<forall>(i, s)\<in>set known. state_is i s (w_db w)" and "clear_draws draws (fst ` set known) (w_db w)"
    and pos: "\<And>i. 0 \<le> now i" and len: "\<And>i k. length (draws i k) = CodeLength"
  shows "\<exists>rep' w'. run_state (reconcile_loop S draws now known rep) w = (rep', w') \<and> w_faults w' = []
    \<and> (\<forall>i\<in>fst ` set known. \<forall>r. trow (w_db w) i = Some r \<longrightarrow> settled (draws i) (now i) i r w w')
    \<and> (\<forall>j. j \<notin> fst ` set known \<longrightarrow> same j w w')"
  using assms(1-5)
proof (induction known arbitrary: rep w)
  case Nil
  then show ?case by (simp add: same_def)
next
  case (Cons p known)
  obtain i s where p: "p = (i, s)" by fastforce
  then obtain r where r: "trow (w_db w) i = Some r" "tr_state r = s" using Cons.prems(4) by (auto simp: state_is_def)
  have inv: "server_inv S w" using Cons.prems(2) by (simp add: start_inv_def)
  have d: "drawn (draws i) \<inter> tr_code ` set (transfers (w_db w)) = {}"
    using Cons.prems(5) p by (simp add: clear_draws_def)
  from run_one [where draws = "draws i" and now = "now i" and rep = rep, OF Cons.prems(1) inv r len d] obtain rep1 w1 where
    w1: "run_state (reconcile_one S (draws i) (now i) i s rep) w = (rep1, w1)" "w_faults w1 = []"
      "settled (draws i) (now i) i r w w1" by blast
  have "wp (reconcile_one S (draws i) (now i) i s rep) (\<lambda>_ w'. start_inv S w' \<and> only i w w') w"
    using Cons.prems(2,4) p pos len by (intro wp_conj start_one only_one) auto
  from wp_run [OF this w1(1)] have o: "start_inv S w1" "only i w w1" by simp_all
  have ok1: "db_ok (w_db w1)" using o(1) by (simp add: start_inv_def server_inv_def)
  have notin: "i \<notin> fst ` set known" "distinct (map fst known)" using Cons.prems(3) p by simp_all
  have st: "\<forall>(j, s)\<in>set known. state_is j s (w_db w1)"
  proof clarify
    fix j s' assume j: "(j, s') \<in> set known"
    then have "j \<noteq> i" using notin(1) by force
    then show "state_is j s' (w_db w1)" using j Cons.prems(4) o(2) state_is_only by fastforce
  qed
  have cl: "clear_draws draws (fst ` set known) (w_db w1)"
    unfolding clear_draws_def
  proof (intro conjI ballI impI)
    fix j assume j: "j \<in> fst ` set known"
    then have "j \<noteq> i" using notin(1) by blast
    then have "drawn (draws j) \<inter> (tr_code ` set (transfers (w_db w)) \<union> drawn (draws i)) = {}"
      using Cons.prems(5) j p by (auto simp: clear_draws_def)
    then show "drawn (draws j) \<inter> tr_code ` set (transfers (w_db w1)) = {}"
      using codes_after [OF w1(3) o(2) r(1) ok1] by blast
    show "drawn (draws j) \<inter> drawn (draws k) = {}" if "k \<in> fst ` set known" "j \<noteq> k" for k
    proof -
      have "j \<in> fst ` set (p # known)" "k \<in> fst ` set (p # known)" using j that(1) by auto
      then show ?thesis using Cons.prems(5) that(2) unfolding clear_draws_def by blast
    qed
  qed
  from Cons.IH [OF w1(2) o(1) notin(2) st cl, of rep1] obtain rep' w' where
    w': "run_state (reconcile_loop S draws now known rep1) w1 = (rep', w')" "w_faults w' = []"
      "\<forall>j\<in>fst ` set known. \<forall>r. trow (w_db w1) j = Some r \<longrightarrow> settled (draws j) (now j) j r w1 w'"
      "\<forall>j. j \<notin> fst ` set known \<longrightarrow> same j w1 w'" by blast
  have "settled (draws j) (now j) j r' w w'" if j: "j \<in> fst ` set (p # known)" "trow (w_db w) j = Some r'" for j r'
  proof (cases "j = i")
    case True
    then have "same i w1 w'" using w'(4) notin(1) by blast
    then show ?thesis using settled_cong(2) [of i w1 w' "draws i" "now i" r w] w1(3) True j(2) r(1) by simp
  next
    case False
    then have "j \<in> fst ` set known" "same j w w1" using j(1) p o(2) by (auto simp: only_same)
    moreover from this have "trow (w_db w1) j = Some r'" using j(2) by (simp add: same_def)
    ultimately show ?thesis using w'(3) settled_cong(1) [of j w w1] by blast
  qed
  moreover have "same j w w'" if "j \<notin> fst ` set (p # known)" for j
    using that p o(2) w'(4) by (intro same_trans [of j w w1 w']) (auto simp: only_same)
  ultimately show ?case
    using w1(1) w'(1,2) p by (intro exI [of _ rep'] exI [of _ w']) simp
qed

lemma run_trash_orphans:
  "w_faults w = [] \<Longrightarrow> \<exists>rep' w'. run_state (trash_orphans known ids rep) w = (rep', w') \<and> w_faults w' = []
     \<and> w_db w' = w_db w
     \<and> (\<forall>j. live w' j = (if j \<in> set ids - set known then None else live w j))
     \<and> (\<forall>j. staging w' j = (if j \<in> set ids - set known then None else staging w j))"
proof (induction ids arbitrary: rep w)
  case (Cons i ids)
  show ?case
  proof (cases "i \<in> set known")
    case True
    from Cons.IH [OF Cons.prems, of rep] show ?thesis using True by (auto 4 3)
  next
    case False
    from run_ToTrash [OF Cons.prems, of i] obtain w1 where w1: "run_state (ToTrash i) w = (True, w1)" "trashed_fully i w w1" by blast
    then have "w_faults w1 = []" using Cons.prems by (simp add: trashed_fully_def)
    from Cons.IH [OF this, of "rep\<lparr>OrphanLive := Suc (OrphanLive rep)\<rparr>"] obtain rep' w' where
      w': "run_state (trash_orphans known ids (rep\<lparr>OrphanLive := Suc (OrphanLive rep)\<rparr>)) w1 = (rep', w')" "w_faults w' = []"
        "w_db w' = w_db w1" "\<forall>j. live w' j = (if j \<in> set ids - set known then None else live w1 j)"
        "\<forall>j. staging w' j = (if j \<in> set ids - set known then None else staging w1 j)" by blast
    have "live w1 j = (if j = i then None else live w j)" "staging w1 j = (if j = i then None else staging w j)" for j
      using w1(2) by (simp_all add: trashed_fully_def delete_conv')
    then show ?thesis
      using False w1 w' by (intro exI [of _ rep'] exI [of _ w']) (simp add: trashed_fully_def)
  qed
qed simp

lemma run_remove_orphans:
  "w_faults w = [] \<Longrightarrow> \<exists>rep' w'. run_state (remove_orphans known ids rep) w = (rep', w') \<and> w_faults w' = []
     \<and> w_db w' = w_db w \<and> w_live w' = w_live w
     \<and> (\<forall>j. staging w' j = (if j \<in> set ids - set known then None else staging w j))"
proof (induction ids arbitrary: rep w)
  case (Cons i ids)
  show ?case
  proof (cases "i \<in> set known")
    case True
    from Cons.IH [OF Cons.prems, of rep] show ?thesis using True by (auto 4 3)
  next
    case False
    let ?w1 = "w\<lparr>w_staging := AList.delete i (w_staging w)\<rparr>"
    have "w_faults ?w1 = []" using Cons.prems by simp
    from Cons.IH [OF this, of "rep\<lparr>OrphanStaging := Suc (OrphanStaging rep)\<rparr>"] obtain rep' w' where
      w': "run_state (remove_orphans known ids (rep\<lparr>OrphanStaging := Suc (OrphanStaging rep)\<rparr>)) ?w1 = (rep', w')" "w_faults w' = []"
        "w_db w' = w_db ?w1" "w_live w' = w_live ?w1"
        "\<forall>j. staging w' j = (if j \<in> set ids - set known then None else staging ?w1 j)" by blast
    have r: "run_state (RemoveStaging i) w = (True, ?w1)" using Cons.prems by (simp add: RemoveStaging_def)
    have "staging ?w1 j = (if j = i then None else staging w j)" for j by (simp add: delete_conv')
    then show ?thesis
      using False r w' by (intro exI [of _ rep'] exI [of _ w']) simp
  qed
qed simp


lemma run_Run:
  assumes nf: "w_faults w = []" and inv: "start_inv S w" and ord: "visits order"
    and pos: "\<And>i. 0 \<le> now i" and len: "\<And>i k. length (draws i k) = CodeLength"
    and clear: "clear_draws draws {i. trow (w_db w) i \<noteq> None} (w_db w)"
  shows "\<exists>rep w'. run_state (reconcile_Run S order draws now) w = ((rep, None), w')
    \<and> (\<forall>i r. trow (w_db w) i = Some r \<longrightarrow> settled (draws i) (now i) i r w w')
    \<and> (\<forall>i. trow (w_db w) i = None \<longrightarrow> gone i w') \<and> w_trash w' = []"
proof -
  obtain known where k: "db_AllTransferIDs True (w_db w) = Inr known"
    by (simp add: db_AllTransferIDs_def db_read_def)
  have "db_ok (w_db w)" using inv by (simp add: start_inv_def server_inv_def)
  note ids = known_ids [OF k this]
  have o: "distinct (map fst (order known))" "set (order known) = set known"
    using ord ids(1) by (simp_all add: visits_def)
  have kn: "fst ` set (order known) = {i. trow (w_db w) i \<noteq> None}" using ids(3) o(2) by simp
  have st: "\<forall>(i, s)\<in>set (order known). state_is i s (w_db w)" using ids(2) o(2) by auto
  have cl: "clear_draws draws (fst ` set (order known)) (w_db w)" using clear kn by simp
  from run_loop [where rep = empty_report and now = now and draws = draws, OF nf inv o(1) st cl pos len] obtain rep1 w1 where
    w1: "run_state (reconcile_loop S draws now (order known) empty_report) w = (rep1, w1)" "w_faults w1 = []"
      "\<forall>i\<in>fst ` set (order known). \<forall>r. trow (w_db w) i = Some r \<longrightarrow> settled (draws i) (now i) i r w w1"
      "\<forall>j. j \<notin> fst ` set (order known) \<longrightarrow> same j w w1" by blast
  from run_trash_orphans [OF w1(2), of "map fst known" "map fst (w_live w1)" rep1] obtain rep2 w2 where
    w2: "run_state (trash_orphans (map fst known) (map fst (w_live w1)) rep1) w1 = (rep2, w2)" "w_faults w2 = []"
      "w_db w2 = w_db w1" "\<forall>j. live w2 j = (if j \<in> set (map fst (w_live w1)) - set (map fst known) then None else live w1 j)"
      "\<forall>j. staging w2 j = (if j \<in> set (map fst (w_live w1)) - set (map fst known) then None else staging w1 j)" by blast
  from run_remove_orphans [OF w2(2), of "map fst known" "map fst (w_staging w2)" rep2] obtain rep3 w3 where
    w3: "run_state (remove_orphans (map fst known) (map fst (w_staging w2)) rep2) w2 = (rep3, w3)" "w_faults w3 = []"
      "w_db w3 = w_db w2" "w_live w3 = w_live w2"
      "\<forall>j. staging w3 j = (if j \<in> set (map fst (w_staging w2)) - set (map fst known) then None else staging w2 j)" by blast
  let ?w4 = "w3\<lparr>w_trash := []\<rparr>"
  have lists: "run_state ListLiveIDs w1 = (Inr (map fst (w_live w1)), w1)"
    "run_state ListStagingIDs w2 = (Inr (map fst (w_staging w2)), w2)"
    using w1(2) w2(2) by (simp_all add: ListLiveIDs_def ListStagingIDs_def)
  have q: "run_state (query (\<lambda>ok. db_AllTransferIDs ok)) w = (Inr known, w)" using nf k by simp
  have run: "run_state (reconcile_Run S order draws now) w = ((rep3, None), ?w4)"
    unfolding reconcile_Run_def
    by (simp only: run_state_bind q w1(1) lists w2(1) w3(1) run_EmptyTrash [OF w3(2)] prod.case sum.case run_state_return)
  have known: "j \<in> set (map fst known) \<longleftrightarrow> trow (w_db w) j \<noteq> None" for j using ids(3) by blast
  have keep: "same j w1 ?w4" if "trow (w_db w) j \<noteq> None" for j
    using that known [of j] w2(3-5) w3(3-5) by (simp add: same_def)
  have "settled (draws i) (now i) i r w ?w4" if "trow (w_db w) i = Some r" for i r
  proof -
    have "settled (draws i) (now i) i r w w1" using w1(3) kn that by blast
    moreover have "same i w1 ?w4" using keep that by simp
    ultimately show ?thesis using settled_cong(2) [of i w1 ?w4 "draws i" "now i" r w] by blast
  qed
  moreover have "gone i ?w4" if none: "trow (w_db w) i = None" for i
  proof -
    have "same i w w1" using w1(4) kn none by blast
    then have "trow (w_db w1) i = None" using none by (simp add: same_def)
    moreover have "live w2 i = None"
      using w2(4) known [of i] none by (cases "i \<in> set (map fst (w_live w1))") (simp_all add: map_of_eq_None_iff)
    moreover have "staging w3 i = None"
      using w3(5) known [of i] none by (cases "i \<in> set (map fst (w_staging w2))") (simp_all add: map_of_eq_None_iff)
    ultimately show ?thesis using w2(3) w3(3,4) by (simp add: gone_def)
  qed
  ultimately show ?thesis using run by (intro exI [of _ rep3] exI [of _ ?w4]) simp
qed

text \<open>
  Reconciliation is safe at every step. Whatever the crash left behind, in whatever order
  the transfers are visited, and whatever fails during the pass, the server invariant holds
  afterwards: nothing incomplete is live, and no row carries a code it should not have.
\<close>

theorem Reconcile_safe:
  assumes "start_inv S w" and "visits order" and "\<And>i. 0 \<le> now i" and "\<And>i k. length (draws i k) = CodeLength"
    and "run_state (reconcile_Run S order draws now) w = (res, w')"
  shows "start_inv S w'"
  by (rule wp_run [OF start_Run [OF assms(1-4)] assms(5)])

text \<open>
  C21: reconciliation settles every transfer. When nothing fails and the drawn codes do not
  collide, the pass ends without an error and in the state the specification demands: a commit
  whose directory was already live is completed under a fresh code with its full lifetime,
  interrupted materializations and uploads without a directory are failed, interrupted
  deletions and committed records without a payload are gone, everything else is untouched,
  and no directory without a record and no trash is left.
\<close>

theorem Reconcile_settles:
  assumes "w_faults w = []" and "start_inv S w" and "visits order"
    and "\<And>i. 0 \<le> now i" and "\<And>i k. length (draws i k) = CodeLength"
    and "clear_draws draws {i. trow (w_db w) i \<noteq> None} (w_db w)"
  shows "\<exists>rep w'. run_state (reconcile_Run S order draws now) w = ((rep, None), w')
    \<and> (\<forall>i r. trow (w_db w) i = Some r \<longrightarrow> settled (draws i) (now i) i r w w')
    \<and> (\<forall>i. trow (w_db w) i = None \<longrightarrow> gone i w') \<and> w_trash w' = []"
  by (rule run_Run [OF assms])

text \<open>
  The invariant the pass protects. After a pass in which nothing failed, every committed
  record has a complete payload in live: all its files with their declared sizes and digests.
\<close>

theorem Reconcile_codes_complete:
  assumes nf: "w_faults w = []" and inv: "start_inv S w" and ord: "visits order"
    and pos: "\<And>i. 0 \<le> now i" and len: "\<And>i k. length (draws i k) = CodeLength"
    and clear: "clear_draws draws {i. trow (w_db w) i \<noteq> None} (w_db w)"
    and run: "run_state (reconcile_Run S order draws now) w = (res, w')"
    and r': "trow (w_db w') i = Some r'" "tr_state r' = StateCommitted"
  shows "\<exists>t. live w' i = Some t \<and> dir_complete S i t"
proof -
  have inv': "server_inv S w'"
    using wp_run [OF start_Run [OF inv ord pos len] run] by (simp add: start_inv_def)
  from run_Run [where now = now and draws = draws, OF nf inv ord pos len clear] run have
    s: "\<forall>i r. trow (w_db w) i = Some r \<longrightarrow> settled (draws i) (now i) i r w w'"
    and g: "\<forall>i. trow (w_db w) i = None \<longrightarrow> gone i w'" by auto
  have "trow (w_db w) i \<noteq> None" using g r'(1) by (auto simp: gone_def)
  then obtain r where r: "trow (w_db w) i = Some r" by blast
  then have "settled (draws i) (now i) i r w w'" using s by blast
  moreover have "live_manifest w i \<noteq> None" if "live w i \<noteq> None"
    using that inv live_complete [of S w i] by (auto simp: start_inv_def dir_complete_def)
  ultimately have "live w' i \<noteq> None"
    using r r' unfolding settled_def gone_def completed_def same_def failed_row_def
    by (cases "live w' i") (auto split: if_splits)
  then show ?thesis using live_complete [OF inv'] by blast
qed


text \<open>The sample, crashed between the rename into live and the database transaction.\<close>

definition sample_crashed_world :: world where
  "sample_crashed_world = sample_live_world\<lparr>w_db := snd (db_SetState True sample_id StateVerifying sample_db)\<rparr>"

definition sample_verifying_row :: transfer_row where
  "sample_verifying_row = hd (transfers (w_db sample_crashed_world))"

lemma sample_verifying:
  "transfers (w_db sample_crashed_world) = [sample_verifying_row]"
  "tr_id sample_verifying_row = sample_id" "tr_code sample_verifying_row = None"
  "tr_state sample_verifying_row = StateVerifying" "tr_requested_ttl_minutes sample_verifying_row = 30"
  "tr_committed_at sample_verifying_row = None" "tr_expires_at sample_verifying_row = None"
  by code_simp+

lemma sample_verifying_trow: "trow (w_db sample_crashed_world) i = (if i = sample_id then Some sample_verifying_row else None)"
  by (simp add: tbl_find_def sample_verifying)

lemma sample_crashed_start: "start_inv sample_server sample_crashed_world"
proof -
  have ok0: "db_ok sample_db" using db_step_ok [OF step_CreateTransfer empty_db_ok] by (simp add: sample_db_def)
  then have db: "db_ok (w_db sample_crashed_world)" by (simp add: sample_crashed_world_def inv_intros)
  have "row_ok sample_verifying_row" by (simp add: row_ok_def sample_verifying)
  then have rows: "rows_ok (w_db sample_crashed_world)" by (intro rows_okI) (simp add: sample_verifying(1))
  have same: "live sample_crashed_world = live sample_live_world" "staging sample_crashed_world = staging sample_live_world"
    "w_cache sample_crashed_world = w_cache sample_live_world" by (simp_all add: sample_crashed_world_def)
  have st: "tr_state r = StateVerifying" if "trow (w_db sample_crashed_world) i = Some r" for i r
    using that [unfolded sample_verifying_trow] sample_verifying(4) by (auto split: if_splits)
  have "areas_ok sample_server sample_crashed_world"
    using server_invD(3) [OF sample_live_inv] by (auto simp: areas_ok_def same dest: st)
  moreover have "cache_get (w_cache sample_live_world) i = None" for i
    by (simp add: sample_live_world_def Let_def sample_world_def newManifestCache_def cache_get_def)
  moreover from this have "cache_get (w_cache sample_live_world) = Map.empty" by auto
  ultimately show ?thesis using db rows by (simp add: start_inv_def server_inv_def same)
qed

lemma sample_clear: "clear_draws (\<lambda>i. sample_draws) {i. trow (w_db sample_crashed_world) i \<noteq> None} (w_db sample_crashed_world)"
proof -
  have "NormalizeCode (NewCode (sample_draws k)) \<noteq> None" for k
    using NewCode_normalizes_canonical [of "sample_draws k", OF sample_draws_length] by auto
  then have "None \<notin> drawn sample_draws" by (auto simp: drawn_def eq_commute)
  moreover have "{i. trow (w_db sample_crashed_world) i \<noteq> None} = {sample_id}"
    unfolding sample_verifying_trow by auto
  ultimately show ?thesis by (simp add: clear_draws_def sample_verifying(1,3))
qed

lemma sample_visits: "visits rev"
  by (simp add: visits_def rev_map [symmetric])

definition sample_reconciled :: "(Report \<times> go_error option) \<times> world" where
  "sample_reconciled = run_state (reconcile_Run sample_server rev (\<lambda>i. sample_draws) (\<lambda>i. 1700000200 * second)) sample_crashed_world"

theorem Reconcile_settles_witness:
  "completed sample_draws (1700000200 * second) sample_id sample_verifying_row sample_crashed_world (snd sample_reconciled)"
proof -
  have nf: "w_faults sample_crashed_world = []" by code_simp
  have live: "live sample_crashed_world sample_id \<noteq> None" by code_simp
  have pos: "0 \<le> 1700000200 * second" by (simp add: second_def)
  from Reconcile_settles [where now = "\<lambda>i. 1700000200 * second", OF nf sample_crashed_start sample_visits pos sample_draws_length sample_clear]
  have "settled sample_draws (1700000200 * second) sample_id sample_verifying_row sample_crashed_world (snd sample_reconciled)"
    by (auto simp: sample_reconciled_def sample_verifying_trow)
  then show ?thesis using live by (simp add: settled_def sample_verifying is_precommit_def)
qed

theorem Reconcile_safe_witness:
  "start_inv sample_server (snd (run_state (reconcile_Run sample_server rev (\<lambda>i. sample_draws) (\<lambda>i. 1700000200 * second))
     (sample_crashed_world\<lparr>w_faults := [False, True, False, True]\<rparr>)))"
proof -
  have w: "start_inv sample_server (sample_crashed_world\<lparr>w_faults := [False, True, False, True]\<rparr>)"
    using sample_crashed_start by (simp add: start_inv_def)
  have pos: "0 \<le> 1700000200 * second" by (simp add: second_def)
  show ?thesis by (rule Reconcile_safe [OF w sample_visits pos sample_draws_length prod.collapse [symmetric]])
qed

theorem Reconcile_codes_complete_witness:
  "\<exists>t. live (snd sample_reconciled) sample_id = Some t \<and> dir_complete sample_server sample_id t"
proof -
  have nf: "w_faults sample_crashed_world = []" by code_simp
  have pos: "0 \<le> 1700000200 * second" by (simp add: second_def)
  have "case trow (w_db (snd sample_reconciled)) sample_id of None \<Rightarrow> False | Some r \<Rightarrow> tr_state r = StateCommitted"
    by code_simp
  then obtain r' where r': "trow (w_db (snd sample_reconciled)) sample_id = Some r'" "tr_state r' = StateCommitted"
    by (auto split: option.splits)
  show ?thesis
    by (rule Reconcile_codes_complete [where now = "\<lambda>i. 1700000200 * second", OF nf sample_crashed_start sample_visits pos sample_draws_length
      sample_clear prod.collapse [symmetric] r' [unfolded sample_reconciled_def], folded sample_reconciled_def])
qed

end
