(* ===== verification/SSS_Upload.thy ===== *)
theory SSS_Upload
  imports SSS_Service
begin

text \<open>
  Creating a transfer and uploading its segments: the resumable path of
  \<^verbatim>\<open>internal/transfer/advanced.go\<close>. A request body is the list of chunks its reads return, and
  whether it ends cleanly; the disk usage each admission check reads is an argument, as are clock
  readings and identifiers.
\<close>

section \<open>Creating a transfer\<close>

record segment_req =
  sq_ID :: string
  sq_Kind :: string
  sq_DigestAlgorithm :: string
  sq_ExpectedLength :: int
  sq_ExpectedDigest :: "string option"

record create_req =
  rq_TTLMinutes :: int
  rq_Note :: string
  rq_ExpectedFileCount :: int
  rq_Segments :: "segment_req list"

fun check_segments :: "unicode_tables \<Rightarrow> segment_req list \<Rightarrow> string set \<Rightarrow> int \<Rightarrow> int result" where
  "check_segments U [] seen declared = Inr declared"
| "check_segments U (seg # segs) seen declared =
     (if sq_ID seg = [] \<or> length (sq_ID seg) > 128 then Inl ErrInvalidRequest
      else if ValidateComponent U (sq_ID seg) \<noteq> None then Inl ErrInvalidRequest
      else if sq_ID seg \<in> seen then Inl ErrInvalidRequest
      else if sq_Kind seg \<noteq> SegmentRaw \<and> sq_Kind seg \<noteq> SegmentTarZstd then Inl ErrInvalidRequest
      else if sq_DigestAlgorithm seg \<noteq> [] \<and> sq_DigestAlgorithm seg \<noteq> DigestAlgorithm
      then Inl ErrInvalidRequest
      else if sq_ExpectedLength seg < 0 then Inl ErrInvalidRequest
      else if (case sq_ExpectedDigest seg of None \<Rightarrow> False | Some d \<Rightarrow> \<not> digest_pattern d)
      then Inl ErrInvalidRequest
      else check_segments U segs (insert (sq_ID seg) seen) (wrap64 (declared + sq_ExpectedLength seg)))"

text \<open>Admission reads the reservations only when it gets that far.\<close>

definition svc_Admit :: "server \<Rightarrow> disk_usage option \<Rightarrow> int \<Rightarrow> errcode option svc" where
  "svc_Admit S usage n =
     (if (MaxTransferBytes S > 0 \<and> n > MaxTransferBytes S) \<or> usage = None
      then return (Admit (adm S) usage None n)
      else do {
        r \<leftarrow> query (\<lambda>ok. db_ReservedBytes ok);
        return (Admit (adm S) usage (case r of Inr x \<Rightarrow> Some x | Inl _ \<Rightarrow> None) n)
      })"

record UploadResource =
  ur_SegmentID :: string
  ur_UploadID :: string
  ur_UploadPath :: string

definition new_segment :: "string \<Rightarrow> string \<Rightarrow> segment_req \<Rightarrow> Segment" where
  "new_segment i uploadID seg =
     \<lparr>sg_ID = sq_ID seg, sg_TransferID = i, sg_UploadID = uploadID, sg_Kind = sq_Kind seg,
      sg_ExpectedLength = sq_ExpectedLength seg, sg_ReceivedLength = 0,
      sg_DigestAlgorithm = DigestAlgorithm,
      sg_ExpectedDigest = (case sq_ExpectedDigest seg of None \<Rightarrow> [] | Some d \<Rightarrow> d),
      sg_State = SegmentPending, sg_RelativeStoragePath = ''segments/'' @ sq_ID seg\<rparr>"

fun insert_segments ::
  "string \<Rightarrow> (nat \<Rightarrow> string) \<Rightarrow> nat \<Rightarrow> segment_req list \<Rightarrow> ((UploadResource list) result) svc" where
  "insert_segments i uploadIDs n [] = return (Inr [])"
| "insert_segments i uploadIDs n (seg # segs) = do {
     r \<leftarrow> exec (\<lambda>ok. db_InsertSegment ok (new_segment i (uploadIDs n) seg));
     case r of
       Inl _ \<Rightarrow> do {
         _ \<leftarrow> RemoveStaging i;
         _ \<leftarrow> exec (\<lambda>ok. db_Purge ok i);
         return (Inl ErrInternal)
       }
     | Inr _ \<Rightarrow> do {
         rs \<leftarrow> insert_segments i uploadIDs (Suc n) segs;
         return (case rs of Inl e \<Rightarrow> Inl e
           | Inr us \<Rightarrow> Inr (\<lparr>ur_SegmentID = sq_ID seg, ur_UploadID = uploadIDs n,
               ur_UploadPath = ''/v1/uploads/'' @ uploadIDs n\<rparr> # us))
       }
   }"

definition new_transfer :: "server \<Rightarrow> string \<Rightarrow> time \<Rightarrow> int \<Rightarrow> string \<Rightarrow> int \<Rightarrow> Transfer" where
  "new_transfer S i now ttl note reserved =
     \<lparr>t_ID = i, t_Code = [], t_State = StateCreated, t_SenderLabel = [], t_CreatedAt = now,
      t_CommittedAt = zero_time, t_ExpiresAt = zero_time, t_RequestedTTLMinutes = ttl, t_Note = note,
      t_ManifestDigest = [], t_WireBytes = 0, t_MaterializedBytes = 0, t_ReservedBytes = reserved,
      t_RootPath = StagingPath S i, t_LastErrorCode = []\<rparr>"

definition svc_CreateTransfer ::
  "server \<Rightarrow> disk_usage option \<Rightarrow> time \<Rightarrow> string \<Rightarrow> (nat \<Rightarrow> string) \<Rightarrow> create_req
   \<Rightarrow> ((string \<times> UploadResource list) result) svc" where
  "svc_CreateTransfer S usage now i uploadIDs req =
     (case ResolveTTL S (rq_TTLMinutes req) of Inl e \<Rightarrow> return (Inl e) | Inr ttl \<Rightarrow>
      case CheckNote S (rq_Note req) of Some e \<Rightarrow> return (Inl e) | None \<Rightarrow>
      if rq_Segments req = [] then return (Inl ErrInvalidRequest)
      else if rq_ExpectedFileCount req > MaxFiles S then return (Inl ErrTooManyFiles)
      else case check_segments (lib_unicode S) (rq_Segments req) {} 0 of
        Inl e \<Rightarrow> return (Inl e)
      | Inr declared \<Rightarrow> do {
          a \<leftarrow> svc_Admit S usage declared;
          case a of Some e \<Rightarrow> return (Inl e) | None \<Rightarrow> do {
            prepared \<leftarrow> PrepareStaging i;
            if \<not> prepared then return (Inl ErrInternal)
            else do {
              c \<leftarrow> exec (\<lambda>ok. db_CreateTransfer ok (new_transfer S i now ttl (rq_Note req) (Reserve declared)));
              case c of
                Inl _ \<Rightarrow> do { _ \<leftarrow> RemoveStaging i; return (Inl ErrInternal) }
              | Inr _ \<Rightarrow> do {
                  us \<leftarrow> insert_segments i uploadIDs 0 (rq_Segments req);
                  return (case us of Inl e \<Rightarrow> Inl e | Inr us \<Rightarrow> Inr (i, us))
                }
            }
          }
        })"

section \<open>Uploading\<close>

definition UploadState :: "string \<Rightarrow> ((int \<times> int) result) svc" where
  "UploadState uploadID = do {
     r \<leftarrow> query (\<lambda>ok. db_GetSegmentByUploadID ok uploadID);
     return (case r of
       Inl e \<Rightarrow> Inl (if e = NotFoundError then ErrTransferNotFound else ErrInternal)
     | Inr seg \<Rightarrow> Inr (sg_ReceivedLength seg, sg_ExpectedLength seg))
   }"

definition on_segments :: "string \<Rightarrow> ((string \<times> bytes) list \<Rightarrow> (string \<times> bytes) list option) \<Rightarrow> bool svc" where
  "on_segments i f = stage i (\<lambda>t. case t of None \<Rightarrow> None | Some t \<Rightarrow>
     (case d_segments t of None \<Rightarrow> None | Some ss \<Rightarrow>
        map_option (\<lambda>ss'. t\<lparr>d_segments := Some ss'\<rparr>) (f ss)))"

text \<open>Opening creates the file, truncation may extend it with zero bytes, a write is at a position.\<close>

definition open_segment :: "string \<Rightarrow> (string \<times> bytes) list \<Rightarrow> (string \<times> bytes) list option" where
  "open_segment sid ss = Some (if map_of ss sid = None then AList.update sid [] ss else ss)"

definition resize :: "nat \<Rightarrow> bytes \<Rightarrow> bytes" where
  "resize n c = take n c @ replicate (n - length c) (CHR 0x00)"

definition truncate_segment :: "string \<Rightarrow> nat \<Rightarrow> (string \<times> bytes) list \<Rightarrow> (string \<times> bytes) list option" where
  "truncate_segment sid n ss = map_option (\<lambda>c. AList.update sid (resize n c) ss) (map_of ss sid)"

definition write_segment ::
  "string \<Rightarrow> nat \<Rightarrow> bytes \<Rightarrow> (string \<times> bytes) list \<Rightarrow> (string \<times> bytes) list option" where
  "write_segment sid pos data ss =
     map_option (\<lambda>c. AList.update sid (resize pos c @ data @ drop (pos + length data) c) ss) (map_of ss sid)"

definition admissionCheckInterval :: nat where "admissionCheckInterval = 33554432"

datatype patch_end = PatchDone | PatchReadError | PatchError errcode

fun patch_loop ::
  "server \<Rightarrow> (nat \<Rightarrow> disk_usage option) \<Rightarrow> string \<Rightarrow> string \<Rightarrow> nat \<Rightarrow> nat \<Rightarrow> bytes list \<Rightarrow> bool
   \<Rightarrow> nat \<Rightarrow> nat \<Rightarrow> nat \<Rightarrow> (nat \<times> patch_end) svc" where
  "patch_loop S disk i sid offset remaining [] eof written sinceCheck k =
     return (written, if eof then PatchDone else PatchReadError)"
| "patch_loop S disk i sid offset remaining (c # cs) eof written sinceCheck k =
     (if c = [] then patch_loop S disk i sid offset remaining cs eof written sinceCheck k
      else if written + length c > remaining then
        (if remaining - written > 0 then do {
           ok \<leftarrow> on_segments i (write_segment sid (offset + written) (take (remaining - written) c));
           return (if ok then remaining else written, PatchError ErrInvalidRequest)
         }
         else return (written, PatchError ErrInvalidRequest))
      else do {
        ok \<leftarrow> on_segments i (write_segment sid (offset + written) c);
        if \<not> ok then return (written, PatchError ErrInsufficientStorage)
        else if sinceCheck + length c \<ge> admissionCheckInterval then
          (case CheckStreaming (adm S) (disk k) of
             Some e \<Rightarrow> return (written + length c, PatchError e)
           | None \<Rightarrow> patch_loop S disk i sid offset remaining cs eof (written + length c) 0 (Suc k))
        else patch_loop S disk i sid offset remaining cs eof (written + length c) (sinceCheck + length c) k
      })"

definition finishPatch :: "Segment \<Rightarrow> int \<Rightarrow> unit svc" where
  "finishPatch seg newOffset = do {
     _ \<leftarrow> io;
     _ \<leftarrow> exec (\<lambda>ok. db_SetSegmentProgress ok (sg_TransferID seg) (sg_ID seg) newOffset
            (if newOffset = sg_ExpectedLength seg then SegmentReceived else SegmentPending));
     if newOffset - sg_ReceivedLength seg > 0 then do {
       _ \<leftarrow> exec (\<lambda>ok. db_AddWireBytes ok (sg_TransferID seg) (newOffset - sg_ReceivedLength seg));
       return ()
     }
     else return ()
   }"

text \<open>
  \<^verbatim>\<open>UploadPatch\<close> returns an offset and an error that may be nil. Check 0 of the disk is the one
  before the first byte.
\<close>

definition UploadPatch ::
  "server \<Rightarrow> (nat \<Rightarrow> disk_usage option) \<Rightarrow> string \<Rightarrow> int \<Rightarrow> bytes list \<Rightarrow> bool \<Rightarrow> (int \<times> errcode option) svc" where
  "UploadPatch S disk uploadID offset chunks eof = do {
     rs \<leftarrow> query (\<lambda>ok. db_GetSegmentByUploadID ok uploadID);
     case rs of
       Inl e \<Rightarrow> return (0, Some (if e = NotFoundError then ErrTransferNotFound else ErrInternal))
     | Inr seg \<Rightarrow> do {
         rt \<leftarrow> query (\<lambda>ok. db_GetTransfer ok (sg_TransferID seg));
         case rt of
           Inl _ \<Rightarrow> return (0, Some ErrTransferNotFound)
         | Inr t \<Rightarrow>
             if t_State t \<noteq> StateCreated \<and> t_State t \<noteq> StateUploading then return (0, Some ErrStateConflict)
             else if offset \<noteq> sg_ReceivedLength seg then return (sg_ReceivedLength seg, Some ErrOffsetMismatch)
             else if offset > sg_ExpectedLength seg then return (sg_ReceivedLength seg, Some ErrInvalidRequest)
             else case CheckStreaming (adm S) (disk 0) of
               Some e \<Rightarrow> return (sg_ReceivedLength seg, Some e)
             | None \<Rightarrow> do {
                 opened \<leftarrow> on_segments (t_ID t) (open_segment (sg_ID seg));
                 if \<not> opened then return (sg_ReceivedLength seg, Some ErrInternal)
                 else do {
                   aligned \<leftarrow> on_segments (t_ID t) (truncate_segment (sg_ID seg) (nat offset));
                   if \<not> aligned then return (sg_ReceivedLength seg, Some ErrInternal)
                   else do {
                     _ \<leftarrow> (if t_State t = StateCreated
                           then exec (\<lambda>ok. db_SetState ok (t_ID t) StateUploading) else return (Inr ()));
                     (written, fin) \<leftarrow> patch_loop S disk (t_ID t) (sg_ID seg) (nat offset)
                       (nat (sg_ExpectedLength seg - offset)) chunks eof 0 0 1;
                     _ \<leftarrow> finishPatch seg (offset + int written);
                     return (offset + int written, case fin of PatchDone \<Rightarrow> None
                       | PatchReadError \<Rightarrow> Some ErrNetwork | PatchError e \<Rightarrow> Some e)
                   }
                 }
               }
       }
   }"

section \<open>Creating and uploading keep the invariant\<close>

text \<open>
  While a transfer accepts bytes nothing of it is live, so its staging directory may change
  freely. Every operation of an upload keeps that state.
\<close>

definition uploadable :: "server \<Rightarrow> string \<Rightarrow> world \<Rightarrow> bool" where
  "uploadable S i w \<longleftrightarrow> server_inv S w \<and> live w i = None
     \<and> (\<forall>r. trow (w_db w) i = Some r \<longrightarrow> tr_state r = StateCreated \<or> tr_state r = StateUploading)"

definition uploads :: "server \<Rightarrow> string \<Rightarrow> world \<Rightarrow> world \<Rightarrow> bool" where
  "uploads S i w w' \<longleftrightarrow> (uploadable S i w \<longrightarrow> uploadable S i w')"

interpretation uploads: effect "uploads S i" for S i
  by unfold_locales (auto simp: uploads_def)

lemma uploads_staging: "staging_only i w w' \<Longrightarrow> uploads S i w w'"
  using inv_staging_only [of S w i w'] by (auto simp: uploads_def uploadable_def staging_only_def)

lemma uploads_stage: "wp (stage i f) (\<lambda>_. uploads S i w) w"
  by (rule wp_stage_frame) (auto intro: uploads_staging)

lemma uploads_on_segments: "wp (on_segments i f) (\<lambda>_. uploads S i w) w"
  unfolding on_segments_def by (rule uploads_stage)

lemma uploads_io: "wp io (\<lambda>_. uploads S i w) w"
  by (rule wp_io) (simp add: uploads_staging)

lemma uploads_query: "wp (query f) (\<lambda>_. uploads S i w) w"
  by (rule wp_query) (simp add: uploads_staging)

text \<open>A transaction that keeps the invariant and changes no other state than to uploading.\<close>

lemma uploads_exec:
  assumes "\<And>w. uploadable S i w \<Longrightarrow> wp (exec f) (\<lambda>_. server_inv S) w"
    and "\<And>ok d r'. trow (snd (f ok d)) i = Some r' \<Longrightarrow>
      tr_state r' = StateCreated \<or> tr_state r' = StateUploading \<or> (\<exists>r. trow d i = Some r \<and> tr_state r' = tr_state r)"
  shows "wp (exec f) (\<lambda>_. uploads S i w) w"
proof (cases "uploadable S i w")
  case True
  have "wp (exec f) (\<lambda>_ w'. live w' = live w \<and> (\<forall>r'. trow (w_db w') i = Some r' \<longrightarrow>
      tr_state r' = StateCreated \<or> tr_state r' = StateUploading \<or> (\<exists>r. trow (w_db w) i = Some r \<and> tr_state r' = tr_state r))) w"
    by (rule wp_exec) (simp add: assms(2))
  from wp_conj [OF assms(1) [OF True] this] show ?thesis
    by (rule wp_mono) (use True in \<open>auto simp: uploads_def uploadable_def\<close>)
next
  case False
  then show ?thesis by (simp add: uploads_def wp_def split: prod.splits)
qed

lemma uploads_SetState: "wp (exec (\<lambda>ok. db_SetState ok i StateUploading)) (\<lambda>_. uploads S i w) w"
proof (rule uploads_exec, goal_cases)
  case (1 w)
  then have inv: "server_inv S w" by (simp add: uploadable_def)
  have "state_fits r StateUploading" if "trow (w_db w) i = Some r" for r
    using that 1 server_invD(2) [OF inv] row_ok_code_None [of r]
    by (auto simp: uploadable_def state_fits_def rows_ok_def is_precommit_def)
  then show ?case
    using server_invD [OF inv] by (intro inv_exec [OF inv] inv_intros rows_step_SetState) auto
next
  case (2 ok d r')
  then show ?case
    by (auto simp: db_SetState_def db_write_def tbl_find_modify split: if_splits option.splits)
qed

lemma uploads_progress:
  "wp (exec (\<lambda>ok. db_SetSegmentProgress ok a b n st)) (\<lambda>_. uploads S i w) w"
  "wp (exec (\<lambda>ok. db_AddWireBytes ok a n)) (\<lambda>_. uploads S i w) w"
  "wp (exec (\<lambda>ok. db_InsertSegment ok seg)) (\<lambda>_. uploads S i w) w"
proof -
  note inv = kept_claims [THEN wp_kept]
  show "wp (exec (\<lambda>ok. db_SetSegmentProgress ok a b n st)) (\<lambda>_. uploads S i w) w"
    by (rule uploads_exec, rule inv) (auto simp: uploadable_def db_SetSegmentProgress_def db_write_def split: if_splits)
  show "wp (exec (\<lambda>ok. db_AddWireBytes ok a n)) (\<lambda>_. uploads S i w) w"
    by (rule uploads_exec, rule inv)
      (auto simp: uploadable_def db_AddWireBytes_def db_write_def tbl_find_modify split: if_splits option.splits)
  show "wp (exec (\<lambda>ok. db_InsertSegment ok seg)) (\<lambda>_. uploads S i w) w"
    by (rule uploads_exec, rule inv)
      (auto simp: uploadable_def db_InsertSegment_def db_write_def Let_def split: if_splits option.splits)
qed

lemmas uploads_prims = uploads_io uploads_query uploads_on_segments uploads_SetState uploads_progress

lemma uploads_patch_loop: "wp (patch_loop S disk i sid offset remaining cs eof n s k) (\<lambda>_. uploads S i w) w"
proof (induction cs arbitrary: n s k w)
  case (Cons c cs)
  show ?case
    unfolding patch_loop.simps by (intro uploads.steps uploads_prims Cons.IH)
qed (simp add: uploads.refl)

lemma uploads_finishPatch: "wp (finishPatch seg n) (\<lambda>_. uploads S i w) w"
  unfolding finishPatch_def by (intro uploads.steps uploads_prims)

lemma wp_uploads: "wp m (\<lambda>_. uploads S i w) w \<Longrightarrow> uploadable S i w \<Longrightarrow> wp m (\<lambda>_. server_inv S) w"
  by (auto simp: uploads_def uploadable_def wp_def split: prod.splits)

lemma kept_UploadPatch: "wp (UploadPatch S disk uid offset chunks eof) (\<lambda>_. kept S w) w"
proof (rule kept_wp)
  fix w assume inv: "server_inv S w"
  show "wp (UploadPatch S disk uid offset chunks eof) (\<lambda>_. server_inv S) w"
    unfolding UploadPatch_def
  proof (rule wp_bindI [of _ "\<lambda>_. faults_only w"], goal_cases)
    case 1 show ?case by (rule wp_query) simp
  next
    case (2 rs w1)
    then have inv1: "server_inv S w1" using inv inv_faults_only by blast
    show ?case
    proof (cases rs)
      case (Inr seg)
      show ?thesis
        unfolding Inr sum.case
      proof (rule wp_bindI [of _ "\<lambda>r w2. faults_only w1 w2 \<and> (\<forall>t. r = Inr t \<longrightarrow>
          (\<exists>row. trow (w_db w1) (sg_TransferID seg) = Some row \<and> t = scanTransfer row))"], goal_cases)
        case 1 show ?case by (rule wp_query) (auto simp: db_GetTransfer_def db_read_def split: option.splits if_splits)
      next
        case (2 rt w2)
        then have inv2: "server_inv S w2" using inv1 inv_faults_only by blast
        show ?case
        proof (cases rt)
          case (Inr t)
          then obtain row where row: "trow (w_db w2) (sg_TransferID seg) = Some row" "t = scanTransfer row"
            using 2 by (auto simp: faults_only_def)
          then have id: "t_ID t = sg_TransferID seg" using tbl_find_key [OF row(1)] by simp
          show ?thesis
          proof (cases "t_State t = StateCreated \<or> t_State t = StateUploading")
            case True
            then have "uploadable S (t_ID t) w2"
              using server_invD(3) [OF inv2] inv2 row id
              by (cases "live w2 (t_ID t)") (auto simp: uploadable_def areas_ok_def)
            then show ?thesis
              unfolding Inr sum.case
              by (rule wp_uploads [rotated])
                (intro uploads.steps uploads_prims uploads_patch_loop uploads_finishPatch)
          qed (use inv2 Inr in simp)
        qed (use inv2 in simp)
      qed
    qed (use inv1 in simp)
  qed
qed


text \<open>Creation, for an identifier that is in use nowhere.\<close>

lemma uploads_RemoveStaging: "wp (RemoveStaging i) (\<lambda>_. uploads S i w) w"
  by (rule wp_RemoveStaging) (rule uploads_staging)

lemma uploads_PrepareStaging: "wp (PrepareStaging i) (\<lambda>_. uploads S i w) w"
  by (rule wp_frame [OF PrepareStaging_frame]) (rule uploads_staging)

lemma uploads_Purge: "wp (exec (\<lambda>ok. db_Purge ok j)) (\<lambda>_. uploads S i w) w"
  by (rule uploads_exec, rule kept_claims [THEN wp_kept])
    (auto simp: uploadable_def db_Purge_def db_write_def purge_rows_def tbl_find_delete split: if_splits)

lemma uploads_create:
  assumes "t_ID t = i" and "t_State t = StateCreated" and "1 \<le> t_RequestedTTLMinutes t" and "t_RequestedTTLMinutes t \<le> 3000"
  shows "wp (exec (\<lambda>ok. db_CreateTransfer ok t)) (\<lambda>_. uploads S i w) w"
proof (rule uploads_exec, goal_cases)
  case (1 w)
  show ?case
  proof (rule wp_exec, goal_cases)
    case (1 ok fs)
    have "server_inv S (w\<lparr>w_faults := fs\<rparr>)" and "live (w\<lparr>w_faults := fs\<rparr>) (t_ID t) = None"
      using \<open>uploadable S i w\<close> assms(1) by (simp_all add: uploadable_def)
    from inv_CreateTransfer [OF this assms(2-4), of ok] show ?case by simp
  qed
next
  case (2 ok d r')
  show ?case
  proof (cases "db_CreateTransfer ok t d")
    case (Pair res d')
    show ?thesis
    proof (cases res)
      case (Inl e)
      then have "d' = d" using Pair by (auto simp: db_CreateTransfer_def db_write_def split: if_splits option.splits)
      then show ?thesis using 2 Pair by auto
    next
      case (Inr u)
      note c = db_CreateTransfer_Inr [OF Pair [unfolded Inr]]
      show ?thesis
        using 2 Pair c(3) assms(2) by (auto simp: tbl_find_append new_row_def split: option.splits if_splits)
    qed
  qed
qed

lemma uploads_insert_segments: "wp (insert_segments i us n segs) (\<lambda>_. uploads S i w) w"
proof (induction segs arbitrary: n w)
  case (Cons seg segs)
  show ?case
    unfolding insert_segments.simps
    by (intro uploads.steps uploads_prims uploads_RemoveStaging uploads_Purge Cons.IH)
qed (simp add: uploads.refl)

lemma uploads_Admit: "wp (svc_Admit S usage n) (\<lambda>_. uploads S i w) w"
  unfolding svc_Admit_def by (intro uploads.steps uploads_prims)

lemma ResolveTTL_bounds: "config_ok S \<Longrightarrow> ResolveTTL S n = Inr ttl \<Longrightarrow> 1 \<le> ttl \<and> ttl \<le> 3000"
  by (auto simp: ResolveTTL_def config_ok_def ValidateTTL_def MinTTLMinutes_def MaxTTLMinutes_def split: if_splits option.splits)

definition unused :: "string \<Rightarrow> world \<Rightarrow> bool" where
  "unused i w \<longleftrightarrow> trow (w_db w) i = None \<and> live w i = None \<and> staging w i = None"

lemma unused_uploadable: "server_inv S w \<Longrightarrow> unused i w \<Longrightarrow> uploadable S i w"
  by (simp add: unused_def uploadable_def)

lemma inv_svc_CreateTransfer:
  assumes "server_inv S w" and "config_ok S" and "unused i w"
  shows "wp (svc_CreateTransfer S usage now i us req) (\<lambda>_. server_inv S) w"
proof (rule wp_uploads [OF _ unused_uploadable [OF assms(1,3)]])
  show "wp (svc_CreateTransfer S usage now i us req) (\<lambda>_. uploads S i w) w"
  proof (cases "ResolveTTL S (rq_TTLMinutes req)")
    case (Inr ttl)
    have created: "wp (exec (\<lambda>ok. db_CreateTransfer ok (new_transfer S i now ttl nt n))) (\<lambda>_. uploads S i w) w"
      for nt n w
      using ResolveTTL_bounds [OF assms(2) Inr] by (intro uploads_create) (simp_all add: new_transfer_def)
    show ?thesis
      unfolding svc_CreateTransfer_def Inr sum.case
      by (intro uploads.steps uploads_prims uploads_Admit uploads_PrepareStaging uploads_RemoveStaging
          uploads_insert_segments created)
  qed (simp add: svc_CreateTransfer_def uploads.refl)
qed

section \<open>What an upload does\<close>

text \<open>One staged segment has new contents, nothing else changed.\<close>

definition wrote :: "string \<Rightarrow> string \<Rightarrow> bytes \<Rightarrow> world \<Rightarrow> world \<Rightarrow> bool" where
  "wrote i sid c w w' \<longleftrightarrow> staging_only i w w' \<and> w_faults w' = w_faults w \<and> staged_segment w' i sid = Some c
     \<and> (\<forall>s. s \<noteq> sid \<longrightarrow> staged_segment w' i s = staged_segment w i s)"

lemma wrote_trans: "wrote i sid c w w1 \<Longrightarrow> wrote i sid c' w1 w2 \<Longrightarrow> wrote i sid c' w w2"
  by (auto simp: wrote_def intro: staging_only_trans)

lemma run_on_segments:
  assumes "w_faults w = []" and "staging w i = Some t" and "d_segments t = Some ss"
    and "f ss = Some ss'" and "map_of ss' sid = Some c" and "\<And>s. s \<noteq> sid \<Longrightarrow> map_of ss' s = map_of ss s"
  shows "\<exists>w'. run_state (on_segments i f) w = (True, w') \<and> wrote i sid c w w'"
  using assms
  by (auto simp: on_segments_def wrote_def staging_only_def staged_segment_def update_conv')

lemma staged_segmentE:
  assumes "staged_segment w i sid = Some c"
  obtains t ss where "staging w i = Some t" "d_segments t = Some ss" "map_of ss sid = Some c"
  using assms by (auto simp: staged_segment_def split: option.splits)

lemma run_write:
  assumes "w_faults w = []" and "staged_segment w i sid = Some c" and "pos = length c"
  shows "\<exists>w'. run_state (on_segments i (write_segment sid pos data)) w = (True, w') \<and> wrote i sid (c @ data) w w'"
proof -
  from assms(2) obtain t ss where t: "staging w i = Some t" "d_segments t = Some ss" "map_of ss sid = Some c"
    by (rule staged_segmentE)
  show ?thesis
    by (rule run_on_segments [OF assms(1) t(1,2), where ss' = "AList.update sid (c @ data) ss"])
      (simp_all add: write_segment_def t(3) resize_def assms(3) update_conv')
qed

lemma run_open:
  assumes "w_faults w = []" and "staging w i = Some t" and "d_segments t = Some ss"
    and "c = (case staged_segment w i sid of None \<Rightarrow> [] | Some c \<Rightarrow> c)"
  shows "\<exists>w'. run_state (on_segments i (open_segment sid)) w = (True, w') \<and> wrote i sid c w w'"
  by (rule run_on_segments [OF assms(1-3), where ss' = "if map_of ss sid = None then AList.update sid [] ss else ss"])
    (use assms in \<open>auto simp: open_segment_def staged_segment_def update_conv' split: option.splits\<close>)

lemma run_truncate:
  assumes "w_faults w = []" and "staged_segment w i sid = Some c" and "n \<le> length c"
  shows "\<exists>w'. run_state (on_segments i (truncate_segment sid n)) w = (True, w') \<and> wrote i sid (take n c) w w'"
proof -
  from assms(2) obtain t ss where t: "staging w i = Some t" "d_segments t = Some ss" "map_of ss sid = Some c"
    by (rule staged_segmentE)
  show ?thesis
    by (rule run_on_segments [OF assms(1) t(1,2), where ss' = "AList.update sid (take n c) ss"])
      (use assms(3) in \<open>auto simp: truncate_segment_def t(3) resize_def update_conv'\<close>)
qed

text \<open>The loop appends the body.\<close>

lemma run_patch_loop:
  assumes "w_faults w = []" and "staged_segment w i sid = Some c" and "offset + n = length c"
    and "n + length (concat cs) \<le> remaining" and "\<And>k. CheckStreaming (adm S) (disk k) = None"
  shows "\<exists>w'. run_state (patch_loop S disk i sid offset remaining cs eof n s k) w
      = ((n + length (concat cs), if eof then PatchDone else PatchReadError), w')
    \<and> wrote i sid (c @ concat cs) w w'"
  using assms(1-4)
proof (induction cs arbitrary: w c n s k)
  case Nil
  then show ?case by (simp add: wrote_def)
next
  case (Cons b cs)
  show ?case
  proof (cases "b = []")
    case True
    then show ?thesis using Cons.IH [OF Cons.prems(1-3)] Cons.prems(4) by simp
  next
    case False
    from run_write [OF Cons.prems(1,2,3), of b] obtain w1 where
      w1: "run_state (on_segments i (write_segment sid (offset + n) b)) w = (True, w1)"
        "wrote i sid (c @ b) w w1" by blast
    have fits: "\<not> n + length b > remaining" using Cons.prems(4) by simp
    have next_: "\<exists>w'. run_state (patch_loop S disk i sid offset remaining cs eof (n + length b) s' k') w1
        = ((n + length b + length (concat cs), if eof then PatchDone else PatchReadError), w')
        \<and> wrote i sid ((c @ b) @ concat cs) w1 w'" for s' k'
      using w1(2) Cons.prems by (intro Cons.IH) (simp_all add: wrote_def)
    have "\<exists>w'. run_state (patch_loop S disk i sid offset remaining (b # cs) eof n s k) w
        = ((n + length b + length (concat cs), if eof then PatchDone else PatchReadError), w')
        \<and> wrote i sid ((c @ b) @ concat cs) w1 w'"
      using False fits w1(1) assms(5) next_ [of 0 "Suc k"] next_ [of "s + length b" k]
      by (simp del: append_assoc)
    then obtain w' where w': "run_state (patch_loop S disk i sid offset remaining (b # cs) eof n s k) w
        = ((n + length b + length (concat cs), if eof then PatchDone else PatchReadError), w')"
      "wrote i sid ((c @ b) @ concat cs) w1 w'" by blast
    have len: "n + length (concat (b # cs)) = n + length b + length (concat cs)" "c @ concat (b # cs) = (c @ b) @ concat cs"
      by simp_all
    show ?thesis unfolding len using w'(1) wrote_trans [OF w1(2) w'(2)] by blast
  qed
qed

text \<open>The database after the progress was recorded.\<close>

lemma find_map: "(\<And>r. P (f r) = P r) \<Longrightarrow> find P (map f rs) = map_option f (find P rs)"
  by (induction rs) auto

lemma progress_find:
  assumes "find (\<lambda>r. sr_upload_id r = Some uid) (segments d) = Some r"
  shows "find (\<lambda>r. sr_upload_id r = Some uid)
      (segments (snd (db_SetSegmentProgress True (sr_transfer_id r) (sr_id r) n st d)))
    = Some (r\<lparr>sr_received_length := n, sr_state := st\<rparr>)"
proof -
  have "find (\<lambda>r. sr_upload_id r = Some uid)
      (map (\<lambda>r'. if segment_key r' = (sr_transfer_id r, sr_id r)
          then r'\<lparr>sr_received_length := n, sr_state := st\<rparr> else r') (segments d))
    = Some (r\<lparr>sr_received_length := n, sr_state := st\<rparr>)"
    by (subst find_map) (simp_all add: assms segment_key_def)
  then show ?thesis by (simp add: db_SetSegmentProgress_def db_write_def tbl_modify_def)
qed

text \<open>A transfer ready for a patch: faults aside, everything the handler checks.\<close>

definition patchable :: "string \<Rightarrow> Segment \<Rightarrow> bytes \<Rightarrow> world \<Rightarrow> bool" where
  "patchable uid seg c w \<longleftrightarrow> w_faults w = []
     \<and> db_GetSegmentByUploadID True uid (w_db w) = Inr seg
     \<and> (\<exists>r. trow (w_db w) (sg_TransferID seg) = Some r \<and> tr_state r \<in> {StateCreated, StateUploading})
     \<and> (\<exists>t ss. staging w (sg_TransferID seg) = Some t \<and> d_segments t = Some ss)
     \<and> c = (case staged_segment w (sg_TransferID seg) (sg_ID seg) of None \<Rightarrow> [] | Some c \<Rightarrow> c)
     \<and> 0 \<le> sg_ReceivedLength seg \<and> sg_ReceivedLength seg \<le> int (length c)"

lemma wrote_db: "wrote i sid c w w' \<Longrightarrow> w_db w' = w_db w"
  by (simp add: wrote_def staging_only_def)

lemma wrote_faults: "wrote i sid c w w' \<Longrightarrow> w_faults w = [] \<Longrightarrow> w_faults w' = []"
  by (simp add: wrote_def)

lemma run_finishPatch:
  assumes "w_faults w = []" and "find (\<lambda>r. sr_upload_id r = Some uid) (segments (w_db w)) = Some r"
    and "seg = scanSegment r"
  shows "\<exists>d. run_state (finishPatch seg n) w = ((), w\<lparr>w_db := d\<rparr>)
    \<and> find (\<lambda>r. sr_upload_id r = Some uid) (segments d) = Some (r\<lparr>sr_received_length := n,
        sr_state := (if n = sg_ExpectedLength seg then SegmentReceived else SegmentPending)\<rparr>)
    \<and> (\<forall>i row. trow (w_db w) i = Some row \<longrightarrow> (\<exists>row'. trow d i = Some row' \<and> tr_state row' = tr_state row))"
proof -
  let ?st = "if n = sg_ExpectedLength seg then SegmentReceived else SegmentPending"
  let ?d = "snd (db_SetSegmentProgress True (sg_TransferID seg) (sg_ID seg) n ?st (w_db w))"
  have f: "find (\<lambda>r. sr_upload_id r = Some uid) (segments ?d) = Some (r\<lparr>sr_received_length := n, sr_state := ?st\<rparr>)"
    using progress_find [OF assms(2), of n ?st] by (simp add: assms(3) scanSegment_def)
  have tr: "transfers ?d = transfers (w_db w)" by (simp add: db_SetSegmentProgress_def db_write_def)
  let ?e = "snd (db_AddWireBytes True (sg_TransferID seg) (n - sg_ReceivedLength seg) ?d)"
  have e: "segments ?e = segments ?d" "\<And>i row. trow ?d i = Some row \<Longrightarrow> \<exists>row'. trow ?e i = Some row' \<and> tr_state row' = tr_state row"
    by (auto simp: db_AddWireBytes_def db_write_def tbl_find_modify)
  have p: "fst (db_SetSegmentProgress True (sg_TransferID seg) (sg_ID seg) n ?st (w_db w)) = Inr ()"
    by (simp add: db_SetSegmentProgress_def db_write_def)
  show ?thesis
  proof (cases "n - sg_ReceivedLength seg > 0")
    case True
    have "run_state (finishPatch seg n) w = ((), w\<lparr>w_db := ?e\<rparr>)"
      using True assms(1) by (simp add: finishPatch_def case_prod_beta)
    then show ?thesis using f tr e by (intro exI [of _ ?e]) simp
  next
    case False
    have "run_state (finishPatch seg n) w = ((), w\<lparr>w_db := ?d\<rparr>)"
      using False assms(1) by (simp add: finishPatch_def case_prod_beta)
    then show ?thesis using f tr by (intro exI [of _ ?d]) simp
  qed
qed

lemma UploadPatch_run:
  assumes "patchable uid seg c w" and "\<And>k. CheckStreaming (adm S) (disk k) = None"
    and "sg_ReceivedLength seg + int (length (concat chunks)) \<le> sg_ExpectedLength seg"
  shows "\<exists>w'. run_state (UploadPatch S disk uid (sg_ReceivedLength seg) chunks eof) w
      = ((sg_ReceivedLength seg + int (length (concat chunks)), if eof then None else Some ErrNetwork), w')
    \<and> patchable uid (seg\<lparr>sg_ReceivedLength := sg_ReceivedLength seg + int (length (concat chunks)),
        sg_State := (if sg_ReceivedLength seg + int (length (concat chunks)) = sg_ExpectedLength seg
          then SegmentReceived else SegmentPending)\<rparr>)
      (take (nat (sg_ReceivedLength seg)) c @ concat chunks) w'"
proof -
  let ?i = "sg_TransferID seg" and ?s = "sg_ID seg" and ?o = "nat (sg_ReceivedLength seg)"
  let ?n = "sg_ReceivedLength seg + int (length (concat chunks))"
  from assms(1) obtain r row t ss where r: "find (\<lambda>r. sr_upload_id r = Some uid) (segments (w_db w)) = Some r"
      "seg = scanSegment r"
    and row: "trow (w_db w) ?i = Some row" "tr_state row \<in> {StateCreated, StateUploading}"
    and t: "staging w ?i = Some t" "d_segments t = Some ss"
    and c: "c = (case staged_segment w ?i ?s of None \<Rightarrow> [] | Some c \<Rightarrow> c)"
    and nn: "0 \<le> sg_ReceivedLength seg" "sg_ReceivedLength seg \<le> int (length c)" and nf: "w_faults w = []"
    by (auto simp: patchable_def db_GetSegmentByUploadID_def db_read_def split: option.splits)
  have id: "tr_id row = ?i" using tbl_find_key [OF row(1)] .
  from run_open [OF nf t c] obtain w1 where w1: "run_state (on_segments ?i (open_segment ?s)) w = (True, w1)"
    "wrote ?i ?s c w w1" by blast
  have nf1: "w_faults w1 = []" using wrote_faults [OF w1(2) nf] .
  have c1: "staged_segment w1 ?i ?s = Some c" using w1(2) by (simp add: wrote_def)
  have oc: "?o \<le> length c" using nn(2) by linarith
  from run_truncate [OF nf1 c1 oc] obtain w2 where
    w2: "run_state (on_segments ?i (truncate_segment ?s ?o)) w1 = (True, w2)" "wrote ?i ?s (take ?o c) w1 w2" by blast
  define w3 where "w3 = (if tr_state row = StateCreated
    then w2\<lparr>w_db := snd (db_SetState True ?i StateUploading (w_db w2))\<rparr> else w2)"
  have nf2: "w_faults w2 = []" using wrote_faults [OF w2(2) nf1] .
  have db2: "w_db w2 = w_db w" using wrote_db [OF w1(2)] wrote_db [OF w2(2)] by simp
  have c3: "staged_segment w3 ?i ?s = Some (take ?o c)" "w_faults w3 = []"
    using w2(2) nf2 by (simp_all add: w3_def wrote_def staged_segment_def)
  have seg3: "segments (w_db w3) = segments (w_db w)"
    by (simp add: w3_def db2 db_SetState_def db_write_def)
  have row3: "\<exists>row'. trow (w_db w3) ?i = Some row' \<and> tr_state row' \<in> {StateCreated, StateUploading}"
    using row by (auto simp: w3_def db2 db_SetState_def db_write_def tbl_find_modify)
  have o: "?o + 0 = length (take ?o c)" using nn by simp
  have rem: "0 + length (concat chunks) \<le> nat (sg_ExpectedLength seg - sg_ReceivedLength seg)"
    using assms(3) by linarith
  from run_patch_loop [OF c3(2,1) o rem, of S disk eof 0 1] assms(2) obtain w4 where
    w4: "run_state (patch_loop S disk ?i ?s ?o (nat (sg_ExpectedLength seg - sg_ReceivedLength seg)) chunks eof 0 0 1) w3
      = ((length (concat chunks), if eof then PatchDone else PatchReadError), w4)"
      "wrote ?i ?s (take ?o c @ concat chunks) w3 w4" by auto
  have nf4: "w_faults w4 = []" using wrote_faults [OF w4(2) c3(2)] .
  have find4: "find (\<lambda>r. sr_upload_id r = Some uid) (segments (w_db w4)) = Some r"
    using r(1) seg3 wrote_db [OF w4(2)] by simp
  from run_finishPatch [OF nf4 find4 r(2), of ?n] obtain d where
    d: "run_state (finishPatch seg ?n) w4 = ((), w4\<lparr>w_db := d\<rparr>)"
      "find (\<lambda>r. sr_upload_id r = Some uid) (segments d) = Some (r\<lparr>sr_received_length := ?n,
        sr_state := (if ?n = sg_ExpectedLength seg then SegmentReceived else SegmentPending)\<rparr>)"
      "\<And>i row. trow (w_db w4) i = Some row \<Longrightarrow> \<exists>row'. trow d i = Some row' \<and> tr_state row' = tr_state row" by blast
  have "\<not> sg_ReceivedLength seg > sg_ExpectedLength seg" using assms(3) by simp
  then have run: "run_state (UploadPatch S disk uid (sg_ReceivedLength seg) chunks eof) w
      = ((?n, if eof then None else Some ErrNetwork), w4\<lparr>w_db := d\<rparr>)"
    using r row id nf nf2 w1(1) w2(1) w4(1) d(1) assms(2) row(2)
    by (auto simp: UploadPatch_def db_GetSegmentByUploadID_def db_GetTransfer_def db_read_def w3_def
        db_SetState_def db_write_def)
  have "\<exists>t ss. staging w4 ?i = Some t \<and> d_segments t = Some ss"
    using w4(2) by (auto simp: wrote_def elim: staged_segmentE)
  moreover have "staged_segment w4 ?i ?s = Some (take ?o c @ concat chunks)" using w4(2) by (simp add: wrote_def)
  moreover have "\<exists>row'. trow d ?i = Some row' \<and> tr_state row' \<in> {StateCreated, StateUploading}"
    using row3 d(3) wrote_db [OF w4(2)] by fastforce
  moreover have "?n \<le> int (length (take ?o c @ concat chunks))" using nn oc by simp
  ultimately have "patchable uid (seg\<lparr>sg_ReceivedLength := ?n, sg_State := (if ?n = sg_ExpectedLength seg
      then SegmentReceived else SegmentPending)\<rparr>) (take ?o c @ concat chunks) (w4\<lparr>w_db := d\<rparr>)"
    using nf4 d(2) nn r(2)
    by (simp add: patchable_def db_GetSegmentByUploadID_def db_read_def scanSegment_def staged_segment_def)
  with run show ?thesis by blast
qed

lemma run_UploadState:
  assumes "patchable uid seg c w"
  shows "run_state (UploadState uid) w = (Inr (sg_ReceivedLength seg, sg_ExpectedLength seg), w)"
  using assms by (simp add: patchable_def UploadState_def)

lemma patchable_staged:
  "patchable uid seg (b # c) w \<Longrightarrow> staged_segment w (sg_TransferID seg) (sg_ID seg) = Some (b # c)"
  by (auto simp: patchable_def split: option.splits)

text \<open>
  A patch appends. Without faults, and while the disk check passes, a body that fits the
  declared length and is sent at the current offset lands exactly behind the acknowledged
  prefix of the staged segment, whatever a crash may have left behind that prefix; the answer,
  the stored offset and what \<^verbatim>\<open>HEAD\<close> reports afterwards are all the old offset plus the bytes
  received, also when the connection breaks.
\<close>

theorem UploadPatch_appends:
  assumes "patchable uid seg c w" and "\<And>k. CheckStreaming (adm S) (disk k) = None"
    and "sg_ReceivedLength seg + int (length (concat chunks)) \<le> sg_ExpectedLength seg"
  shows "\<exists>w'. run_state (UploadPatch S disk uid (sg_ReceivedLength seg) chunks eof) w
      = ((sg_ReceivedLength seg + int (length (concat chunks)), if eof then None else Some ErrNetwork), w')
    \<and> (case staged_segment w' (sg_TransferID seg) (sg_ID seg) of None \<Rightarrow> [] | Some b \<Rightarrow> b)
      = take (nat (sg_ReceivedLength seg)) c @ concat chunks
    \<and> run_state (UploadState uid) w'
      = (Inr (sg_ReceivedLength seg + int (length (concat chunks)), sg_ExpectedLength seg), w')"
proof -
  from UploadPatch_run [OF assms(1) _ assms(3), where eof = eof and S = S and disk = disk] assms(2) obtain w' where
    run: "run_state (UploadPatch S disk uid (sg_ReceivedLength seg) chunks eof) w
      = ((sg_ReceivedLength seg + int (length (concat chunks)), if eof then None else Some ErrNetwork), w')"
    and p: "patchable uid (seg\<lparr>sg_ReceivedLength := sg_ReceivedLength seg + int (length (concat chunks)),
        sg_State := (if sg_ReceivedLength seg + int (length (concat chunks)) = sg_ExpectedLength seg
          then SegmentReceived else SegmentPending)\<rparr>) (take (nat (sg_ReceivedLength seg)) c @ concat chunks) w'"
    by blast
  then show ?thesis using run_UploadState [OF p] by (auto simp: patchable_def)
qed

text \<open>
  C10: resuming is invisible. An upload that breaks after some chunks, asks for the offset and
  sends the rest leaves the same segment, byte for byte, and the same progress as one patch
  that was never interrupted.
\<close>

theorem upload_resume:
  assumes "patchable uid seg c w" and "\<And>k. CheckStreaming (adm S) (disk k) = None"
    and "sg_ReceivedLength seg + int (length (concat (chunks1 @ chunks2))) \<le> sg_ExpectedLength seg"
  shows "\<exists>got n w1 w2 w3.
      run_state (UploadPatch S disk uid (sg_ReceivedLength seg) chunks1 False) w = ((n, Some ErrNetwork), w1)
    \<and> run_state (UploadState uid) w1 = (Inr (n, sg_ExpectedLength seg), w1)
    \<and> run_state (UploadPatch S disk uid n chunks2 True) w1 = ((got, None), w2)
    \<and> run_state (UploadPatch S disk uid (sg_ReceivedLength seg) (chunks1 @ chunks2) True) w = ((got, None), w3)
    \<and> (case staged_segment w2 (sg_TransferID seg) (sg_ID seg) of None \<Rightarrow> [] | Some b \<Rightarrow> b)
      = (case staged_segment w3 (sg_TransferID seg) (sg_ID seg) of None \<Rightarrow> [] | Some b \<Rightarrow> b)
    \<and> fst (run_state (UploadState uid) w2) = fst (run_state (UploadState uid) w3)"
proof -
  let ?o = "sg_ReceivedLength seg"
  let ?n = "?o + int (length (concat chunks1))"
  let ?seg1 = "seg\<lparr>sg_ReceivedLength := ?n,
      sg_State := (if ?n = sg_ExpectedLength seg then SegmentReceived else SegmentPending)\<rparr>"
  let ?c1 = "take (nat ?o) c @ concat chunks1"
  have fit1: "?n \<le> sg_ExpectedLength seg" using assms(3) by simp
  from UploadPatch_run [OF assms(1) _ fit1, where eof = False and S = S and disk = disk] assms(2) obtain w1 where
    w1: "run_state (UploadPatch S disk uid ?o chunks1 False) w = ((?n, Some ErrNetwork), w1)"
      "patchable uid ?seg1 ?c1 w1" by auto
  have "sg_ReceivedLength ?seg1 + int (length (concat chunks2)) \<le> sg_ExpectedLength ?seg1" using assms(3) by simp
  from UploadPatch_run [OF w1(2) _ this, where eof = True and S = S and disk = disk] assms(2) obtain w2 where
    w2: "run_state (UploadPatch S disk uid ?n chunks2 True) w1 = ((?n + int (length (concat chunks2)), None), w2)"
      "patchable uid (?seg1\<lparr>sg_ReceivedLength := ?n + int (length (concat chunks2)),
        sg_State := (if ?n + int (length (concat chunks2)) = sg_ExpectedLength seg then SegmentReceived else SegmentPending)\<rparr>)
        (take (nat ?n) ?c1 @ concat chunks2) w2" by auto
  from UploadPatch_run [OF assms(1) _ assms(3), where eof = True and S = S and disk = disk] assms(2) obtain w3 where
    w3: "run_state (UploadPatch S disk uid ?o (chunks1 @ chunks2) True) w = ((?n + int (length (concat chunks2)), None), w3)"
      "patchable uid (seg\<lparr>sg_ReceivedLength := ?n + int (length (concat chunks2)),
        sg_State := (if ?n + int (length (concat chunks2)) = sg_ExpectedLength seg then SegmentReceived else SegmentPending)\<rparr>)
        (take (nat ?o) c @ concat (chunks1 @ chunks2)) w3" by (auto simp: add.assoc)
  have "0 \<le> ?o" "?o \<le> int (length c)" using assms(1) unfolding patchable_def by blast+
  then have "nat ?n = length ?c1" by simp
  then have content: "take (nat ?n) ?c1 @ concat chunks2 = take (nat ?o) c @ concat (chunks1 @ chunks2)" by simp
  have "(case staged_segment w2 (sg_TransferID seg) (sg_ID seg) of None \<Rightarrow> [] | Some b \<Rightarrow> b)
      = (case staged_segment w3 (sg_TransferID seg) (sg_ID seg) of None \<Rightarrow> [] | Some b \<Rightarrow> b)"
    using w2(2) w3(2) unfolding content by (simp add: patchable_def)
  then show ?thesis
    using w1(1) w2(1) w3(1) run_UploadState [OF w1(2)] run_UploadState [OF w2(2)] run_UploadState [OF w3(2)]
    by (intro exI [of _ "?n + int (length (concat chunks2))"] exI [of _ ?n] exI [of _ w1] exI [of _ w2] exI [of _ w3]) simp
qed

text \<open>The loop never writes past the declared length, whatever the body and the faults.\<close>

lemma patch_loop_bound:
  "n \<le> remaining \<Longrightarrow>
   wp (patch_loop S disk i sid offset remaining cs eof n s k) (\<lambda>r w'. n \<le> fst r \<and> fst r \<le> remaining) w"
proof (induction cs arbitrary: n s k w)
  case (Cons c cs)
  show ?case
  proof (cases "c = [] \<or> n + length c > remaining")
    case True
    then show ?thesis
      using Cons by (auto simp: wp_def on_segments_def split: prod.splits)
  next
    case False
    have "wp (patch_loop S disk i sid offset remaining cs eof (n + length c) s' k') (\<lambda>r w'. n \<le> fst r \<and> fst r \<le> remaining) w'"
      for s' k' w'
      using Cons.IH [of "n + length c" s' k' w'] False by (auto elim: wp_mono)
    then show ?thesis
      using False Cons.prems
      by (auto intro!: wp_bindI [of _ "\<lambda>_ _. True"] simp: wp_def [of "on_segments _ _"] split: option.splits simp del: wp_bind)
  qed
qed simp

text \<open>
  A segment never grows past its declared length. Whatever the body, the offset sent, the
  disk checks and the faults, the offset a patch answers with lies between zero and the declared
  length of the segment; a patch at any other offset than the stored one is refused with the
  stored offset, and changes nothing.
\<close>

theorem UploadPatch_bounded:
  assumes "db_GetSegmentByUploadID True uid (w_db w) = Inr seg"
    and "0 \<le> sg_ReceivedLength seg" and "sg_ReceivedLength seg \<le> sg_ExpectedLength seg"
  shows "(case run_state (UploadPatch S disk uid offset chunks eof) w of ((n, e), w') \<Rightarrow>
       0 \<le> n \<and> n \<le> sg_ExpectedLength seg \<and> (offset \<noteq> sg_ReceivedLength seg \<longrightarrow> e \<noteq> None \<and> faults_only w w'))"
proof -
  have "wp (UploadPatch S disk uid offset chunks eof) (\<lambda>r w'. 0 \<le> fst r \<and> fst r \<le> sg_ExpectedLength seg
      \<and> (offset \<noteq> sg_ReceivedLength seg \<longrightarrow> snd r \<noteq> None \<and> faults_only w w')) w"
    unfolding UploadPatch_def
  proof (rule wp_bindI [of _ "\<lambda>r w1. faults_only w w1 \<and> (\<forall>s. r = Inr s \<longrightarrow> s = seg)"], goal_cases)
    case 1 show ?case
      by (rule wp_query) (use assms(1) in \<open>auto simp: db_GetSegmentByUploadID_def db_read_def split: if_splits\<close>)
  next
    case (2 rs w1)
    show ?case
    proof (cases rs)
      case (Inr s)
      then have s: "s = seg" using 2 by blast
      show ?thesis
        unfolding Inr sum.case s
      proof (rule wp_bindI [of _ "\<lambda>_. faults_only w"], goal_cases)
        case 1 show ?case by (rule wp_query) (use 2 in \<open>auto intro: faults_only_trans\<close>)
      next
        case (2 rt w2)
        show ?case
        proof (cases "\<exists>t. rt = Inr t \<and> (t_State t = StateCreated \<or> t_State t = StateUploading) \<and> offset = sg_ReceivedLength seg
            \<and> CheckStreaming (adm S) (disk 0) = None")
          case True
          then obtain t where t: "rt = Inr t" "t_State t = StateCreated \<or> t_State t = StateUploading"
            "offset = sg_ReceivedLength seg" "CheckStreaming (adm S) (disk 0) = None" by blast
          let ?Q = "\<lambda>(r :: int \<times> errcode option) (w' :: world). 0 \<le> fst r \<and> fst r \<le> sg_ExpectedLength seg"
          have "wp (State_Monad.bind (patch_loop S disk (t_ID t) (sg_ID seg) (nat offset)
              (nat (sg_ExpectedLength seg - offset)) chunks eof 0 0 1)
            (\<lambda>(written, fin). State_Monad.bind (finishPatch seg (offset + int written))
               (\<lambda>_. return (offset + int written, case fin of PatchDone \<Rightarrow> None
                       | PatchReadError \<Rightarrow> Some ErrNetwork | PatchError e \<Rightarrow> Some e)))) ?Q w'" for w'
            by (rule wp_bindI [OF patch_loop_bound])
              (use assms(2,3) t(3) in \<open>auto simp: wp_def split: prod.splits\<close>)
          then have tail: "wp (State_Monad.bind (patch_loop S disk (t_ID t) (sg_ID seg) (nat offset)
              (nat (sg_ExpectedLength seg - offset)) chunks eof 0 0 1)
            (\<lambda>(written, fin). State_Monad.bind (finishPatch seg (offset + int written))
               (\<lambda>_. return (offset + int written, case fin of PatchDone \<Rightarrow> None
                       | PatchReadError \<Rightarrow> Some ErrNetwork | PatchError e \<Rightarrow> Some e))))
            (\<lambda>r w'. 0 \<le> fst r \<and> fst r \<le> sg_ExpectedLength seg
              \<and> (offset \<noteq> sg_ReceivedLength seg \<longrightarrow> snd r \<noteq> None \<and> faults_only w w')) w'" for w'
            by (rule wp_mono) (simp add: t(3))
          have st: "\<not> (t_State t \<noteq> StateCreated \<and> t_State t \<noteq> StateUploading)"
            "\<not> offset \<noteq> sg_ReceivedLength seg" "\<not> offset > sg_ExpectedLength seg"
            using t(2,3) assms(3) by auto
          show ?thesis
            unfolding t(1) sum.case
          proof (simp only: st if_False t(4) option.case, intro wp_skip, goal_cases)
            case (1 opened w3)
            show ?case
            proof (cases opened)
              case True
              show ?thesis
              proof (simp only: True not_True_eq_False if_False, intro wp_skip, goal_cases)
                case (1 aligned w4)
                show ?case
                proof (cases aligned)
                  case True
                  show ?thesis
                    by (simp only: True not_True_eq_False if_False, rule wp_skip, rule wp_mono [OF tail]) simp
                qed (use assms(2,3) t(3) in simp)
              qed
            qed (use assms(2,3) t(3) in simp)
          qed
        next
          case False
          then show ?thesis
            using 2 assms(2,3) by (auto split: sum.splits option.splits)
        qed
      qed
    qed (use 2 assms in simp)
  qed
  then show ?thesis by (simp add: wp_def case_prod_beta)
qed


text \<open>A sample: two of five bytes were acknowledged, a third byte was written before a crash.\<close>

definition sample_req :: segment_req where
  "sample_req = \<lparr>sq_ID = ''s-1'', sq_Kind = SegmentRaw, sq_DigestAlgorithm = [], sq_ExpectedLength = 5,
     sq_ExpectedDigest = None\<rparr>"

definition sample_progress_db :: "int \<Rightarrow> db" where
  "sample_progress_db n =
     snd (db_SetSegmentProgress True sample_id ''s-1'' n (if n = 5 then SegmentReceived else SegmentPending)
       (snd (db_InsertSegment True (new_segment sample_id ''u-1'' sample_req) sample_db)))"

definition sample_patch_world :: world where
  "sample_patch_world = sample_world\<lparr>w_db := sample_progress_db 2,
     w_staging := [(sample_id, sample_staged\<lparr>d_segments := Some [(''s-1'', ''heX'')]\<rparr>)]\<rparr>"

definition sample_received :: Segment where
  "sample_received = (new_segment sample_id ''u-1'' sample_req)\<lparr>sg_ReceivedLength := 2\<rparr>"

definition sample_disk :: "nat \<Rightarrow> disk_usage option" where
  "sample_disk k = Some \<lparr>TotalBytes_u = 1000, FreeBytes_u = 900\<rparr>"

lemma sample_patchable: "patchable ''u-1'' sample_received ''heX'' sample_patch_world"
proof -
  have "db_GetSegmentByUploadID True ''u-1'' (w_db sample_patch_world) = Inr sample_received"
    "sg_TransferID sample_received = sample_id" "sg_ID sample_received = ''s-1''" "sg_ReceivedLength sample_received = 2"
    "trow (w_db sample_patch_world) sample_id = Some (new_row sample_transfer)"
    "staged_segment sample_patch_world sample_id ''s-1'' = Some ''heX''" by code_simp+
  moreover have "tr_state (new_row sample_transfer) = StateCreated" by (simp add: new_row_def sample_transfer_def)
  ultimately show ?thesis
    by (simp add: patchable_def) (simp add: sample_patch_world_def sample_world_def)
qed

lemma sample_disk_ok: "CheckStreaming (adm sample_server) (sample_disk k) = None"
  unfolding sample_disk_def by code_simp

theorem UploadPatch_appends_witness:
  "\<exists>w'. run_state (UploadPatch sample_server sample_disk ''u-1'' 2 [''l'', ''lo''] True) sample_patch_world = ((5, None), w')
    \<and> staged_segment w' sample_id ''s-1'' = Some ''hello''"
proof -
  have sg: "sg_ReceivedLength sample_received = 2" "sg_ExpectedLength sample_received = 5"
    "sg_TransferID sample_received = sample_id" "sg_ID sample_received = ''s-1''" by code_simp+
  have fit: "sg_ReceivedLength sample_received + int (length (concat [''l'', ''lo''])) \<le> sg_ExpectedLength sample_received"
    by (simp add: sg)
  from UploadPatch_appends [where disk = sample_disk and S = sample_server and eof = True, OF sample_patchable sample_disk_ok fit] show ?thesis
    by (auto simp: sg split: option.splits)
qed

theorem upload_resume_witness:
  "\<exists>w1 w2. run_state (UploadPatch sample_server sample_disk ''u-1'' 2 [''l''] False) sample_patch_world
      = ((3, Some ErrNetwork), w1)
    \<and> run_state (UploadState ''u-1'') w1 = (Inr (3, 5), w1)
    \<and> run_state (UploadPatch sample_server sample_disk ''u-1'' 3 [''lo''] True) w1 = ((5, None), w2)"
proof -
  have sg: "sg_ReceivedLength sample_received = 2" "sg_ExpectedLength sample_received = 5" by code_simp+
  have fit: "sg_ReceivedLength sample_received + int (length (concat ([''l''] @ [''lo'']))) \<le> sg_ExpectedLength sample_received"
    by (simp add: sg)
  obtain got n w1 w2 w3 where r:
    "run_state (UploadPatch sample_server sample_disk ''u-1'' 2 [''l''] False) sample_patch_world = ((n, Some ErrNetwork), w1)"
    "run_state (UploadState ''u-1'') w1 = (Inr (n, 5), w1)"
    "run_state (UploadPatch sample_server sample_disk ''u-1'' n [''lo''] True) w1 = ((got, None), w2)"
    "run_state (UploadPatch sample_server sample_disk ''u-1'' 2 ([''l''] @ [''lo'']) True) sample_patch_world = ((got, None), w3)"
    using upload_resume [where disk = sample_disk and S = sample_server, OF sample_patchable sample_disk_ok fit] unfolding sg by blast
  have "fst (run_state (UploadPatch sample_server sample_disk ''u-1'' 2 [''l''] False) sample_patch_world) = (3, Some ErrNetwork)"
    "fst (run_state (UploadPatch sample_server sample_disk ''u-1'' 2 ([''l''] @ [''lo'']) True) sample_patch_world) = (5, None)"
    by code_simp+
  then have "n = 3" "got = 5" using r(1,4) by simp_all
  then show ?thesis using r by blast
qed

theorem UploadPatch_bounded_witness:
  "\<exists>n e w'. run_state (UploadPatch sample_server sample_disk ''u-1'' 2 [''l'', ''lo and more''] True) sample_patch_world = ((n, e), w')
    \<and> n \<le> 5"
proof -
  have "db_GetSegmentByUploadID True ''u-1'' (w_db sample_patch_world) = Inr sample_received"
    "sg_ReceivedLength sample_received = 2" "sg_ExpectedLength sample_received = 5" by code_simp+
  with UploadPatch_bounded [where uid = "''u-1''" and w = sample_patch_world and seg = sample_received
      and S = sample_server and disk = sample_disk and offset = 2 and chunks = "[''l'', ''lo and more'']" and eof = True]
  show ?thesis by (auto split: prod.splits)
qed

end
