(* ===== verification/SSS_Simple.thy ===== *)
theory SSS_Simple
  imports SSS_Publish SSS_Upload
begin

text \<open>
  The simple upload (\<^verbatim>\<open>internal/transfer/simple.go\<close>): a session stages named parts straight into
  the payload, hashing them on the way, and ends in a commit or an abort. The session keeps the
  server invariant, and what it commits is what was received.
\<close>

section \<open>The session\<close>

record SimpleSession =
  ss_id :: string
  ss_note :: string
  ss_ttlMinutes :: int
  ss_entries :: "entry list"
  ss_segments :: "segment list"
  ss_roots :: "string list"
  ss_seenNames :: "string set"
  ss_bytes :: int
  ss_sinceCheck :: int
  ss_committed :: bool

definition BeginSimple :: "server \<Rightarrow> disk_usage option \<Rightarrow> time \<Rightarrow> string \<Rightarrow> (SimpleSession result) svc" where
  "BeginSimple S usage now i =
     (case CheckStreaming (adm S) usage of Some e \<Rightarrow> return (Inl e) | None \<Rightarrow> do {
        prepared \<leftarrow> PrepareStaging i;
        if \<not> prepared then return (Inl ErrInternal)
        else do {
          c \<leftarrow> exec (\<lambda>ok. db_CreateTransfer ok (new_transfer S i now (DefaultTTL S) [] 0));
          case c of
            Inl _ \<Rightarrow> do { _ \<leftarrow> RemoveStaging i; return (Inl ErrInternal) }
          | Inr _ \<Rightarrow> return (Inr \<lparr>ss_id = i, ss_note = [], ss_ttlMinutes = DefaultTTL S, ss_entries = [],
              ss_segments = [], ss_roots = [], ss_seenNames = {}, ss_bytes = 0, ss_sinceCheck = 0,
              ss_committed = False\<rparr>)
        }
      })"

definition SetNote :: "server \<Rightarrow> string \<Rightarrow> SimpleSession \<Rightarrow> SimpleSession result" where
  "SetNote S n ss = (case CheckNote S n of Some e \<Rightarrow> Inl e | None \<Rightarrow> Inr (ss\<lparr>ss_note := n\<rparr>))"

definition SetTTL :: "server \<Rightarrow> int \<Rightarrow> SimpleSession \<Rightarrow> SimpleSession result" where
  "SetTTL S minutes ss =
     (case ResolveTTL S minutes of Inl e \<Rightarrow> Inl e | Inr ttl \<Rightarrow> Inr (ss\<lparr>ss_ttlMinutes := ttl\<rparr>))"

text \<open>A write at the end of an open file.\<close>

definition append_file :: "string \<Rightarrow> bytes \<Rightarrow> payload \<Rightarrow> payload option" where
  "append_file k data pl =
     (case map_of pl k of
        Some (NFile c p mt) \<Rightarrow> Some (AList.update k (NFile (c @ data) p mt) pl)
      | _ \<Rightarrow> None)"

text \<open>
  The copy loop over the chunks that the reads return. It carries what was hashed, the counter
  of the disk checks and their index, and returns the bytes it hashed and the counter.
\<close>

fun receive_loop ::
  "server \<Rightarrow> (nat \<Rightarrow> disk_usage option) \<Rightarrow> string \<Rightarrow> string \<Rightarrow> int \<Rightarrow> bytes list \<Rightarrow> bool \<Rightarrow> bytes \<Rightarrow> int
   \<Rightarrow> nat \<Rightarrow> ((bytes \<times> int) result) svc" where
  "receive_loop S disk i k staged [] eof hashed since n =
     return (if eof then Inr (hashed, since) else Inl ErrNetwork)"
| "receive_loop S disk i k staged (c # cs) eof hashed since n =
     (if c = [] then receive_loop S disk i k staged cs eof hashed since n
      else do {
        ok \<leftarrow> on_payload i (append_file k c);
        if \<not> ok then return (Inl ErrInsufficientStorage)
        else let hashed = hashed @ c; since = since + int (length c) in
          if MaxTransferBytes S > 0 \<and> staged + int (length hashed) > MaxTransferBytes S
          then return (Inl ErrPayloadTooLarge)
          else if since \<ge> int admissionCheckInterval then
            (case CheckStreaming (adm S) (disk n) of
               Some e \<Rightarrow> return (Inl e)
             | None \<Rightarrow> receive_loop S disk i k staged cs eof hashed 0 (Suc n))
          else receive_loop S disk i k staged cs eof hashed since n
      })"

definition simple_entry :: "server \<Rightarrow> string \<Rightarrow> bytes \<Rightarrow> int \<Rightarrow> string \<Rightarrow> entry" where
  "simple_entry S clean content mtime segID =
     \<lparr>ent_Path = clean, ent_Type = EntryFile, ent_Size = int (length content), ent_MTimeUnixNS = mtime,
      ent_Mode = 420, ent_Digest = lib_blake3 S content, ent_SegmentID = segID, ent_SegmentOffset = 0\<rparr>"

definition simple_segment :: "server \<Rightarrow> string \<Rightarrow> bytes \<Rightarrow> string \<Rightarrow> segment" where
  "simple_segment S clean content segID =
     \<lparr>seg_ID = segID, seg_Kind = SegmentRaw, seg_WireSize = int (length content),
      seg_Digest = lib_blake3 S content, seg_StoragePath = ''payload/'' @ clean\<rparr>"

definition AddFile ::
  "server \<Rightarrow> (nat \<Rightarrow> disk_usage option) \<Rightarrow> time \<Rightarrow> string \<Rightarrow> string \<Rightarrow> bytes list \<Rightarrow> bool
   \<Rightarrow> SimpleSession \<Rightarrow> (SimpleSession result) svc" where
  "AddFile S disk now segID name chunks eof ss =
     (let clean = sanitizeUploadName name in
      if clean = [] then return (Inl ErrInvalidPath)
      else case ValidateComponent (lib_unicode S) clean of Some e \<Rightarrow> return (Inl e) | None \<Rightarrow>
        if ToLower (lib_unicode S) clean \<in> ss_seenNames ss then return (Inl ErrDuplicatePath)
        else if int (length (ss_entries ss)) \<ge> MaxFiles S then return (Inl ErrTooManyFiles)
        else case safe_rel clean of None \<Rightarrow> return (Inl ErrInvalidPath) | Some k \<Rightarrow> do {
          opened \<leftarrow> on_payload (ss_id ss) (create_excl k []);
          if \<not> opened then return (Inl ErrInternal)
          else do {
            r \<leftarrow> receive_loop S disk (ss_id ss) k (ss_bytes ss) chunks eof [] (ss_sinceCheck ss) 0;
            case r of Inl e \<Rightarrow> return (Inl e) | Inr (content, since) \<Rightarrow> do {
              synced \<leftarrow> io;
              if \<not> synced then return (Inl ErrInternal)
              else do {
                closed \<leftarrow> io;
                if \<not> closed then return (Inl ErrInternal)
                else return (Inr (ss\<lparr>
                  ss_entries := ss_entries ss @ [simple_entry S clean content (wrap64 now) segID],
                  ss_segments := ss_segments ss @ [simple_segment S clean content segID],
                  ss_roots := ss_roots ss @ [clean],
                  ss_seenNames := insert (ToLower (lib_unicode S) clean) (ss_seenNames ss),
                  ss_bytes := ss_bytes ss + int (length content),
                  ss_sinceCheck := since\<rparr>))
              }
            }
          }
        })"

definition simple_manifest :: "time \<Rightarrow> SimpleSession \<Rightarrow> manifest" where
  "simple_manifest now ss =
     \<lparr>man_SchemaVersion = 1, man_TransferID = ss_id ss, man_CreatedAt = now, man_Note = ss_note ss,
      man_Roots = ss_roots ss, man_DigestAlgorithm = DigestAlgorithm, man_Segments = ss_segments ss,
      man_Entries = ss_entries ss\<rparr>"

definition simple_Commit ::
  "server \<Rightarrow> (nat \<Rightarrow> 8 word list) \<Rightarrow> time \<Rightarrow> time \<Rightarrow> SimpleSession \<Rightarrow> (CommitResponse result) svc" where
  "simple_Commit S draws now1 now2 ss =
     (if ss_entries ss = [] then return (Inl ErrNoFiles)
      else let m = simple_manifest now1 ss in
        case Validate (lib_unicode S) m of Some e \<Rightarrow> return (Inl e) | None \<Rightarrow>
          svc_publish S draws now2 (ss_id ss) m (ss_ttlMinutes ss) (ss_note ss) (TotalBytes m))"

text \<open>\<^verbatim>\<open>Abort\<close> is deferred by the handlers for every session that did not commit.\<close>

definition Abort :: "SimpleSession \<Rightarrow> unit svc" where
  "Abort ss = (if ss_committed ss then return () else do {
     _ \<leftarrow> RemoveStaging (ss_id ss);
     _ \<leftarrow> exec (\<lambda>ok. db_Purge ok (ss_id ss));
     return ()
   })"

section \<open>The session invariant\<close>

text \<open>Every entry of the session is a file that is in the staged payload with its size and digest.\<close>

definition session_ok :: "server \<Rightarrow> SimpleSession \<Rightarrow> world \<Rightarrow> bool" where
  "session_ok S ss w \<longleftrightarrow>
     uploadable S (ss_id ss) w \<and> 1 \<le> ss_ttlMinutes ss \<and> ss_ttlMinutes ss \<le> 3000
     \<and> (\<exists>pl. payload_of w (ss_id ss) = Some pl \<and> (\<forall>e\<in>set (ss_entries ss). is_file e \<and> file_there S pl e))"

lemma uploadable_staging: "uploadable S i w \<Longrightarrow> staging_only i w w' \<Longrightarrow> uploadable S i w'"
  using uploads_staging [of i w w' S] by (simp add: uploads_def)

lemma uploadable_inv: "uploadable S i w \<Longrightarrow> server_inv S w"
  by (simp add: uploadable_def)

lemma PrepareStaging_payload:
  "wp (PrepareStaging i) (\<lambda>ok w'. staging_only i w w' \<and> (ok \<longrightarrow> payload_of w' i \<noteq> None)) w"
proof -
  have later: "wp (mkdir_segments i) (\<lambda>_. grows i w) w" "wp (mkdir_packs i) (\<lambda>_. grows i w) w" for w
    unfolding mkdir_segments_def mkdir_packs_def
    by (rule grows_stage, auto simp: Let_def the_tdir_def keeps_dirs_def)+
  have g: "grows i w w' \<Longrightarrow> payload_of w i \<noteq> None \<Longrightarrow> payload_of w' i \<noteq> None" for w w'
    using growsD(2) [of i w w'] by fastforce
  have pay: "wp (mkdir_payload i) (\<lambda>ok w'. ok \<longrightarrow> payload_of w' i \<noteq> None) w" for w
    unfolding mkdir_payload_def
    by (rule wp_stage_frame) (auto simp: payload_of_def Let_def ensure_dir_def split: option.splits)
  have "wp (PrepareStaging i) (\<lambda>ok w'. ok \<longrightarrow> payload_of w' i \<noteq> None) w"
    unfolding PrepareStaging_def all_ok.simps
  proof (rule wp_skip, goal_cases)
    case (1 a w1)
    show ?case
    proof (cases a)
      case True
      show ?thesis
        by (simp only: True not_True_eq_False if_False, rule wp_bindI [OF pay])
          (use later g in \<open>auto intro!: wp_bindI [OF later(1)] wp_bindI [OF later(2)] simp del: wp_bind\<close>)
    qed simp
  qed
  from wp_conj [OF PrepareStaging_frame this] show ?thesis .
qed

lemma kept_RemoveStaging: "wp (RemoveStaging i) (\<lambda>_. kept S w) w"
proof (rule wp_RemoveStaging)
  fix ok w' assume s: "staging_only i w w'" "staging w' i = staging w i \<or> staging w' i = None"
  show "kept S w w'"
    unfolding kept_def
  proof
    assume inv: "server_inv S w"
    then show "server_inv S w'"
      using s by (intro inv_staging_only [OF inv s(1)]) (auto simp: server_inv_def areas_ok_def)
  qed
qed

lemma kept_Abort: "wp (Abort ss) (\<lambda>_. kept S w) w"
  unfolding Abort_def by (intro kept.steps kept_prims kept_RemoveStaging)

lemma BeginSimple_post:
  assumes "server_inv S w" and "config_ok S" and "unused i w"
  shows "wp (BeginSimple S usage now i) (\<lambda>r w'. server_inv S w'
    \<and> (\<forall>ss. r = Inr ss \<longrightarrow> session_ok S ss w' \<and> ss_id ss = i \<and> ss_entries ss = [])) w"
proof (cases "CheckStreaming (adm S) usage")
  case None
  show ?thesis
    unfolding BeginSimple_def None option.case
  proof (rule wp_bindI [OF PrepareStaging_payload], goal_cases)
    case (1 prepared w1)
    have u1: "uploadable S i w1"
      using uploadable_staging [OF unused_uploadable [OF assms(1,3)]] 1 by blast
    show ?case
    proof (cases prepared)
      case True
      have c: "wp (exec (\<lambda>ok. db_CreateTransfer ok (new_transfer S i now (DefaultTTL S) [] 0))) (\<lambda>_. uploads S i w1) w1"
        using assms(2) by (intro uploads_create) (simp_all add: new_transfer_def config_ok_def)
      have s: "wp (exec f) (\<lambda>_ w'. payload_of w' i = payload_of w1 i) w1" for f :: "bool \<Rightarrow> db \<Rightarrow> (go_error + unit) \<times> db"
        by (rule wp_exec) (simp add: payload_of_def)
      show ?thesis
      proof (simp only: True not_True_eq_False if_False, rule wp_bindI [OF wp_conj [OF c s]], goal_cases)
        case (1 r w2)
        then have u2: "uploadable S i w2" using u1 by (simp add: uploads_def)
        show ?case
        proof (cases r)
          case (Inl e)
          show ?thesis
            unfolding Inl sum.case
            by (rule wp_bindI [OF wp_kept [OF kept_RemoveStaging uploadable_inv [OF u2]]]) simp
        next
          case (Inr u)
          then show ?thesis
            using u2 1 \<open>staging_only i w w1 \<and> _\<close> True assms(2)
            by (auto simp: session_ok_def config_ok_def dest: uploadable_inv)
        qed
      qed
    qed (use u1 in \<open>simp add: uploadable_inv\<close>)
  qed
qed (use assms(1) in \<open>simp add: BeginSimple_def\<close>)

lemma SetNote_ok: "SetNote S n ss = Inr ss' \<Longrightarrow> session_ok S ss w \<Longrightarrow> session_ok S ss' w"
  by (auto simp: SetNote_def session_ok_def split: option.splits)

lemma SetTTL_ok: "SetTTL S n ss = Inr ss' \<Longrightarrow> config_ok S \<Longrightarrow> session_ok S ss w \<Longrightarrow> session_ok S ss' w"
  using ResolveTTL_bounds [of S n] by (auto simp: SetTTL_def session_ok_def split: sum.splits)

text \<open>The loop leaves exactly what it hashed in the file, and no other path changes.\<close>

definition stored :: "string \<Rightarrow> bytes \<Rightarrow> payload \<Rightarrow> payload \<Rightarrow> bool" where
  "stored k c pl pl' \<longleftrightarrow> (\<exists>p mt. map_of pl' k = Some (NFile c p mt)) \<and> (\<forall>j. j \<noteq> k \<longrightarrow> map_of pl' j = map_of pl j)"

lemma receive_loop_post:
  assumes "payload_of w i = Some pl" and "stored k hashed pl0 pl"
  shows "wp (receive_loop S disk i k staged cs eof hashed since n) (\<lambda>r w'. staging_only i w w'
    \<and> (\<forall>c s. r = Inr (c, s) \<longrightarrow> eof \<and> c = hashed @ concat cs \<and> (\<exists>pl'. payload_of w' i = Some pl' \<and> stored k c pl0 pl'))) w"
  using assms
proof (induction cs arbitrary: w pl hashed since n)
  case Nil
  then show ?case by auto
next
  case (Cons b cs)
  show ?case
  proof (cases "b = []")
    case True
    then show ?thesis using Cons.IH [OF Cons.prems] by simp
  next
    case False
    have keep: "append_file k b pl = Some pl' \<Longrightarrow> keeps_dirs pl pl'" for pl pl'
      by (auto simp: append_file_def intro!: keeps_dirs_update split: option.splits node.splits)
    show ?thesis
      unfolding receive_loop.simps using False
    proof (simp only: if_False, intro wp_bindI [OF wp_on_payload [where w = w and i = i and f = "append_file k b"
        and Q = "\<lambda>ok w'. staging_only i w w' \<and> (ok \<longrightarrow> (\<exists>pl'. payload_of w' i = Some pl' \<and> stored k (hashed @ b) pl0 pl'))"]],
        goal_cases)
      case (1 w') then show ?case using growsD(1) by simp
    next
      case (2 w' p p')
      then have "stored k (hashed @ b) pl0 p'"
        using Cons.prems by (auto simp: append_file_def stored_def update_conv' split: option.splits node.splits)
      then show ?case using 2 growsD(1) by blast
    next
      case (3 p p') then show ?case by (blast intro: keep)
    next
      case (4 ok w')
      show ?case
      proof (cases ok)
        case True
        then obtain pl' where pl': "payload_of w' i = Some pl'" "stored k (hashed @ b) pl0 pl'" "staging_only i w w'"
          using 4 by blast
        have rec: "wp (receive_loop S disk i k staged cs eof (hashed @ b) s' n') (\<lambda>r w''. staging_only i w w''
            \<and> (\<forall>c s. r = Inr (c, s) \<longrightarrow> eof \<and> c = hashed @ concat (b # cs) \<and> (\<exists>pl'. payload_of w'' i = Some pl' \<and> stored k c pl0 pl'))) w'"
          for s' n'
          using Cons.IH [OF pl'(1,2), of s' n'] by (rule wp_mono) (use pl'(3) in \<open>auto intro: staging_only_trans\<close>)
        show ?thesis
          using True pl'(3) rec by (simp add: Let_def split: option.splits)
      qed (use 4 in simp)
    qed
  qed
qed

lemma AddFile_post:
  assumes "session_ok S ss w"
  shows "wp (AddFile S disk now segID name chunks eof ss) (\<lambda>r w'. staging_only (ss_id ss) w w'
    \<and> (\<forall>ss'. r = Inr ss' \<longrightarrow> session_ok S ss' w' \<and> ss_id ss' = ss_id ss \<and> eof
         \<and> ss_entries ss' = ss_entries ss @ [simple_entry S (sanitizeUploadName name) (concat chunks) (wrap64 now) segID])) w"
proof -
  let ?clean = "sanitizeUploadName name" and ?i = "ss_id ss"
  obtain pl where pl: "payload_of w ?i = Some pl" "\<forall>e\<in>set (ss_entries ss). is_file e \<and> file_there S pl e"
    and u: "uploadable S ?i w" and ttl: "1 \<le> ss_ttlMinutes ss" "ss_ttlMinutes ss \<le> 3000"
    using assms by (auto simp: session_ok_def)
  show ?thesis
  proof (cases "?clean = [] \<or> ValidateComponent (lib_unicode S) ?clean \<noteq> None
      \<or> ToLower (lib_unicode S) ?clean \<in> ss_seenNames ss \<or> int (length (ss_entries ss)) \<ge> MaxFiles S \<or> safe_rel ?clean = None")
    case True
    then show ?thesis by (auto simp: AddFile_def Let_def split: option.splits)
  next
    case False
    then obtain k where k: "safe_rel ?clean = Some k" by auto
    have step: "wp (State_Monad.bind (on_payload ?i (create_excl k [])) (\<lambda>opened. if \<not> opened then return (Inl ErrInternal)
          else State_Monad.bind (receive_loop S disk ?i k (ss_bytes ss) chunks eof [] (ss_sinceCheck ss) 0) (\<lambda>r.
            case r of Inl e \<Rightarrow> return (Inl e) | Inr (content, since) \<Rightarrow>
              State_Monad.bind io (\<lambda>synced. if \<not> synced then return (Inl ErrInternal)
              else State_Monad.bind io (\<lambda>closed. if \<not> closed then return (Inl ErrInternal)
                else return (Inr (ss\<lparr>
                  ss_entries := ss_entries ss @ [simple_entry S ?clean content (wrap64 now) segID],
                  ss_segments := ss_segments ss @ [simple_segment S ?clean content segID],
                  ss_roots := ss_roots ss @ [?clean],
                  ss_seenNames := insert (ToLower (lib_unicode S) ?clean) (ss_seenNames ss),
                  ss_bytes := ss_bytes ss + int (length content), ss_sinceCheck := since\<rparr>)))))))
      (\<lambda>r w'. staging_only ?i w w' \<and> (\<forall>ss'. r = Inr ss' \<longrightarrow> session_ok S ss' w' \<and> ss_id ss' = ?i \<and> eof
         \<and> ss_entries ss' = ss_entries ss @ [simple_entry S ?clean (concat chunks) (wrap64 now) segID])) w"
    proof (rule wp_bindI [OF wp_on_payload [where w = w and i = "?i" and f = "create_excl k []"
        and Q = "\<lambda>ok w'. staging_only ?i w w' \<and> (ok \<longrightarrow> map_of pl k = None \<and> (\<exists>pl'. payload_of w' ?i = Some pl' \<and> stored k [] pl pl'))"]],
        goal_cases)
      case (1 w') then show ?case using growsD(1) by simp
    next
      case (2 w' p p')
      then show ?case
        using pl(1) growsD(1) by (auto simp: create_excl_def stored_def update_conv' split: if_splits)
    next
      case (3 p p') then show ?case by (blast intro: payload_ops_keep(3))
    next
      case (4 opened w1)
      show ?case
      proof (cases opened)
        case True
        then obtain pl1 where pl1: "payload_of w1 ?i = Some pl1" "stored k [] pl pl1" "map_of pl k = None"
          "staging_only ?i w w1" using 4 by blast
        show ?thesis
        proof (simp only: True not_True_eq_False if_False, rule wp_bindI [OF receive_loop_post [OF pl1(1,2)]], goal_cases)
          case (1 r w2)
          have f2: "staging_only ?i w w2" using 1 pl1(4) staging_only_trans by blast
          show ?case
          proof (cases r)
            case (Inr cs)
            obtain content since where cs: "cs = (content, since)" by (cases cs)
            then obtain pl2 where pl2: "payload_of w2 ?i = Some pl2" "stored k content pl pl2" "content = concat chunks"
              and eof: eof using 1 Inr by auto
            have new: "file_there S pl2 (simple_entry S ?clean content (wrap64 now) segID)"
              using pl2(2) k by (auto simp: file_there_def simple_entry_def stored_def)
            have old: "file_there S pl2 e" if e: "file_there S pl e" for e
            proof -
              from e obtain k' c p mt where e': "safe_rel (ent_Path e) = Some k'" "map_of pl k' = Some (NFile c p mt)"
                "int (length c) = ent_Size e" "lib_blake3 S c = ent_Digest e" by (auto simp: file_there_def)
              then have "k' \<noteq> k" using pl1(3) by auto
              then show ?thesis using e' pl2(2) by (auto simp: file_there_def stored_def)
            qed
            have u2: "uploadable S ?i w2" by (rule uploadable_staging [OF u f2])
            have fin: "session_ok S (ss\<lparr>ss_entries := ss_entries ss @ [simple_entry S ?clean content (wrap64 now) segID],
                  ss_segments := sg, ss_roots := rt, ss_seenNames := sn, ss_bytes := b, ss_sinceCheck := since\<rparr>) w3"
              if "faults_only w2 w3" for sg rt sn b w3
            proof -
              have "uploadable S ?i w3" using uploadable_staging [OF u2] that by (auto simp: faults_only_def)
              then show ?thesis
                using ttl pl2(1) new old pl(2) payload_of_faults [OF that]
                by (auto simp: session_ok_def simple_entry_def)
            qed
            have f3: "staging_only ?i w w3" if "faults_only w2 w3" for w3
              using f2 that by (auto simp: faults_only_def)
            show ?thesis
              unfolding Inr cs sum.case prod.case
            proof (rule wp_bindI [of _ "\<lambda>_. faults_only w2"], goal_cases)
              case (2 synced w3)
              show ?case
                using fin f3 2 eof pl2(3)
                by (cases synced) (auto intro!: wp_io_faults dest: faults_only_trans simp: Let_def)
            qed (rule wp_io_faults)
          qed (use f2 in simp)
        qed
      qed (use 4 in simp)
    qed
    show ?thesis
      using False k step by (simp add: AddFile_def Let_def)
  qed
qed

lemma uploadable_uncoded: "uploadable S i w \<Longrightarrow> uncoded i (w_db w)"
  using row_ok_code_None by (auto simp: uploadable_def server_inv_def rows_ok_def uncoded_def is_precommit_def)

lemma simple_Commit_post:
  assumes "session_ok S ss w" and "0 \<le> now2" and "\<And>k. length (draws k) = CodeLength"
  shows "wp (simple_Commit S draws now1 now2 ss) (committed_to S (ss_id ss) (simple_manifest now1 ss)) w"
proof (cases "ss_entries ss = [] \<or> Validate (lib_unicode S) (simple_manifest now1 ss) \<noteq> None")
  case True
  then show ?thesis
    using assms(1) by (auto simp: simple_Commit_def committed_to_def session_ok_def uploadable_def Let_def split: option.splits)
next
  case False
  have u: "uploadable S (ss_id ss) w" using assms(1) by (simp add: session_ok_def)
  obtain pl where pl: "payload_of w (ss_id ss) = Some pl" "\<forall>e\<in>set (ss_entries ss). is_file e \<and> file_there S pl e"
    using assms(1) by (auto simp: session_ok_def)
  have "dirs_ok pl (ss_entries ss)"
    using pl(2) by (auto simp: dirs_ok_def)
  then have "staged_complete S (ss_id ss) (simple_manifest now1 ss) w"
    using u pl False by (auto simp: staged_complete_def uploadable_def simple_manifest_def payload_of_def
        files_ok_def bind_eq_Some_conv)
  from svc_publish_post [OF uploadable_inv [OF u] this uploadable_uncoded [OF u] _ _ assms(2,3)] assms(1)
  show ?thesis using False by (simp add: simple_Commit_def Let_def session_ok_def)
qed

end
