(* ===== verification/SSS_Commit.thy ===== *)
theory SSS_Commit
  imports SSS_Publish SSS_Upload
begin

text \<open>
  The commit of a resumable transfer (\<^verbatim>\<open>Service.Commit\<close> of \<^verbatim>\<open>internal/transfer/advanced.go\<close>): every
  staged segment is checked against the client's manifest, materialized, verified and published.
  It keeps the server invariant whatever fails, and what it answers is what receivers will find.
\<close>

section \<open>Commit\<close>

definition read_staged :: "string \<Rightarrow> string \<Rightarrow> bytes option svc" where
  "read_staged i sid = do {
     ok \<leftarrow> io;
     State (\<lambda>w. (if \<not> ok then None else staged_segment w i sid, w))
   }"

text \<open>\<^verbatim>\<open>integrity.OutboardFile\<close>: the root and the size of a staged segment; its tree is left beside it.\<close>

definition OutboardFile :: "server \<Rightarrow> string \<Rightarrow> string \<Rightarrow> (string \<times> int) option svc" where
  "OutboardFile S i sid = do {
     c \<leftarrow> read_staged i sid;
     case c of None \<Rightarrow> return None | Some c \<Rightarrow> do {
       ok \<leftarrow> stage i (\<lambda>t. case t of None \<Rightarrow> None | Some t \<Rightarrow>
         (case d_outboards t of None \<Rightarrow> None | Some obs \<Rightarrow>
            Some (t\<lparr>d_outboards := Some (AList.update (sid @ ''.obao'') (fst (lib_bao S c)) obs)\<rparr>)));
       return (if \<not> ok then None else Some (snd (lib_bao S c), int (length c)))
     }
   }"

fun check_staged :: "server \<Rightarrow> string \<Rightarrow> (string \<rightharpoonup> Segment) \<Rightarrow> segment list \<Rightarrow> errcode option svc" where
  "check_staged S i byID [] = return None"
| "check_staged S i byID (ms # rest) =
     (case byID (seg_ID ms) of None \<Rightarrow> return (Some ErrInvalidRequest) | Some seg \<Rightarrow>
        if sg_Kind seg \<noteq> seg_Kind ms then return (Some ErrInvalidRequest)
        else if sg_ExpectedLength seg \<noteq> seg_WireSize ms then return (Some ErrInvalidRequest)
        else if sg_ReceivedLength seg \<noteq> sg_ExpectedLength seg then return (Some ErrStateConflict)
        else do {
          r \<leftarrow> OutboardFile S i (seg_ID ms);
          case r of None \<Rightarrow> return (Some ErrStateConflict) | Some (digest, sz) \<Rightarrow>
            if sz \<noteq> seg_WireSize ms then return (Some ErrHashMismatch)
            else if digest \<noteq> seg_Digest ms then return (Some ErrHashMismatch)
            else if sg_ExpectedDigest seg \<noteq> [] \<and> sg_ExpectedDigest seg \<noteq> seg_Digest ms
            then return (Some ErrInvalidRequest)
            else check_staged S i byID rest
        })"

text \<open>The checks of the manifest alone.\<close>

definition check_manifest :: "server \<Rightarrow> string \<Rightarrow> manifest \<Rightarrow> errcode option" where
  "check_manifest S i m =
     (if man_TransferID m \<noteq> i then Some ErrInvalidRequest
      else case Validate (lib_unicode S) m of Some e \<Rightarrow> Some e | None \<Rightarrow>
        if FileCount (man_Entries m) > MaxFiles S then Some ErrTooManyFiles
        else case CheckNote S (man_Note m) of Some e \<Rightarrow> Some e | None \<Rightarrow>
          if MaxTransferBytes S > 0 \<and> TotalBytes m > MaxTransferBytes S then Some ErrPayloadTooLarge
          else None)"

definition svc_Commit ::
  "server \<Rightarrow> (nat \<Rightarrow> 8 word list) \<Rightarrow> time \<Rightarrow> string \<Rightarrow> manifest \<Rightarrow> ((CommitResponse \<times> bool) result) svc" where
  "svc_Commit S draws now i m = do {
     rt \<leftarrow> query (\<lambda>ok. db_GetTransfer ok i);
     case rt of
       Inl e \<Rightarrow> return (Inl (if e = NotFoundError then ErrTransferNotFound else ErrInternal))
     | Inr t \<Rightarrow>
         if Committed t then return (Inr (\<lparr>cp_Code = FormatCode (t_Code t),
           cp_CommittedAt = t_CommittedAt t, cp_ExpiresAt = t_ExpiresAt t\<rparr>, False))
         else if \<not> is_precommit (t_State t) then return (Inl ErrStateConflict)
         else case check_manifest S i m of Some e \<Rightarrow> return (Inl e) | None \<Rightarrow> do {
           rs \<leftarrow> query (\<lambda>ok. db_ListSegments ok i);
           case rs of Inl _ \<Rightarrow> return (Inl ErrInternal) | Inr stored \<Rightarrow>
             if length stored \<noteq> length (man_Segments m) then return (Inl ErrInvalidRequest)
             else do {
               trees \<leftarrow> mkdir_outboards i;
               if \<not> trees then return (Inl ErrInternal)
               else do {
                 bad \<leftarrow> check_staged S i (map_of (rev (map (\<lambda>s. (sg_ID s, s)) stored))) (man_Segments m);
                 case bad of Some e \<Rightarrow> return (Inl e) | None \<Rightarrow> do {
                   st \<leftarrow> exec (\<lambda>ok. db_SetState ok i StateVerifying);
                   case st of Inl _ \<Rightarrow> return (Inl ErrInternal) | Inr _ \<Rightarrow> do {
                     run \<leftarrow> mat_Run S i m;
                     case run of
                       Inl e \<Rightarrow> do {
                         _ \<leftarrow> exec (\<lambda>ok. db_Fail ok i (code_string e));
                         return (Inl e)
                       }
                     | Inr res \<Rightarrow> do {
                         let ttl = (if t_RequestedTTLMinutes t = 0 then DefaultTTL S else t_RequestedTTLMinutes t);
                         p \<leftarrow> svc_publish S draws now i (Published res) ttl (man_Note m) (MaterializedBytes res);
                         return (case p of Inl e \<Rightarrow> Inl e | Inr resp \<Rightarrow> Inr (resp, True))
                       }
                   }
                 }
               }
             }
         }
   }"

section \<open>Commit keeps the invariant\<close>

definition segs_of :: "world \<Rightarrow> string \<Rightarrow> (string \<times> bytes) list option" where
  "segs_of w i = Option.bind (staging w i) d_segments"

text \<open>A staging directory may change, but not the staged segments.\<close>

definition keeps_segs :: "string \<Rightarrow> world \<Rightarrow> world \<Rightarrow> bool" where
  "keeps_segs i w w' \<longleftrightarrow> staging_only i w w' \<and> segs_of w' i = segs_of w i"

interpretation segs: effect "keeps_segs i" for i
  by unfold_locales (auto simp: keeps_segs_def intro: staging_only_trans)

lemma keeps_segs_faults: "faults_only w w' \<Longrightarrow> keeps_segs i w w'"
  by (auto simp: faults_only_def keeps_segs_def segs_of_def)

lemma segs_of_live: "server_inv S w \<Longrightarrow> live w i = Some t \<Longrightarrow> segs_of w i = None"
  by (cases "staging w i") (auto simp: server_inv_def areas_ok_def segs_of_def)

lemma inv_keeps_segs:
  assumes "server_inv S w" and "keeps_segs i w w'"
  shows "server_inv S w'"
proof (rule inv_staging_only [OF assms(1)])
  show "staging_only i w w'" using assms(2) by (simp add: keeps_segs_def)
  show "live w i = None \<or> (\<forall>t. staging w' i = Some t \<longrightarrow> d_segments t = None)"
    using segs_of_live [OF assms(1), of i] assms(2)
    by (cases "live w i") (auto simp: keeps_segs_def segs_of_def)
qed

lemma wp_mkdir_outboards: "wp (mkdir_outboards i) (\<lambda>_. keeps_segs i w) w"
  unfolding mkdir_outboards_def
  by (rule wp_stage_frame)
    (auto simp: keeps_segs_def segs_of_def Let_def the_tdir_def empty_tdir_def split: option.splits)

lemma wp_OutboardFile:
  "wp (OutboardFile S i sid) (\<lambda>r w'. keeps_segs i w w' \<and> (r \<noteq> None \<longrightarrow> segs_of w i \<noteq> None)) w"
  unfolding OutboardFile_def
proof (rule wp_bindI [of _ "\<lambda>c w'. faults_only w w' \<and> (c \<noteq> None \<longrightarrow> segs_of w i \<noteq> None)"], goal_cases)
  case 1
  show ?case
    unfolding read_staged_def
    by (simp, rule wp_io) (auto simp: staged_segment_def segs_of_def split: option.splits)
next
  case (2 c w1)
  then have k: "keeps_segs i w w1" and ne: "c \<noteq> None \<Longrightarrow> segs_of w i \<noteq> None" by (blast intro: keeps_segs_faults)+
  show ?case
  proof (cases c)
    case (Some b)
    show ?thesis
      unfolding Some option.case wp_bind
    proof (rule wp_stage_frame, goal_cases)
      case (1 w2)
      then have "keeps_segs i w1 w2" by (simp add: keeps_segs_def segs_of_def)
      then show ?case using segs.trans [OF k] by simp
    next
      case (2 w2 t)
      then obtain t0 obs where "staging w1 i = Some t0" "d_segments t = d_segments t0"
        by (cases "staging w1 i"; cases "d_outboards (the (staging w1 i))") auto
      with 2 have "keeps_segs i w1 w2" by (simp add: keeps_segs_def segs_of_def)
      then have "keeps_segs i w w2" by (rule segs.trans [OF k])
      then show ?case using ne Some by simp
    qed
  qed (use k in simp)
qed

lemma wp_check_staged:
  "wp (check_staged S i byID ms) (\<lambda>r w'. keeps_segs i w w' \<and> (r = None \<longrightarrow> ms \<noteq> [] \<longrightarrow> segs_of w i \<noteq> None)) w"
proof (induction ms arbitrary: w)
  case Nil
  show ?case by (simp add: segs.refl)
next
  case (Cons ms rest)
  show ?case
  proof (cases "byID (seg_ID ms)")
    case (Some seg)
    have step: "wp (State_Monad.bind (OutboardFile S i (seg_ID ms)) (\<lambda>r.
        case r of None \<Rightarrow> return (Some ErrStateConflict) | Some (digest, sz) \<Rightarrow>
            if sz \<noteq> seg_WireSize ms then return (Some ErrHashMismatch)
            else if digest \<noteq> seg_Digest ms then return (Some ErrHashMismatch)
            else if sg_ExpectedDigest seg \<noteq> [] \<and> sg_ExpectedDigest seg \<noteq> seg_Digest ms
            then return (Some ErrInvalidRequest)
            else check_staged S i byID rest))
        (\<lambda>r w'. keeps_segs i w w' \<and> (r = None \<longrightarrow> ms # rest \<noteq> [] \<longrightarrow> segs_of w i \<noteq> None)) w"
    proof (rule wp_bindI [OF wp_OutboardFile], goal_cases)
      case (1 r w1)
      have rec: "wp (check_staged S i byID rest) (\<lambda>r w'. keeps_segs i w w') w1"
        using Cons.IH [of w1] by (rule wp_mono) (use 1 segs.trans in blast)
      show ?case
      proof (cases r)
        case (Some p)
        then have ne: "segs_of w i \<noteq> None" using 1 by simp
        have rec': "wp (check_staged S i byID rest)
            (\<lambda>r w'. keeps_segs i w w' \<and> (r = None \<longrightarrow> ms # rest \<noteq> [] \<longrightarrow> segs_of w i \<noteq> None)) w1"
          using rec by (rule wp_mono) (use ne in blast)
        show ?thesis using 1 ne rec' by (cases p) (simp add: Some)
      qed (use 1 in simp)
    qed
    show ?thesis using step by (simp add: Some segs.refl)
  qed (simp add: segs.refl)
qed

text \<open>The published manifest is the client's, with storage paths.\<close>

definition publishes :: "manifest \<Rightarrow> manifest \<Rightarrow> bool" where
  "publishes m p \<longleftrightarrow> (\<exists>segs. list_all2 seg_same (man_Segments m) segs \<and> p = m\<lparr>man_Segments := segs\<rparr>)"

definition commit_post ::
  "server \<Rightarrow> string \<Rightarrow> manifest \<Rightarrow> world \<Rightarrow> (CommitResponse \<times> bool) result \<Rightarrow> world \<Rightarrow> bool" where
  "commit_post S i m w r w' \<longleftrightarrow> server_inv S w'
     \<and> (\<forall>resp. r = Inr (resp, True) \<longrightarrow> (\<exists>p. publishes m p \<and> published i p resp w'))
     \<and> (\<forall>resp. r = Inr (resp, False) \<longrightarrow> faults_only w w'
          \<and> (\<exists>row. trow (w_db w) i = Some row \<and> tr_state row = StateCommitted
               \<and> resp = \<lparr>cp_Code = FormatCode (string_of_null (tr_code row)),
                   cp_CommittedAt = t_CommittedAt (scanTransfer row), cp_ExpiresAt = t_ExpiresAt (scanTransfer row)\<rparr>))"

lemma commit_post_Inl [simp]: "commit_post S i m w (Inl e) w' = server_inv S w'"
  by (simp add: commit_post_def)

lemma uncoded_same: "w_db w' = w_db w \<Longrightarrow> uncoded i (w_db w) \<Longrightarrow> uncoded i (w_db w')"
  by simp

lemma wp_Fail:
  assumes "server_inv S w" and "uncoded i (w_db w)"
  shows "wp (exec (\<lambda>ok. db_Fail ok i e)) (\<lambda>_. server_inv S) w"
  using assms server_invD [OF assms(1)]
  by (intro inv_exec inv_intros rows_step_Fail) (auto simp: uncoded_def)

lemma run_ok_complete:
  assumes "run_ok S i m res w" and "live w i = None" and "Validate (lib_unicode S) m = None" and "man_TransferID m = i"
  shows "staged_complete S i (Published res) w \<and> publishes m (Published res)"
  using assms by (auto simp: run_ok_def staged_complete_def publishes_def Validate_published)

text \<open>From the verifying state on.\<close>

lemma wp_commit_tail:
  assumes "server_inv S w" and "live w i = None" and "uncoded i (w_db w)"
    and "Validate (lib_unicode S) m = None" and "man_TransferID m = i"
    and "1 \<le> ttl" and "ttl \<le> 3000" and "0 \<le> now" and "\<And>k. length (draws k) = CodeLength"
  shows "wp (State_Monad.bind (mat_Run S i m) (\<lambda>run. case run of
        Inl e \<Rightarrow> State_Monad.bind (exec (\<lambda>ok. db_Fail ok i (code_string e))) (\<lambda>_. return (Inl e))
      | Inr res \<Rightarrow> State_Monad.bind (svc_publish S draws now i (Published res) ttl (man_Note m) (MaterializedBytes res))
          (\<lambda>p. return (case p of Inl e \<Rightarrow> Inl e | Inr resp \<Rightarrow> Inr (resp, True)))))
    (commit_post S i m w0) w"
proof (rule wp_bindI [OF mat_Run_post], goal_cases)
  case (1 run w1)
  then have f: "staging_only i w w1" by blast
  have inv1: "server_inv S w1" using assms(2) by (intro inv_staging_only [OF assms(1) f]) simp
  have u1: "uncoded i (w_db w1)" and l1: "live w1 i = None"
    using assms(2,3) staging_onlyD(1,2) [OF f] by simp_all
  show ?case
  proof (cases run)
    case (Inl e)
    show ?thesis
      unfolding Inl sum.case by (rule wp_bindI [OF wp_Fail [OF inv1 u1]]) simp
  next
    case (Inr res)
    then have "run_ok S i m res w1" using 1 by blast
    from run_ok_complete [OF this l1 assms(4,5)]
    have c: "staged_complete S i (Published res) w1" and p: "publishes m (Published res)" by simp_all
    show ?thesis
      unfolding Inr sum.case
      by (rule wp_bindI [OF svc_publish_post [OF inv1 c u1 assms(6-9)]])
        (use p in \<open>auto simp: committed_to_def commit_post_def split: sum.splits\<close>)
  qed
qed

lemma check_manifestD:
  assumes "check_manifest S i m = None"
  shows "man_TransferID m = i" and "Validate (lib_unicode S) m = None" and "man_Segments m \<noteq> []"
proof -
  show "man_TransferID m = i" and v: "Validate (lib_unicode S) m = None"
    using assms by (auto simp: check_manifest_def split: if_splits option.splits)
  from v show "man_Segments m \<noteq> []"
    by (auto simp: Validate_def split: if_splits option.splits sum.splits)
qed

lemma svc_Commit_post:
  assumes "server_inv S w" and "0 \<le> now" and "\<And>k. length (draws k) = CodeLength"
  shows "wp (svc_Commit S draws now i m) (commit_post S i m w) w"
  unfolding svc_Commit_def
proof (rule wp_bindI [of _ "\<lambda>r w1. faults_only w w1 \<and> (\<forall>t. r = Inr t \<longrightarrow>
      (\<exists>row. trow (w_db w) i = Some row \<and> t = scanTransfer row))"], goal_cases)
  case 1
  show ?case by (rule wp_query) (auto simp: db_GetTransfer_def db_read_def split: option.splits if_splits)
next
  case (2 rt w1)
  then have inv1: "server_inv S w1" using assms(1) inv_faults_only by blast
  show ?case
  proof (cases rt)
    case (Inr t)
    then obtain row where row: "trow (w_db w) i = Some row" "t = scanTransfer row" using 2 by blast
    have rok: "row_ok row" using server_invD(2) [OF assms(1)] row(1) by (auto simp: rows_ok_def)
    have ttl: "t_RequestedTTLMinutes t \<noteq> 0" "1 \<le> t_RequestedTTLMinutes t" "t_RequestedTTLMinutes t \<le> 3000"
      using rok row(2) by (simp_all add: row_ok_def)
    show ?thesis
    proof (cases "Committed t")
      case True
      then show ?thesis
        using 2 inv1 row by (auto simp: Inr commit_post_def Committed_def)
    next
      case nc: False
      show ?thesis
      proof (cases "is_precommit (t_State t) \<and> check_manifest S i m = None")
        case True
        then have pre: "is_precommit (t_State t)" and cm: "check_manifest S i m = None" by simp_all
        note m = check_manifestD [OF cm]
        have unc: "uncoded i (w_db w)" using row row_ok_code_None [OF rok] pre by (simp add: uncoded_def)
        show ?thesis
          unfolding Inr sum.case
        proof (simp only: nc pre cm not_True_eq_False if_False option.case, rule wp_bindI [of _ "\<lambda>_. faults_only w"], goal_cases)
          case 1
          show ?case by (rule wp_query) (use 2 in \<open>auto intro: faults_only_trans\<close>)
        next
          case (2 rs w2)
          have inv2: "server_inv S w2" using 2 assms(1) inv_faults_only by blast
          show ?case
          proof (cases rs)
            case (Inr stored)
            show ?thesis
            proof (cases "length stored = length (man_Segments m)")
              case True
              show ?thesis
                unfolding Inr sum.case
              proof (simp only: True simp_thms if_False, rule wp_bindI [OF wp_mkdir_outboards], goal_cases)
                case (1 trees w3)
                have inv3: "server_inv S w3" using inv_keeps_segs [OF inv2 1] .
                show ?case
                proof (cases trees)
                  case True
                  show ?thesis
                  proof (simp only: True not_True_eq_False if_False, rule wp_bindI [OF wp_check_staged], goal_cases)
                    case (1 bad w4)
                    have inv4: "server_inv S w4" using inv_keeps_segs [OF inv3] 1 by blast
                    show ?case
                    proof (cases bad)
                      case None
                      then have "segs_of w3 i \<noteq> None" using 1 m(3) by blast
                      then have "live w3 i = None" using segs_of_live [OF inv3, of i] by (cases "live w3 i") auto
                      then have l4: "live w4 i = None" using 1 by (simp add: keeps_segs_def staging_only_def)
                      have "w_db w4 = w_db w"
                        using 1 \<open>keeps_segs i w2 w3\<close> 2 by (simp add: keeps_segs_def staging_only_def faults_onlyD(1))
                      then have u4: "uncoded i (w_db w4)" using unc by simp
                      show ?thesis
                        unfolding None option.case
                      proof (rule wp_bindI [OF wp_SetState_verifying [OF inv4 u4, of m]], goal_cases)
                        case (1 st w5)
                        then have s5: "server_inv S w5" "uncoded i (w_db w5)" "live w5 i = None"
                          using l4 by simp_all
                        show ?case
                          unfolding Let_def
                          using wp_commit_tail [OF s5(1,3,2) m(2,1) ttl(2,3) assms(2), where draws = draws and ?w0.0 = w] assms(3) s5(1) ttl(1)
                          by (cases st) simp_all
                      qed
                    qed (use inv4 in simp)
                  qed
                qed (use inv3 in simp)
              qed
            qed (use inv2 Inr in simp)
          qed (use inv2 in simp)
        qed
      qed (use nc inv1 Inr in \<open>auto split: option.splits\<close>)
    qed
  qed (use inv1 in simp)
qed

section \<open>What a commit promises\<close>

text \<open>Without faults, a committed code opens the download of what is live.\<close>

lemma OpenDownload_succeeds:
  assumes "server_inv S w" and "w_faults w = []" and "trow (w_db w) i = Some r" and "tr_code r = Some c"
    and "tr_state r = StateCommitted" and "NormalizeCode code = Some c" and "now < t_ExpiresAt (scanTransfer r)"
    and "live_manifest w i = Some m"
  shows "\<exists>dl w'. run_state (OpenDownload S now code) w = (Inr dl, w')
    \<and> dl_Transfer dl = scanTransfer r \<and> dl_Manifest dl = m"
proof -
  have id: "tr_id r = i" using tbl_find_key [OF assms(3)] .
  have rok: "row_ok r" using server_invD(2) [OF assms(1)] assms(3) by (auto simp: rows_ok_def)
  have "run_state (lookupCommitted now code) w = (Inr (scanTransfer r), w)"
    using assms(2,5,6,7) find_code [OF server_invD(1) [OF assms(1)] assms(3,4)] row_expires [OF rok assms(4)]
    by (simp add: lookupCommitted_def db_GetTransferByCode_def db_read_def)
  moreover have "\<exists>w'. run_state (svc_Manifest S (scanTransfer r)) w = (Inr m, w')"
  proof (cases "cache_get (w_cache w) i")
    case (Some m')
    then have "m' = m" using map_leD [OF server_invD(4) [OF assms(1)] Some] assms(8) by simp
    then show ?thesis using Some id by (simp add: svc_Manifest_def)
  next
    case None
    obtain t where t: "live w i = Some t" "d_manifest t = Some m" using assms(8) by (auto simp: bind_eq_Some_conv)
    then have "Validate (lib_unicode S) m = None" using live_complete [OF assms(1) t(1)] by (auto simp: dir_complete_def)
    then show ?thesis
      using None id t assms(2) by (simp add: svc_Manifest_def ReadManifest_def remember_manifest_def)
  qed
  ultimately show ?thesis by (auto simp: OpenDownload_def)
qed

lemma Commit_run:
  assumes "server_inv S w" and "run_state (svc_Commit S draws now i m) w = (Inr (resp, True), w')"
    and "0 \<le> now" and "\<And>k. length (draws k) = CodeLength"
  obtains p r c where "server_inv S w'" and "publishes m p" and "live_manifest w' i = Some p"
    and "trow (w_db w') i = Some r" and "tr_code r = Some c" and "tr_state r = StateCommitted" and "canonical_code c"
    and "resp = \<lparr>cp_Code = FormatCode c, cp_CommittedAt = t_CommittedAt (scanTransfer r),
          cp_ExpiresAt = t_ExpiresAt (scanTransfer r)\<rparr>"
proof -
  from wp_run [OF svc_Commit_post [OF assms(1,3,4)] assms(2)]
  obtain p where "server_inv S w'" "publishes m p" "published i p resp w'" by (auto simp: commit_post_def)
  then show thesis using that by (auto simp: published_def)
qed

text \<open>
  A successful commit is a promise. Whatever faults the commit itself survived, when it
  returns a new code then, without further faults, everyone who types that code back, in any
  spelling that normalizes to the same, before the returned expiry opens a download of this
  transfer whose manifest is the committed one (with storage paths filled in), complete on
  disk by \<open>OpenDownload_complete\<close>.
\<close>

theorem Commit_then_download:
  assumes "server_inv S w" and "run_state (svc_Commit S draws now i m) w = (Inr (resp, True), w')"
    and "0 \<le> now" and "\<And>k. length (draws k) = CodeLength" and "w_faults w' = []"
    and "NormalizeCode code = NormalizeCode (cp_Code resp)" and "later < cp_ExpiresAt resp"
  shows "\<exists>dl w''. run_state (OpenDownload S later code) w' = (Inr dl, w'')
    \<and> t_ID (dl_Transfer dl) = i \<and> publishes m (dl_Manifest dl) \<and> server_inv S w'"
proof -
  from Commit_run [OF assms(1-4)] obtain p r c where c: "server_inv S w'" "publishes m p"
    "live_manifest w' i = Some p" "trow (w_db w') i = Some r" "tr_code r = Some c" "tr_state r = StateCommitted"
    "canonical_code c" "resp = \<lparr>cp_Code = FormatCode c, cp_CommittedAt = t_CommittedAt (scanTransfer r),
          cp_ExpiresAt = t_ExpiresAt (scanTransfer r)\<rparr>" by blast
  have "NormalizeCode code = Some c" using assms(6) c(7,8) NormalizeCode_FormatCode by simp
  from OpenDownload_succeeds [OF c(1) assms(5) c(4,5,6) this _ c(3)] assms(7) c(8) c(2) c(1)
  obtain dl w'' where "run_state (OpenDownload S later code) w' = (Inr dl, w'')"
    "dl_Transfer dl = scanTransfer r" "dl_Manifest dl = p" by fastforce
  moreover have "tr_id r = i" using tbl_find_key [OF c(4)] .
  ultimately show ?thesis using c(1,2) by auto
qed

text \<open>
  C8: commit is idempotent. Once a commit has returned a code, any later commit of the same
  transfer, with whatever manifest, clock and random draws, answers with the same code, commit
  time and expiry, says that it is not new, and changes nothing.
\<close>

theorem Commit_idempotent:
  assumes "server_inv S w" and "run_state (svc_Commit S draws now i m) w = (Inr (resp, True), w')"
    and "0 \<le> now" and "\<And>k. length (draws k) = CodeLength" and "w_faults w' = []"
  shows "run_state (svc_Commit S draws' now' i m') w' = (Inr (resp, False), w')"
proof -
  from Commit_run [OF assms(1-4)] obtain p r c where c: "trow (w_db w') i = Some r" "tr_code r = Some c"
    "tr_state r = StateCommitted" "canonical_code c"
    "resp = \<lparr>cp_Code = FormatCode c, cp_CommittedAt = t_CommittedAt (scanTransfer r),
          cp_ExpiresAt = t_ExpiresAt (scanTransfer r)\<rparr>" by blast
  then have "Committed (scanTransfer r)"
    using canonical_nonempty [OF c(4)] by (simp add: Committed_def string_of_null_def)
  then show ?thesis
    using c assms(5) by (simp add: svc_Commit_def db_GetTransfer_def db_read_def string_of_null_def)
qed

definition sample_upload_world :: world where
  "sample_upload_world = sample_world\<lparr>w_db := sample_progress_db 5\<rparr>"

lemma sample_upload_inv: "server_inv sample_server sample_upload_world"
proof -
  let ?w = sample_upload_world
  have "db_ok sample_db" using db_step_ok [OF step_CreateTransfer empty_db_ok] by (simp add: sample_db_def)
  then have "db_ok (w_db ?w)"
    unfolding sample_upload_world_def sample_progress_db_def by (simp add: inv_intros)
  moreover have "transfers (w_db ?w) = [new_row sample_transfer]" by code_simp
  moreover have "row_ok (new_row sample_transfer)"
    by (simp add: row_ok_def new_row_def sample_transfer_def)
  moreover have "w_live ?w = []" "mc_items (w_cache ?w) = []"
    by (simp_all add: sample_upload_world_def sample_world_def newManifestCache_def)
  ultimately show ?thesis
    by (auto simp: server_inv_def areas_ok_def cache_get_def map_le_def intro!: rows_okI)
qed

text \<open>The sample upload is committed, and its code opens the download.\<close>

definition sample_commit :: "(CommitResponse \<times> bool) result \<times> world" where
  "sample_commit = run_state (svc_Commit sample_server sample_draws (1700000100 * second) sample_id sample_manifest)
     sample_upload_world"

lemma sample_commit_Inr:
  "sample_commit = (Inr (\<lparr>cp_Code = FormatCode sample_code, cp_CommittedAt = 1700000100 * second,
     cp_ExpiresAt = 1700001900 * second\<rparr>, True), snd sample_commit)"
  "w_faults (snd sample_commit) = []"
proof -
  have "fst sample_commit = Inr (\<lparr>cp_Code = FormatCode sample_code, cp_CommittedAt = 1700000100 * second,
     cp_ExpiresAt = 1700001900 * second\<rparr>, True)" by code_simp
  then show "sample_commit = (Inr (\<lparr>cp_Code = FormatCode sample_code, cp_CommittedAt = 1700000100 * second,
     cp_ExpiresAt = 1700001900 * second\<rparr>, True), snd sample_commit)" by (simp add: prod_eq_iff)
  show "w_faults (snd sample_commit) = []" by code_simp
qed

lemmas sample_commit_run = sample_commit_Inr(1) [unfolded sample_commit_def]

theorem Commit_then_download_witness:
  "\<exists>dl w''. run_state (OpenDownload sample_server (1700000200 * second) (FormatCode sample_code)) (snd sample_commit)
      = (Inr dl, w'') \<and> t_ID (dl_Transfer dl) = sample_id \<and> publishes sample_manifest (dl_Manifest dl)"
  using Commit_then_download [OF sample_upload_inv sample_commit_run _ sample_draws_length
      sample_commit_Inr(2) [unfolded sample_commit_def], of "FormatCode sample_code" "1700000200 * second"]
  by (auto simp: sample_commit_def second_def)

theorem Commit_idempotent_witness:
  "run_state (svc_Commit sample_server (\<lambda>_. []) 5 sample_id (sample_manifest\<lparr>man_Note := ''other''\<rparr>)) (snd sample_commit)
   = (Inr (\<lparr>cp_Code = FormatCode sample_code, cp_CommittedAt = 1700000100 * second,
       cp_ExpiresAt = 1700001900 * second\<rparr>, False), snd sample_commit)"
  using Commit_idempotent [OF sample_upload_inv sample_commit_run _ sample_draws_length
      sample_commit_Inr(2) [unfolded sample_commit_def], of "\<lambda>_. []" 5]
  by (simp add: sample_commit_def second_def)

end
