(* ===== verification/SSS_Api.thy ===== *)
theory SSS_Api
  imports SSS_Simple SSS_Commit SSS_Wire
begin

text \<open>
  The handlers of \<^verbatim>\<open>internal/api/public/api.go\<close> that change state: the two simple uploads with their
  deferred abort, and the creation of a resumable transfer, each under an idempotency key. A
  request is the values the handler reads from it; multipart bodies are the parts that
  \<^verbatim>\<open>mime/multipart\<close> yields. Routing, headers of responses and JSON encoding are left out.
\<close>

section \<open>Idempotency keys\<close>

record request =
  rq_Method :: string
  rq_Path :: string
  rq_ContentLength :: int
  rq_Filename :: string
  rq_TTL :: string
  rq_NoteHeader :: string
  rq_Key :: string

definition NUL :: char where "NUL = CHR 0x00"

definition FormatInt :: "int \<Rightarrow> string" where
  "FormatInt n = (if n < 0 then CHR ''-'' # itoa (nat (- n)) else itoa (nat n))"

definition requestFingerprint :: "server \<Rightarrow> request \<Rightarrow> string" where
  "requestFingerprint S r = lib_sha256 S (join_with NUL
     [rq_Method r, rq_Path r, FormatInt (rq_ContentLength r), rq_Filename r, rq_TTL r])"

definition idempotencyTTL :: int where "idempotencyTTL = 24 * 60 * minute"

definition key_hash :: "server \<Rightarrow> string \<Rightarrow> string \<Rightarrow> string" where
  "key_hash S operation key = lib_sha256 S (operation @ NUL # key)"

text \<open>The hash of the key (empty without a key) and the code to replay (empty if none).\<close>

definition beginIdempotent :: "server \<Rightarrow> time \<Rightarrow> string \<Rightarrow> request \<Rightarrow> ((string \<times> string) result) svc" where
  "beginIdempotent S now operation r =
     (let key = TrimSpace (rq_Key r) in
      if key = [] then return (Inr ([], []))
      else if length key < 8 \<or> length key > 200 then return (Inl ErrInvalidRequest)
      else let h = key_hash S operation key; fingerprint = requestFingerprint S r in do {
        e \<leftarrow> exec (\<lambda>ok. db_RememberIdempotency ok
          \<lparr>i_KeyHash = h, i_Operation = operation, i_TransferID = [], i_ResponseCode = [], i_CreatedAt = now,
           i_ExpiresAt = now + idempotencyTTL, i_RequestFingerprint = fingerprint\<rparr>);
        return (case e of
          Inl _ \<Rightarrow> Inl ErrInternal
        | Inr None \<Rightarrow> Inr (h, [])
        | Inr (Some existing) \<Rightarrow>
            if i_RequestFingerprint existing \<noteq> fingerprint then Inl ErrIdempotencyConflict
            else if i_ResponseCode existing \<noteq> [] then Inr (h, i_ResponseCode existing)
            else if i_TransferID existing \<noteq> [] then Inl ErrIdempotencyConflict
            else Inl ErrStateConflict)
      })"

definition completeIdempotent :: "string \<Rightarrow> string \<Rightarrow> string \<Rightarrow> unit svc" where
  "completeIdempotent h transferID code =
     (if h = [] then return ()
      else do { _ \<leftarrow> exec (\<lambda>ok. db_CompleteIdempotency ok h transferID code); return () })"

definition forget :: "string \<Rightarrow> unit svc" where
  "forget h =
     (if h = [] then return ()
      else do { _ \<leftarrow> exec (\<lambda>ok. db_ForgetIdempotency ok h); return () })"

section \<open>Simple uploads\<close>

text \<open>A multipart part: its form name, its file name, the chunks of its body and whether it ends cleanly.\<close>

record part =
  p_Form :: string
  p_File :: string
  p_Chunks :: "bytes list"
  p_EOF :: bool

definition readField :: "part \<Rightarrow> int \<Rightarrow> string result" where
  "readField p limit =
     (if int (length (concat (p_Chunks p))) \<ge> limit then Inl ErrInvalidRequest
      else if \<not> p_EOF p then Inl ErrNetwork else Inr (concat (p_Chunks p)))"

text \<open>
  What the environment answers during a request: the disk usage at each check, the clock, the
  random identifiers and code draws, and \<^verbatim>\<open>time.ParseDuration\<close>. The first number is the part.
\<close>

record env =
  o_usage :: "disk_usage option"
  o_disk :: "nat \<Rightarrow> nat \<Rightarrow> disk_usage option"
  o_now :: "nat \<Rightarrow> time"
  o_key :: time
  o_begin :: time
  o_commit :: time
  o_publish :: time
  o_id :: string
  o_segID :: "nat \<Rightarrow> string"
  o_draws :: "nat \<Rightarrow> 8 word list"
  o_ParseDuration :: "string \<Rightarrow> int option"

fun upload_parts ::
  "server \<Rightarrow> env \<Rightarrow> part list \<Rightarrow> bool \<Rightarrow> nat \<Rightarrow> SimpleSession \<Rightarrow> (SimpleSession result) svc" where
  "upload_parts S env [] clean n ss = return (if clean then Inr ss else Inl ErrNetwork)"
| "upload_parts S env (p # ps) clean n ss =
     (if p_Form p = ''file'' then do {
        r \<leftarrow> AddFile S (o_disk env n) (o_now env n) (o_segID env n) (p_File p) (p_Chunks p) (p_EOF p) ss;
        case r of Inl e \<Rightarrow> return (Inl e) | Inr ss' \<Rightarrow> upload_parts S env ps clean (Suc n) ss'
      }
      else if p_Form p = ''note'' then
        (case readField p (int MaxNoteBytesHard + 1) of Inl e \<Rightarrow> return (Inl e) | Inr v \<Rightarrow>
         case SetNote S v ss of Inl e \<Rightarrow> return (Inl e) | Inr ss' \<Rightarrow> upload_parts S env ps clean (Suc n) ss')
      else if p_Form p = ''ttl'' then
        (case readField p 32 of Inl e \<Rightarrow> return (Inl e) | Inr v \<Rightarrow>
         case ParseTTL (o_ParseDuration env) (TrimSpace v) of Inl e \<Rightarrow> return (Inl e) | Inr minutes \<Rightarrow>
         case SetTTL S minutes ss of Inl e \<Rightarrow> return (Inl e) | Inr ss' \<Rightarrow> upload_parts S env ps clean (Suc n) ss')
      else upload_parts S env ps clean (Suc n) ss)"

text \<open>An error of a handler that has begun: the key is released and the session aborted.\<close>

definition fail_upload :: "string \<Rightarrow> SimpleSession \<Rightarrow> errcode \<Rightarrow> ((string \<times> nat) result) svc" where
  "fail_upload h ss e = do { _ \<leftarrow> forget h; _ \<leftarrow> Abort ss; return (Inl e) }"

definition finish_upload :: "server \<Rightarrow> env \<Rightarrow> string \<Rightarrow> SimpleSession \<Rightarrow> SimpleSession \<Rightarrow> ((string \<times> nat) result) svc" where
  "finish_upload S env h ss0 ss = do {
     r \<leftarrow> simple_Commit S (o_draws env) (o_commit env) (o_publish env) ss;
     case r of
       Inl e \<Rightarrow> fail_upload h ss0 e
     | Inr resp \<Rightarrow> do {
         _ \<leftarrow> completeIdempotent h (ss_id ss) (cp_Code resp);
         return (Inr (cp_Code resp, 201))
       }
   }"

text \<open>Both handlers answer with a code and a status.\<close>

definition handleSimpleUpload ::
  "server \<Rightarrow> env \<Rightarrow> request \<Rightarrow> bool \<Rightarrow> part list \<Rightarrow> bool \<Rightarrow> ((string \<times> nat) result) svc" where
  "handleSimpleUpload S env r multipart parts clean = do {
     b \<leftarrow> beginIdempotent S (o_key env) ''simple-send'' r;
     case b of Inl e \<Rightarrow> return (Inl e) | Inr (h, replay) \<Rightarrow>
       if replay \<noteq> [] then return (Inr (replay, 200))
       else if \<not> multipart then do { _ \<leftarrow> forget h; return (Inl ErrInvalidRequest) }
       else do {
         s \<leftarrow> BeginSimple S (o_usage env) (o_begin env) (o_id env);
         case s of Inl e \<Rightarrow> do { _ \<leftarrow> forget h; return (Inl e) } | Inr ss \<Rightarrow> do {
           up \<leftarrow> upload_parts S env parts clean 0 ss;
           case up of Inl e \<Rightarrow> fail_upload h ss e | Inr ss' \<Rightarrow> finish_upload S env h ss ss'
         }
       }
   }"

definition handleRawUpload ::
  "server \<Rightarrow> env \<Rightarrow> request \<Rightarrow> bytes list \<Rightarrow> bool \<Rightarrow> ((string \<times> nat) result) svc" where
  "handleRawUpload S env r chunks eof = do {
     b \<leftarrow> beginIdempotent S (o_key env) ''raw-send'' r;
     case b of Inl e \<Rightarrow> return (Inl e) | Inr (h, replay) \<Rightarrow>
       if replay \<noteq> [] then return (Inr (replay, 200))
       else let filename = TrimSpace (rq_Filename r) in
         if filename = [] then do { _ \<leftarrow> forget h; return (Inl ErrInvalidRequest) }
         else case SimpleRawTTL S (o_ParseDuration env) (rq_TTL r) of
           Inl e \<Rightarrow> do { _ \<leftarrow> forget h; return (Inl e) }
         | Inr minutes \<Rightarrow> do {
             s \<leftarrow> BeginSimple S (o_usage env) (o_begin env) (o_id env);
             case s of Inl e \<Rightarrow> do { _ \<leftarrow> forget h; return (Inl e) } | Inr ss \<Rightarrow>
               case SetTTL S minutes ss of Inl e \<Rightarrow> fail_upload h ss e | Inr ss1 \<Rightarrow>
               case (if rq_NoteHeader r = [] then Inr ss1 else SetNote S (rq_NoteHeader r) ss1) of
                 Inl e \<Rightarrow> fail_upload h ss e
               | Inr ss2 \<Rightarrow> do {
                   f \<leftarrow> AddFile S (o_disk env 0) (o_now env 0) (o_segID env 0) filename chunks eof ss2;
                   case f of Inl e \<Rightarrow> fail_upload h ss e | Inr ss3 \<Rightarrow> finish_upload S env h ss ss3
                 }
           }
   }"

definition handleCreateTransfer ::
  "server \<Rightarrow> env \<Rightarrow> (nat \<Rightarrow> string) \<Rightarrow> request \<Rightarrow> create_req option
   \<Rightarrow> ((string \<times> UploadResource list) result) svc" where
  "handleCreateTransfer S env uploadIDs r body = do {
     b \<leftarrow> beginIdempotent S (o_key env) ''create-transfer'' r;
     case b of Inl e \<Rightarrow> return (Inl e) | Inr (h, replay) \<Rightarrow>
       if replay \<noteq> [] then return (Inl ErrIdempotencyConflict)
       else case body of
         None \<Rightarrow> do { _ \<leftarrow> forget h; return (Inl ErrInvalidRequest) }
       | Some req \<Rightarrow> do {
           c \<leftarrow> svc_CreateTransfer S (o_usage env) (o_begin env) (o_id env) uploadIDs req;
           case c of
             Inl e \<Rightarrow> do { _ \<leftarrow> forget h; return (Inl e) }
           | Inr resp \<Rightarrow> do { _ \<leftarrow> completeIdempotent h (fst resp) []; return (Inr resp) }
         }
   }"

section \<open>The handlers keep the invariant\<close>

lemma kept_keys:
  "wp (exec (\<lambda>ok. db_RememberIdempotency ok rec)) (\<lambda>_. kept S w) w"
  "wp (exec (\<lambda>ok. db_CompleteIdempotency ok h t c)) (\<lambda>_. kept S w) w"
  "wp (exec (\<lambda>ok. db_ForgetIdempotency ok h)) (\<lambda>_. kept S w) w"
proof -
  have same: "rows_step d (snd (db_RememberIdempotency ok rec d))" "rows_step d (snd (db_CompleteIdempotency ok h t c d))"
    "rows_step d (snd (db_ForgetIdempotency ok h d))" if "rows_ok d" for ok d
    unfolding db_RememberIdempotency_def db_CompleteIdempotency_def db_ForgetIdempotency_def
    by (rule rows_step_write [OF that];
        auto intro!: rows_step_same [OF that] simp: Let_def split: if_splits option.splits)+
  show "wp (exec (\<lambda>ok. db_RememberIdempotency ok rec)) (\<lambda>_. kept S w) w"
    "wp (exec (\<lambda>ok. db_CompleteIdempotency ok h t c)) (\<lambda>_. kept S w) w"
    "wp (exec (\<lambda>ok. db_ForgetIdempotency ok h)) (\<lambda>_. kept S w) w"
    by (rule kept_wp, rule inv_exec; auto intro: inv_intros same dest: server_invD)+
qed

lemma kept_key_ops:
  "wp (forget h) (\<lambda>_. kept S w) w" "wp (completeIdempotent h t c) (\<lambda>_. kept S w) w"
  "wp (beginIdempotent S now op r) (\<lambda>_. kept S w) w"
  unfolding forget_def completeIdempotent_def beginIdempotent_def
  by (intro kept.steps kept_keys)+

lemma kept_fail_upload: "wp (fail_upload h ss e) (\<lambda>_. kept S w) w"
  unfolding fail_upload_def by (intro kept.steps kept_key_ops kept_Abort)

text \<open>The start of a handler leaves an unused identifier unused.\<close>

lemma beginIdempotent_unused:
  assumes "server_inv S w" and "unused i w"
  shows "wp (beginIdempotent S now op r) (\<lambda>_ w'. server_inv S w' \<and> unused i w') w"
proof -
  have "wp (exec (\<lambda>ok. db_RememberIdempotency ok rec)) (\<lambda>_. unused i) w" for rec
    by (rule wp_exec)
      (use assms(2) in \<open>auto simp: unused_def db_RememberIdempotency_def db_write_def split: option.splits sum.splits\<close>)
  then have "wp (State_Monad.bind (exec (\<lambda>ok. db_RememberIdempotency ok rec)) (\<lambda>e. return (g e))) (\<lambda>_. unused i) w"
    for rec and g :: "go_error + Idempotency option \<Rightarrow> (string \<times> string) result"
    by (rule wp_bindI) simp
  then have "wp (beginIdempotent S now op r) (\<lambda>_. unused i) w"
    using assms(2) by (simp add: beginIdempotent_def Let_def del: wp_bind)
  from wp_conj [OF wp_kept [OF kept_key_ops(3) assms(1)] this] show ?thesis .
qed

text \<open>What the parts of a multipart body add to the manifest.\<close>

fun part_entries :: "server \<Rightarrow> env \<Rightarrow> part list \<Rightarrow> nat \<Rightarrow> entry list" where
  "part_entries S env [] n = []"
| "part_entries S env (p # ps) n =
     (if p_Form p = ''file''
      then [simple_entry S (sanitizeUploadName (p_File p)) (concat (p_Chunks p)) (wrap64 (o_now env n)) (o_segID env n)]
      else []) @ part_entries S env ps (Suc n)"

lemma upload_parts_post:
  assumes "session_ok S ss w" and "config_ok S"
  shows "wp (upload_parts S env ps clean n ss) (\<lambda>r w'. server_inv S w' \<and> (\<forall>ss'. r = Inr ss' \<longrightarrow> session_ok S ss' w'
    \<and> ss_id ss' = ss_id ss \<and> ss_entries ss' = ss_entries ss @ part_entries S env ps n \<and> clean)) w"
  using assms(1)
proof (induction ps arbitrary: n ss w)
  case Nil
  then show ?case by (auto simp: session_ok_def uploadable_def)
next
  case (Cons p ps)
  note inv = uploadable_inv [of S "ss_id ss" w]
  have i: "server_inv S w" using Cons.prems by (simp add: session_ok_def uploadable_def)
  show ?case
  proof (cases "p_Form p = ''file''")
    case True
    have "wp (State_Monad.bind (AddFile S (o_disk env n) (o_now env n) (o_segID env n) (p_File p) (p_Chunks p) (p_EOF p) ss)
        (case_sum (\<lambda>e. return (Inl e)) (\<lambda>ss'. upload_parts S env ps clean (Suc n) ss')))
      (\<lambda>r w'. server_inv S w' \<and> (\<forall>ss'. r = Inr ss' \<longrightarrow> session_ok S ss' w'
        \<and> ss_id ss' = ss_id ss \<and> ss_entries ss' = ss_entries ss @ part_entries S env (p # ps) n \<and> clean)) w"
    proof (rule wp_bindI [OF AddFile_post [OF Cons.prems]], goal_cases)
      case (1 r w1)
      have "uploadable S (ss_id ss) w1"
        using uploadable_staging 1 Cons.prems by (auto simp: session_ok_def)
      then have i1: "server_inv S w1" by (rule uploadable_inv)
      show ?case
      proof (cases r)
        case (Inl e)
        then show ?thesis using i1 by simp
      next
        case (Inr ss1)
        then have s1: "session_ok S ss1 w1" "ss_id ss1 = ss_id ss"
          "ss_entries ss1 @ part_entries S env ps (Suc n) = ss_entries ss @ part_entries S env (p # ps) n"
          using 1 True by simp_all
        show ?thesis
          unfolding Inr sum.case s1(2,3) [symmetric] by (rule Cons.IH [OF s1(1)])
      qed
    qed
    then show ?thesis using True by simp
  next
    case False
    have rec: "wp (upload_parts S env ps clean (Suc n) ss') (\<lambda>r w'. server_inv S w' \<and> (\<forall>ss''. r = Inr ss'' \<longrightarrow> session_ok S ss'' w'
        \<and> ss_id ss'' = ss_id ss \<and> ss_entries ss'' = ss_entries ss @ part_entries S env (p # ps) n \<and> clean)) w"
      if "session_ok S ss' w" "ss_id ss' = ss_id ss" "ss_entries ss' = ss_entries ss" for ss'
      using Cons.IH [OF that(1), of "Suc n"] that(2,3) False by simp
    have note_rec: "wp (upload_parts S env ps clean (Suc n) ss') (\<lambda>r w'. server_inv S w' \<and> (\<forall>ss''. r = Inr ss'' \<longrightarrow> session_ok S ss'' w'
        \<and> ss_id ss'' = ss_id ss \<and> ss_entries ss'' = ss_entries ss @ part_entries S env (p # ps) n \<and> clean)) w"
      if "SetNote S v ss = Inr ss'" for v ss'
      using that SetNote_ok [OF that Cons.prems] by (intro rec) (auto simp: SetNote_def split: option.splits)
    have ttl_rec: "wp (upload_parts S env ps clean (Suc n) ss') (\<lambda>r w'. server_inv S w' \<and> (\<forall>ss''. r = Inr ss'' \<longrightarrow> session_ok S ss'' w'
        \<and> ss_id ss'' = ss_id ss \<and> ss_entries ss'' = ss_entries ss @ part_entries S env (p # ps) n \<and> clean)) w"
      if "SetTTL S v ss = Inr ss'" for v ss'
      using that SetTTL_ok [OF that assms(2) Cons.prems] by (intro rec) (auto simp: SetTTL_def split: sum.splits)
    have other: "wp (upload_parts S env ps clean (Suc n) ss) (\<lambda>r w'. server_inv S w' \<and> (\<forall>ss''. r = Inr ss'' \<longrightarrow> session_ok S ss'' w'
        \<and> ss_id ss'' = ss_id ss \<and> ss_entries ss'' = ss_entries ss @ part_entries S env (p # ps) n \<and> clean)) w"
      by (rule rec [OF Cons.prems]) simp_all
    show ?thesis
    proof (cases "p_Form p = ''note''")
      case True
      show ?thesis
        unfolding upload_parts.simps
      proof (simp only: False True if_False if_True, cases "readField p (int MaxNoteBytesHard + 1)", goal_cases)
        case (2 v)
        then show ?case using i note_rec [of v] by (cases "SetNote S v ss") simp_all
      qed (use i in simp)
    next
      case nn: False
      show ?thesis
      proof (cases "p_Form p = ''ttl''")
        case True
        show ?thesis
          unfolding upload_parts.simps
        proof (simp only: False nn True if_False if_True, cases "readField p 32", goal_cases)
          case (2 v)
          show ?case
          proof (cases "ParseTTL (o_ParseDuration env) (TrimSpace v)")
            case (Inr minutes)
            then show ?thesis using 2 i ttl_rec [of minutes] by (cases "SetTTL S minutes ss") simp_all
          qed (use 2 i in simp)
        qed (use i in simp)
      next
        case nt: False
        show ?thesis unfolding upload_parts.simps using other by (simp only: False nn nt if_False)
      qed
    qed
  qed
qed

text \<open>What an answer with status 201 stands for.\<close>

definition uploaded :: "server \<Rightarrow> string \<Rightarrow> entry list \<Rightarrow> (string \<times> nat) result \<Rightarrow> world \<Rightarrow> bool" where
  "uploaded S i es r w \<longleftrightarrow> server_inv S w
     \<and> (\<forall>code. r = Inr (code, 201) \<longrightarrow> (\<exists>m resp. published i m resp w \<and> cp_Code resp = code
          \<and> man_Entries m = es))"

lemma uploaded_Inl [simp]: "uploaded S i es (Inl e) w = server_inv S w"
  by (simp add: uploaded_def)

lemma wp_fail_upload: "server_inv S w \<Longrightarrow> wp (fail_upload h ss e) (uploaded S i es) w"
proof -
  assume "server_inv S w"
  from wp_kept [OF kept_fail_upload this] have "wp (fail_upload h ss e) (\<lambda>_. server_inv S) w" .
  moreover have "wp (fail_upload h ss e) (\<lambda>r _. \<exists>e. r = Inl e) w"
    unfolding fail_upload_def by (intro wp_skip) simp
  ultimately have "wp (fail_upload h ss e) (\<lambda>r w'. server_inv S w' \<and> (\<exists>e. r = Inl e)) w" by (rule wp_conj)
  then show ?thesis by (rule wp_mono) auto
qed

lemma wp_forget_Inl:
  "server_inv S w \<Longrightarrow> wp (State_Monad.bind (forget h) (\<lambda>_. return (Inl e))) (uploaded S i es) w"
  by (rule wp_bindI [OF wp_kept [OF kept_key_ops(1)]]) simp_all

lemma published_keys:
  assumes "server_inv S w" and "published i m resp w"
  shows "wp (completeIdempotent h t c) (\<lambda>_ w'. server_inv S w' \<and> published i m resp w') w"
proof -
  have "wp (completeIdempotent h t c) (\<lambda>_. published i m resp) w"
    unfolding completeIdempotent_def
    using assms(2) by (auto intro!: wp_bindI [of _ "\<lambda>_. published i m resp"] wp_exec
        simp: published_def db_CompleteIdempotency_def db_write_def simp del: wp_bind)
  from wp_conj [OF wp_kept [OF kept_key_ops(2) assms(1)] this] show ?thesis .
qed

lemma wp_finish_upload:
  assumes "session_ok S ss w" and "0 \<le> o_publish env" and "\<And>k. length (o_draws env k) = CodeLength"
    and "ss_id ss = i" and "ss_entries ss = es"
  shows "wp (finish_upload S env h ss0 ss) (uploaded S i es) w"
  unfolding finish_upload_def
proof (rule wp_bindI [OF simple_Commit_post [OF assms(1,2), where draws = "o_draws env"]], goal_cases)
  case (1 k) show ?case by (rule assms(3))
next
  case (2 r w1)
  show ?case
  proof (cases r)
    case (Inl e)
    then show ?thesis using 2 wp_fail_upload by (simp add: committed_to_def)
  next
    case (Inr resp)
    then have p: "server_inv S w1" "published i (simple_manifest (o_commit env) ss) resp w1"
      using 2 assms(4) by (simp_all add: committed_to_def)
    have m: "man_Entries (simple_manifest (o_commit env) ss) = es" using assms(5) by (simp add: simple_manifest_def)
    show ?thesis
      unfolding Inr sum.case
    proof (rule wp_bindI [OF published_keys [OF p]], goal_cases)
      case (1 u w2)
      then show ?case using m by (auto simp: uploaded_def)
    qed
  qed
qed

definition env_ok :: "server \<Rightarrow> env \<Rightarrow> world \<Rightarrow> bool" where
  "env_ok S env w \<longleftrightarrow> config_ok S \<and> unused (o_id env) w \<and> 0 \<le> o_publish env
     \<and> (\<forall>k. length (o_draws env k) = CodeLength)"

lemma handleSimpleUpload_post:
  assumes "server_inv S w" and "env_ok S env w"
  shows "wp (handleSimpleUpload S env r multipart parts clean)
    (uploaded S (o_id env) (part_entries S env parts 0)) w"
proof -
  have env: "config_ok S" "unused (o_id env) w" "0 \<le> o_publish env" "\<And>k. length (o_draws env k) = CodeLength"
    using assms(2) by (simp_all add: env_ok_def)
  let ?Q = "uploaded S (o_id env) (part_entries S env parts 0)"
  show ?thesis
    unfolding handleSimpleUpload_def
  proof (rule wp_bindI [OF beginIdempotent_unused [OF assms(1) env(2)]], goal_cases)
    case (1 b w1)
    then have i1: "server_inv S w1" and u1: "unused (o_id env) w1" by simp_all
    show ?case
    proof (cases b)
      case (Inr hr)
      obtain h replay where hr: "hr = (h, replay)" by (cases hr)
      have "wp (State_Monad.bind (BeginSimple S (o_usage env) (o_begin env) (o_id env))
          (\<lambda>s. case s of Inl e \<Rightarrow> State_Monad.bind (forget h) (\<lambda>_. return (Inl e)) | Inr ss \<Rightarrow>
            State_Monad.bind (upload_parts S env parts clean 0 ss) (\<lambda>up.
              case up of Inl e \<Rightarrow> fail_upload h ss e | Inr ss' \<Rightarrow> finish_upload S env h ss ss'))) ?Q w1"
      proof (rule wp_bindI [OF BeginSimple_post [OF i1 env(1) u1]], goal_cases)
        case (1 s w2)
        show ?case
        proof (cases s)
          case (Inl e)
          then show ?thesis using 1 wp_forget_Inl by (simp del: wp_bind)
        next
          case (Inr ss)
          then have ss: "session_ok S ss w2" "ss_id ss = o_id env" "ss_entries ss = []" using 1 by simp_all
          show ?thesis
            unfolding Inr sum.case
          proof (rule wp_bindI [OF upload_parts_post [OF ss(1) env(1)]], goal_cases)
            case (1 up w3)
            show ?case
            proof (cases up)
              case (Inl e) then show ?thesis using 1 wp_fail_upload by simp
            next
              case (Inr ss')
              then show ?thesis
                using 1 ss env(3,4) wp_finish_upload [of S ss' w3 env] by simp
            qed
          qed
        qed
      qed
      then show ?thesis
        using i1 wp_forget_Inl [OF i1] unfolding Inr hr by (simp add: uploaded_def del: wp_bind)
    qed (use i1 in simp)
  qed
qed

text \<open>The single part of a raw upload.\<close>

lemma handleRawUpload_post:
  assumes "server_inv S w" and "env_ok S env w"
  shows "wp (handleRawUpload S env r chunks eof) (uploaded S (o_id env)
    [simple_entry S (sanitizeUploadName (TrimSpace (rq_Filename r))) (concat chunks) (wrap64 (o_now env 0)) (o_segID env 0)]) w"
    (is "wp _ ?Q w")
proof -
  have env: "config_ok S" "unused (o_id env) w" "0 \<le> o_publish env" "\<And>k. length (o_draws env k) = CodeLength"
    using assms(2) by (simp_all add: env_ok_def)
  show ?thesis
    unfolding handleRawUpload_def
  proof (rule wp_bindI [OF beginIdempotent_unused [OF assms(1) env(2)]], goal_cases)
    case (1 b w1)
    then have i1: "server_inv S w1" and u1: "unused (o_id env) w1" by simp_all
    show ?case
    proof (cases b)
      case (Inr hr)
      obtain h replay where hr: "hr = (h, replay)" by (cases hr)
      have go: "wp (State_Monad.bind (BeginSimple S (o_usage env) (o_begin env) (o_id env))
          (\<lambda>s. case s of Inl e \<Rightarrow> State_Monad.bind (forget h) (\<lambda>_. return (Inl e)) | Inr ss \<Rightarrow>
             case SetTTL S minutes ss of Inl e \<Rightarrow> fail_upload h ss e | Inr ss1 \<Rightarrow>
               case (if rq_NoteHeader r = [] then Inr ss1 else SetNote S (rq_NoteHeader r) ss1) of
                 Inl e \<Rightarrow> fail_upload h ss e
               | Inr ss2 \<Rightarrow> State_Monad.bind
                   (AddFile S (o_disk env 0) (o_now env 0) (o_segID env 0) (TrimSpace (rq_Filename r)) chunks eof ss2)
                   (\<lambda>f. case f of Inl e \<Rightarrow> fail_upload h ss e | Inr ss3 \<Rightarrow> finish_upload S env h ss ss3))) ?Q w1" for minutes
      proof (rule wp_bindI [OF BeginSimple_post [OF i1 env(1) u1]], goal_cases)
        case (1 s w2)
        then have i2: "server_inv S w2" by simp
        show ?case
        proof (cases s)
          case (Inl e)
          then show ?thesis using 1 wp_forget_Inl by (simp del: wp_bind)
        next
          case (Inr ss)
          then have ss: "session_ok S ss w2" "ss_id ss = o_id env" "ss_entries ss = []" using 1 by simp_all
          show ?thesis
          proof (cases "SetTTL S minutes ss")
            case ttl: (Inr ss1)
            have ss1: "session_ok S ss1 w2" "ss_id ss1 = o_id env" "ss_entries ss1 = []"
              using SetTTL_ok [OF ttl env(1) ss(1)] ttl ss by (auto simp: SetTTL_def split: sum.splits)
            show ?thesis
            proof (cases "if rq_NoteHeader r = [] then Inr ss1 else SetNote S (rq_NoteHeader r) ss1")
              case nt: (Inr ss2)
              have ss2: "session_ok S ss2 w2" "ss_id ss2 = o_id env" "ss_entries ss2 = []"
                using nt ss1 SetNote_ok [of S _ ss1 ss2 w2] by (auto simp: SetNote_def split: if_splits option.splits)
              show ?thesis
                unfolding Inr ttl nt sum.case
              proof (rule wp_bindI [OF AddFile_post [OF ss2(1)]], goal_cases)
                case (1 f w3)
                have i3: "server_inv S w3"
                  using uploadable_staging [of S "ss_id ss2" w2 w3] 1 ss2(1) uploadable_inv by (auto simp: session_ok_def)
                show ?case
                proof (cases f)
                  case (Inl e) then show ?thesis using i3 wp_fail_upload by simp
                next
                  case (Inr ss3)
                  then show ?thesis
                    using 1 ss2 env(3,4) wp_finish_upload [of S ss3 w3 env] by simp
                qed
              qed
            qed (use Inr ttl i2 wp_fail_upload in simp)
          qed (use Inr i2 wp_fail_upload in simp)
        qed
      qed
      show ?thesis
        using i1 wp_forget_Inl [OF i1] go unfolding Inr hr
        by (simp add: uploaded_def Let_def split: sum.split del: wp_bind)
    qed (use i1 in simp)
  qed
qed

lemma handleCreateTransfer_inv:
  assumes "server_inv S w" and "env_ok S env w"
  shows "wp (handleCreateTransfer S env us r body) (\<lambda>_. server_inv S) w"
proof -
  have env: "config_ok S" "unused (o_id env) w" using assms(2) by (simp_all add: env_ok_def)
  show ?thesis
    unfolding handleCreateTransfer_def
  proof (rule wp_bindI [OF beginIdempotent_unused [OF assms(1) env(2)]], goal_cases)
    case (1 b w1)
    then have i1: "server_inv S w1" and u1: "unused (o_id env) w1" by simp_all
    have f: "wp (State_Monad.bind (forget h) (\<lambda>_. return x)) (\<lambda>_. server_inv S) w'"
      if "server_inv S w'" for h w' and x :: "(string \<times> UploadResource list) result"
      by (rule wp_bindI [OF wp_kept [OF kept_key_ops(1) that]]) simp
    have c: "wp (State_Monad.bind (completeIdempotent h t cd) (\<lambda>_. return x)) (\<lambda>_. server_inv S) w'"
      if "server_inv S w'" for h t cd w' and x :: "(string \<times> UploadResource list) result"
      by (rule wp_bindI [OF wp_kept [OF kept_key_ops(2) that]]) simp
    show ?case
    proof (cases b)
      case (Inr hr)
      obtain h replay where hr: "hr = (h, replay)" by (cases hr)
      show ?thesis
      proof (cases body)
        case (Some req)
        have "wp (State_Monad.bind (svc_CreateTransfer S (o_usage env) (o_begin env) (o_id env) us req) (\<lambda>c. case c of
             Inl e \<Rightarrow> State_Monad.bind (forget h) (\<lambda>_. return (Inl e))
           | Inr resp \<Rightarrow> State_Monad.bind (completeIdempotent h (fst resp) []) (\<lambda>_. return (Inr resp)))) (\<lambda>_. server_inv S) w1"
          by (rule wp_bindI [OF inv_svc_CreateTransfer [OF i1 env(1) u1]])
            (use f c in \<open>auto split: sum.split simp del: wp_bind\<close>)
        then show ?thesis using i1 unfolding Inr hr Some by (simp del: wp_bind)
      qed (use i1 f [OF i1] Inr hr in \<open>simp del: wp_bind\<close>)
    qed (use i1 in simp)
  qed
qed


section \<open>Replays\<close>

text \<open>The operations of a session leave the idempotency keys alone and consume no fault that is not there.\<close>

definition same_keys :: "world \<Rightarrow> world \<Rightarrow> bool" where
  "same_keys w w' \<longleftrightarrow> idempotency_keys (w_db w') = idempotency_keys (w_db w) \<and> (w_faults w = [] \<longrightarrow> w_faults w' = [])"

interpretation keys: effect same_keys
  by unfold_locales (auto simp: same_keys_def)

lemma keys_io: "wp io (\<lambda>_. same_keys w) w"
  by (simp add: io_def same_keys_def split: list.split)

lemma keys_after_io:
  assumes "\<And>ok w'. same_keys w w' \<Longrightarrow> case f w' of (x, w'') \<Rightarrow> same_keys w w''"
  shows "wp (State_Monad.bind io (\<lambda>ok. State f)) (\<lambda>_. same_keys w) w"
  by (rule wp_bindI [OF keys_io]) (use assms in simp)

lemma keys_exec:
  assumes "\<And>ok d. idempotency_keys (snd (f ok d)) = idempotency_keys d"
  shows "wp (exec f) (\<lambda>_. same_keys w) w"
  unfolding exec_def
proof (rule wp_bindI [OF keys_io], goal_cases)
  case (1 ok w')
  then show ?case using assms [of ok "w_db w'"] by (auto simp: same_keys_def split: prod.splits)
qed

lemma keys_stage: "wp (stage i f) (\<lambda>_. same_keys w) w"
  unfolding stage_def by (rule wp_bindI [OF keys_io]) (auto simp: same_keys_def split: option.split)

lemma keys_fs:
  "wp (exists_in t i) (\<lambda>_. same_keys w) w" "wp (query g) (\<lambda>_. same_keys w) w"
  "wp (rename_live i) (\<lambda>_. same_keys w) w" "wp (RemoveStaging i) (\<lambda>_. same_keys w) w"
  unfolding exists_in_def query_def rename_live_def RemoveStaging_def
  by (rule wp_bindI [OF keys_io]; auto simp: same_keys_def split: option.split)+

lemma keys_staging:
  "wp (on_payload i p) (\<lambda>_. same_keys w) w" "wp (PrepareStaging i) (\<lambda>_. same_keys w) w"
  "wp (SealPayload i) (\<lambda>_. same_keys w) w" "wp (WriteManifest i m) (\<lambda>_. same_keys w) w"
  "wp (remember_manifest i m) (\<lambda>_. same_keys w) w"
  unfolding on_payload_def PrepareStaging_def SealPayload_def WriteManifest_def all_ok.simps
    mkdir_root_def mkdir_payload_def mkdir_segments_def mkdir_packs_def
  by (intro keys.steps keys_stage keys_io)+ (simp add: remember_manifest_def same_keys_def)

lemma keys_transfers:
  "wp (exec (\<lambda>ok. db_CreateTransfer ok t)) (\<lambda>_. same_keys w) w"
  "wp (exec (\<lambda>ok. db_SetState ok i s)) (\<lambda>_. same_keys w) w"
  "wp (exec (\<lambda>ok. db_SetNoteAndTTL ok i n k)) (\<lambda>_. same_keys w) w"
  by (rule keys_exec;
      auto simp: db_CreateTransfer_def db_SetState_def db_SetNoteAndTTL_def db_write_def Let_def split: option.splits)+

lemma keys_publish_loop:
  "publish_loop cs t a e dg n d = Inr (t', d') \<Longrightarrow> idempotency_keys d' = idempotency_keys d"
  by (induction cs) (auto simp: Let_def split: if_splits)

lemma keys_Publish: "wp (exec (\<lambda>ok. db_Publish ok draws i now ttl dg n)) (\<lambda>_. same_keys w) w"
  by (rule keys_exec)
    (auto simp: db_Publish_def db_write_def Let_def dest: keys_publish_loop split: option.splits sum.splits if_splits)

lemmas keys_prims = keys_io keys_stage keys_fs keys_staging keys_transfers keys_Publish

lemma keys_receive_loop: "wp (receive_loop S disk i k st cs eof h s n) (\<lambda>_. same_keys w) w"
proof (induction cs arbitrary: h s n w)
  case (Cons c cs)
  show ?case unfolding receive_loop.simps by (intro keys.steps keys_prims Cons.IH)
qed (simp add: keys.refl)

lemma keys_AddFile: "wp (AddFile S disk now sid name cs eof ss) (\<lambda>_. same_keys w) w"
  unfolding AddFile_def by (intro keys.steps keys_prims keys_receive_loop)

lemma keys_upload_parts: "wp (upload_parts S env ps clean n ss) (\<lambda>_. same_keys w) w"
proof (induction ps arbitrary: n ss w)
  case (Cons p ps)
  show ?case unfolding upload_parts.simps by (intro keys.steps keys_AddFile Cons.IH)
qed (simp add: keys.refl)

lemma keys_BeginSimple: "wp (BeginSimple S u now i) (\<lambda>_. same_keys w) w"
  unfolding BeginSimple_def by (intro keys.steps keys_prims)

lemma keys_simple_Commit: "wp (simple_Commit S draws n1 n2 ss) (\<lambda>_. same_keys w) w"
  unfolding simple_Commit_def svc_publish_def writeAndDigestManifest_def lay_Publish_def
  by (intro keys.steps keys_prims)

text \<open>The key as a begun operation leaves it, and as a completed one does.\<close>

definition key_row :: "string \<Rightarrow> string \<Rightarrow> string \<Rightarrow> string \<Rightarrow> db \<Rightarrow> bool" where
  "key_row h fingerprint transferID code d \<longleftrightarrow>
     (\<exists>r. irow d h = Some r \<and> string_of_null (ir_request_fingerprint r) = fingerprint
        \<and> string_of_null (ir_transfer_id r) = transferID \<and> string_of_null (ir_response_code r) = code)"

lemma key_row_same: "same_keys w w' \<Longrightarrow> key_row h f t c (w_db w) \<Longrightarrow> key_row h f t c (w_db w')"
  by (simp add: same_keys_def key_row_def)

lemma string_of_nullString: "string_of_null (nullString s) = s"
  by (simp add: string_of_null_def nullString_def)

abbreviation request_key :: "request \<Rightarrow> string" where "request_key r \<equiv> TrimSpace (rq_Key r)"

lemma run_beginIdempotent_replay:
  assumes "w_faults w = []" and "8 \<le> length (request_key r)" and "length (request_key r) \<le> 200"
    and "key_row (key_hash S op (request_key r)) (requestFingerprint S r) t code (w_db w)" and "code \<noteq> []"
  shows "run_state (beginIdempotent S now op r) w = (Inr (key_hash S op (request_key r), code), w)"
proof -
  have "request_key r \<noteq> []" using assms(2) by auto
  with assms show ?thesis
    by (auto simp: beginIdempotent_def Let_def key_row_def db_RememberIdempotency_def db_write_def scanIdempotency_def)
qed

lemma run_beginIdempotent_new:
  assumes "w_faults w = []" and "8 \<le> length (request_key r)"
    and "run_state (beginIdempotent S now op r) w = (Inr (h, []), w')"
  shows "h = key_hash S op (request_key r) \<and> w_faults w' = []
    \<and> (\<exists>t. key_row h (requestFingerprint S r) t [] (w_db w'))"
proof -
  have null: "string_of_null (None :: string option) = []" by (simp add: string_of_null_def)
  show ?thesis
    using assms
    by (auto simp: beginIdempotent_def Let_def key_row_def db_RememberIdempotency_def db_write_def scanIdempotency_def
        string_of_nullString tbl_insert_def tbl_find_append null nullString_def [of "[]"]
        split: if_splits option.splits)
qed

lemma run_completeIdempotent:
  assumes "w_faults w = []" and "key_row h f t c (w_db w)" and "h \<noteq> []"
  shows "\<exists>w'. run_state (completeIdempotent h t' c') w = ((), w') \<and> w_faults w' = [] \<and> key_row h f t' c' (w_db w')"
  using assms
  by (auto simp: completeIdempotent_def key_row_def db_CompleteIdempotency_def db_write_def tbl_find_modify string_of_nullString)

text \<open>
  C24: a retried upload is not a second upload. Without faults, when a simple upload under an
  idempotency key has answered 201 with a code, sending the same request again under that key,
  whatever body comes with it, answers 200 with the same code and changes nothing at all.
\<close>

theorem simple_upload_replayed:
  assumes "w_faults w = []" and "8 \<le> length (request_key r)" and "length (request_key r) \<le> 200"
    and "key_hash S ''simple-send'' (request_key r) \<noteq> []" and "code \<noteq> []"
    and "run_state (handleSimpleUpload S env r multipart parts clean) w = (Inr (code, 201), w')"
  shows "run_state (handleSimpleUpload S env' r multipart' parts' clean') w' = (Inr (code, 200), w')"
proof -
  let ?h = "key_hash S ''simple-send'' (request_key r)" and ?f = "requestFingerprint S r"
  let ?K = "\<lambda>c w. w_faults w = [] \<and> (\<exists>t. key_row ?h ?f t c (w_db w))"
  have step: "same_keys u v \<Longrightarrow> ?K c u \<Longrightarrow> ?K c v" for u v c
    using key_row_same [of u v] unfolding same_keys_def by blast
  let ?Q = "\<lambda>(res :: (string \<times> nat) result) (w' :: world). \<forall>code. res = Inr (code, 201) \<longrightarrow> ?K code w'"
  have fail: "wp (fail_upload h ss e) ?Q v" for h ss e v
    unfolding fail_upload_def by (intro wp_skip) simp
  have forgotten: "wp (State_Monad.bind (forget h) (\<lambda>_. return (Inl e))) ?Q v" for h e v
    by (intro wp_skip) simp
  have finish: "wp (finish_upload S env ?h ss0 ss) ?Q v" if K: "?K [] v" for ss0 ss v
    unfolding finish_upload_def
  proof (rule wp_bindI [OF keys_simple_Commit], goal_cases)
    case (1 res u)
    then obtain t where u: "w_faults u = []" "key_row ?h ?f t [] (w_db u)" using step [OF _ K] by blast
    show ?case
    proof (cases res)
      case (Inr resp)
      from run_completeIdempotent [OF u assms(4), of "ss_id ss" "cp_Code resp"]
      obtain x where "run_state (completeIdempotent ?h (ss_id ss) (cp_Code resp)) u = ((), x)" "?K (cp_Code resp) x" by blast
      then show ?thesis by (simp add: Inr wp_def [of "completeIdempotent _ _ _"])
    qed (use fail in simp)
  qed
  have "wp (handleSimpleUpload S env r multipart parts clean) ?Q w"
    unfolding handleSimpleUpload_def
  proof (rule wp_bindI [of _ "\<lambda>b v. run_state (beginIdempotent S (o_key env) ''simple-send'' r) w = (b, v)"], goal_cases)
    case 1 show ?case by (simp add: wp_def split: prod.split)
  next
    case (2 b v)
    show ?case
    proof (cases "\<exists>h. b = Inr (h, [])")
      case True
      then obtain h where b: "b = Inr (h, [])" by blast
      from run_beginIdempotent_new [OF assms(1,2) 2 [unfolded b]] have h: "h = ?h" and kv: "?K [] v" by blast+
      have "wp (State_Monad.bind (BeginSimple S (o_usage env) (o_begin env) (o_id env))
          (\<lambda>s. case s of Inl e \<Rightarrow> State_Monad.bind (forget ?h) (\<lambda>_. return (Inl e)) | Inr ss \<Rightarrow>
            State_Monad.bind (upload_parts S env parts clean 0 ss) (\<lambda>up.
              case up of Inl e \<Rightarrow> fail_upload ?h ss e | Inr ss' \<Rightarrow> finish_upload S env ?h ss ss'))) ?Q v"
      proof (rule wp_bindI [OF keys_BeginSimple], goal_cases)
        case (1 s u)
        then have ku: "?K [] u" using step kv by blast
        show ?case
        proof (cases s)
          case (Inr ss)
          show ?thesis
            unfolding Inr sum.case
          proof (rule wp_bindI [OF keys_upload_parts], goal_cases)
            case (1 up x)
            then have "?K [] x" using step ku by blast
            then show ?case using fail finish by (cases up) simp_all
          qed
        qed (use forgotten in \<open>simp del: wp_bind\<close>)
      qed
      then show ?thesis using forgotten unfolding b h by (simp del: wp_bind)
    next
      case False
      then show ?thesis by (auto split: sum.split prod.split)
    qed
  qed
  from wp_run [OF this assms(6)] obtain t where "w_faults w' = []" "key_row ?h ?f t code (w_db w')" by blast
  from run_beginIdempotent_replay [OF this(1) assms(2,3) this(2) assms(5)] assms(5)
  show ?thesis by (simp add: handleSimpleUpload_def)
qed


section \<open>A sample upload\<close>

definition sample_empty_world :: world where
  "sample_empty_world = sample_world\<lparr>w_db := empty_db, w_staging := []\<rparr>"

lemma sample_empty_inv: "server_inv sample_server sample_empty_world"
  using empty_db_ok
  by (auto simp: server_inv_def sample_empty_world_def sample_world_def areas_ok_def rows_ok_def cache_get_def
      newManifestCache_def map_le_def empty_db_def tbl_find_def)

definition sample_env :: env where
  "sample_env = \<lparr>o_usage = sample_disk 0, o_disk = (\<lambda>_. sample_disk), o_now = (\<lambda>_. 1700000000 * second),
     o_key = 1700000000 * second, o_begin = 1700000000 * second, o_commit = 1700000000 * second,
     o_publish = 1700000000 * second, o_id = sample_id, o_segID = (\<lambda>n. ''s-'' @ itoa n), o_draws = sample_draws,
     o_ParseDuration = (\<lambda>_. None)\<rparr>"

definition sample_request :: request where
  "sample_request = \<lparr>rq_Method = ''POST'', rq_Path = ''/v1/simple'', rq_ContentLength = 200, rq_Filename = [],
     rq_TTL = [], rq_NoteHeader = [], rq_Key = ''0123456789''\<rparr>"

definition sample_parts :: "part list" where
  "sample_parts = [\<lparr>p_Form = ''note'', p_File = [], p_Chunks = [''hi''], p_EOF = True\<rparr>,
     \<lparr>p_Form = ''file'', p_File = ''C:/docs/read.me'', p_Chunks = [''he'', ''llo''], p_EOF = True\<rparr>]"

definition sample_upload :: "(string \<times> nat) result \<times> world" where
  "sample_upload = run_state (handleSimpleUpload sample_server sample_env sample_request True sample_parts True) sample_empty_world"

lemma sample_upload_run:
  "run_state (handleSimpleUpload sample_server sample_env sample_request True sample_parts True) sample_empty_world
   = (Inr (FormatCode sample_code, 201), snd sample_upload)"
proof -
  have "fst sample_upload = Inr (FormatCode sample_code, 201)" by code_simp
  then show ?thesis by (simp add: sample_upload_def prod_eq_iff)
qed

lemma sample_upload_world: "w_faults (snd sample_upload) = []"
  by code_simp

lemma sample_env_ok: "env_ok sample_server sample_env sample_empty_world"
  using sample_draws_length
  by (simp add: env_ok_def sample_env_def unused_def sample_empty_world_def sample_world_def config_ok_def
      sample_server_def empty_db_def tbl_find_def second_def)


theorem simple_upload_replayed_witness:
  "run_state (handleSimpleUpload sample_server sample_env sample_request False [] False) (snd sample_upload)
   = (Inr (FormatCode sample_code, 200), snd sample_upload)"
proof -
  have "w_faults sample_empty_world = []" "8 \<le> length (request_key sample_request)"
    "length (request_key sample_request) \<le> 200" "key_hash sample_server ''simple-send'' (request_key sample_request) \<noteq> []"
    "FormatCode sample_code \<noteq> []" by code_simp+
  then show ?thesis using sample_upload_run by (rule simple_upload_replayed)
qed

end
