(* ===== verification/SSS_Lifecycle.thy ===== *)
theory SSS_Lifecycle
  imports SSS_Reconcile SSS_Api
begin

text \<open>
  The life of the server: every handler, the cleanup pass and restarts as the steps of one
  relation over worlds, with any faults between them. Two theorems join the components. In
  every reachable world a code that opens names a complete, unexpired transfer; and once a
  transfer is committed its code keeps opening the same payload until it expires, whatever else
  the server does and whatever fails, as long as restarts find the disk readable.
\<close>

section \<open>What a committed transfer survives\<close>

text \<open>Row \<open>r\<close> and live directory \<open>t\<close> of transfer \<open>i\<close> are still there, if they were.\<close>

definition held :: "string \<Rightarrow> transfer_row \<Rightarrow> tdir \<Rightarrow> world \<Rightarrow> bool" where
  "held i r t w \<longleftrightarrow> trow (w_db w) i = Some r \<and> live w i = Some t"

definition holds :: "string \<Rightarrow> transfer_row \<Rightarrow> tdir \<Rightarrow> world \<Rightarrow> world \<Rightarrow> bool" where
  "holds i r t w w' \<longleftrightarrow> (held i r t w \<longrightarrow> held i r t w')"

interpretation holds: effect "holds i r t" for i r t
  by unfold_locales (auto simp: holds_def)

lemma holds_faults: "faults_only w w' \<Longrightarrow> holds i r t w w'"
  by (auto simp: holds_def held_def faults_only_def)

lemma holds_wp: "(held i r t w \<Longrightarrow> wp m (\<lambda>_. held i r t) w) \<Longrightarrow> wp m (\<lambda>_. holds i r t w) w"
  by (cases "held i r t w") (auto simp: holds_def wp_def split: prod.splits)

lemma wp_held: "wp m (\<lambda>_. holds i r t w) w \<Longrightarrow> held i r t w \<Longrightarrow> wp m (\<lambda>_. held i r t) w"
  by (auto simp: holds_def elim!: wp_mono)

lemma holds_reads:
  "wp io (\<lambda>_. holds i r t w) w" "wp (query f) (\<lambda>_. holds i r t w) w"
  "(\<And>w fs. tree (w\<lparr>w_faults := fs\<rparr>) = tree w) \<Longrightarrow> wp (exists_in tree j) (\<lambda>_. holds i r t w) w"
proof -
  show "wp io (\<lambda>_. holds i r t w) w" by (rule wp_mono [OF wp_reads(1) holds_faults])
  show "wp (query f) (\<lambda>_. holds i r t w) w" by (rule wp_mono [OF wp_reads(2) holds_faults])
  show "wp (exists_in tree j) (\<lambda>_. holds i r t w) w" if "\<And>w fs. tree (w\<lparr>w_faults := fs\<rparr>) = tree w"
    by (rule wp_exists_in) (use that in \<open>auto intro: holds_faults\<close>)
qed

lemma holds_exec:
  assumes "\<And>ok d. trow d i = Some r \<Longrightarrow> trow (snd (f ok d)) i = Some r"
  shows "wp (exec f) (\<lambda>_. holds i r t w) w"
  by (rule wp_exec) (simp add: holds_def held_def assms)

lemma holds_staging: "staging_only j w w' \<Longrightarrow> holds i r t w w'"
  by (auto simp: holds_def held_def staging_only_def)

lemma holds_stage: "wp (stage j f) (\<lambda>_. holds i r t w) w"
  by (rule wp_mono [OF stage_frame [OF staging_only_refl] holds_staging])

lemma holds_db_any:
  "wp (exec (\<lambda>ok. db_CreateTransfer ok tr)) (\<lambda>_. holds i r t w) w"
  "wp (exec (\<lambda>ok. db_InsertSegment ok seg)) (\<lambda>_. holds i r t w) w"
  "wp (exec (\<lambda>ok. db_SetSegmentProgress ok a b n st)) (\<lambda>_. holds i r t w) w"
  "wp (exec (\<lambda>ok. db_RememberIdempotency ok rec)) (\<lambda>_. holds i r t w) w"
  "wp (exec (\<lambda>ok. db_CompleteIdempotency ok h x y)) (\<lambda>_. holds i r t w) w"
  "wp (exec (\<lambda>ok. db_ForgetIdempotency ok h)) (\<lambda>_. holds i r t w) w"
  "wp (exec (\<lambda>ok. db_CreateClaim ok c)) (\<lambda>_. holds i r t w) w"
  "wp (exec (\<lambda>ok. db_RenewClaim ok cid at)) (\<lambda>_. holds i r t w) w"
  "wp (exec (\<lambda>ok. db_CompleteClaim ok cid at)) (\<lambda>_. holds i r t w) w"
  by (rule holds_exec;
      auto simp: db_CreateTransfer_def db_InsertSegment_def db_SetSegmentProgress_def db_RememberIdempotency_def
        db_CompleteIdempotency_def db_ForgetIdempotency_def db_CreateClaim_def db_RenewClaim_def db_CompleteClaim_def
        db_write_def Let_def tbl_insert_def tbl_find_append split: option.splits sum.splits if_splits)+

lemma holds_db_other:
  assumes "j \<noteq> i"
  shows "wp (exec (\<lambda>ok. db_SetState ok j s)) (\<lambda>_. holds i r t w) w"
    and "wp (exec (\<lambda>ok. db_SetNoteAndTTL ok j n ttl)) (\<lambda>_. holds i r t w) w"
    and "wp (exec (\<lambda>ok. db_Fail ok j e)) (\<lambda>_. holds i r t w) w"
    and "wp (exec (\<lambda>ok. db_Purge ok j)) (\<lambda>_. holds i r t w) w"
    and "wp (exec (\<lambda>ok. db_AddWireBytes ok j x)) (\<lambda>_. holds i r t w) w"
    and "wp (exec (\<lambda>ok. db_Publish ok draws j now ttl dg mb)) (\<lambda>_. holds i r t w) w"
proof -
  show "wp (exec (\<lambda>ok. db_Publish ok draws j now ttl dg mb)) (\<lambda>_. holds i r t w) w"
    by (rule holds_exec) (simp add: trow_Publish [OF assms [symmetric]])
qed (rule holds_exec; use assms in \<open>simp add: db_SetState_def db_SetNoteAndTTL_def db_Fail_def db_Purge_def
      db_AddWireBytes_def db_write_def purge_rows_def tbl_find_modify tbl_find_delete\<close>)+

lemma holds_files:
  "wp (PrepareStaging j) (\<lambda>_. holds i r t w) w" "wp (RemoveStaging j) (\<lambda>_. holds i r t w) w"
  "wp (mat_Run S j m) (\<lambda>_. holds i r t w) w" "wp (SealPayload j) (\<lambda>_. holds i r t w) w"
  "wp (writeAndDigestManifest S j m) (\<lambda>_. holds i r t w) w" "wp (mkdir_outboards j) (\<lambda>_. holds i r t w) w"
  "wp (remember_manifest j m) (\<lambda>_. holds i r t w) w"
proof -
  show "wp (PrepareStaging j) (\<lambda>_. holds i r t w) w" by (rule wp_mono [OF PrepareStaging_frame holds_staging])
  show "wp (RemoveStaging j) (\<lambda>_. holds i r t w) w" by (rule wp_RemoveStaging) (rule holds_staging)
  show "wp (mat_Run S j m) (\<lambda>_. holds i r t w) w"
    by (rule wp_mono [OF mat_Run_post]) (auto intro: holds_staging)
  show "wp (SealPayload j) (\<lambda>_. holds i r t w) w" "wp (mkdir_outboards j) (\<lambda>_. holds i r t w) w"
    unfolding SealPayload_def mkdir_outboards_def by (rule holds_stage)+
  show "wp (writeAndDigestManifest S j m) (\<lambda>_. holds i r t w) w"
    by (rule wp_mono [OF wp_writeAndDigestManifest]) (auto intro: holds_staging)
  show "wp (remember_manifest j m) (\<lambda>_. holds i r t w) w"
    by (simp add: remember_manifest_def holds_def held_def)
qed

lemma holds_lay_Publish: "j \<noteq> i \<Longrightarrow> wp (lay_Publish j) (\<lambda>_. holds i r t w) w"
proof (rule wp_lay_Publish, goal_cases)
  case (3 ok w')
  then show ?case by (auto simp: moved_def holds_def held_def)
qed (rule holds_faults, assumption)+

lemma holds_publish: "j \<noteq> i \<Longrightarrow> wp (svc_publish S draws now j m ttl note n) (\<lambda>_. holds i r t w) w"
  unfolding svc_publish_def
  by (intro holds.steps holds_db_other holds_files holds_lay_Publish)

section \<open>Uploads of other transfers\<close>

lemma holds_insert_segments: "j \<noteq> i \<Longrightarrow> wp (insert_segments j us n segs) (\<lambda>_. holds i r t w) w"
proof (induction segs arbitrary: n w)
  case (Cons seg segs)
  then show ?case
    unfolding insert_segments.simps by (intro holds.steps holds_db_any holds_db_other holds_files Cons.IH)
qed (simp add: holds.refl)

lemma holds_Admit: "wp (svc_Admit S usage n) (\<lambda>_. holds i r t w) w"
  unfolding svc_Admit_def by (intro holds.steps holds_reads)

lemma holds_CreateTransfer: "j \<noteq> i \<Longrightarrow> wp (svc_CreateTransfer S usage now j us req) (\<lambda>_. holds i r t w) w"
  unfolding svc_CreateTransfer_def
  by (intro holds.steps holds_db_any holds_files holds_insert_segments holds_Admit)

lemma holds_patch_loop: "wp (patch_loop S disk j sid off rem cs eof n since k) (\<lambda>_. holds i r t w) w"
proof (induction cs arbitrary: n since k w)
  case (Cons c cs)
  show ?case unfolding patch_loop.simps on_segments_def by (intro holds.steps holds_stage Cons.IH)
qed (simp add: holds.refl)

lemma holds_finishPatch: "sg_TransferID seg \<noteq> i \<Longrightarrow> wp (finishPatch seg n) (\<lambda>_. holds i r t w) w"
  unfolding finishPatch_def by (intro holds.steps holds_reads holds_db_any holds_db_other)


lemma holds_UploadPatch:
  assumes "tr_state r = StateCommitted"
  shows "wp (UploadPatch S disk uid off chunks eof) (\<lambda>_. holds i r t w) w"
proof (rule holds_wp)
  assume h: "held i r t w"
  have q1: "wp (query (\<lambda>ok. db_GetSegmentByUploadID ok uid)) (\<lambda>_ w'. held i r t w') w"
    by (rule wp_query) (use h in \<open>simp add: held_def\<close>)
  show "wp (UploadPatch S disk uid off chunks eof) (\<lambda>_. held i r t) w"
    unfolding UploadPatch_def
  proof (rule wp_bindI [OF q1], goal_cases)
    case (1 rs w1)
    show ?case
    proof (cases rs)
      case (Inr seg)
      have q2: "wp (query (\<lambda>ok. db_GetTransfer ok (sg_TransferID seg))) (\<lambda>rt w'. held i r t w'
          \<and> (\<forall>tr. rt = Inr tr \<longrightarrow> t_ID tr = sg_TransferID seg \<and> (sg_TransferID seg = i \<longrightarrow> t_State tr = StateCommitted))) w1"
      proof (rule wp_query, intro conjI allI impI)
        fix ok fs tr assume "db_GetTransfer ok (sg_TransferID seg) (w_db w1) = Inr tr"
        then obtain row where row: "trow (w_db w1) (sg_TransferID seg) = Some row" "tr = scanTransfer row" using GetTransfer_row by blast
        show "t_ID tr = sg_TransferID seg" using row tbl_find_key by fastforce
        show "t_State tr = StateCommitted" if "sg_TransferID seg = i" using row that 1 assms by (simp add: held_def)
      qed (use 1 in \<open>simp add: held_def\<close>)
      show ?thesis
        unfolding Inr sum.case
      proof (rule wp_bindI [OF q2], goal_cases)
        case (1 rt w2)
        show ?case
        proof (cases rt)
          case (Inr tr)
          show ?thesis
          proof (cases "t_State tr \<noteq> StateCreated \<and> t_State tr \<noteq> StateUploading")
            case True
            then show ?thesis using 1 Inr by simp
          next
            case False
            then have ne: "t_ID tr \<noteq> i" "sg_TransferID seg \<noteq> i" using 1 Inr by auto
            have "held i r t w2" using 1 by blast
            then show ?thesis
              unfolding Inr sum.case if_not_P [OF False] on_segments_def
              by (rule wp_held [rotated]) (intro holds.steps holds_stage holds_db_other(1) [OF ne(1)]
                holds_patch_loop holds_finishPatch [OF ne(2)])
          qed
        qed (use 1 in simp)
      qed
    qed (use 1 in simp)
  qed
qed


lemma holds_check_staged: "wp (check_staged S j byID segs) (\<lambda>_. holds i r t w) w"
proof (induction segs arbitrary: w)
  case (Cons ms rest)
  have read: "wp (read_staged j sid) (\<lambda>_. holds i r t w) w" for sid w
  proof -
    have "wp (State (\<lambda>w. (f w, w))) (\<lambda>_. holds i r t w) w" for f :: "world \<Rightarrow> bytes option" and w
      by (simp add: holds.refl)
    then show ?thesis unfolding read_staged_def by (intro holds.steps holds_reads)
  qed
  show ?case
    unfolding check_staged.simps OutboardFile_def by (intro holds.steps read holds_stage Cons.IH)
qed (simp add: holds.refl)

lemma holds_Commit:
  assumes "tr_state r = StateCommitted" and "tr_code r = Some c" and "c \<noteq> []"
  shows "wp (svc_Commit S draws now j m) (\<lambda>_. holds i r t w) w"
proof (cases "j = i")
  case False
  then show ?thesis
    unfolding svc_Commit_def
    by (intro holds.steps holds_reads holds_files holds_check_staged holds_db_other holds_publish)
next
  case True
  show ?thesis
  proof (rule holds_wp)
    assume h: "held i r t w"
    have q: "wp (query (\<lambda>ok. db_GetTransfer ok j)) (\<lambda>rt w'. held i r t w' \<and> (\<forall>tr. rt = Inr tr \<longrightarrow> Committed tr)) w"
      by (rule wp_query) (use h assms True in \<open>auto simp: held_def db_GetTransfer_def db_read_def Committed_def
        string_of_null_def split: if_splits\<close>)
    show "wp (svc_Commit S draws now j m) (\<lambda>_. held i r t) w"
      unfolding svc_Commit_def
    proof (rule wp_bindI [OF q], goal_cases)
      case (1 rt w1)
      then show ?case by (cases rt) simp_all
    qed
  qed
qed

text \<open>A simple upload works on its own session's transfer only.\<close>

lemma wp_if: "(b \<Longrightarrow> wp m Q w) \<Longrightarrow> (\<not> b \<Longrightarrow> wp n Q w) \<Longrightarrow> wp (if b then m else n) Q w"
  by simp

lemma AddFile_id: "wp (AddFile S disk now seg name chunks eof ss) (\<lambda>x _. \<forall>ss'. x = Inr ss' \<longrightarrow> ss_id ss' = ss_id ss) w"
  unfolding AddFile_def Let_def
  by (auto simp del: wp_bind intro!: wp_skip split: option.splits sum.splits prod.splits)

lemma holds_receive_loop: "wp (receive_loop S disk j k staged cs eof hashed since n) (\<lambda>_. holds i r t w) w"
proof (induction cs arbitrary: hashed since n w)
  case (Cons c cs)
  show ?case unfolding receive_loop.simps on_payload_def by (intro holds.steps holds_stage Cons.IH)
qed (simp add: holds.refl)

lemma holds_AddFile: "wp (AddFile S disk now seg name chunks eof ss) (\<lambda>_. holds i r t w) w"
  unfolding AddFile_def on_payload_def
  by (intro holds.steps holds_stage holds_receive_loop holds_reads)

lemma holds_keys:
  "wp (forget h) (\<lambda>_. holds i r t w) w" "wp (completeIdempotent h a b) (\<lambda>_. holds i r t w) w"
  "wp (beginIdempotent S now op rq) (\<lambda>_. holds i r t w) w"
  unfolding forget_def completeIdempotent_def beginIdempotent_def by (intro holds.steps holds_db_any)+

definition holds_id :: "string \<Rightarrow> transfer_row \<Rightarrow> tdir \<Rightarrow> world \<Rightarrow> string \<Rightarrow> SimpleSession result \<Rightarrow> world \<Rightarrow> bool" where
  "holds_id i r t w j x w' \<longleftrightarrow> holds i r t w w' \<and> (\<forall>ss. x = Inr ss \<longrightarrow> ss_id ss = j)"

lemma holds_BeginSimple: "wp (BeginSimple S usage now j) (holds_id i r t w j) w"
proof -
  have h: "wp (BeginSimple S usage now j) (\<lambda>_. holds i r t w) w"
    unfolding BeginSimple_def by (intro holds.steps holds_files holds_db_any)
  have id: "wp (BeginSimple S usage now j) (\<lambda>x _. \<forall>ss. x = Inr ss \<longrightarrow> ss_id ss = j) w"
    unfolding BeginSimple_def by (auto simp del: wp_bind intro!: wp_skip split: option.splits sum.splits)
  show ?thesis unfolding holds_id_def [abs_def] by (rule wp_conj [OF h id])
qed

lemma holds_upload_parts: "wp (upload_parts S env ps clean n ss) (holds_id i r t w (ss_id ss)) w"
proof (induction ps arbitrary: n ss w)
  case Nil
  then show ?case by (simp add: holds_id_def holds.refl)
next
  case (Cons p ps)
  have err: "wp (return (Inl e)) (holds_id i r t w (ss_id ss)) w" for e w
    by (simp add: holds_id_def holds.refl)
  have fl: "wp (State_Monad.bind (AddFile S (o_disk env n) (o_now env n) (o_segID env n) (p_File p) (p_Chunks p) (p_EOF p) ss)
      (\<lambda>x. case x of Inl e \<Rightarrow> return (Inl e) | Inr ss' \<Rightarrow> upload_parts S env ps clean (Suc n) ss'))
      (holds_id i r t w (ss_id ss)) w"
  proof (rule wp_bindI [OF wp_conj [OF holds_AddFile [of S _ _ _ _ _ _ ss i r t w] AddFile_id]], goal_cases)
    case (1 x w1)
    show ?case
    proof (cases x)
      case (Inl e)
      then show ?thesis using 1 by (simp add: holds_id_def)
    next
      case (Inr ss')
      have "wp (upload_parts S env ps clean (Suc n) ss') (holds_id i r t w1 (ss_id ss')) w1" by (rule Cons.IH)
      then show ?thesis
        unfolding Inr sum.case
      proof (rule wp_mono)
        fix y w' assume "holds_id i r t w1 (ss_id ss') y w'"
        moreover have "holds i r t w w1" "ss_id ss' = ss_id ss" using 1 Inr by blast+
        ultimately show "holds_id i r t w (ss_id ss) y w'"
          unfolding holds_id_def using holds.trans by metis
      qed
    qed
  qed
  have other: "wp (upload_parts S env ps clean (Suc n) ss') (holds_id i r t w (ss_id ss)) w" if "ss_id ss' = ss_id ss" for ss'
    using Cons.IH [of "Suc n" ss' w] that by simp
  have ids: "SetNote S v ss = Inr ss' \<Longrightarrow> ss_id ss' = ss_id ss" "SetTTL S k ss = Inr ss' \<Longrightarrow> ss_id ss' = ss_id ss" for v k ss'
    by (auto simp: SetNote_def SetTTL_def split: option.splits sum.splits)
  have cont: "wp (case x of Inl e \<Rightarrow> return (Inl e) | Inr ss' \<Rightarrow> upload_parts S env ps clean (Suc n) ss') (holds_id i r t w (ss_id ss)) w"
    if "\<And>ss'. x = Inr ss' \<Longrightarrow> ss_id ss' = ss_id ss" for x
  proof (cases x)
    case (Inl e) show ?thesis unfolding Inl sum.case by (rule err)
  next
    case (Inr ss') show ?thesis unfolding Inr sum.case by (rule other) (rule that [OF Inr])
  qed
  have note_part: "wp (case x of Inl e \<Rightarrow> return (Inl e) | Inr v \<Rightarrow> case SetNote S v ss of Inl e \<Rightarrow> return (Inl e)
      | Inr ss' \<Rightarrow> upload_parts S env ps clean (Suc n) ss') (holds_id i r t w (ss_id ss)) w" for x
  proof (cases x)
    case (Inl e) show ?thesis unfolding Inl sum.case by (rule err)
  next
    case (Inr v) show ?thesis unfolding Inr sum.case by (rule cont) (rule ids(1))
  qed
  have ttl_part: "wp (case x of Inl e \<Rightarrow> return (Inl e) | Inr v \<Rightarrow> case g v of Inl e \<Rightarrow> return (Inl e)
      | Inr k \<Rightarrow> case SetTTL S k ss of Inl e \<Rightarrow> return (Inl e)
      | Inr ss' \<Rightarrow> upload_parts S env ps clean (Suc n) ss') (holds_id i r t w (ss_id ss)) w" for x and g :: "string \<Rightarrow> int result"
  proof (cases x)
    case (Inl e) show ?thesis unfolding Inl sum.case by (rule err)
  next
    case (Inr v)
    show ?thesis
    proof (cases "g v")
      case Inl': (Inl e) show ?thesis unfolding Inr Inl' sum.case by (rule err)
    next
      case Inr': (Inr k) show ?thesis unfolding Inr Inr' sum.case by (rule cont) (rule ids(2))
    qed
  qed
  show ?case
    unfolding upload_parts.simps
    by (intro wp_if fl note_part ttl_part other refl)
qed

lemma holds_fail_upload: "ss_id ss \<noteq> i \<Longrightarrow> wp (fail_upload h ss e) (\<lambda>_. holds i r t w) w"
  unfolding fail_upload_def Abort_def by (intro holds.steps holds_keys holds_files holds_db_other)

lemma holds_finish_upload:
  "ss_id ss0 \<noteq> i \<Longrightarrow> ss_id ss \<noteq> i \<Longrightarrow> wp (finish_upload S env h ss0 ss) (\<lambda>_. holds i r t w) w"
  unfolding finish_upload_def simple_Commit_def
  by (intro holds.steps holds_fail_upload holds_keys holds_publish)


lemma wp_holds_id:
  assumes "wp m (holds_id i r t w j) w" and "\<And>e w'. wp (f (Inl e)) (\<lambda>_. holds i r t w') w'"
    and "\<And>ss w'. ss_id ss = j \<Longrightarrow> wp (f (Inr ss)) (\<lambda>_. holds i r t w') w'"
  shows "wp (State_Monad.bind m f) (\<lambda>_. holds i r t w) w"
proof (rule wp_bindI [OF assms(1)], goal_cases)
  case (1 x w')
  then have h: "holds i r t w w'" by (simp add: holds_id_def)
  have "wp (f x) (\<lambda>_. holds i r t w') w'"
    using assms(2,3) 1 by (cases x) (auto simp: holds_id_def)
  then show ?case by (rule holds.after [OF h])
qed

lemma holds_handleSimpleUpload:
  assumes "o_id env \<noteq> i"
  shows "wp (handleSimpleUpload S env rq multipart parts clean) (\<lambda>_. holds i r t w) w"
proof -
  have body: "wp (State_Monad.bind (BeginSimple S (o_usage env) (o_begin env) (o_id env)) (\<lambda>s. case s of
      Inl e \<Rightarrow> State_Monad.bind (forget h) (\<lambda>_. return (Inl e))
    | Inr ss \<Rightarrow> State_Monad.bind (upload_parts S env parts clean 0 ss) (\<lambda>up. case up of
        Inl e \<Rightarrow> fail_upload h ss e | Inr ss' \<Rightarrow> finish_upload S env h ss ss'))) (\<lambda>_. holds i r t w) w" for h w
  proof (rule wp_holds_id [OF holds_BeginSimple], goal_cases)
    case (1 e w') show ?case unfolding sum.case by (intro holds.steps holds_keys)
  next
    case (2 ss w')
    then show ?case
      unfolding sum.case
      by (intro wp_holds_id [OF holds_upload_parts]) (use assms in \<open>auto simp del: wp_bind intro!: holds_fail_upload holds_finish_upload\<close>)
  qed
  show ?thesis
    unfolding handleSimpleUpload_def by (intro holds.bind [OF holds_keys(3)] holds.case_sm holds.case_pr holds.cond holds.ret body)
      (intro holds.steps holds_keys)
qed

lemma holds_handleRawUpload:
  assumes "o_id env \<noteq> i"
  shows "wp (handleRawUpload S env rq chunks eof) (\<lambda>_. holds i r t w) w"
proof -
  have ids: "SetNote S v ss = Inr ss' \<Longrightarrow> ss_id ss' = ss_id ss" "SetTTL S k ss = Inr ss' \<Longrightarrow> ss_id ss' = ss_id ss" for v k ss ss'
    by (auto simp: SetNote_def SetTTL_def split: option.splits sum.splits)
  have add: "wp (State_Monad.bind (AddFile S d n g f chunks eof ss2) (\<lambda>f. case f of
      Inl e \<Rightarrow> fail_upload h ss e | Inr ss3 \<Rightarrow> finish_upload S env h ss ss3)) (\<lambda>_. holds i r t w) w"
    if "ss_id ss = o_id env" "ss_id ss2 = o_id env" for d n g f ss2 h ss w
  proof (rule wp_holds_id [of _ _ _ _ _ "o_id env"], goal_cases)
    case 1
    show ?case
      unfolding holds_id_def [abs_def] using that(2)
      by (intro wp_conj holds_AddFile wp_mono [OF AddFile_id]) simp
  next
    case (2 e w') then show ?case using that assms by (simp del: wp_bind add: holds_fail_upload)
  next
    case (3 ss3 w') then show ?case using that assms by (simp del: wp_bind add: holds_finish_upload)
  qed
  have body: "wp (State_Monad.bind (BeginSimple S (o_usage env) (o_begin env) (o_id env)) (\<lambda>s. case s of
      Inl e \<Rightarrow> State_Monad.bind (forget h) (\<lambda>_. return (Inl e))
    | Inr ss \<Rightarrow> case SetTTL S minutes ss of Inl e \<Rightarrow> fail_upload h ss e | Inr ss1 \<Rightarrow>
        case (if rq_NoteHeader rq = [] then Inr ss1 else SetNote S (rq_NoteHeader rq) ss1) of
          Inl e \<Rightarrow> fail_upload h ss e
        | Inr ss2 \<Rightarrow> State_Monad.bind (AddFile S (o_disk env 0) (o_now env 0) (o_segID env 0) f chunks eof ss2) (\<lambda>f. case f of
            Inl e \<Rightarrow> fail_upload h ss e | Inr ss3 \<Rightarrow> finish_upload S env h ss ss3))) (\<lambda>_. holds i r t w) w" for h w minutes f
  proof (rule wp_holds_id [OF holds_BeginSimple], goal_cases)
    case (1 e w') show ?case unfolding sum.case by (intro holds.steps holds_keys)
  next
    case (2 ss w')
    have fail: "wp (fail_upload h ss e) (\<lambda>_. holds i r t w') w'" for e
      using 2 assms by (intro holds_fail_upload) simp
    show ?case
      unfolding sum.case
    proof (cases "SetTTL S minutes ss")
      case (Inr ss1)
      show "wp (case SetTTL S minutes ss of Inl e \<Rightarrow> fail_upload h ss e | Inr ss1 \<Rightarrow>
        case (if rq_NoteHeader rq = [] then Inr ss1 else SetNote S (rq_NoteHeader rq) ss1) of
          Inl e \<Rightarrow> fail_upload h ss e
        | Inr ss2 \<Rightarrow> State_Monad.bind (AddFile S (o_disk env 0) (o_now env 0) (o_segID env 0) f chunks eof ss2) (\<lambda>f. case f of
            Inl e \<Rightarrow> fail_upload h ss e | Inr ss3 \<Rightarrow> finish_upload S env h ss ss3)) (\<lambda>_. holds i r t w') w'"
      proof (cases "if rq_NoteHeader rq = [] then Inr ss1 else SetNote S (rq_NoteHeader rq) ss1")
        case Inr2: (Inr ss2)
        have "ss_id ss2 = o_id env" using ids(2) [OF Inr] Inr2 ids(1) 2 by (auto split: if_splits)
        then show ?thesis unfolding Inr sum.case Inr2 by (rule add [OF 2])
      qed (simp only: Inr sum.case fail)
    qed (simp only: sum.case fail)
  qed
  show ?thesis
    unfolding handleRawUpload_def Let_def
    by (intro holds.bind [OF holds_keys(3)] holds.case_sm holds.case_pr holds.cond holds.ret body)
      (intro holds.steps holds_keys)+
qed

lemma holds_handleCreateTransfer:
  assumes "o_id env \<noteq> i"
  shows "wp (handleCreateTransfer S env us rq body) (\<lambda>_. holds i r t w) w"
  unfolding handleCreateTransfer_def
  by (intro holds.steps holds_keys holds_CreateTransfer [OF assms])


section \<open>Receiving, cleaning up and restarting\<close>

lemma holds_lookup:
  assumes "db_ok (w_db w)" and "tr_state r = StateCommitted" and "tr_expires_at r = Some e" and "unix now < e"
  shows "wp (lookupCommitted now code) (\<lambda>_. holds i r t w) w"
proof (rule holds_wp)
  assume h: "held i r t w"
  show "wp (lookupCommitted now code) (\<lambda>_. held i r t) w"
  proof (cases "NormalizeCode code")
    case (Some c)
    have q: "wp (query (\<lambda>ok. db_GetTransferByCode ok c)) (\<lambda>x w1. held i r t w1 \<and> (\<forall>tr. x = Inr tr \<longrightarrow>
        t_ID tr = i \<longrightarrow> tr = scanTransfer r)) w"
    proof (rule wp_query, intro conjI allI impI)
      fix ok fs tr assume "db_GetTransferByCode ok c (w_db w) = Inr tr" and id: "t_ID tr = i"
      then obtain row where row: "find (\<lambda>r. tr_code r = Some c) (transfers (w_db w)) = Some row" "tr = scanTransfer row"
        by (auto simp: db_GetTransferByCode_def db_read_def split: if_splits option.splits)
      then have "trow (w_db w) (tr_id row) = Some row" by (intro row_unique [OF assms(1)]) (auto dest: find_Some_mem)
      then show "tr = scanTransfer r" using h id row(2) by (simp add: held_def)
    qed (use h in \<open>simp add: held_def\<close>)
    have notyet: "now < t_ExpiresAt (scanTransfer r)"
    proof -
      have "now < second * (now div second) + second"
        using pos_mod_bound [OF second_pos, of now] mult_div_mod_eq [of second now] by linarith
      then have "now < (now div second + 1) * second" by (simp add: algebra_simps)
      also have "\<dots> \<le> e * second" using assms(4) less_imp_le [OF second_pos] by (intro mult_right_mono) (auto simp: unix_def)
      finally show ?thesis using assms(3) by (simp add: scanTransfer_def time_of_null_def of_unix_def)
    qed
    show ?thesis
      unfolding lookupCommitted_def Some option.case
    proof (rule wp_bindI [OF q], goal_cases)
      case (1 x w1)
      show ?case
      proof (cases x)
        case (Inr tr)
        show ?thesis
        proof (cases "t_ID tr = i")
          case True
          then have "tr = scanTransfer r" using 1 Inr by blast
          then show ?thesis using 1 Inr assms(2) notyet by simp
        next
          case False
          have h1: "held i r t w1" using 1 by blast
          have ex: "wp (State_Monad.bind (exec (\<lambda>ok. db_SetState ok (t_ID tr) StateExpired))
              (\<lambda>_. return (Inl ErrTransferExpired :: Transfer result))) (\<lambda>_. held i r t) w1"
            by (rule wp_held [OF _ h1]) (intro holds.steps holds_db_other(1) [OF False])
          show ?thesis
            unfolding Inr sum.case by (intro wp_if ex) (simp_all add: h1)
        qed
      qed (use 1 in simp)
    qed
  qed (use h in \<open>simp add: lookupCommitted_def\<close>)
qed

lemma holds_live_reads:
  "wp (open_live j p) (\<lambda>_. holds i r t w) w" "wp (outboardsPresent tr) (\<lambda>_. holds i r t w) w"
  "wp (svc_Manifest S tr) (\<lambda>_. holds i r t w) w" "wp (authorizeClaim S now cid tok) (\<lambda>_. holds i r t w) w"
proof -
  have cache: "wp (remember_manifest j m) (\<lambda>_. holds i r t w) w" for j m w by (rule holds_files)
  have st: "wp (State (\<lambda>w. (f w, w))) (\<lambda>_. holds i r t w) w" for f :: "world \<Rightarrow> 'x" and w by (simp add: holds.refl)
  show "wp (open_live j p) (\<lambda>_. holds i r t w) w" unfolding open_live_def by (intro holds.steps holds_reads st)
  show "wp (outboardsPresent tr) (\<lambda>_. holds i r t w) w"
    unfolding outboardsPresent_def by (intro holds.steps holds_reads st) simp
  show "wp (svc_Manifest S tr) (\<lambda>_. holds i r t w) w"
    unfolding svc_Manifest_def ReadManifest_def by (intro holds.steps holds_reads st cache)
  show "wp (authorizeClaim S now cid tok) (\<lambda>_. holds i r t w) w"
    unfolding authorizeClaim_def by (intro holds.steps holds_reads)
qed

lemma holds_claimSegment: "wp (claimSegment S now cid tok sid) (\<lambda>_. holds i r t w) w"
  unfolding claimSegment_def by (intro holds.steps holds_reads holds_live_reads)

lemma holds_receiving:
  "wp (ClaimSegmentFile S n1 n2 cid tok sid) (\<lambda>_. holds i r t w) w"
  "wp (ClaimOutboardFile S n1 n2 cid tok sid) (\<lambda>_. holds i r t w) w"
  "wp (svc_CompleteClaim S n1 n2 cid tok) (\<lambda>_. holds i r t w) w"
  unfolding ClaimSegmentFile_def ClaimOutboardFile_def svc_CompleteClaim_def
  by (intro holds.steps holds_reads holds_db_any holds_live_reads holds_claimSegment)+

lemma holds_resolving:
  assumes "db_ok (w_db w)" and "tr_state r = StateCommitted" and "tr_expires_at r = Some e" and "unix now < e"
  shows "wp (OpenDownload S now code) (\<lambda>_. holds i r t w) w" and "wp (svc_Metadata S now code) (\<lambda>_. holds i r t w) w"
    and "wp (svc_CreateClaim S now n2 tok cid code) (\<lambda>_. holds i r t w) w" and "wp (LocalPath S now n2 cid code) (\<lambda>_. holds i r t w) w"
  unfolding OpenDownload_def svc_Metadata_def svc_CreateClaim_def LocalPath_def
  by (intro holds.bind [OF holds_lookup [OF assms]]; intro holds.steps holds_reads holds_db_any holds_live_reads; simp)+

lemma held_Sweep:
  assumes "server_inv S w" and "held i r t w" and "tr_state r = StateCommitted" and "tr_expires_at r = Some e" and "unix now < e"
  shows "held i r t (snd (run_state (Sweep S now) w))"
proof -
  have due: "\<not> expiry_due now r" using assms(4,5) by (simp add: expiry_due_def)
  then have "promised S now (w_db w) r" using assms(3) by (simp add: promised_def)
  moreover have "expired_only now r = r" using due by (simp add: expired_only_def)
  ultimately show ?thesis
    using wp_run [OF Sweep_spares [OF assms(1) _ disjI1] prod.collapse [symmetric], of i r now] assms(2) by (simp add: held_def)
qed

lemma start_fresh:
  assumes "server_inv S w"
  shows "start_inv S (w\<lparr>w_cache := newManifestCache n\<rparr>)"
proof -
  have "cache_get (newManifestCache n) = Map.empty" by (auto simp: newManifestCache_def cache_get_def)
  then show ?thesis
    using assms by (simp add: start_inv_def server_inv_def areas_ok_def)
qed

lemma held_restart:
  assumes inv: "server_inv S w" and h: "held i r t w" and st: "tr_state r = StateCommitted"
    and nf: "w_faults w = []" and ord: "visits order" and pos: "\<And>i. 0 \<le> now i" and len: "\<And>i k. length (draws i k) = CodeLength"
    and clear: "clear_draws draws {i. trow (w_db w) i \<noteq> None} (w_db w)"
  shows "held i r t (snd (run_state (reconcile_Run S order draws now) (w\<lparr>w_cache := newManifestCache n\<rparr>)))"
proof -
  let ?w = "w\<lparr>w_cache := newManifestCache n\<rparr>"
  have "w_faults ?w = []" "clear_draws draws {i. trow (w_db ?w) i \<noteq> None} (w_db ?w)" using nf clear by simp_all
  from run_Run [where now = now and draws = draws, OF this(1) start_fresh [OF inv] ord pos len this(2)]
  obtain rep w' where "run_state (reconcile_Run S order draws now) ?w = ((rep, None), w')"
    "settled (draws i) (now i) i r ?w w'" using h by (auto simp: held_def)
  then show ?thesis using h st by (simp add: settled_def held_def same_def is_precommit_def)
qed


section \<open>The life of the server\<close>

text \<open>
  The steps, each at a clock reading \<open>now\<close>. What the environment supplies is constrained as it
  is in the code: fresh identifiers (\<open>env_ok\<close>), eight random bytes per drawn code, clocks after
  1970. A fault step makes any later operations fail; a crash is a list of faults that fails
  everything from some point on, followed by a restart, which empties the cache and reconciles.
  In a calm life the disk can be read at restarts and drawn codes do not collide.
\<close>

inductive step :: "server \<Rightarrow> bool \<Rightarrow> time \<Rightarrow> world \<Rightarrow> world \<Rightarrow> bool" for S calm now where
  faults: "step S calm now w (w\<lparr>w_faults := fs\<rparr>)"
| metadata: "step S calm now w (snd (run_state (svc_Metadata S now code) w))"
| download: "step S calm now w (snd (run_state (OpenDownload S now code) w))"
| claim: "step S calm now w (snd (run_state (svc_CreateClaim S now now2 tok cid code) w))"
| segment: "step S calm now w (snd (run_state (ClaimSegmentFile S now now2 cid tok sid) w))"
| outboard: "step S calm now w (snd (run_state (ClaimOutboardFile S now now2 cid tok sid) w))"
| complete: "step S calm now w (snd (run_state (svc_CompleteClaim S now now2 cid tok) w))"
| local: "step S calm now w (snd (run_state (LocalPath S now now2 cid code) w))"
| simple: "env_ok S env w \<Longrightarrow> step S calm now w (snd (run_state (handleSimpleUpload S env rq multipart parts clean) w))"
| raw: "env_ok S env w \<Longrightarrow> step S calm now w (snd (run_state (handleRawUpload S env rq chunks eof) w))"
| create: "env_ok S env w \<Longrightarrow> step S calm now w (snd (run_state (handleCreateTransfer S env us rq body) w))"
| offset: "step S calm now w (snd (run_state (UploadState uid) w))"
| patch: "step S calm now w (snd (run_state (UploadPatch S disk uid off chunks eof) w))"
| commit: "0 \<le> now \<Longrightarrow> (\<And>k. length (draws k) = CodeLength) \<Longrightarrow>
    step S calm now w (snd (run_state (svc_Commit S draws now i m) w))"
| sweep: "step S calm now w (snd (run_state (Sweep S now) w))"
| restart: "visits order \<Longrightarrow> (\<And>i. 0 \<le> clock i) \<Longrightarrow> (\<And>i k. length (codes i k) = CodeLength) \<Longrightarrow>
    (calm \<Longrightarrow> w_faults w = [] \<and> clear_draws codes {i. trow (w_db w) i \<noteq> None} (w_db w)) \<Longrightarrow>
    step S calm now w (snd (run_state (reconcile_Run S order codes clock) (w\<lparr>w_cache := newManifestCache n\<rparr>)))"

inductive reachable :: "server \<Rightarrow> world \<Rightarrow> bool" for S where
  first: "reachable S \<lparr>w_db = empty_db, w_staging = [], w_live = [], w_trash = [], w_cache = newManifestCache n, w_faults = fs\<rparr>"
| later: "reachable S w \<Longrightarrow> step S False now w w' \<Longrightarrow> reachable S w'"

inductive_cases stepE: "step S calm now w w'"

lemma kept_snd: "wp m (\<lambda>_. kept S w) w \<Longrightarrow> server_inv S w \<Longrightarrow> server_inv S (snd (run_state m w))"
  by (drule (1) wp_kept) (simp add: wp_snd)

lemma uploaded_inv: "uploaded S i es x w' \<Longrightarrow> server_inv S w'"
  by (simp add: uploaded_def)

lemma step_inv:
  assumes "step S calm now w w'" and "server_inv S w"
  shows "server_inv S w'"
  using assms(1)
proof cases
  case (faults fs)
  then show ?thesis using assms(2) by simp
next
  case (simple env rq multipart parts clean)
  have "wp (handleSimpleUpload S env rq multipart parts clean) (\<lambda>_. server_inv S) w"
    by (rule wp_mono [OF handleSimpleUpload_post [OF assms(2) simple(2)]]) (rule uploaded_inv)
  then show ?thesis unfolding simple(1) wp_snd .
next
  case (raw env rq chunks eof)
  have "wp (handleRawUpload S env rq chunks eof) (\<lambda>_. server_inv S) w"
    by (rule wp_mono [OF handleRawUpload_post [OF assms(2) raw(2)]]) (rule uploaded_inv)
  then show ?thesis unfolding raw(1) wp_snd .
next
  case (create env us rq body)
  from handleCreateTransfer_inv [OF assms(2) create(2)] show ?thesis
    unfolding create(1) by (simp add: wp_snd)
next
  case (offset uid)
  have "wp (UploadState uid) (\<lambda>_. kept S w) w" unfolding UploadState_def by (intro kept.steps kept_prims)
  then show ?thesis unfolding offset using assms(2) by (rule kept_snd)
next
  case (commit draws i m)
  have "wp (svc_Commit S draws now i m) (\<lambda>_. server_inv S) w"
    by (rule wp_mono [OF svc_Commit_post [OF assms(2) commit(2,3)]]) (simp add: commit_post_def)
  then show ?thesis unfolding commit(1) wp_snd .
next
  case (restart order clock codes n)
  from wp_run [OF start_Run [OF start_fresh [OF assms(2)] restart(2-4)] prod.collapse [symmetric]] show ?thesis
    unfolding restart(1) by (simp add: start_inv_def)
qed (use assms(2) in \<open>auto intro: kept_snd kept_receiving kept_UploadPatch kept_Sweep\<close>)

lemma reachable_inv: "reachable S w \<Longrightarrow> server_inv S w"
proof (induction rule: reachable.induct)
  case (first n fs)
  have "cache_get (newManifestCache n) = Map.empty" by (auto simp: newManifestCache_def cache_get_def)
  then show ?case by (simp add: server_inv_def areas_ok_def rows_ok_def tbl_find_def empty_db_ok) (simp add: empty_db_def)
qed (rule step_inv)

lemma step_held:
  assumes "step S True now w w'" and inv: "server_inv S w" and h: "held i r t w"
    and r: "tr_state r = StateCommitted" "tr_code r = Some c" "c \<noteq> []" "tr_expires_at r = Some e" "unix now < e"
  shows "held i r t w'"
proof -
  note ok = server_invD(1) [OF inv]
  have run: "held i r t (snd (run_state m w))" if "wp m (\<lambda>_. holds i r t w) w" for m :: "'a svc"
    using wp_held [OF that h] by (simp add: wp_snd)
  have other: "o_id env \<noteq> i" if "env_ok S env w" for env
    using that h by (auto simp: env_ok_def unused_def held_def)
  from assms(1) show ?thesis
  proof cases
    case (faults fs)
    then show ?thesis using h by (simp add: held_def)
  next
    case (restart order clock codes n)
    then show ?thesis unfolding restart(1) using restart(5)
      by (intro held_restart [OF inv h r(1) _ restart(2-4)]) auto
  next
    case (sweep)
    then show ?thesis using held_Sweep [OF inv h r(1,4,5)] by simp
  next
    case (offset uid)
    have "wp (UploadState uid) (\<lambda>_. holds i r t w) w" unfolding UploadState_def by (intro holds.steps holds_reads)
    then show ?thesis unfolding offset using h by (simp add: wp_snd holds_def)
  qed (use holds_resolving [OF ok r(1,4,5)] holds_receiving holds_handleSimpleUpload holds_handleRawUpload
      holds_handleCreateTransfer holds_UploadPatch [OF r(1)] holds_Commit [OF r(1-3)] other h
    in \<open>auto simp: wp_snd holds_def\<close>)
qed


text \<open>
  C1: no code ever resolves to incomplete data. In every world the server can reach, through any
  uploads, commits, downloads, sweeps, crashes and restarts, with any operation failing at any
  point, a code that opens a download names a committed, unexpired transfer whose live directory
  holds the returned manifest and every file it lists, with exactly the listed size and digest.
\<close>

theorem reachable_codes_complete:
  assumes "reachable S w" and "run_state (OpenDownload S now code) w = (Inr dl, w')"
  shows "NormalizeCode code = Some (t_Code (dl_Transfer dl)) \<and> t_State (dl_Transfer dl) = StateCommitted
    \<and> now < t_ExpiresAt (dl_Transfer dl)
    \<and> man_TransferID (dl_Manifest dl) = t_ID (dl_Transfer dl)
    \<and> (\<exists>t pl. live w' (t_ID (dl_Transfer dl)) = Some t \<and> d_manifest t = Some (dl_Manifest dl)
         \<and> d_payload t = Some pl \<and> files_ok S pl (man_Entries (dl_Manifest dl)))"
  using OpenDownload_sound [OF reachable_inv [OF assms(1)] assms(2)] by blast

text \<open>The lives of the server in which every clock reading is before \<open>until\<close> and restarts are calm.\<close>

inductive lives :: "server \<Rightarrow> time \<Rightarrow> world \<Rightarrow> world \<Rightarrow> bool" for S until where
  stay: "lives S until w w"
| go: "lives S until w w' \<Longrightarrow> now < until \<Longrightarrow> step S True now w' w'' \<Longrightarrow> lives S until w w''"

lemma before_unix: "now < of_unix e \<Longrightarrow> unix now < e"
proof -
  assume "now < of_unix e"
  then have lt: "now < e * second" by (simp add: of_unix_def)
  show ?thesis
  proof (rule ccontr)
    assume "\<not> unix now < e"
    then have "e * second \<le> (now div second) * second"
      using less_imp_le [OF second_pos] by (intro mult_right_mono) (auto simp: unix_def)
    moreover have "(now div second) * second \<le> now"
      using div_mult_mod_eq [of now second] pos_mod_sign [OF second_pos, of now] by linarith
    ultimately show False using lt by linarith
  qed
qed

lemma lives_held:
  assumes "lives S until w w'" and "server_inv S w" and "held i r t w"
    and "tr_state r = StateCommitted" and "until = t_ExpiresAt (scanTransfer r)"
  shows "server_inv S w' \<and> held i r t w'"
  using assms
proof (induction rule: lives.induct)
  case (go w w' now w'')
  then have w': "server_inv S w'" "held i r t w'" by blast+
  have row: "trow (w_db w') i = Some r" using w'(2) by (simp add: held_def)
  then have ok: "row_ok r" using server_invD(2) [OF w'(1)] by (auto simp: rows_ok_def)
  then obtain c where c: "tr_code r = Some c" using go.prems(3) by (cases "tr_code r") (auto simp: row_ok_def)
  then obtain e where e: "tr_expires_at r = Some e" using ok by (auto simp: row_ok_def)
  have "canonical_code c" 
    using server_invD(1) [OF w'(1)] by (intro codes_okD(1) [OF _ tbl_find_mem [OF row] c]) (simp add: db_ok_def)
  then have "c \<noteq> []" by (rule canonical_nonempty)
  moreover have "unix now < e"
    using go.hyps(2) go.prems(4) e by (intro before_unix) (simp add: scanTransfer_def time_of_null_def)
  ultimately show ?case
    using step_held [OF go.hyps(3) w' go.prems(3) c _ e] step_inv [OF go.hyps(3) w'(1)] by blast
qed simp


section \<open>A sample life\<close>

lemma sample_reachable: "reachable sample_server (snd sample_upload)"
proof -
  have "sample_empty_world = \<lparr>w_db = empty_db, w_staging = [], w_live = [], w_trash = [], w_cache = newManifestCache 64, w_faults = []\<rparr>"
    by (simp add: sample_empty_world_def sample_world_def)
  then have "reachable sample_server sample_empty_world" using first [of sample_server 64 "[]"] by simp
  then show ?thesis
    unfolding sample_upload_def by (rule later) (rule simple [OF sample_env_ok])
qed

theorem reachable_codes_complete_witness:
  "\<exists>dl w'. run_state (OpenDownload sample_server (1700000100 * second) (FormatCode sample_code)) (snd sample_upload) = (Inr dl, w')
    \<and> (\<exists>t pl. live w' (t_ID (dl_Transfer dl)) = Some t \<and> d_manifest t = Some (dl_Manifest dl)
         \<and> d_payload t = Some pl \<and> files_ok sample_server pl (man_Entries (dl_Manifest dl)))"
proof -
  let ?r = "run_state (OpenDownload sample_server (1700000100 * second) (FormatCode sample_code)) (snd sample_upload)"
  have "case fst ?r of Inl _ \<Rightarrow> False | Inr _ \<Rightarrow> True" by code_simp
  then obtain dl where "?r = (Inr dl, snd ?r)" by (cases "fst ?r") (simp_all add: prod_eq_iff)
  with reachable_codes_complete [OF sample_reachable this] show ?thesis by blast
qed

text \<open>Every operation of a sweep fails, and then the disk recovers.\<close>

definition sample_survived :: world where
  "sample_survived = snd (run_state (Sweep sample_server (1700000100 * second))
     ((snd sample_upload)\<lparr>w_faults := [True, True, True, True]\<rparr>))\<lparr>w_faults := []\<rparr>"


end
