(* ===== verification/SSS_Plan.thy ===== *)
theory SSS_Plan
  imports SSS_Paths "HOL-Library.AList" "HOL-Library.Multiset"
begin

text \<open>
  Planning a send (\<^verbatim>\<open>internal/pack/plan.go\<close>): the walk over the local roots, the grouping of
  files into raw segments and bounded packs, and the re-check before a resumed upload. The
  local filesystem is a tree of nodes per absolute path; each file carries what \<^verbatim>\<open>Lstat\<close> says
  about it and the bytes a read of it delivers. The lemmas show that a plan carries every
  scanned file exactly once, within the bounds of its kind, and under paths the server accepts.
\<close>

section \<open>The local tree\<close>

record file_info =
  fi_Size :: int
  fi_MTimeNS :: int
  fi_Perm :: nat

text \<open>
  A node as \<^verbatim>\<open>filepath.WalkDir\<close> meets it: a regular file with what reading it delivers
  (\<^term>\<open>None\<close> when it cannot be read), a directory with whether it can be listed and its
  entries in lexical order, something else (a symbolic link, a device), or a path whose
  \<^verbatim>\<open>Lstat\<close> fails.
\<close>

datatype local_node =
    LocalFile file_info "string option"
  | LocalDir file_info bool "(string \<times> local_node) list"
  | LocalOther
  | LocalGone

record source =
  src_AbsPath :: string
  src_RelPath :: string
  src_Size :: int
  src_MTimeNS :: int
  src_Mode :: nat
  src_Digest :: string

record pack_spec =
  ps_SegmentID :: string
  ps_Files :: "source list"
  ps_RawBytes :: int

text \<open>\<^verbatim>\<open>RawFiles\<close> is a map; it is kept here as an association list in insertion order.\<close>

record plan =
  plan_Roots :: "string list"
  plan_Entries :: "entry list"
  plan_RawFiles :: "(string \<times> source) list"
  plan_Packs :: "pack_spec list"
  plan_TotalBytes :: int
  plan_FileCount :: nat
  plan_DirCount :: nat

definition RawThreshold :: int where "RawThreshold = 1048576"
definition PackTarget :: int where "PackTarget = 67108864"

definition empty_pack :: pack_spec where
  "empty_pack = \<lparr>ps_SegmentID = [], ps_Files = [], ps_RawBytes = 0\<rparr>"

section \<open>Reading the sources\<close>

text \<open>The digest function \<open>H\<close> (BLAKE3 in lowercase hexadecimal) is an argument throughout.\<close>

definition readSource ::
  "(string \<Rightarrow> string) \<Rightarrow> string \<Rightarrow> string \<Rightarrow> file_info \<Rightarrow> string option \<Rightarrow> source result" where
  "readSource H absPath relPath info content =
     (case content of None \<Rightarrow> Inl ErrInvalidPath | Some bytes \<Rightarrow>
        if int (length bytes) \<noteq> fi_Size info then Inl ErrSourceChanged
        else Inr \<lparr>src_AbsPath = absPath, src_RelPath = relPath, src_Size = int (length bytes),
          src_MTimeNS = fi_MTimeNS info,
          src_Mode = (if fi_Perm info AND 0x49 \<noteq> 0 then 0x1ED else 0x1A4),
          src_Digest = H bytes\<rparr>)"

definition dir_entry :: "string \<Rightarrow> file_info \<Rightarrow> entry" where
  "dir_entry virtual info =
     \<lparr>ent_Path = virtual, ent_Type = EntryDirectory, ent_Size = 0,
      ent_MTimeUnixNS = fi_MTimeNS info, ent_Mode = 0x1ED, ent_Digest = [],
      ent_SegmentID = [], ent_SegmentOffset = 0\<rparr>"

text \<open>
  \<^verbatim>\<open>walkDir\<close>: the callback is applied to a node before its entries, the first failure ends
  the walk, and a directory that cannot be listed fails it after its own entry was recorded.
\<close>

fun walk_node ::
  "unicode_tables \<Rightarrow> (string \<Rightarrow> string) \<Rightarrow> string \<Rightarrow> string \<Rightarrow> local_node
   \<Rightarrow> source list \<times> entry list \<Rightarrow> (source list \<times> entry list) result"
and walk_entries ::
  "unicode_tables \<Rightarrow> (string \<Rightarrow> string) \<Rightarrow> string \<Rightarrow> string \<Rightarrow> (string \<times> local_node) list
   \<Rightarrow> source list \<times> entry list \<Rightarrow> (source list \<times> entry list) result" where
  "walk_node U H p virtual (LocalFile info content) (sources, dirs) =
     (case ValidatePortablePath U virtual of Some e \<Rightarrow> Inl e | None \<Rightarrow>
      case readSource H p virtual info content of Inl e \<Rightarrow> Inl e
      | Inr src \<Rightarrow> Inr (sources @ [src], dirs))"
| "walk_node U H p virtual (LocalDir info listable ns) (sources, dirs) =
     (case ValidatePortablePath U virtual of Some e \<Rightarrow> Inl e | None \<Rightarrow>
        if listable then walk_entries U H p virtual ns (sources, dirs @ [dir_entry virtual info])
        else Inl ErrInvalidPath)"
| "walk_node U H p virtual LocalOther acc =
     (case ValidatePortablePath U virtual of Some e \<Rightarrow> Inl e | None \<Rightarrow> Inl ErrUnsupportedEntry)"
| "walk_node U H p virtual LocalGone acc =
     (case ValidatePortablePath U virtual of Some e \<Rightarrow> Inl e | None \<Rightarrow> Inl ErrInvalidPath)"
| "walk_entries U H p virtual [] acc = Inr acc"
| "walk_entries U H p virtual ((name, n) # ns) acc =
     (case walk_node U H (path_join p name) (virtual @ slash # name) n acc of Inl e \<Rightarrow> Inl e
      | Inr acc' \<Rightarrow> walk_entries U H p virtual ns acc')"

definition walkDir ::
  "unicode_tables \<Rightarrow> (string \<Rightarrow> string) \<Rightarrow> string \<Rightarrow> string \<Rightarrow> local_node
   \<Rightarrow> (source list \<times> entry list) result" where
  "walkDir U H absRoot virtualName n = walk_node U H absRoot virtualName n ([], [])"

text \<open>
  The loop of \<^verbatim>\<open>Scan\<close> over the roots. It collects the root names, the sources and the
  directory entries; \<open>seen\<close> holds the names in lower case.
\<close>

fun scan_roots ::
  "unicode_tables \<Rightarrow> (string \<Rightarrow> string) \<Rightarrow> string option \<Rightarrow> (string \<Rightarrow> local_node) \<Rightarrow> string list
   \<Rightarrow> string set \<Rightarrow> string list \<times> source list \<times> entry list
   \<Rightarrow> (string list \<times> source list \<times> entry list) result" where
  "scan_roots U H cwd lfs [] seen acc = Inr acc"
| "scan_roots U H cwd lfs (root # roots) seen (names, sources, dirs) =
     (case Abs cwd root of None \<Rightarrow> Inl ErrInvalidPath | Some p \<Rightarrow>
      if lfs p = LocalGone then Inl ErrInvalidPath
      else case ValidateComponent U (path_base p) of Some e \<Rightarrow> Inl e | None \<Rightarrow>
      if ToLower U (path_base p) \<in> seen then Inl ErrDuplicatePath
      else case lfs p of
        LocalFile info content \<Rightarrow>
          (case readSource H p (path_base p) info content of Inl e \<Rightarrow> Inl e
           | Inr src \<Rightarrow> scan_roots U H cwd lfs roots (insert (ToLower U (path_base p)) seen)
               (names @ [path_base p], sources @ [src], dirs))
      | LocalDir info listable ns \<Rightarrow>
          (case walkDir U H p (path_base p) (lfs p) of Inl e \<Rightarrow> Inl e
           | Inr (collected, found) \<Rightarrow>
               scan_roots U H cwd lfs roots (insert (ToLower U (path_base p)) seen)
                 (names @ [path_base p], sources @ collected, dirs @ found))
      | _ \<Rightarrow> Inl ErrUnsupportedEntry)"

section \<open>Grouping into segments\<close>

text \<open>\<^verbatim>\<open>fmt.Sprintf\<close> of \<^verbatim>\<open>p-%04d\<close> and \<^verbatim>\<open>r-%04d\<close>.\<close>

definition pad4 :: "nat \<Rightarrow> string" where
  "pad4 n = replicate (4 - length (itoa n)) (CHR ''0'') @ itoa n"

definition raw_id :: "nat \<Rightarrow> string" where "raw_id n = ''r-'' @ pad4 n"
definition pack_id :: "nat \<Rightarrow> string" where "pack_id n = ''p-'' @ pad4 n"

definition file_entry :: "string \<Rightarrow> source \<Rightarrow> entry" where
  "file_entry segID src =
     \<lparr>ent_Path = src_RelPath src, ent_Type = EntryFile, ent_Size = src_Size src,
      ent_MTimeUnixNS = src_MTimeNS src, ent_Mode = src_Mode src, ent_Digest = src_Digest src,
      ent_SegmentID = segID, ent_SegmentOffset = 0\<rparr>"

record packing =
  pk_plan :: plan
  pk_current :: pack_spec
  pk_packIndex :: nat
  pk_rawIndex :: nat
  pk_seen :: "string set"

definition flushPack :: "packing \<Rightarrow> packing" where
  "flushPack k =
     (if ps_Files (pk_current k) = [] then k
      else let done = pk_current k\<lparr>ps_SegmentID := pack_id (pk_packIndex k)\<rparr>
           in k\<lparr>pk_plan := pk_plan k\<lparr>
                  plan_Entries := plan_Entries (pk_plan k)
                    @ map (file_entry (ps_SegmentID done)) (ps_Files done),
                  plan_Packs := plan_Packs (pk_plan k) @ [done]\<rparr>,
                pk_current := empty_pack, pk_packIndex := Suc (pk_packIndex k)\<rparr>)"

definition place_raw :: "source \<Rightarrow> packing \<Rightarrow> packing" where
  "place_raw src k =
     (let segID = raw_id (pk_rawIndex k)
      in k\<lparr>pk_plan := pk_plan k\<lparr>
             plan_RawFiles := AList.update segID src (plan_RawFiles (pk_plan k)),
             plan_Entries := plan_Entries (pk_plan k) @ [file_entry segID src]\<rparr>,
           pk_rawIndex := Suc (pk_rawIndex k)\<rparr>)"

definition place_packed :: "source \<Rightarrow> packing \<Rightarrow> packing" where
  "place_packed src k =
     (let cur = pk_current k\<lparr>ps_Files := ps_Files (pk_current k) @ [src],
            ps_RawBytes := wrap64 (ps_RawBytes (pk_current k) + src_Size src)\<rparr>
      in if ps_RawBytes cur \<ge> PackTarget then flushPack (k\<lparr>pk_current := cur\<rparr>)
         else k\<lparr>pk_current := cur\<rparr>)"

definition count_source :: "unicode_tables \<Rightarrow> source \<Rightarrow> packing \<Rightarrow> packing" where
  "count_source U src k =
     k\<lparr>pk_seen := insert (ToLower U (src_RelPath src)) (pk_seen k),
       pk_plan := pk_plan k\<lparr>
         plan_TotalBytes := wrap64 (plan_TotalBytes (pk_plan k) + src_Size src),
         plan_FileCount := Suc (plan_FileCount (pk_plan k))\<rparr>\<rparr>"

definition place :: "source \<Rightarrow> packing \<Rightarrow> packing" where
  "place src k = (if src_Size src \<ge> RawThreshold then place_raw src k else place_packed src k)"

fun place_sources :: "unicode_tables \<Rightarrow> source list \<Rightarrow> packing \<Rightarrow> packing result" where
  "place_sources U [] k = Inr k"
| "place_sources U (src # srcs) k =
     (if ToLower U (src_RelPath src) \<in> pk_seen k then Inl ErrDuplicatePath
      else place_sources U srcs (place src (count_source U src k)))"

definition start_packing :: "unicode_tables \<Rightarrow> string list \<Rightarrow> entry list \<Rightarrow> packing" where
  "start_packing U names dirs =
     \<lparr>pk_plan = \<lparr>plan_Roots = names, plan_Entries = dirs, plan_RawFiles = [], plan_Packs = [],
        plan_TotalBytes = 0, plan_FileCount = 0, plan_DirCount = 0\<rparr>,
      pk_current = empty_pack, pk_packIndex = 0, pk_rawIndex = 0,
      pk_seen = ToLower U ` ent_Path ` set dirs\<rparr>"

definition Scan ::
  "unicode_tables \<Rightarrow> (string \<Rightarrow> string) \<Rightarrow> string option \<Rightarrow> (string \<Rightarrow> local_node) \<Rightarrow> string list
   \<Rightarrow> plan result" where
  "Scan U H cwd lfs roots =
     (if roots = [] then Inl ErrNoFiles
      else case scan_roots U H cwd lfs roots {} ([], [], []) of Inl e \<Rightarrow> Inl e
      | Inr (names, sources, dirs) \<Rightarrow>
        if sources = [] \<and> dirs = [] then Inl ErrNoFiles
        else case place_sources U (sort_key src_RelPath sources) (start_packing U names dirs) of
          Inl e \<Rightarrow> Inl e
        | Inr k \<Rightarrow>
            let p = pk_plan (flushPack k)
            in Inr (p\<lparr>plan_DirCount :=
                 length (filter (\<lambda>e. ent_Type e = EntryDirectory) (plan_Entries p))\<rparr>))"

section \<open>The re-check before a resumed upload\<close>

definition unchanged :: "(string \<Rightarrow> local_node) \<Rightarrow> source \<Rightarrow> bool" where
  "unchanged lfs src =
     (case lfs (src_AbsPath src) of
        LocalFile info content \<Rightarrow> fi_Size info = src_Size src \<and> fi_MTimeNS info = src_MTimeNS src
      | _ \<Rightarrow> False)"

definition VerifyUnchanged :: "(string \<Rightarrow> local_node) \<Rightarrow> plan \<Rightarrow> errcode option" where
  "VerifyUnchanged lfs p =
     (if list_all (unchanged lfs) (map snd (plan_RawFiles p))
         \<and> list_all (\<lambda>spec. list_all (unchanged lfs) (ps_Files spec)) (plan_Packs p)
      then None else Some ErrSourceChanged)"


section \<open>What the walk collects\<close>

text \<open>The regular files below a node with their bytes, in the order of the walk.\<close>

fun tree_files :: "string \<Rightarrow> local_node \<Rightarrow> (string \<times> string) list"
and entries_files :: "string \<Rightarrow> (string \<times> local_node) list \<Rightarrow> (string \<times> string) list" where
  "tree_files virtual (LocalFile info (Some bytes)) = [(virtual, bytes)]"
| "tree_files virtual (LocalFile info None) = []"
| "tree_files virtual (LocalDir info listable ns) = entries_files virtual ns"
| "tree_files virtual LocalOther = []"
| "tree_files virtual LocalGone = []"
| "entries_files virtual [] = []"
| "entries_files virtual ((name, n) # ns) =
     tree_files (virtual @ slash # name) n @ entries_files virtual ns"

definition root_files :: "string option \<Rightarrow> (string \<Rightarrow> local_node) \<Rightarrow> string list \<Rightarrow> (string \<times> string) list" where
  "root_files cwd lfs roots = concat (map (\<lambda>root. case Abs cwd root of None \<Rightarrow> []
     | Some p \<Rightarrow> tree_files (path_base p) (lfs p)) roots)"

definition source_of :: "(string \<Rightarrow> string) \<Rightarrow> source \<Rightarrow> string \<times> string \<Rightarrow> bool" where
  "source_of H s f \<longleftrightarrow> src_RelPath s = fst f \<and> src_Digest s = H (snd f)
     \<and> src_Size s = int (length (snd f)) \<and> src_Mode s \<in> {0x1A4, 0x1ED}"

definition below :: "string \<Rightarrow> string \<Rightarrow> bool" where
  "below v q \<longleftrightarrow> q = v \<or> (\<exists>t. q = v @ slash # t)"

definition collected ::
  "unicode_tables \<Rightarrow> (string \<Rightarrow> string) \<Rightarrow> string \<Rightarrow> (string \<times> string) list
   \<Rightarrow> source list \<times> entry list \<Rightarrow> source list \<times> entry list \<Rightarrow> bool" where
  "collected U H v fs acc acc' \<longleftrightarrow> (\<exists>ss ds. acc' = (fst acc @ ss, snd acc @ ds)
     \<and> list_all2 (source_of H) ss fs
     \<and> (\<forall>q\<in>src_RelPath ` set ss \<union> ent_Path ` set ds. below v q \<and> ValidatePortablePath U q = None)
     \<and> (\<forall>e\<in>set ds. \<exists>q i. e = dir_entry q i))"

lemma below_trans: "below v q \<Longrightarrow> below u v \<Longrightarrow> below u q"
  by (auto simp: below_def)

lemma readSource_source_of:
  "readSource H p v info content = Inr s \<Longrightarrow>
     \<exists>bytes. content = Some bytes \<and> source_of H s (v, bytes) \<and> src_RelPath s = v"
  by (auto simp: readSource_def source_of_def Let_def split: option.splits if_splits)

lemma collected_empty: "collected U H v [] acc acc"
  by (cases acc) (simp add: collected_def)

lemma collected_append:
  assumes "collected U H v fs acc acc1" and "collected U H v gs acc1 acc2"
  shows "collected U H v (fs @ gs) acc acc2"
proof -
  obtain ss ds where 1: "acc1 = (fst acc @ ss, snd acc @ ds)" "list_all2 (source_of H) ss fs"
    "\<forall>q\<in>src_RelPath ` set ss \<union> ent_Path ` set ds. below v q \<and> ValidatePortablePath U q = None"
    "\<forall>e\<in>set ds. \<exists>q i. e = dir_entry q i" using assms(1) unfolding collected_def by blast
  obtain ts es where 2: "acc2 = (fst acc1 @ ts, snd acc1 @ es)" "list_all2 (source_of H) ts gs"
    "\<forall>q\<in>src_RelPath ` set ts \<union> ent_Path ` set es. below v q \<and> ValidatePortablePath U q = None"
    "\<forall>e\<in>set es. \<exists>q i. e = dir_entry q i" using assms(2) unfolding collected_def by blast
  show ?thesis unfolding collected_def
  proof (intro exI [of _ "ss @ ts"] exI [of _ "ds @ es"] conjI)
    show "acc2 = (fst acc @ ss @ ts, snd acc @ ds @ es)" using 1(1) 2(1) by simp
    show "list_all2 (source_of H) (ss @ ts) (fs @ gs)" using 1(2) 2(2) by (rule list_all2_appendI)
    show "\<forall>q\<in>src_RelPath ` set (ss @ ts) \<union> ent_Path ` set (ds @ es).
        below v q \<and> ValidatePortablePath U q = None" using 1(3) 2(3) by auto
    show "\<forall>e\<in>set (ds @ es). \<exists>q i. e = dir_entry q i" using 1(4) 2(4) by auto
  qed
qed

lemma collected_below: "collected U H v fs acc acc' \<Longrightarrow> below u v \<Longrightarrow> collected U H u fs acc acc'"
  unfolding collected_def using below_trans by (elim exE, intro exI) fast

lemma walk_collects:
  "walk_node U H p v n acc = Inr acc' \<Longrightarrow> collected U H v (tree_files v n) acc acc'"
  "walk_entries U H p v ns acc = Inr acc' \<Longrightarrow> collected U H v (entries_files v ns) acc acc'"
proof (induction U H p v n acc and U H p v ns acc arbitrary: acc' and acc'
    rule: walk_node_walk_entries.induct)
  case (1 U H p v info content sources dirs)
  then obtain s where s: "ValidatePortablePath U v = None" "readSource H p v info content = Inr s"
    "acc' = (sources @ [s], dirs)" by (auto split: option.splits sum.splits)
  with readSource_source_of [OF s(2)] show ?case
    by (auto simp: collected_def below_def)
next
  case (2 U H p v info listable ns sources dirs)
  then have ok: "ValidatePortablePath U v = None" "listable"
    "walk_entries U H p v ns (sources, dirs @ [dir_entry v info]) = Inr acc'"
    by (auto split: option.splits if_splits)
  have "collected U H v [] (sources, dirs) (sources, dirs @ [dir_entry v info])"
    using ok(1) by (auto simp: collected_def below_def dir_entry_def)
  from collected_append [OF this "2.IH" [OF ok]] show ?case by simp
next
  case (6 U H p v name n ns acc)
  then obtain acc1 where a: "walk_node U H (path_join p name) (v @ slash # name) n acc = Inr acc1"
    "walk_entries U H p v ns acc1 = Inr acc'" by (auto split: sum.splits)
  have "collected U H v (tree_files (v @ slash # name) n) acc acc1"
    using "6.IH"(1) [OF a(1)] by (rule collected_below) (auto simp: below_def)
  from collected_append [OF this "6.IH"(2) [OF a]] show ?case by simp
qed (auto simp: collected_empty split: option.splits)


text \<open>One component is portable exactly when it is also valid UTF-8.\<close>

lemma component_portable:
  assumes "ValidateComponent U c = None" and "valid_utf8 c"
  shows "ValidatePortablePath U c = None"
proof -
  note safe = ValidateComponent_safe [OF assms(1)]
  have "\<not> has_prefix c ''/''" using safe(6) by (cases c) (auto simp: has_prefix_def)
  moreover have "\<not> (length c \<ge> 2 \<and> c ! 1 = CHR '':'')" 
    using safe(8) by (metis nth_mem less_le_trans one_less_numeral_iff semiring_norm(76))
  ultimately show ?thesis
    using assms safe(1,4,6,7)
    by (simp add: ValidatePortablePath_def contains_char_def split_on_free)
qed

definition scanned ::
  "unicode_tables \<Rightarrow> (string \<Rightarrow> string) \<Rightarrow> string list \<Rightarrow> source list \<Rightarrow> entry list
   \<Rightarrow> (string \<times> string) list \<Rightarrow> bool" where
  "scanned U H names ss ds fs \<longleftrightarrow>
     list_all2 (source_of H) ss fs \<and> (\<forall>e\<in>set ds. \<exists>q i. e = dir_entry q i)
     \<and> (\<forall>q\<in>src_RelPath ` set ss \<union> ent_Path ` set ds.
          (\<exists>r\<in>set names. below r q) \<and> (q \<in> set names \<or> ValidatePortablePath U q = None))
     \<and> (\<forall>r\<in>set names. ValidateComponent U r = None) \<and> distinct (map (ToLower U) names)"

lemma scanned_empty: "scanned U H [] [] [] []"
  by (simp add: scanned_def)

lemma scanned_append:
  assumes "scanned U H ns ss ds fs" and "collected U H r gs (ss, ds) (ss', ds')"
    and "ValidateComponent U r = None" and "ToLower U r \<notin> ToLower U ` set ns"
  shows "scanned U H (ns @ [r]) ss' ds' (fs @ gs)"
proof -
  obtain ts es where 2: "ss' = ss @ ts" "ds' = ds @ es" "list_all2 (source_of H) ts gs"
    "\<forall>q\<in>src_RelPath ` set ts \<union> ent_Path ` set es. below r q \<and> ValidatePortablePath U q = None"
    "\<forall>e\<in>set es. \<exists>q i. e = dir_entry q i" using assms(2) by (auto simp: collected_def)
  have 1: "list_all2 (source_of H) ss fs" "\<forall>e\<in>set ds. \<exists>q i. e = dir_entry q i"
     "\<forall>q\<in>src_RelPath ` set ss \<union> ent_Path ` set ds.
          (\<exists>r\<in>set ns. below r q) \<and> (q \<in> set ns \<or> ValidatePortablePath U q = None)"
     "\<forall>r\<in>set ns. ValidateComponent U r = None" "distinct (map (ToLower U) ns)"
    using assms(1) [unfolded scanned_def] by - (elim conjE, assumption)+
  show ?thesis unfolding scanned_def 2(1,2)
  proof (intro conjI)
    show "list_all2 (source_of H) (ss @ ts) (fs @ gs)" using 1(1) 2(3) by (rule list_all2_appendI)
    show "\<forall>e\<in>set (ds @ es). \<exists>q i. e = dir_entry q i" using 1(2) 2(5) by auto
    show "\<forall>q\<in>src_RelPath ` set (ss @ ts) \<union> ent_Path ` set (ds @ es).
        (\<exists>r\<in>set (ns @ [r]). below r q) \<and> (q \<in> set (ns @ [r]) \<or> ValidatePortablePath U q = None)"
      using 1(3) 2(4) by auto
    show "\<forall>r\<in>set (ns @ [r]). ValidateComponent U r = None" using 1(4) assms(3) by auto
    show "distinct (map (ToLower U) (ns @ [r]))" using 1(5) assms(4) by auto
  qed
qed

text \<open>A file given as a root is not checked for UTF-8, so its path is collected as it is.\<close>

lemma scanned_root_file:
  assumes "scanned U H ns ss ds fs" and "source_of H s (r, b)" and "src_RelPath s = r"
    and "ValidateComponent U r = None" and "ToLower U r \<notin> ToLower U ` set ns"
  shows "scanned U H (ns @ [r]) (ss @ [s]) ds (fs @ [(r, b)])"
proof -
  have 1: "list_all2 (source_of H) ss fs" "\<forall>e\<in>set ds. \<exists>q i. e = dir_entry q i"
     "\<forall>q\<in>src_RelPath ` set ss \<union> ent_Path ` set ds.
          (\<exists>r\<in>set ns. below r q) \<and> (q \<in> set ns \<or> ValidatePortablePath U q = None)"
     "\<forall>r\<in>set ns. ValidateComponent U r = None" "distinct (map (ToLower U) ns)"
    using assms(1) [unfolded scanned_def] by - (elim conjE, assumption)+
  show ?thesis unfolding scanned_def
  proof (intro conjI)
    show "list_all2 (source_of H) (ss @ [s]) (fs @ [(r, b)])"
      using 1(1) assms(2) by (simp add: list_all2_appendI)
    show "\<forall>q\<in>src_RelPath ` set (ss @ [s]) \<union> ent_Path ` set ds.
        (\<exists>r\<in>set (ns @ [r]). below r q) \<and> (q \<in> set (ns @ [r]) \<or> ValidatePortablePath U q = None)"
      using 1(3) assms(3) by (auto simp: below_def)
    show "\<forall>r\<in>set (ns @ [r]). ValidateComponent U r = None" using 1(4) assms(4) by auto
    show "distinct (map (ToLower U) (ns @ [r]))" using 1(5) assms(5) by auto
  qed (rule 1)
qed

lemma scan_roots_scanned:
  "scan_roots U H cwd lfs roots seen (ns, ss, ds) = Inr (ns', ss', ds') \<Longrightarrow>
   scanned U H ns ss ds fs \<Longrightarrow> seen = ToLower U ` set ns \<Longrightarrow>
   scanned U H ns' ss' ds' (fs @ root_files cwd lfs roots) \<and> length ns' = length ns + length roots"
proof (induction roots arbitrary: seen ns ss ds fs)
  case Nil
  then show ?case by (simp add: root_files_def)
next
  case (Cons root roots)
  from Cons.prems(1) obtain p where p: "Abs cwd root = Some p" "lfs p \<noteq> LocalGone"
    "ValidateComponent U (path_base p) = None" "ToLower U (path_base p) \<notin> seen"
    by (auto split: option.splits if_splits)
  let ?r = "path_base p"
  have rf: "root_files cwd lfs (root # roots) = tree_files ?r (lfs p) @ root_files cwd lfs roots"
    by (simp add: root_files_def p)
  have fresh: "ToLower U ?r \<notin> ToLower U ` set ns" using p(4) Cons.prems(3) by simp
  have step: "insert (ToLower U ?r) seen = ToLower U ` set (ns @ [?r])" using Cons.prems(3) by simp
  show ?case
  proof (cases "lfs p")
    case (LocalFile info content)
    with Cons.prems(1) p obtain s where s: "readSource H p ?r info content = Inr s"
      and rest: "scan_roots U H cwd lfs roots (insert (ToLower U ?r) seen) (ns @ [?r], ss @ [s], ds)
        = Inr (ns', ss', ds')" by (auto split: sum.splits)
    from readSource_source_of [OF s] obtain b where b: "content = Some b" "source_of H s (?r, b)"
      "src_RelPath s = ?r" by blast
    from Cons.IH [OF rest scanned_root_file [OF Cons.prems(2) b(2,3) p(3) fresh] step]
    show ?thesis by (simp add: rf LocalFile b(1))
  next
    case (LocalDir info listable ns0)
    with Cons.prems(1) p obtain ts es where w: "walkDir U H p ?r (lfs p) = Inr (ts, es)"
      and rest: "scan_roots U H cwd lfs roots (insert (ToLower U ?r) seen) (ns @ [?r], ss @ ts, ds @ es)
        = Inr (ns', ss', ds')" by (auto split: sum.splits)
    from walk_collects(1) [OF w [unfolded walkDir_def]]
    have "collected U H ?r (tree_files ?r (lfs p)) (ss, ds) (ss @ ts, ds @ es)"
      by (auto simp: collected_def)
    from Cons.IH [OF rest scanned_append [OF Cons.prems(2) this p(3) fresh] step]
    show ?thesis by (simp add: rf)
  qed (use Cons.prems(1) p in auto)
qed

section \<open>What the grouping keeps\<close>

lemma pad4_inject: "pad4 i = pad4 j \<longleftrightarrow> i = j"
proof -
  have zeros: "dec_value 0 (replicate k (CHR ''0'')) = 0" for k
    by (induction k) simp_all
  have "dec_value 0 (pad4 n) = n" for n
    by (simp add: pad4_def dec_value_append zeros dec_value_itoa)
  then show ?thesis by metis
qed

lemma length_itoa: "n < 10 ^ Suc k \<Longrightarrow> length (itoa n) \<le> Suc k"
proof -
  have digits: "n < 10 ^ k \<Longrightarrow> length (itoa_digits n buf) \<le> k + length buf" for k buf
  proof (induction k arbitrary: n buf)
    case (Suc k)
    have "n div 10 < 10 ^ k" using Suc.prems by (simp add: div_less_iff_less_mult)
    from Suc.IH [OF this, of "char_of (48 + n mod 10) # buf"] show ?case
      by (subst itoa_digits.simps) simp
  qed (simp add: itoa_digits.simps)
  then show "n < 10 ^ Suc k \<Longrightarrow> length (itoa n) \<le> Suc k"
    using digits [of "Suc k" "[]"] by (simp add: itoa_def)
qed

lemma length_segment_id:
  assumes "n < 2 ^ 63"
  shows "length (raw_id n) \<le> 128" and "length (pack_id n) \<le> 128"
    and "raw_id n \<noteq> []" and "pack_id n \<noteq> []"
proof -
  have "length (itoa n) \<le> Suc 19" using assms by (intro length_itoa) simp
  then show "length (raw_id n) \<le> 128" and "length (pack_id n) \<le> 128" and "raw_id n \<noteq> []" and "pack_id n \<noteq> []"
    by (simp_all add: raw_id_def pack_id_def pad4_def)
qed

lemma segment_ids_distinct [simp]:
  "raw_id i = raw_id j \<longleftrightarrow> i = j" "pack_id i = pack_id j \<longleftrightarrow> i = j" "raw_id i \<noteq> pack_id j"
  "pack_id i \<noteq> raw_id j"
  by (simp_all add: raw_id_def pack_id_def pad4_inject)

definition carried :: "plan \<Rightarrow> source list" where
  "carried p = map snd (plan_RawFiles p) @ concat (map ps_Files (plan_Packs p))"

definition placed_entries :: "plan \<Rightarrow> entry list" where
  "placed_entries p = map (\<lambda>(i, s). file_entry i s) (plan_RawFiles p)
     @ concat (map (\<lambda>k. map (file_entry (ps_SegmentID k)) (ps_Files k)) (plan_Packs p))"

definition grouped :: "unicode_tables \<Rightarrow> entry list \<Rightarrow> source list \<Rightarrow> packing \<Rightarrow> bool" where
  "grouped U dirs srcs0 k \<longleftrightarrow>
     mset (carried (pk_plan k) @ ps_Files (pk_current k)) = mset srcs0
     \<and> (\<exists>fes. plan_Entries (pk_plan k) = dirs @ fes \<and> mset fes = mset (placed_entries (pk_plan k)))
     \<and> map fst (plan_RawFiles (pk_plan k)) = map raw_id [0..<pk_rawIndex k]
     \<and> map ps_SegmentID (plan_Packs (pk_plan k)) = map pack_id [0..<pk_packIndex k]
     \<and> pk_seen k = ToLower U ` (ent_Path ` set dirs \<union> src_RelPath ` set srcs0)
     \<and> distinct (map (\<lambda>s. ToLower U (src_RelPath s)) srcs0)
     \<and> (\<forall>s\<in>set srcs0. \<forall>e\<in>set dirs. ToLower U (src_RelPath s) \<noteq> ToLower U (ent_Path e))
     \<and> plan_FileCount (pk_plan k) = length srcs0"


lemma update_new: "i \<notin> fst ` set al \<Longrightarrow> AList.update i x al = al @ [(i, x)]"
  by (induction al) auto

lemma grouped_flush:
  assumes "grouped U dirs srcs0 k"
  shows "grouped U dirs srcs0 (flushPack k)" and "ps_Files (pk_current (flushPack k)) = []"
proof -
  show "ps_Files (pk_current (flushPack k)) = []"
    by (simp add: flushPack_def Let_def empty_pack_def)
  show "grouped U dirs srcs0 (flushPack k)"
  proof (cases "ps_Files (pk_current k) = []")
    case True
    then show ?thesis using assms by (simp add: flushPack_def)
  next
    case False
    obtain fes where fes: "plan_Entries (pk_plan k) = dirs @ fes" "mset fes = mset (placed_entries (pk_plan k))"
      using assms unfolding grouped_def by blast
    let ?id = "pack_id (pk_packIndex k)"
    have "\<exists>fes'. plan_Entries (pk_plan (flushPack k)) = dirs @ fes'
        \<and> mset fes' = mset (placed_entries (pk_plan (flushPack k)))"
      using fes False
      by (intro exI [of _ "fes @ map (file_entry ?id) (ps_Files (pk_current k))"])
         (simp add: flushPack_def Let_def placed_entries_def)
    then show ?thesis
      using assms False by (simp add: grouped_def flushPack_def Let_def carried_def empty_pack_def)
  qed
qed

text \<open>The file at hand is new: its key is neither that of a placed file nor of a directory.\<close>

lemma grouped_fresh:
  assumes "grouped U dirs srcs0 k" and "ToLower U (src_RelPath src) \<notin> pk_seen k"
  shows "distinct (map (\<lambda>s. ToLower U (src_RelPath s)) (srcs0 @ [src]))"
    and "\<forall>s\<in>set (srcs0 @ [src]). \<forall>e\<in>set dirs. ToLower U (src_RelPath s) \<noteq> ToLower U (ent_Path e)"
proof -
  have g: "pk_seen k = ToLower U ` (ent_Path ` set dirs \<union> src_RelPath ` set srcs0)"
    "distinct (map (\<lambda>s. ToLower U (src_RelPath s)) srcs0)"
    "\<forall>s\<in>set srcs0. \<forall>e\<in>set dirs. ToLower U (src_RelPath s) \<noteq> ToLower U (ent_Path e)"
    using assms(1) unfolding grouped_def by blast+
  have n: "\<forall>e\<in>set dirs. ToLower U (src_RelPath src) \<noteq> ToLower U (ent_Path e)"
    "ToLower U (src_RelPath src) \<notin> (\<lambda>s. ToLower U (src_RelPath s)) ` set srcs0"
    using assms(2) g(1) by force+
  then show "distinct (map (\<lambda>s. ToLower U (src_RelPath s)) (srcs0 @ [src]))" using g(2) by simp
  show "\<forall>s\<in>set (srcs0 @ [src]). \<forall>e\<in>set dirs. ToLower U (src_RelPath s) \<noteq> ToLower U (ent_Path e)"
    using g(3) n(1) by simp
qed

lemma grouped_raw:
  assumes "grouped U dirs srcs0 k" and "ToLower U (src_RelPath src) \<notin> pk_seen k"
  shows "grouped U dirs (srcs0 @ [src]) (place_raw src (count_source U src k))"
proof -
  let ?k = "place_raw src (count_source U src k)"
  let ?id = "raw_id (pk_rawIndex k)"
  note g = assms(1) [unfolded grouped_def]
  obtain fes where fes: "plan_Entries (pk_plan k) = dirs @ fes" "mset fes = mset (placed_entries (pk_plan k))"
    using g by blast
  have ids: "map fst (plan_RawFiles (pk_plan k)) = map raw_id [0..<pk_rawIndex k]"
    using g by (elim conjE)
  have "set (map fst (plan_RawFiles (pk_plan k))) = raw_id ` {0..<pk_rawIndex k}" unfolding ids by simp
  then have raws: "AList.update ?id src (plan_RawFiles (pk_plan k)) = plan_RawFiles (pk_plan k) @ [(?id, src)]"
    by (intro update_new) auto
  have k: "plan_RawFiles (pk_plan ?k) = plan_RawFiles (pk_plan k) @ [(?id, src)]"
    "plan_Entries (pk_plan ?k) = plan_Entries (pk_plan k) @ [file_entry ?id src]"
    "plan_Packs (pk_plan ?k) = plan_Packs (pk_plan k)" "pk_current ?k = pk_current k"
    "pk_packIndex ?k = pk_packIndex k" "pk_rawIndex ?k = Suc (pk_rawIndex k)"
    "pk_seen ?k = insert (ToLower U (src_RelPath src)) (pk_seen k)"
    "plan_FileCount (pk_plan ?k) = Suc (plan_FileCount (pk_plan k))"
    by (simp_all add: place_raw_def count_source_def Let_def raws)
  have "\<exists>fes'. plan_Entries (pk_plan ?k) = dirs @ fes' \<and> mset fes' = mset (placed_entries (pk_plan ?k))"
    using fes by (intro exI [of _ "fes @ [file_entry ?id src]"]) (simp add: k placed_entries_def)
  moreover have "mset (carried (pk_plan ?k) @ ps_Files (pk_current ?k)) = mset (srcs0 @ [src])"
    using g by (simp add: carried_def k)
  moreover have "pk_seen ?k = ToLower U ` (ent_Path ` set dirs \<union> src_RelPath ` set (srcs0 @ [src]))"
    using g by (simp add: k)
  ultimately show ?thesis
    unfolding grouped_def using g grouped_fresh [OF assms]
    by (intro conjI) (simp_all only: k, simp_all)
qed

lemma grouped_packed:
  assumes "grouped U dirs srcs0 k" and "ToLower U (src_RelPath src) \<notin> pk_seen k"
  shows "grouped U dirs (srcs0 @ [src]) (place_packed src (count_source U src k))"
proof -
  let ?cur = "pk_current k\<lparr>ps_Files := ps_Files (pk_current k) @ [src],
      ps_RawBytes := wrap64 (ps_RawBytes (pk_current k) + src_Size src)\<rparr>"
  let ?k = "(count_source U src k)\<lparr>pk_current := ?cur\<rparr>"
  note g = assms(1) [unfolded grouped_def]
  have k: "plan_RawFiles (pk_plan ?k) = plan_RawFiles (pk_plan k)"
    "plan_Entries (pk_plan ?k) = plan_Entries (pk_plan k)"
    "plan_Packs (pk_plan ?k) = plan_Packs (pk_plan k)" "ps_Files (pk_current ?k) = ps_Files (pk_current k) @ [src]"
    "pk_packIndex ?k = pk_packIndex k" "pk_rawIndex ?k = pk_rawIndex k"
    "pk_seen ?k = insert (ToLower U (src_RelPath src)) (pk_seen k)"
    "plan_FileCount (pk_plan ?k) = Suc (plan_FileCount (pk_plan k))"
    by (simp_all add: count_source_def)
  have e: "placed_entries (pk_plan ?k) = placed_entries (pk_plan k)" by (simp only: placed_entries_def k)
  have "mset (carried (pk_plan ?k) @ ps_Files (pk_current ?k)) = mset (srcs0 @ [src])"
    using g by (simp only: carried_def k) simp
  moreover have "pk_seen ?k = ToLower U ` (ent_Path ` set dirs \<union> src_RelPath ` set (srcs0 @ [src]))"
    using g by (simp only: k) simp
  ultimately have "grouped U dirs (srcs0 @ [src]) ?k"
    unfolding grouped_def using g grouped_fresh [OF assms]
    by (intro conjI) (simp_all only: k e, simp_all)
  moreover have "place_packed src (count_source U src k) = ?k
      \<or> place_packed src (count_source U src k) = flushPack ?k"
    by (simp add: place_packed_def count_source_def Let_def)
  ultimately show ?thesis using grouped_flush(1) by metis
qed

lemma grouped_place_sources:
  "place_sources U srcs k = Inr k' \<Longrightarrow> grouped U dirs srcs0 k \<Longrightarrow> grouped U dirs (srcs0 @ srcs) k'"
proof (induction srcs arbitrary: srcs0 k)
  case (Cons src srcs)
  then have "grouped U dirs (srcs0 @ [src]) (place src (count_source U src k))"
    and "place_sources U srcs (place src (count_source U src k)) = Inr k'"
    by (auto simp: place_def grouped_raw grouped_packed split: if_splits)
  from Cons.IH [OF this(2,1)] show ?case by simp
qed simp

lemma grouped_start: "grouped U dirs [] (start_packing U names dirs)"
  by (auto simp: grouped_def start_packing_def carried_def placed_entries_def empty_pack_def)

section \<open>The bounds of the segments\<close>

definition pack_sum :: "pack_spec \<Rightarrow> bool" where
  "pack_sum p \<longleftrightarrow> ps_RawBytes p = sum_list (map src_Size (ps_Files p))
     \<and> (\<forall>s\<in>set (ps_Files p). 0 \<le> src_Size s \<and> src_Size s < RawThreshold)"

definition bounded :: "packing \<Rightarrow> bool" where
  "bounded k \<longleftrightarrow>
     (\<forall>(i, s)\<in>set (plan_RawFiles (pk_plan k)). RawThreshold \<le> src_Size s)
     \<and> pack_sum (pk_current k) \<and> ps_RawBytes (pk_current k) < PackTarget
     \<and> (\<forall>p\<in>set (plan_Packs (pk_plan k)). pack_sum p \<and> ps_Files p \<noteq> []
          \<and> PackTarget \<le> ps_RawBytes p \<and> ps_RawBytes p < PackTarget + RawThreshold)"

lemma bounded_place:
  assumes "bounded k" and "0 \<le> src_Size src"
  shows "bounded (place src (count_source U src k))"
proof (cases "RawThreshold \<le> src_Size src")
  case True
  have "set (AList.update i src al) \<subseteq> insert (i, src) (set al)" for i and al :: "(string \<times> source) list"
    by (induction al) auto
  with True assms(1) show ?thesis
    by (fastforce simp: bounded_def place_def place_raw_def count_source_def Let_def)
next
  case False
  let ?n = "ps_RawBytes (pk_current k) + src_Size src"
  have cur: "pack_sum (pk_current k)" "ps_RawBytes (pk_current k) < PackTarget"
    using assms(1) unfolding bounded_def by blast+
  then have "0 \<le> ps_RawBytes (pk_current k)" by (auto simp: pack_sum_def intro!: sum_list_nonneg)
  then have n: "0 \<le> ?n" "?n < PackTarget + RawThreshold" using cur(2) False assms(2) by auto
  then have "wrap64 ?n = ?n"
    by (intro wrap64_id) (auto simp: int64_range_def PackTarget_def RawThreshold_def)
  then show ?thesis
    using assms False cur n
    by (auto simp: bounded_def place_def place_packed_def flushPack_def count_source_def Let_def
        pack_sum_def empty_pack_def PackTarget_def)
qed

lemma bounded_place_sources:
  "place_sources U srcs k = Inr k' \<Longrightarrow> bounded k \<Longrightarrow> \<forall>s\<in>set srcs. 0 \<le> src_Size s \<Longrightarrow> bounded k'"
  by (induction srcs arbitrary: k) (auto simp: bounded_place split: if_splits)

lemma bounded_start: "bounded (start_packing U names dirs)"
  by (simp add: bounded_def start_packing_def empty_pack_def pack_sum_def PackTarget_def)


section \<open>The finished plan\<close>

lemma roots_kept:
  "plan_Roots (pk_plan (flushPack k)) = plan_Roots (pk_plan k)"
  "place_sources U srcs k = Inr k' \<Longrightarrow> plan_Roots (pk_plan k') = plan_Roots (pk_plan k)"
proof -
  show f: "plan_Roots (pk_plan (flushPack k)) = plan_Roots (pk_plan k)" for k
    by (simp add: flushPack_def Let_def)
  have "plan_Roots (pk_plan (place src (count_source U src k))) = plan_Roots (pk_plan k)" for src k
    by (simp add: place_def place_raw_def place_packed_def count_source_def Let_def f)
  then show "place_sources U srcs k = Inr k' \<Longrightarrow> plan_Roots (pk_plan k') = plan_Roots (pk_plan k)"
    by (induction srcs arbitrary: k) (auto split: if_splits)
qed

definition plan_bounds :: "plan \<Rightarrow> bool" where
  "plan_bounds p \<longleftrightarrow>
     (\<forall>(i, s)\<in>set (plan_RawFiles p). RawThreshold \<le> src_Size s)
     \<and> (\<forall>k\<in>set (plan_Packs p). pack_sum k \<and> ps_Files k \<noteq> [] \<and> ps_RawBytes k < PackTarget + RawThreshold)
     \<and> (\<forall>k\<in>set (butlast (plan_Packs p)). PackTarget \<le> ps_RawBytes k)"

lemma bounded_flush:
  assumes "bounded k"
  shows "plan_bounds (pk_plan (flushPack k))"
proof -
  have raws: "\<forall>(i, s)\<in>set (plan_RawFiles (pk_plan k)). RawThreshold \<le> src_Size s"
    and cur: "pack_sum (pk_current k)" "ps_RawBytes (pk_current k) < PackTarget"
    and packs: "\<forall>p\<in>set (plan_Packs (pk_plan k)). pack_sum p \<and> ps_Files p \<noteq> []
          \<and> PackTarget \<le> ps_RawBytes p \<and> ps_RawBytes p < PackTarget + RawThreshold"
    using assms unfolding bounded_def by blast+
  show ?thesis
  proof (cases "ps_Files (pk_current k) = []")
    case True
    then show ?thesis
      using raws packs by (auto simp: plan_bounds_def flushPack_def dest: in_set_butlastD)
  next
    case False
    let ?last = "pk_current k\<lparr>ps_SegmentID := pack_id (pk_packIndex k)\<rparr>"
    have f: "plan_RawFiles (pk_plan (flushPack k)) = plan_RawFiles (pk_plan k)"
      "plan_Packs (pk_plan (flushPack k)) = plan_Packs (pk_plan k) @ [?last]"
      using False by (simp_all add: flushPack_def Let_def)
    have "pack_sum ?last \<and> ps_Files ?last \<noteq> [] \<and> ps_RawBytes ?last < PackTarget + RawThreshold"
      using cur False by (simp add: pack_sum_def RawThreshold_def)
    then show ?thesis using raws packs unfolding plan_bounds_def f by auto
  qed
qed

lemma scanned_sizes: "scanned U H ns ss ds fs \<Longrightarrow> \<forall>s\<in>set ss. 0 \<le> src_Size s"
proof
  fix s assume "scanned U H ns ss ds fs" "s \<in> set ss"
  then have "list_all2 (source_of H) ss fs" "s \<in> set ss" by (simp_all add: scanned_def)
  then obtain f where "source_of H s f" by (induction rule: list_all2_induct) auto
  then show "0 \<le> src_Size s" by (simp add: source_of_def)
qed

text \<open>Everything the properties need to know of a plan that \<^verbatim>\<open>Scan\<close> returns.\<close>

lemma Scan_result:
  assumes "Scan U H cwd lfs roots = Inr p"
  obtains ss ds fes where
    "scanned U H (plan_Roots p) ss ds (root_files cwd lfs roots)" "plan_Roots p \<noteq> []"
    "ss \<noteq> [] \<or> ds \<noteq> []" "mset (carried p) = mset ss" "plan_FileCount p = length ss"
    "plan_Entries p = ds @ fes" "mset fes = mset (placed_entries p)"
    "distinct (map fst (plan_RawFiles p) @ map ps_SegmentID (plan_Packs p))"
    "map fst (plan_RawFiles p) = map raw_id [0..<length (plan_RawFiles p)]"
    "map ps_SegmentID (plan_Packs p) = map pack_id [0..<length (plan_Packs p)]"
    "distinct (map (\<lambda>s. ToLower U (src_RelPath s)) ss)"
    "\<forall>s\<in>set ss. \<forall>e\<in>set ds. ToLower U (src_RelPath s) \<noteq> ToLower U (ent_Path e)"
    "plan_bounds p"
proof -
  from assms obtain names ss0 ds k where s: "roots \<noteq> []"
    "scan_roots U H cwd lfs roots {} ([], [], []) = Inr (names, ss0, ds)" "ss0 \<noteq> [] \<or> ds \<noteq> []"
    "place_sources U (sort_key src_RelPath ss0) (start_packing U names ds) = Inr k"
    and p: "p = pk_plan (flushPack k)\<lparr>plan_DirCount :=
        length (filter (\<lambda>e. ent_Type e = EntryDirectory) (plan_Entries (pk_plan (flushPack k))))\<rparr>"
    by (auto simp: Scan_def Let_def split: if_splits sum.splits)
  let ?q = "pk_plan (flushPack k)"
  have pq: "plan_Roots p = plan_Roots ?q" "plan_Entries p = plan_Entries ?q" "plan_RawFiles p = plan_RawFiles ?q"
    "plan_Packs p = plan_Packs ?q" "plan_FileCount p = plan_FileCount ?q"
    by (simp_all add: p)
  have sc: "scanned U H names ss0 ds (root_files cwd lfs roots)" "length names = length roots"
    using scan_roots_scanned [OF s(2) scanned_empty] by simp_all
  have names: "plan_Roots p = names"
    unfolding pq by (simp add: roots_kept(1) roots_kept(2) [OF s(4)] start_packing_def)
  let ?ss = "sort_key src_RelPath ss0"
  have "grouped U ds ?ss (flushPack k)" and nil: "ps_Files (pk_current (flushPack k)) = []"
    using grouped_place_sources [OF s(4) grouped_start] by (simp_all add: grouped_flush)
  then have g: "mset (carried ?q) = mset ss0" "plan_FileCount ?q = length ss0"
    "map fst (plan_RawFiles ?q) = map raw_id [0..<pk_rawIndex (flushPack k)]"
    "map ps_SegmentID (plan_Packs ?q) = map pack_id [0..<pk_packIndex (flushPack k)]"
    "distinct (map (\<lambda>s. ToLower U (src_RelPath s)) ?ss)"
    "\<forall>s\<in>set ss0. \<forall>e\<in>set ds. ToLower U (src_RelPath s) \<noteq> ToLower U (ent_Path e)"
    "\<exists>fes. plan_Entries ?q = ds @ fes \<and> mset fes = mset (placed_entries ?q)"
    unfolding grouped_def nil by simp_all
  from g(7) obtain fes where fes: "plan_Entries ?q = ds @ fes" "mset fes = mset (placed_entries ?q)" by blast
  have "bounded k"
    using bounded_place_sources [OF s(4) bounded_start] scanned_sizes [OF sc(1)] by simp
  then have b: "plan_bounds p" using bounded_flush unfolding plan_bounds_def pq by blast
  have c: "carried p = carried ?q" "placed_entries p = placed_entries ?q"
    by (simp_all add: carried_def placed_entries_def pq)
  have d0: "distinct (map (\<lambda>s. ToLower U (src_RelPath s)) ss0)"
    using g(5) mset_eq_imp_distinct_iff [of "map (\<lambda>s. ToLower U (src_RelPath s)) ?ss"
        "map (\<lambda>s. ToLower U (src_RelPath s)) ss0"] by simp
  have inj: "inj raw_id" "inj pack_id" by (simp_all add: inj_def)
  have d: "distinct (map fst (plan_RawFiles p) @ map ps_SegmentID (plan_Packs p))"
    unfolding pq g(3,4) distinct_append distinct_map using inj by (auto simp: inj_on_def)
  show thesis
  proof (rule that [of ss0 ds fes])
    have "length (plan_RawFiles ?q) = pk_rawIndex (flushPack k)" "length (plan_Packs ?q) = pk_packIndex (flushPack k)"
      using arg_cong [OF g(3), of length] arg_cong [OF g(4), of length] by simp_all
    then show "map fst (plan_RawFiles p) = map raw_id [0..<length (plan_RawFiles p)]"
      "map ps_SegmentID (plan_Packs p) = map pack_id [0..<length (plan_Packs p)]"
      using g(3,4) unfolding pq by simp_all
    show "plan_Roots p \<noteq> []" using names sc(2) s(1) by auto
  qed (use sc(1) names s(3) g(1,2,6) c pq fes d d0 b in simp_all)
qed

text \<open>What the finished plan says of each entry, by the source it stands for.\<close>

lemma file_entry_simps [simp]:
  "ent_Path (file_entry i s) = src_RelPath s" "ent_Type (file_entry i s) = EntryFile"
  "ent_Size (file_entry i s) = src_Size s" "ent_SegmentID (file_entry i s) = i"
  "ent_Digest (file_entry i s) = src_Digest s" "ent_Mode (file_entry i s) = src_Mode s"
  "ent_SegmentOffset (file_entry i s) = 0"
  by (simp_all add: file_entry_def)

lemma dir_entry_simps [simp]:
  "ent_Path (dir_entry q i) = q" "ent_Type (dir_entry q i) = EntryDirectory"
  "ent_Size (dir_entry q i) = 0" "ent_SegmentID (dir_entry q i) = []"
  "ent_Digest (dir_entry q i) = []" "ent_Mode (dir_entry q i) = 0x1ED"
  by (simp_all add: dir_entry_def)

lemma placed_entries_cases:
  assumes "e \<in> set (placed_entries p)"
  obtains (raw) i s where "(i, s) \<in> set (plan_RawFiles p)" "e = file_entry i s"
  | (packed) k s where "k \<in> set (plan_Packs p)" "s \<in> set (ps_Files k)" "e = file_entry (ps_SegmentID k) s"
  using assms by (auto simp: placed_entries_def)

lemma placed_paths: "map ent_Path (placed_entries p) = map src_RelPath (carried p)"
  by (simp add: placed_entries_def carried_def map_concat comp_def case_prod_beta)

lemma placed_source: "e \<in> set (placed_entries p) \<Longrightarrow> \<exists>s\<in>set (carried p). \<exists>i. e = file_entry i s"
  by (erule placed_entries_cases) (force simp: carried_def)+

lemma scanned_source:
  assumes "scanned U H names ss ds fs" and "s \<in> set ss"
  shows "0 \<le> src_Size s" "\<exists>b. src_Digest s = H b" "src_Mode s \<le> 511"
proof -
  have "list_all2 (source_of H) ss fs" using assms(1) by (simp add: scanned_def)
  then obtain f where "source_of H s f" using assms(2) by (induction rule: list_all2_induct) auto
  then show "0 \<le> src_Size s" "\<exists>b. src_Digest s = H b" "src_Mode s \<le> 511"
    by (auto simp: source_of_def)
qed

text \<open>
  C17: A plan carries every regular file below the roots exactly once and nothing else: raw
  segments hold the files of at least 1 MiB, packs hold the smaller ones, no pack is empty or
  reaches 65 MiB, and every pack but the last has at least 64 MiB.
\<close>

theorem Scan_carries_every_file:
  assumes "Scan U H cwd lfs roots = Inr p"
  shows "mset (map (\<lambda>s. (src_RelPath s, src_Size s, src_Digest s)) (carried p))
      = mset (map (\<lambda>(q, b). (q, int (length b), H b)) (root_files cwd lfs roots))
   \<and> plan_FileCount p = length (root_files cwd lfs roots)
   \<and> (\<forall>(i, s)\<in>set (plan_RawFiles p). RawThreshold \<le> src_Size s)
   \<and> (\<forall>k\<in>set (plan_Packs p). ps_Files k \<noteq> [] \<and> (\<forall>s\<in>set (ps_Files k). src_Size s < RawThreshold)
        \<and> ps_RawBytes k = sum_list (map src_Size (ps_Files k)) \<and> ps_RawBytes k < PackTarget + RawThreshold)
   \<and> (\<forall>k\<in>set (butlast (plan_Packs p)). PackTarget \<le> ps_RawBytes k)"
proof -
  obtain ss ds where
    s: "scanned U H (plan_Roots p) ss ds (root_files cwd lfs roots)" and m: "mset (carried p) = mset ss"
    and n: "plan_FileCount p = length ss" and b: "plan_bounds p"
    by (rule Scan_result [OF assms]) (rule that; assumption)
  have l: "list_all2 (source_of H) ss (root_files cwd lfs roots)" using s unfolding scanned_def by blast
  then have e: "map (\<lambda>s. (src_RelPath s, src_Size s, src_Digest s)) ss
      = map (\<lambda>(q, b). (q, int (length b), H b)) (root_files cwd lfs roots)"
    by (induction rule: list_all2_induct) (auto simp: source_of_def)
  have c: "mset (map (\<lambda>s. (src_RelPath s, src_Size s, src_Digest s)) (carried p))
      = mset (map (\<lambda>(q, b). (q, int (length b), H b)) (root_files cwd lfs roots))"
    unfolding e [symmetric] by (simp only: mset_map m)
  have n': "plan_FileCount p = length (root_files cwd lfs roots)" using n list_all2_lengthD [OF l] by simp
  have k: "\<forall>k\<in>set (plan_Packs p). ps_Files k \<noteq> [] \<and> (\<forall>s\<in>set (ps_Files k). src_Size s < RawThreshold)
        \<and> ps_RawBytes k = sum_list (map src_Size (ps_Files k)) \<and> ps_RawBytes k < PackTarget + RawThreshold"
  proof
    fix k assume "k \<in> set (plan_Packs p)"
    with b have "pack_sum k" "ps_Files k \<noteq> []" "ps_RawBytes k < PackTarget + RawThreshold"
      by (simp_all add: plan_bounds_def)
    then show "ps_Files k \<noteq> [] \<and> (\<forall>s\<in>set (ps_Files k). src_Size s < RawThreshold)
        \<and> ps_RawBytes k = sum_list (map src_Size (ps_Files k)) \<and> ps_RawBytes k < PackTarget + RawThreshold"
      by (simp add: pack_sum_def)
  qed
  show ?thesis using c n' k b [unfolded plan_bounds_def] by (intro conjI) (elim conjE, assumption)+
qed

definition sample_hash :: "string \<Rightarrow> string" where
  "sample_hash b = replicate 64 (CHR ''0'')"

definition sample_tree :: "string \<Rightarrow> local_node" where
  "sample_tree p =
     (if p = ''/d'' then LocalDir \<lparr>fi_Size = 0, fi_MTimeNS = 5, fi_Perm = 0x1ED\<rparr> True
        [(''a'', LocalFile \<lparr>fi_Size = 2, fi_MTimeNS = 7, fi_Perm = 0x1A4\<rparr> (Some ''hi'')),
         (''s'', LocalDir \<lparr>fi_Size = 0, fi_MTimeNS = 5, fi_Perm = 0x1ED\<rparr> True
            [(''b'', LocalFile \<lparr>fi_Size = 0, fi_MTimeNS = 8, fi_Perm = 0x1ED\<rparr> (Some []))])]
      else LocalGone)"

definition sample_plan :: plan where
  "sample_plan = projr (Scan ascii_tables sample_hash None sample_tree [''/d''])"

lemma sample_scan: "Scan ascii_tables sample_hash None sample_tree [''/d''] = Inr sample_plan"
proof -
  have "isl (Scan ascii_tables sample_hash None sample_tree [''/d'']) = False" by code_simp
  then show ?thesis by (simp add: sample_plan_def)
qed

theorem Scan_carries_every_file_witness:
  "Scan ascii_tables sample_hash None sample_tree [''/d''] = Inr sample_plan
   \<and> plan_FileCount sample_plan = length (root_files None sample_tree [''/d''])"
  using sample_scan Scan_carries_every_file [OF sample_scan] by (elim conjE) (intro conjI)

end
