(* ===== verification/SSS_Send.thy ===== *)
theory SSS_Send
  imports SSS_Plan SSS_Commit
begin

text \<open>
  Sending (\<^verbatim>\<open>internal/client/send.go\<close>): the segments a client declares and the manifest it commits
  for a plan, the fingerprint under which it resumes, and the loop that uploads one segment over
  an unreliable connection. The lemmas tie the client to the server: which plans the server
  accepts, and that a finished upload has left exactly the bytes of the source.
\<close>

section \<open>Declared segments and manifest\<close>

record pack_ref =
  ref_Path :: string
  ref_Size :: int
  ref_Digest :: string

text \<open>
  The raw files come in the order in which the loop over the map visits them, the packs in the
  order of the plan.
\<close>

definition segmentPlans ::
  "(string \<times> source) list \<Rightarrow> pack_spec list \<Rightarrow> (string \<Rightarrow> pack_ref) \<Rightarrow> segment_req list" where
  "segmentPlans raws specs packs =
     map (\<lambda>(segID, src). \<lparr>sq_ID = segID, sq_Kind = SegmentRaw, sq_DigestAlgorithm = DigestAlgorithm,
       sq_ExpectedLength = src_Size src, sq_ExpectedDigest = Some (src_Digest src)\<rparr>) raws
     @ map (\<lambda>spec. let ref = packs (ps_SegmentID spec)
         in \<lparr>sq_ID = ps_SegmentID spec, sq_Kind = SegmentTarZstd, sq_DigestAlgorithm = DigestAlgorithm,
           sq_ExpectedLength = ref_Size ref, sq_ExpectedDigest = Some (ref_Digest ref)\<rparr>) specs"

definition raw_segment :: "string \<times> source \<Rightarrow> segment" where
  "raw_segment = (\<lambda>(segID, src). \<lparr>seg_ID = segID, seg_Kind = SegmentRaw, seg_WireSize = src_Size src,
     seg_Digest = src_Digest src, seg_StoragePath = []\<rparr>)"

definition pack_segment :: "(string \<Rightarrow> pack_ref) \<Rightarrow> pack_spec \<Rightarrow> segment" where
  "pack_segment packs spec =
     (let ref = packs (ps_SegmentID spec)
      in \<lparr>seg_ID = ps_SegmentID spec, seg_Kind = SegmentTarZstd, seg_WireSize = ref_Size ref,
          seg_Digest = ref_Digest ref, seg_StoragePath = []\<rparr>)"

definition manifestSegments ::
  "(string \<times> source) list \<Rightarrow> pack_spec list \<Rightarrow> (string \<Rightarrow> pack_ref) \<Rightarrow> segment list" where
  "manifestSegments raws specs packs = map raw_segment raws @ map (pack_segment packs) specs"

definition create_request ::
  "plan \<Rightarrow> int \<Rightarrow> string \<Rightarrow> (string \<times> source) list \<Rightarrow> (string \<Rightarrow> pack_ref) \<Rightarrow> create_req" where
  "create_request p ttl note raws packs =
     \<lparr>rq_TTLMinutes = ttl, rq_Note = note, rq_ExpectedFileCount = int (plan_FileCount p),
      rq_Segments = segmentPlans raws (plan_Packs p) packs\<rparr>"

definition send_manifest ::
  "plan \<Rightarrow> string \<Rightarrow> time \<Rightarrow> string \<Rightarrow> (string \<times> source) list \<Rightarrow> (string \<Rightarrow> pack_ref) \<Rightarrow> manifest" where
  "send_manifest p transferID now note raws packs =
     \<lparr>man_SchemaVersion = 1, man_TransferID = transferID, man_CreatedAt = now, man_Note = note,
      man_Roots = plan_Roots p, man_DigestAlgorithm = DigestAlgorithm,
      man_Segments = manifestSegments raws (plan_Packs p) packs, man_Entries = plan_Entries p\<rparr>"

section \<open>The server accepts a plan\<close>

text \<open>
  What \<^verbatim>\<open>Scan\<close> leaves open: a plan needs a file, and the server also refuses paths that are not
  UTF-8, times before 1970 and directories that differ only in case.
\<close>

definition sendable :: "unicode_tables \<Rightarrow> plan \<Rightarrow> bool" where
  "sendable U p \<longleftrightarrow> plan_FileCount p \<noteq> 0
     \<and> (\<forall>e\<in>set (plan_Entries p). valid_utf8 (ent_Path e) \<and> 0 \<le> ent_MTimeUnixNS e)
     \<and> distinct (map (\<lambda>e. ToLower U (ent_Path e))
         (filter (\<lambda>e. ent_Type e = EntryDirectory) (plan_Entries p)))"

lemma hd_below: "below r q \<Longrightarrow> slash \<notin> set r \<Longrightarrow> hd (split_on slash q) = r"
  by (auto simp: below_def split_on_free split_on_append)

lemma segment_simps [simp]:
  "seg_ID (raw_segment f) = fst f" "seg_Kind (raw_segment f) = SegmentRaw"
  "seg_WireSize (raw_segment f) = src_Size (snd f)" "seg_Digest (raw_segment f) = src_Digest (snd f)"
  "seg_ID (pack_segment packs k) = ps_SegmentID k" "seg_Kind (pack_segment packs k) = SegmentTarZstd"
  "seg_WireSize (pack_segment packs k) = ref_Size (packs (ps_SegmentID k))"
  "seg_Digest (pack_segment packs k) = ref_Digest (packs (ps_SegmentID k))"
  by (simp_all add: raw_segment_def pack_segment_def Let_def split: prod.splits)

lemma send_manifest_simps [simp]:
  "man_SchemaVersion (send_manifest p i now note raws packs) = 1"
  "man_TransferID (send_manifest p i now note raws packs) = i"
  "man_CreatedAt (send_manifest p i now note raws packs) = now"
  "man_Note (send_manifest p i now note raws packs) = note"
  "man_Roots (send_manifest p i now note raws packs) = plan_Roots p"
  "man_DigestAlgorithm (send_manifest p i now note raws packs) = DigestAlgorithm"
  "man_Segments (send_manifest p i now note raws packs) = map raw_segment raws @ map (pack_segment packs) (plan_Packs p)"
  "man_Entries (send_manifest p i now note raws packs) = plan_Entries p"
  by (simp_all add: send_manifest_def manifestSegments_def)

lemma is_raw_claim_placed:
  assumes m: "man_Segments m = map raw_segment raws @ map (pack_segment packs) specs"
    and d: "distinct (map seg_ID (man_Segments m))"
  shows "(i, s) \<in> set raws \<Longrightarrow> is_raw_claim m (file_entry i s')"
    and "k \<in> set specs \<Longrightarrow> \<not> is_raw_claim m (file_entry (ps_SegmentID k) s')"
proof -
  have seg: "SegmentByID m (seg_ID g) = Some g" if "g \<in> set (man_Segments m)" for g
    using SegmentByID_Some_iff [OF d] that by blast
  show "is_raw_claim m (file_entry i s')" if "(i, s) \<in> set raws"
  proof -
    have "raw_segment (i, s) \<in> set (man_Segments m)" using that by (simp add: m)
    from seg [OF this] show ?thesis by (simp add: is_raw_claim_def)
  qed
  show "\<not> is_raw_claim m (file_entry (ps_SegmentID k) s')" if "k \<in> set specs"
  proof -
    have "pack_segment packs k \<in> set (man_Segments m)" using that by (simp add: m)
    from seg [OF this] show ?thesis by (simp add: is_raw_claim_def)
  qed
qed

lemma raw_claims_placed:
  assumes m: "man_Segments m = map raw_segment raws @ map (pack_segment packs) (plan_Packs p)"
    and d: "distinct (map seg_ID (man_Segments m))" and r: "set raws = set (plan_RawFiles p)"
  shows "raw_claims m (placed_entries p) = map fst (plan_RawFiles p)"
proof -
  note c = is_raw_claim_placed [OF m d]
  have "raw_claims m (map (\<lambda>(i, s). file_entry i s) fs) = map fst fs" if "set fs \<subseteq> set raws" for fs
    using that c(1) by (induction fs) (auto simp: raw_claims_def)
  moreover have "raw_claims m (map (file_entry (ps_SegmentID k)) ss) = []" if "k \<in> set (plan_Packs p)" for k ss
    using c(2) [OF that] by (simp add: raw_claims_def filter_empty_conv)
  then have "raw_claims m (concat (map (\<lambda>k. map (file_entry (ps_SegmentID k)) (ps_Files k)) ks)) = []"
    if "set ks \<subseteq> set (plan_Packs p)" for ks
    using that by (induction ks) (auto simp: raw_claims_def)
  ultimately show ?thesis using r by (simp add: placed_entries_def) (simp add: raw_claims_def)
qed

lemma raw_claims_mset: "mset es = mset es' \<Longrightarrow> mset (raw_claims m es) = mset (raw_claims m es')"
  by (simp add: raw_claims_def)

lemma raw_claims_dirs: "\<forall>e\<in>set ds. ent_Type e = EntryDirectory \<Longrightarrow> raw_claims m (ds @ es) = raw_claims m es"
  by (simp add: raw_claims_def is_raw_claim_def filter_empty_conv)

lemma scanned_path:
  assumes "scanned U H names ss ds fs" and "q \<in> src_RelPath ` set ss \<union> ent_Path ` set ds" and "valid_utf8 q"
  shows "ValidatePortablePath U q = None"
    and "ToLower U (hd (split_on slash q)) \<in> ToLower U ` set names"
proof -
  have "\<forall>q\<in>src_RelPath ` set ss \<union> ent_Path ` set ds. (\<exists>r\<in>set names. below r q)
      \<and> (q \<in> set names \<or> ValidatePortablePath U q = None)"
    using assms(1) unfolding scanned_def by (elim conjE)
  note s = conjunct1 [OF bspec [OF this assms(2)]] conjunct2 [OF bspec [OF this assms(2)]]
  have ns: "\<forall>r\<in>set names. ValidateComponent U r = None"
    using assms(1) unfolding scanned_def by (elim conjE)
  from s(2) ns assms(3) show "ValidatePortablePath U q = None" using component_portable by blast
  from s(1) ns obtain r where r: "r \<in> set names" "below r q" "ValidateComponent U r = None" by blast
  then have "hd (split_on slash q) = r" using ValidateComponent_safe(6) by (intro hd_below)
  with r(1) show "ToLower U (hd (split_on slash q)) \<in> ToLower U ` set names" by simp
qed

lemma send_segments_ok:
  assumes scan: "Scan U H cwd lfs roots = Inr p" and raws: "mset raws = mset (plan_RawFiles p)"
    and hex: "\<And>b. digest_pattern (H b)"
    and refs: "\<And>k. k \<in> set (plan_Packs p) \<Longrightarrow>
      0 \<le> ref_Size (packs (ps_SegmentID k)) \<and> digest_pattern (ref_Digest (packs (ps_SegmentID k)))"
    and cnt: "plan_FileCount p < 2 ^ 63"
  shows "\<forall>g\<in>set (manifestSegments raws (plan_Packs p) packs). segment_ok g"
    and "distinct (map seg_ID (manifestSegments raws (plan_Packs p) packs))"
proof -
  obtain ss ds where s: "scanned U H (plan_Roots p) ss ds (root_files cwd lfs roots)"
    "mset (carried p) = mset ss" "plan_FileCount p = length ss"
    "distinct (map fst (plan_RawFiles p) @ map ps_SegmentID (plan_Packs p))"
    "map fst (plan_RawFiles p) = map raw_id [0..<length (plan_RawFiles p)]"
    "map ps_SegmentID (plan_Packs p) = map pack_id [0..<length (plan_Packs p)]" "plan_bounds p"
    by (rule Scan_result [OF scan]) (rule that; assumption)
  have set_raws: "set raws = set (plan_RawFiles p)" using raws by (metis set_mset_mset)
  have set_ss: "set (carried p) = set ss" using s(2) by (metis set_mset_mset)
  have full: "\<forall>k\<in>set (plan_Packs p). ps_Files k \<noteq> []" using s(7) by (simp add: plan_bounds_def)
  have "length (concat (map ps_Files ks)) \<ge> length ks" if "\<forall>k\<in>set ks. ps_Files k \<noteq> []" for ks
    using that
  proof (induction ks)
    case (Cons k ks)
    then have "Suc 0 \<le> length (ps_Files k)" by (simp add: Suc_le_eq)
    moreover have "length ks \<le> length (concat (map ps_Files ks))" using Cons by simp
    ultimately have "Suc 0 + length ks \<le> length (ps_Files k) + length (concat (map ps_Files ks))"
      by (rule add_mono)
    then show ?case by simp
  qed simp
  then have "length (plan_RawFiles p) \<le> length (carried p)" "length (plan_Packs p) \<le> length (carried p)"
    using full by (fastforce simp: carried_def)+
  moreover have "length (carried p) = length ss" using s(2) by (metis size_mset)
  ultimately have n: "length (plan_RawFiles p) < 2 ^ 63" "length (plan_Packs p) < 2 ^ 63"
    using s(3) cnt by simp_all
  show "\<forall>g\<in>set (manifestSegments raws (plan_Packs p) packs). segment_ok g"
  proof
    fix g assume "g \<in> set (manifestSegments raws (plan_Packs p) packs)"
    then consider (raw) j src where "(j, src) \<in> set (plan_RawFiles p)" "g = raw_segment (j, src)"
      | (packed) k where "k \<in> set (plan_Packs p)" "g = pack_segment packs k"
      by (auto simp: manifestSegments_def set_raws)
    then show "segment_ok g"
    proof cases
      case raw
      then have "j \<in> set (map fst (plan_RawFiles p))" "src \<in> set ss"
        using set_ss by (force simp: carried_def)+
      then obtain a where "j = raw_id a" "a < 2 ^ 63" unfolding s(5) using n(1) by auto
      with length_segment_id scanned_source [OF s(1) \<open>src \<in> set ss\<close>] hex show ?thesis
        by (auto simp: raw segment_ok_def)
    next
      case packed
      then have "ps_SegmentID k \<in> set (map ps_SegmentID (plan_Packs p))" by simp
      then obtain a where "ps_SegmentID k = pack_id a" "a < 2 ^ 63" unfolding s(6) using n(2) by auto
      with length_segment_id refs [OF packed(1)] show ?thesis by (auto simp: packed segment_ok_def)
    qed
  qed
  have "map seg_ID (manifestSegments raws (plan_Packs p) packs) = map fst raws @ map ps_SegmentID (plan_Packs p)"
    by (simp add: manifestSegments_def comp_def)
  moreover have "mset (map fst raws @ map ps_SegmentID (plan_Packs p))
      = mset (map fst (plan_RawFiles p) @ map ps_SegmentID (plan_Packs p))" using raws by simp
  ultimately show "distinct (map seg_ID (manifestSegments raws (plan_Packs p) packs))"
    using s(4) mset_eq_imp_distinct_iff by metis
qed

text \<open>
  C12: The server accepts a scanned plan. For the raw files in any order and packs with well-formed
  digests, the manifest passes validation exactly when the plan is sendable: it has a file,
  every path is UTF-8, no time is before 1970, and no two directories differ only in case.
\<close>

theorem Scan_accepted:
  assumes scan: "Scan U H cwd lfs roots = Inr p" and raws: "mset raws = mset (plan_RawFiles p)"
    and hex: "\<And>b. digest_pattern (H b)"
    and refs: "\<And>k. k \<in> set (plan_Packs p) \<Longrightarrow>
      0 \<le> ref_Size (packs (ps_SegmentID k)) \<and> digest_pattern (ref_Digest (packs (ps_SegmentID k)))"
    and cnt: "plan_FileCount p < 2 ^ 63"
    and tid: "16 \<le> length i" "length i \<le> 128" and now: "now \<noteq> zero_time"
    and nt: "length note \<le> MaxNoteBytesHard" "valid_utf8 note"
  shows "Validate U (send_manifest p i now note raws packs) = None \<longleftrightarrow> sendable U p"
proof -
  let ?m = "send_manifest p i now note raws packs"
  obtain ss ds fes where s: "scanned U H (plan_Roots p) ss ds (root_files cwd lfs roots)"
    "plan_Roots p \<noteq> []" "mset (carried p) = mset ss" "plan_FileCount p = length ss"
    "plan_Entries p = ds @ fes" "mset fes = mset (placed_entries p)"
    "distinct (map fst (plan_RawFiles p) @ map ps_SegmentID (plan_Packs p))"
    "distinct (map (\<lambda>s. ToLower U (src_RelPath s)) ss)"
    "\<forall>s\<in>set ss. \<forall>e\<in>set ds. ToLower U (src_RelPath s) \<noteq> ToLower U (ent_Path e)"
    "plan_bounds p"
    by (rule Scan_result [OF scan]) (rule that; assumption)
  have set_raws: "set raws = set (plan_RawFiles p)" using raws by (metis set_mset_mset)
  have set_fes: "set fes = set (placed_entries p)" using s(6) by (metis set_mset_mset)
  have set_ss: "set (carried p) = set ss" using s(3) by (metis set_mset_mset)
  have dirs: "\<forall>e\<in>set ds. \<exists>q j. e = dir_entry q j" using s(1) by (simp add: scanned_def)
  have roots_ok: "\<forall>r\<in>set (plan_Roots p). root_ok U r" "distinct (map (ToLower U) (plan_Roots p))"
    using s(1) by (simp_all add: scanned_def root_ok_def)
  have segs: "man_Segments ?m = manifestSegments raws (plan_Packs p) packs"
    by (simp add: manifestSegments_def)
  note sok = send_segments_ok [where packs = packs, OF scan raws hex refs cnt, folded segs]
  have fents: "\<exists>src\<in>set ss. \<exists>j. e = file_entry j src" if "e \<in> set fes" for e
    using placed_source [of e p] that set_fes set_ss by blast
  have dtype: "\<forall>e\<in>set ds. ent_Type e = EntryDirectory" using dirs by fastforce
  have ftype: "\<forall>e\<in>set fes. ent_Type e = EntryFile" using fents by fastforce
  have onlydirs: "filter (\<lambda>e. ent_Type e = EntryDirectory) (plan_Entries p) = ds"
    using dtype ftype by (simp add: s(5) filter_id_conv filter_empty_conv)
  have claims: "distinct (raw_claims ?m (man_Entries ?m))"
  proof -
    have "mset (raw_claims ?m fes) = mset (map fst (plan_RawFiles p))"
      using raw_claims_mset [OF s(6)] raw_claims_placed [OF send_manifest_simps(7) sok(2) set_raws] by metis
    moreover have "distinct (map fst (plan_RawFiles p))" using s(7) by simp
    ultimately have "distinct (raw_claims ?m fes)" using mset_eq_imp_distinct_iff by metis
    then show ?thesis by (simp add: s(5) raw_claims_dirs [OF dtype])
  qed
  have keys: "distinct (map (\<lambda>e. ToLower U (ent_Path e)) (ds @ fes))
      \<longleftrightarrow> distinct (map (\<lambda>e. ToLower U (ent_Path e)) ds)"
  proof -
    have "mset (map ent_Path fes) = mset (map src_RelPath ss)"
      using arg_cong [OF placed_paths [of p], of mset] s(3,6) by simp
    then have "image_mset (ToLower U) (mset (map ent_Path fes)) = image_mset (ToLower U) (mset (map src_RelPath ss))"
      by (rule arg_cong)
    then have "mset (map (\<lambda>e. ToLower U (ent_Path e)) fes) = mset (map (\<lambda>s. ToLower U (src_RelPath s)) ss)"
      by (simp add: image_mset.compositionality comp_def)
    with s(8) have "distinct (map (\<lambda>e. ToLower U (ent_Path e)) fes)" using mset_eq_imp_distinct_iff by metis
    moreover have "ToLower U (ent_Path e) \<noteq> ToLower U (ent_Path f)" if "e \<in> set ds" "f \<in> set fes" for e f
      using fents [OF that(2)] s(9) that(1) by fastforce
    ultimately show ?thesis by auto
  qed
  have full: "\<forall>k\<in>set (plan_Packs p). ps_Files k \<noteq> []" using s(10) by (simp add: plan_bounds_def)
  have empty: "carried p = [] \<longleftrightarrow> plan_RawFiles p = [] \<and> plan_Packs p = []"
    using full by (cases "plan_Packs p") (auto simp: carried_def)
  have some: "man_Segments ?m \<noteq> [] \<longleftrightarrow> plan_FileCount p \<noteq> 0"
  proof -
    have "raws = [] \<longleftrightarrow> plan_RawFiles p = []" using set_raws by (metis set_empty)
    moreover have "plan_FileCount p = 0 \<longleftrightarrow> carried p = []" using s(3,4) by auto
    ultimately show ?thesis using empty by simp
  qed
  have referenced: "\<exists>e\<in>set (man_Entries ?m). ent_SegmentID e = seg_ID g" if "g \<in> set (man_Segments ?m)" for g
  proof -
    from that consider (raw) j src where "(j, src) \<in> set (plan_RawFiles p)" "g = raw_segment (j, src)"
      | (packed) k where "k \<in> set (plan_Packs p)" "g = pack_segment packs k"
      by (auto simp: set_raws)
    then have "\<exists>e\<in>set (placed_entries p). ent_SegmentID e = seg_ID g"
    proof cases
      case raw
      then show ?thesis by (intro bexI [of _ "file_entry j src"]) (auto simp: placed_entries_def)
    next
      case packed
      with full obtain src where "src \<in> set (ps_Files k)" by (meson list.set_sel(1))
      with packed show ?thesis
        by (intro bexI [of _ "file_entry (ps_SegmentID k) src"]) (auto simp: placed_entries_def)
    qed
    then show ?thesis by (auto simp: s(5) set_fes)
  qed
  have files: "file_ok ?m e" if "e \<in> set fes" for e
  proof -
    from that have "e \<in> set (placed_entries p)" by (simp add: set_fes)
    then show ?thesis
    proof (cases rule: placed_entries_cases)
      case (raw j src)
      then have "src \<in> set ss" using set_ss by (force simp: carried_def)
      from scanned_source [OF s(1) this] hex have "0 \<le> src_Size src" "digest_pattern (src_Digest src)" by auto
      moreover have "raw_segment (j, src) \<in> set (man_Segments ?m)" using raw by (simp add: set_raws)
      ultimately show ?thesis unfolding file_ok_def raw
        by (intro conjI bexI [of _ "raw_segment (j, src)"]; (assumption | simp))
    next
      case (packed k src)
      then have "src \<in> set ss" using set_ss by (force simp: carried_def)
      from scanned_source [OF s(1) this] hex have "0 \<le> src_Size src" "digest_pattern (src_Digest src)" by auto
      moreover have "pack_segment packs k \<in> set (man_Segments ?m)" using packed by simp
      ultimately show ?thesis unfolding file_ok_def packed
        by (intro conjI bexI [of _ "pack_segment packs k"]; (assumption | simp))
    qed
  qed
  have entries: "entry_ok U ?m e" if "e \<in> set (plan_Entries p)" "valid_utf8 (ent_Path e)" "0 \<le> ent_MTimeUnixNS e" for e
  proof (cases "e \<in> set ds")
    case True
    then have q: "ent_Path e \<in> src_RelPath ` set ss \<union> ent_Path ` set ds" by simp
    from True dirs obtain q j where "e = dir_entry q j" by blast
    with scanned_path [OF s(1) q that(2)] that(3) show ?thesis by (simp add: entry_ok_def)
  next
    case False
    with that(1) have e: "e \<in> set fes" by (simp add: s(5))
    with fents obtain src j where f: "src \<in> set ss" "e = file_entry j src" by blast
    then have q: "ent_Path e \<in> src_RelPath ` set ss \<union> ent_Path ` set ds" by simp
    show ?thesis
      using scanned_path [OF s(1) q that(2)] that(3) files [OF e] scanned_source [OF s(1) f(1)]
      by (simp add: entry_ok_def f(2))
  qed
  have path_ok: "valid_utf8 q" if "ValidatePortablePath U q = None" for q
    using that by (auto simp: ValidatePortablePath_def split: if_splits)
  show ?thesis unfolding Validate_iff
  proof
    assume ok: "manifest_ok U ?m"
    then have "man_Segments ?m \<noteq> []" "\<forall>e\<in>set (plan_Entries p). entry_ok U ?m e"
      "distinct (map (\<lambda>e. ToLower U (ent_Path e)) (ds @ fes))"
      unfolding manifest_ok_def normalizedPathKey_def by (simp_all add: s(5))
    then show "sendable U p" unfolding sendable_def onlydirs
      using some keys path_ok by (auto simp: entry_ok_def)
  next
    assume ok: "sendable U p"
    then have "man_Segments ?m \<noteq> []" using some by (simp add: sendable_def)
    moreover have "plan_Entries p \<noteq> []"
      using referenced \<open>man_Segments ?m \<noteq> []\<close> by (metis empty_iff last_in_set list.set(1) send_manifest_simps(8))
    moreover have "\<forall>e\<in>set (plan_Entries p). entry_ok U ?m e" using ok entries by (simp add: sendable_def)
    moreover have "distinct (map (\<lambda>e. ToLower U (ent_Path e)) ds)"
      using ok unfolding sendable_def onlydirs by blast
    then have "distinct (map (\<lambda>e. ToLower U (ent_Path e)) (plan_Entries p))"
      using keys unfolding s(5) by blast
    ultimately show "manifest_ok U ?m"
      unfolding manifest_ok_def normalizedPathKey_def
      using roots_ok s(2) sok claims tid now nt referenced by (simp only: send_manifest_simps) simp
  qed
qed

definition sample_refs :: "string \<Rightarrow> pack_ref" where
  "sample_refs i = \<lparr>ref_Path = ''/tmp/p'', ref_Size = 40, ref_Digest = sample_hash []\<rparr>"

theorem Scan_accepted_witness:
  "Validate ascii_tables (send_manifest sample_plan ''0123456789abcdef'' 1 ''note''
     (plan_RawFiles sample_plan) sample_refs) = None"
proof -
  have hex: "digest_pattern (sample_hash b)" for b
    by (simp add: sample_hash_def digest_pattern_def list_all_iff)
  have cnt: "plan_FileCount sample_plan < 2 ^ 63" and ok: "sendable ascii_tables sample_plan"
    by code_simp+
  have "Validate ascii_tables (send_manifest sample_plan ''0123456789abcdef'' 1 ''note''
      (plan_RawFiles sample_plan) sample_refs) = None \<longleftrightarrow> sendable ascii_tables sample_plan"
    by (rule Scan_accepted [OF sample_scan refl hex _ cnt])
       (simp_all add: sample_refs_def hex zero_time_def second_def MaxNoteBytesHard_def valid_utf8_ascii)
  with ok show ?thesis by blast
qed
end
