(* ===== verification/SSS_Fingerprint.thy ===== *)
theory SSS_Fingerprint
  imports SSS_Plan
begin

text \<open>
  The fingerprint of a plan (\<^verbatim>\<open>Plan.Fingerprint\<close> in \<^verbatim>\<open>internal/pack/plan.go\<close>), under which a send is
  resumed: a text of the note, the lifetime and one line per entry, hashed. The lemmas read that
  text back, so two plans have one fingerprint only if nothing of them differs.
\<close>

section \<open>The text\<close>

abbreviation tab :: char where "tab \<equiv> CHR 0x09"
abbreviation newline :: char where "newline \<equiv> CHR 0x0A"

text \<open>The verbs \<^verbatim>\<open>%d\<close> and \<^verbatim>\<open>%o\<close> of package \<^verbatim>\<open>fmt\<close>.\<close>

definition fmt_d :: "int \<Rightarrow> string" where
  "fmt_d n = (if n < 0 then CHR ''-'' # itoa (nat (- n)) else itoa (nat n))"

fun oct_digits :: "nat \<Rightarrow> string \<Rightarrow> string" where
  "oct_digits i buf = (if i = 0 then buf else oct_digits (i div 8) (char_of (48 + i mod 8) # buf))"

declare oct_digits.simps [simp del]

definition fmt_o :: "nat \<Rightarrow> string" where
  "fmt_o n = (if n = 0 then ''0'' else oct_digits n [])"

definition plan_SortedEntries :: "plan \<Rightarrow> entry list" where
  "plan_SortedEntries p = sort_key ent_Path (plan_Entries p)"

definition fingerprint_line :: "entry \<Rightarrow> string" where
  "fingerprint_line e =
     ent_Type e @ tab # ent_Path e @ tab # fmt_d (ent_Size e) @ tab # fmt_d (ent_MTimeUnixNS e)
     @ tab # fmt_o (ent_Mode e) @ tab # ent_Digest e @ [newline]"

definition fingerprint_text :: "plan \<Rightarrow> string \<Rightarrow> int \<Rightarrow> string" where
  "fingerprint_text p note ttlMinutes =
     ''v1'' @ newline # note @ newline # fmt_d ttlMinutes @ newline
     # concat (map fingerprint_line (plan_SortedEntries p))"

definition Fingerprint :: "(string \<Rightarrow> string) \<Rightarrow> plan \<Rightarrow> string \<Rightarrow> int \<Rightarrow> string" where
  "Fingerprint H p note ttlMinutes = H (fingerprint_text p note ttlMinutes)"

section \<open>Numbers read back\<close>

definition digit_char :: "char \<Rightarrow> bool" where "digit_char c \<longleftrightarrow> 48 \<le> byte c \<and> byte c \<le> 57"

lemma itoa_digits_chars: "list_all digit_char buf \<Longrightarrow> list_all digit_char (itoa_digits n buf)"
proof (induction n buf rule: itoa_digits.induct)
  case (1 i buf)
  then show ?case
    by (cases "i = 0") (simp_all add: digit_char_def, simp_all add: itoa_digits.simps [of i buf] itoa_digits.simps [of 0 buf])
qed

lemma itoa_chars: "list_all digit_char (itoa n)"
  using itoa_digits_chars [of "[]" n] by (simp add: itoa_def digit_char_def)

lemma oct_digits_chars: "list_all digit_char buf \<Longrightarrow> list_all digit_char (oct_digits n buf)"
proof (induction n buf rule: oct_digits.induct)
  case (1 i buf)
  then show ?case
    by (cases "i = 0") (simp_all add: digit_char_def, simp_all add: oct_digits.simps [of i buf] oct_digits.simps [of 0 buf])
qed

lemma fmt_o_chars: "list_all digit_char (fmt_o n)"
  using oct_digits_chars [of "[]" n] by (simp add: fmt_o_def digit_char_def)

lemma fmt_d_chars: "\<forall>c\<in>set (fmt_d n). digit_char c \<or> c = CHR ''-''"
  using itoa_chars by (auto simp: fmt_d_def list_all_iff)

text \<open>The value of octal digits, to read \<^verbatim>\<open>%o\<close> back.\<close>

definition oct_value :: "nat \<Rightarrow> string \<Rightarrow> nat" where
  "oct_value = foldl (\<lambda>a c. 8 * a + (byte c - 48))"

lemma oct_value_digits: "oct_value 0 (oct_digits n buf) = oct_value n buf"
proof (induction n buf rule: oct_digits.induct)
  case (1 i buf)
  show ?case
  proof (cases "i = 0")
    case False
    then have "oct_value 0 (oct_digits i buf) = oct_value (i div 8) (char_of (48 + i mod 8) # buf)"
      using 1 by (subst oct_digits.simps) simp
    then show ?thesis by (simp add: oct_value_def)
  qed (simp add: oct_digits.simps)
qed

lemma fmt_o_inject: "fmt_o m = fmt_o n \<longleftrightarrow> m = n"
proof -
  have "oct_value 0 (fmt_o n) = n" for n
    using oct_value_digits [of n "[]"] by (simp add: fmt_o_def oct_value_def)
  then show ?thesis by metis
qed

lemma fmt_d_inject: "fmt_d m = fmt_d n \<longleftrightarrow> m = n"
proof -
  have nondash: "itoa k \<noteq> CHR ''-'' # s" "CHR ''-'' # s \<noteq> itoa k" for k s
  proof -
    show a: "itoa k \<noteq> CHR ''-'' # s" for k s using itoa_chars [of k] by (auto simp: digit_char_def)
    show "CHR ''-'' # s \<noteq> itoa k" for k s using a [of k s] by metis
  qed
  have "fmt_d m = fmt_d n \<Longrightarrow> m = n"
  proof (cases "m < 0")
    case True
    assume eq: "fmt_d m = fmt_d n"
    then have "n < 0" using True nondash by (auto simp: fmt_d_def split: if_splits)
    with eq True show "m = n" by (simp add: fmt_d_def itoa_inject)
  next
    case False
    assume eq: "fmt_d m = fmt_d n"
    then have "\<not> n < 0" using False nondash by (auto simp: fmt_d_def split: if_splits)
    with eq False show "m = n" by (simp add: fmt_d_def itoa_inject)
  qed
  then show ?thesis by blast
qed

lemma no_separators:
  "tab \<notin> set (fmt_d n)" "newline \<notin> set (fmt_d n)" "tab \<notin> set (fmt_o k)" "newline \<notin> set (fmt_o k)"
  using fmt_d_chars [of n] fmt_o_chars [of k] by (auto simp: digit_char_def list_all_iff)

section \<open>The text read back\<close>

lemma split_on_app: "split_on d (a @ d # b) = split_on d a @ split_on d b"
proof (induction a)
  case (Cons c a)
  then show ?case by (cases "split_on d a") auto
qed simp

lemma split_on_lines:
  "\<forall>l\<in>set ls. d \<notin> set l \<Longrightarrow> split_on d (concat (map (\<lambda>l. l @ [d]) ls)) = ls @ [[]]"
  by (induction ls) (auto simp: split_on_append)

definition plain_entry :: "entry \<Rightarrow> bool" where
  "plain_entry e \<longleftrightarrow> (\<forall>f\<in>{ent_Type e, ent_Path e, ent_Digest e}. tab \<notin> set f \<and> newline \<notin> set f)"

definition line_fields :: "entry \<Rightarrow> string list" where
  "line_fields e = [ent_Type e, ent_Path e, fmt_d (ent_Size e), fmt_d (ent_MTimeUnixNS e),
     fmt_o (ent_Mode e), ent_Digest e]"

definition entry_identity :: "entry \<Rightarrow> string \<times> string \<times> int \<times> int \<times> nat \<times> string" where
  "entry_identity e = (ent_Type e, ent_Path e, ent_Size e, ent_MTimeUnixNS e, ent_Mode e, ent_Digest e)"

lemma fingerprint_line_join: "fingerprint_line e = join_with tab (line_fields e) @ [newline]"
  by (simp add: fingerprint_line_def line_fields_def)

lemma line_fields_split:
  assumes "plain_entry e"
  shows "split_on tab (join_with tab (line_fields e)) = line_fields e"
    and "tab \<in> set (join_with tab (line_fields e))" and "newline \<notin> set (join_with tab (line_fields e))"
proof -
  have e: "tab \<notin> set (ent_Type e)" "newline \<notin> set (ent_Type e)" "tab \<notin> set (ent_Path e)"
    "newline \<notin> set (ent_Path e)" "tab \<notin> set (ent_Digest e)" "newline \<notin> set (ent_Digest e)"
    using assms by (simp_all add: plain_entry_def)
  show "split_on tab (join_with tab (line_fields e)) = line_fields e"
    using e no_separators by (intro split_join) (simp_all add: line_fields_def)
  show "tab \<in> set (join_with tab (line_fields e))" by (simp add: line_fields_def)
  show "newline \<notin> set (join_with tab (line_fields e))"
    using e no_separators by (simp add: line_fields_def)
qed

lemma entry_identity_iff: "entry_identity e = entry_identity f \<longleftrightarrow> line_fields e = line_fields f"
  by (auto simp: entry_identity_def line_fields_def fmt_d_inject fmt_o_inject)

text \<open>From the end, the lines with a tab are the entries, and the line before them the lifetime.\<close>

lemma fingerprint_text_lines:
  assumes "\<forall>e\<in>set (plan_Entries p). plain_entry e"
  shows "split_on newline (fingerprint_text p nt ttl) =
     ''v1'' # split_on newline nt @ fmt_d ttl # map (\<lambda>e. join_with tab (line_fields e)) (plan_SortedEntries p) @ [[]]"
proof -
  let ?ls = "map (\<lambda>e. join_with tab (line_fields e)) (plan_SortedEntries p)"
  have "\<forall>l\<in>set ?ls. newline \<notin> set l"
    using assms line_fields_split(3) by (auto simp: plan_SortedEntries_def)
  then have "split_on newline (concat (map (\<lambda>l. l @ [newline]) ?ls)) = ?ls @ [[]]" by (rule split_on_lines)
  moreover have "concat (map fingerprint_line (plan_SortedEntries p)) = concat (map (\<lambda>l. l @ [newline]) ?ls)"
    using fingerprint_line_join by (simp add: comp_def cong: map_cong)
  moreover have "newline \<notin> set ''v1''" by simp
  ultimately show ?thesis
    using no_separators(2) [of ttl] by (simp only: fingerprint_text_def split_on_app split_on_free) (simp add: split_on_free)
qed

lemma last_block_unique:
  assumes "A @ d # ls = A' @ d' # ls'" and "\<forall>l\<in>set ls \<union> set ls'. P l" and "\<not> P d" "\<not> P d'"
  shows "A = A' \<and> d = d' \<and> ls = ls'"
proof -
  have "rev ls @ d # rev A = rev ls' @ d' # rev A'" using arg_cong [OF assms(1), of rev] by simp
  moreover have "takeWhile P (rev ls @ d # X) = rev ls" for X
    using assms(2,3) by (subst takeWhile_append2) auto
  moreover have "takeWhile P (rev ls' @ d' # X) = rev ls'" for X
    using assms(2,4) by (subst takeWhile_append2) auto
  ultimately have "rev ls = rev ls'" by metis
  then have "ls = ls'" by simp
  with assms(1) show ?thesis by simp
qed

lemma fingerprint_text_inject:
  assumes "\<forall>e\<in>set (plan_Entries p). plain_entry e" and "\<forall>e\<in>set (plan_Entries p'). plain_entry e"
    and "fingerprint_text p nt ttl = fingerprint_text p' nt' ttl'"
  shows "nt = nt' \<and> ttl = ttl'
    \<and> map entry_identity (plan_SortedEntries p) = map entry_identity (plan_SortedEntries p')"
proof -
  let ?ls = "\<lambda>p. map (\<lambda>e. join_with tab (line_fields e)) (plan_SortedEntries p)"
  have "split_on newline nt @ fmt_d ttl # ?ls p = split_on newline nt' @ fmt_d ttl' # ?ls p'"
    using fingerprint_text_lines [OF assms(1), of nt ttl] fingerprint_text_lines [OF assms(2), of nt' ttl'] assms(3)
    by simp
  moreover have "\<forall>l\<in>set (?ls p) \<union> set (?ls p'). tab \<in> set l"
    using assms(1,2) line_fields_split(2) by (auto simp: plan_SortedEntries_def)
  moreover have "tab \<notin> set (fmt_d ttl)" "tab \<notin> set (fmt_d ttl')" using no_separators(1) by blast+
  ultimately have e: "split_on newline nt = split_on newline nt'" "fmt_d ttl = fmt_d ttl'" "?ls p = ?ls p'"
    using last_block_unique [where P = "\<lambda>l. tab \<in> set l"] by blast+
  have "map (split_on tab) (?ls p) = map (split_on tab) (?ls p')" by (rule arg_cong [OF e(3)])
  moreover have "map (split_on tab) (?ls p) = map line_fields (plan_SortedEntries p)"
    "map (split_on tab) (?ls p') = map line_fields (plan_SortedEntries p')"
    using assms(1,2) line_fields_split(1) by (auto simp: plan_SortedEntries_def)
  ultimately have f: "map line_fields (plan_SortedEntries p) = map line_fields (plan_SortedEntries p')" by simp
  have "map line_fields es = map line_fields fs \<Longrightarrow> map entry_identity es = map entry_identity fs" for es fs
    by (induction es fs rule: list_induct2') (simp_all add: entry_identity_iff)
  from this [OF f] show ?thesis using e(1,2) split_on_inject fmt_d_inject by blast
qed

section \<open>Scanned entries carry no separator\<close>

lemma component_chars: "ValidateComponent U c = None \<Longrightarrow> \<forall>x\<in>set c. 0x20 \<le> byte x"
  using ValidateComponent_safe(5) by blast

lemma set_join_with: "set (join_with d ps) \<subseteq> insert d (\<Union> (set ` set ps))"
  by (induction d ps rule: join_with.induct) auto

lemma portable_chars:
  assumes "ValidatePortablePath U q = None"
  shows "\<forall>x\<in>set q. 0x20 \<le> byte x"
proof
  fix x assume "x \<in> set q"
  then have "x \<in> set (join_with slash (split_on slash q))" by simp
  then have "x = slash \<or> (\<exists>c\<in>set (split_on slash q). x \<in> set c)" using set_join_with by fastforce
  then show "0x20 \<le> byte x"
    using component_chars [OF ValidatePortablePath_components(2) [OF assms]] by auto
qed

lemma plain_chars: "\<forall>x\<in>set q. 0x20 \<le> byte x \<Longrightarrow> tab \<notin> set q \<and> newline \<notin> set q"
  by force

lemma Scan_plain:
  assumes "Scan U H cwd lfs roots = Inr p" and hex: "\<And>b. digest_pattern (H b)"
  shows "\<forall>e\<in>set (plan_Entries p). plain_entry e"
proof
  fix e assume e: "e \<in> set (plan_Entries p)"
  obtain ss ds fes where s: "scanned U H (plan_Roots p) ss ds (root_files cwd lfs roots)"
    "mset (carried p) = mset ss" "plan_Entries p = ds @ fes" "mset fes = mset (placed_entries p)"
    by (rule Scan_result [OF assms(1)]) (rule that; assumption)
  have sc: "\<forall>e\<in>set ds. \<exists>q i. e = dir_entry q i" "\<forall>r\<in>set (plan_Roots p). ValidateComponent U r = None"
    "\<forall>q\<in>src_RelPath ` set ss \<union> ent_Path ` set ds.
       (\<exists>r\<in>set (plan_Roots p). below r q) \<and> (q \<in> set (plan_Roots p) \<or> ValidatePortablePath U q = None)"
    using s(1) unfolding scanned_def by - (elim conjE, assumption)+
  have path: "tab \<notin> set q \<and> newline \<notin> set q" if "q \<in> src_RelPath ` set ss \<union> ent_Path ` set ds" for q
    using bspec [OF sc(3) that] sc(2) component_chars portable_chars plain_chars by blast
  have types: "tab \<notin> set EntryFile \<and> newline \<notin> set EntryFile"
    "tab \<notin> set EntryDirectory \<and> newline \<notin> set EntryDirectory"
    by (simp_all add: EntryFile_def EntryDirectory_def)
  have digest: "tab \<notin> set (H b) \<and> newline \<notin> set (H b)" for b
    using hex [of b] by (intro plain_chars) (auto simp: digest_pattern_def list_all_iff)
  show "plain_entry e"
  proof (cases "e \<in> set ds")
    case True
    with sc(1) obtain q i where "e = dir_entry q i" by blast
    with True path [of q] types show ?thesis by (force simp: plain_entry_def dir_entry_def)
  next
    case False
    then have "e \<in> set (placed_entries p)" using e s(3,4) by (metis Un_iff set_append set_mset_mset)
    then obtain src i where "src \<in> set (carried p)" "e = file_entry i src"
      using placed_source [of e p] by blast
    moreover from this(1) have src: "src \<in> set ss" using s(2) by (metis set_mset_mset)
    moreover obtain b where "src_Digest src = H b"
    proof -
      have "list_all2 (source_of H) ss (root_files cwd lfs roots)" using s(1) by (simp add: scanned_def)
      then have "\<exists>b. src_Digest src = H b"
        using src by (induction rule: list_all2_induct) (auto simp: source_of_def)
      with that show thesis by blast
    qed
    ultimately show ?thesis
      using path [of "src_RelPath src"] types digest [of b] by (simp add: plain_entry_def file_entry_def)
  qed
qed



end
