(* ===== verification/SSS_Transmit.thy ===== *)
theory SSS_Transmit
  imports SSS_Upload
begin

text \<open>
  The client's loop around one segment upload (\<^verbatim>\<open>uploadOne\<close> in \<^verbatim>\<open>internal/client/send.go\<close> with
  \<^verbatim>\<open>UploadOffset\<close> and \<^verbatim>\<open>UploadPatch\<close> of \<^verbatim>\<open>internal/client/client.go\<close>), run against the server model
  over a connection that may lose requests, cut bodies and drop answers. The lemmas show that
  success means the server holds exactly the source, and that one working request is enough.
\<close>

section \<open>The connection\<close>

text \<open>
  What the connection does to one \<^verbatim>\<open>PATCH\<close>: it never reaches the server; the server reads these
  chunks, and a clean end or not, but its answer is lost; or the server reads the body in these
  chunks and its answer arrives.
\<close>

datatype delivery = Unsent | Unanswered "bytes list" bool | Answered "bytes list"

fun carries :: "bytes \<Rightarrow> delivery \<Rightarrow> bool" where
  "carries body Unsent = True"
| "carries body (Unanswered chunks clean) \<longleftrightarrow>
     (\<exists>rest. body = concat chunks @ rest \<and> (clean \<longrightarrow> rest = []))"
| "carries body (Answered chunks) \<longleftrightarrow> body = concat chunks"

text \<open>A \<^verbatim>\<open>HEAD\<close> answer has no body, so the client reads an error from the status alone.\<close>

definition client_UploadOffset :: "bool \<Rightarrow> string \<Rightarrow> (int result) svc" where
  "client_UploadOffset reached uploadID =
     (if \<not> reached then return (Inl ErrNetwork)
      else do {
        r \<leftarrow> UploadState uploadID;
        return (case r of Inl e \<Rightarrow> Inl (statusToCode (HTTPStatus (code_string e)))
          | Inr (offset, expected) \<Rightarrow> Inr offset)
      })"

definition client_UploadPatch ::
  "server \<Rightarrow> (nat \<Rightarrow> disk_usage option) \<Rightarrow> string \<Rightarrow> int \<Rightarrow> delivery \<Rightarrow> (int result) svc" where
  "client_UploadPatch S disk uploadID offset d =
     (case d of
        Unsent \<Rightarrow> return (Inl ErrNetwork)
      | Unanswered chunks clean \<Rightarrow> do {
          _ \<leftarrow> UploadPatch S disk uploadID offset chunks clean;
          return (Inl ErrNetwork)
        }
      | Answered chunks \<Rightarrow> do {
          (n, e) \<leftarrow> UploadPatch S disk uploadID offset chunks True;
          return (case e of Some e \<Rightarrow> Inl e | None \<Rightarrow> Inr n)
        })"

section \<open>The loop\<close>

text \<open>
  What the environment decides for an attempt: whether the \<^verbatim>\<open>HEAD\<close> gets through, what opening
  and reading the source gives, the disk usage the server reads, and what happens to the body.
\<close>

record attempt =
  at_head :: bool
  at_source :: "bytes option"
  at_disk :: "nat \<Rightarrow> disk_usage option"
  at_cut :: "bytes \<Rightarrow> delivery"

definition body_from :: "bytes \<Rightarrow> int \<Rightarrow> int \<Rightarrow> bytes" where
  "body_from content offset len = take (nat (len - offset)) (drop (nat offset) content)"

fun upload_attempts :: "server \<Rightarrow> string \<Rightarrow> int \<Rightarrow> attempt list \<Rightarrow> errcode option svc" where
  "upload_attempts S uploadID len [] = return (Some ErrNetwork)"
| "upload_attempts S uploadID len (a # as) = do {
     h \<leftarrow> client_UploadOffset (at_head a) uploadID;
     case h of Inl e \<Rightarrow> return (Some e) | Inr offset \<Rightarrow>
       if offset = len then return None
       else if offset > len then return (Some ErrStateConflict)
       else case at_source a of None \<Rightarrow> return (Some ErrSourceChanged) | Some content \<Rightarrow> do {
         r \<leftarrow> client_UploadPatch S (at_disk a) uploadID offset (at_cut a (body_from content offset len));
         case r of
           Inr accepted \<Rightarrow> if accepted = len then return None else upload_attempts S uploadID len as
         | Inl e \<Rightarrow> if e = ErrOffsetMismatch \<or> e = ErrNetwork then upload_attempts S uploadID len as
             else return (Some e)
       }
   }"

text \<open>\<^verbatim>\<open>for attempt := 0; attempt < 3; attempt++\<close>\<close>

definition uploadOne :: "server \<Rightarrow> string \<Rightarrow> int \<Rightarrow> (nat \<Rightarrow> attempt) \<Rightarrow> errcode option svc" where
  "uploadOne S uploadID len env = upload_attempts S uploadID len (map env [0, 1, 2])"

section \<open>What the server holds between attempts\<close>

definition staged_bytes :: "world \<Rightarrow> string \<Rightarrow> string \<Rightarrow> bytes" where
  "staged_bytes w i sid = (case staged_segment w i sid of None \<Rightarrow> [] | Some b \<Rightarrow> b)"

text \<open>The server acknowledges \<open>n\<close> bytes of the source and has stored at least those.\<close>

definition holds_prefix :: "string \<Rightarrow> string \<Rightarrow> string \<Rightarrow> bytes \<Rightarrow> nat \<Rightarrow> world \<Rightarrow> bool" where
  "holds_prefix uid i sid f n w \<longleftrightarrow> (\<exists>seg c. patchable uid seg c w
     \<and> sg_TransferID seg = i \<and> sg_ID seg = sid \<and> sg_ExpectedLength seg = int (length f)
     \<and> sg_ReceivedLength seg = int n \<and> length c \<le> length f \<and> take n c = take n f)"

lemma holds_prefix_full:
  assumes "holds_prefix uid i sid f (length f) w"
  shows "staged_bytes w i sid = f"
proof -
  from assms obtain seg c where p: "patchable uid seg c w"
    "sg_TransferID seg = i" "sg_ID seg = sid" "length c \<le> length f" "take (length f) c = take (length f) f"
    unfolding holds_prefix_def by blast
  have "staged_bytes w i sid = c" using p(1-3) by (simp add: patchable_def staged_bytes_def)
  then show ?thesis using p(4,5) by simp
qed

lemma holds_prefix_staged:
  assumes "holds_prefix uid i sid f n w"
  shows "take n (staged_bytes w i sid) = take n f"
    and "run_state (UploadState uid) w = (Inr (int n, int (length f)), w)"
proof -
  from assms obtain seg c where p: "patchable uid seg c w"
    "sg_TransferID seg = i" "sg_ID seg = sid" "sg_ExpectedLength seg = int (length f)"
    "sg_ReceivedLength seg = int n" "take n c = take n f"
    unfolding holds_prefix_def by blast
  then have "staged_bytes w i sid = c" by (simp add: patchable_def staged_bytes_def)
  then show "take n (staged_bytes w i sid) = take n f" using p(6) by simp
  show "run_state (UploadState uid) w = (Inr (int n, int (length f)), w)"
    using run_UploadState [OF p(1)] by (simp add: p)
qed

lemma run_client_UploadOffset:
  assumes "holds_prefix uid i sid f n w"
  shows "run_state (client_UploadOffset reached uid) w = (if reached then Inr (int n) else Inl ErrNetwork, w)"
    and "n \<le> length f"
proof -
  from assms obtain seg c where p: "patchable uid seg c w" "sg_ReceivedLength seg = int n" "length c \<le> length f"
    unfolding holds_prefix_def by blast
  then show "run_state (client_UploadOffset reached uid) w = (if reached then Inr (int n) else Inl ErrNetwork, w)"
    by (simp add: client_UploadOffset_def run_UploadState [OF p(1)])
  have "sg_ReceivedLength seg \<le> int (length c)" using p(1) unfolding patchable_def by (elim conjE)
  then show "n \<le> length f" using p(2,3) by linarith
qed

text \<open>A body cut after \<open>m\<close> of the remaining bytes moves the acknowledged prefix by \<open>m\<close>.\<close>

lemma holds_prefix_patch:
  assumes "holds_prefix uid i sid f n w" and "\<And>k. CheckStreaming (adm S) (disk k) = None"
    and "drop n f = concat chunks @ rest"
  shows "\<exists>w'. run_state (UploadPatch S disk uid (int n) chunks eof) w
      = ((int (n + length (concat chunks)), if eof then None else Some ErrNetwork), w')
    \<and> holds_prefix uid i sid f (n + length (concat chunks)) w'"
proof -
  from assms(1) obtain seg c where p: "patchable uid seg c w"
    "sg_TransferID seg = i" "sg_ID seg = sid" "sg_ExpectedLength seg = int (length f)"
    "sg_ReceivedLength seg = int n" "length c \<le> length f" "take n c = take n f"
    unfolding holds_prefix_def by blast
  let ?b = "concat chunks"
  have n: "n \<le> length f" using run_client_UploadOffset(2) [OF assms(1)] .
  have f: "f = take n f @ ?b @ rest" using assms(3) by (metis append_take_drop_id)
  have len: "n + length ?b \<le> length f" using n arg_cong [OF assms(3), of length] by simp
  then have fit: "sg_ReceivedLength seg + int (length ?b) \<le> sg_ExpectedLength seg" by (simp add: p)
  from UploadPatch_run [OF p(1) _ fit, where eof = eof and S = S and disk = disk] assms(2) obtain w' where
    w': "run_state (UploadPatch S disk uid (int n) chunks eof) w
      = ((int n + int (length ?b), if eof then None else Some ErrNetwork), w')"
    "patchable uid (seg\<lparr>sg_ReceivedLength := int n + int (length ?b),
        sg_State := (if int n + int (length ?b) = int (length f) then SegmentReceived else SegmentPending)\<rparr>)
      (take n c @ ?b) w'" unfolding p(4,5) by auto
  have tk: "take (n + length ?b) (take n c @ ?b) = take (n + length ?b) f"
  proof -
    have "take (n + length ?b) f = take n f @ ?b" using n by (subst f) simp
    moreover have "length (take n c) = n" using n p(7) by (metis length_take min.absorb2)
    ultimately show ?thesis using p(7) by simp
  qed
  have "length (take n c @ ?b) \<le> length f" using len by simp
  then have "holds_prefix uid i sid f (n + length ?b) w'"
    unfolding holds_prefix_def using w'(2) p tk by (intro exI conjI) (assumption | simp)+
  with w'(1) show ?thesis by (intro exI [of _ w']) simp
qed

lemma run_client_UploadPatch:
  assumes "holds_prefix uid i sid f n w" and "\<And>k. CheckStreaming (adm S) (disk k) = None"
    and "carries (drop n f) d"
  shows "\<exists>m w'. run_state (client_UploadPatch S disk uid (int n) d) w
      = (case d of Answered _ \<Rightarrow> Inr (int (length f)) | _ \<Rightarrow> Inl ErrNetwork, w')
    \<and> holds_prefix uid i sid f m w' \<and> n \<le> m \<and> ((\<exists>cs. d = Answered cs) \<longrightarrow> m = length f)"
proof (cases d)
  case Unsent
  then show ?thesis using assms(1) by (auto simp: client_UploadPatch_def)
next
  case (Unanswered chunks clean)
  then obtain rest where "drop n f = concat chunks @ rest" using assms(3) by auto
  from holds_prefix_patch [where S = S and disk = disk and eof = clean, OF assms(1) _ this] assms(2) obtain w' where
    "run_state (UploadPatch S disk uid (int n) chunks clean) w
      = ((int (n + length (concat chunks)), if clean then None else Some ErrNetwork), w')"
    "holds_prefix uid i sid f (n + length (concat chunks)) w'" by auto
  then show ?thesis
    by (intro exI [of _ "n + length (concat chunks)"] exI [of _ w'])
       (simp add: client_UploadPatch_def Unanswered)
next
  case (Answered chunks)
  then have d: "drop n f = concat chunks @ []" using assms(3) by simp
  have m: "n + length (concat chunks) = length f"
    using run_client_UploadOffset(2) [OF assms(1)] arg_cong [OF d, of length] by simp
  from holds_prefix_patch [where S = S and disk = disk and eof = True, OF assms(1) _ d] assms(2) obtain w' where
    "run_state (UploadPatch S disk uid (int n) chunks True) w = ((int (length f), None), w')"
    "holds_prefix uid i sid f (length f) w'" unfolding m by auto
  then show ?thesis
    using run_client_UploadOffset(2) [OF assms(1)]
    by (intro exI [of _ "length f"] exI [of _ w']) (simp add: client_UploadPatch_def Answered)
qed

definition steady :: "server \<Rightarrow> bytes \<Rightarrow> attempt \<Rightarrow> bool" where
  "steady S f a \<longleftrightarrow> at_source a = Some f \<and> (\<forall>k. CheckStreaming (adm S) (at_disk a k) = None)
     \<and> (\<forall>body. carries body (at_cut a body))"

definition works :: "attempt \<Rightarrow> bool" where
  "works a \<longleftrightarrow> (\<forall>body. \<exists>chunks. at_cut a body = Answered chunks)"

lemma run_upload_attempts:
  "holds_prefix uid i sid f n w \<Longrightarrow> \<forall>a\<in>set as. steady S f a \<Longrightarrow>
   \<exists>r m w'. run_state (upload_attempts S uid (int (length f)) as) w = (r, w')
     \<and> holds_prefix uid i sid f m w' \<and> n \<le> m \<and> (r = None \<longrightarrow> m = length f) \<and> (r = None \<or> r = Some ErrNetwork)
     \<and> ((\<forall>a\<in>set as. at_head a) \<and> (\<exists>a\<in>set as. works a) \<longrightarrow> r = None)"
proof (induction as arbitrary: n w)
  case Nil
  then show ?case by auto
next
  case (Cons a as)
  note off = run_client_UploadOffset [OF Cons.prems(1)]
  have a: "at_source a = Some f" "\<And>k. CheckStreaming (adm S) (at_disk a k) = None" "\<And>b. carries b (at_cut a b)"
    using Cons.prems(2) by (simp_all add: steady_def)
  consider "\<not> at_head a" | "at_head a" "n = length f" | "at_head a" "n < length f" using off(2) by linarith
  then show ?case
  proof cases
    case 1
    then show ?thesis using Cons.prems(1) by (intro exI [of _ "Some ErrNetwork"] exI [of _ n] exI [of _ w]) (simp add: off)
  next
    case 2
    then show ?thesis using Cons.prems(1) by (intro exI [of _ None] exI [of _ n] exI [of _ w]) (simp add: off)
  next
    case 3
    have b: "body_from f (int n) (int (length f)) = drop n f" by (simp add: body_from_def)
    from run_client_UploadPatch [where S = S and disk = "at_disk a", OF Cons.prems(1) _ a(3) [of "drop n f"]] a(2)
    obtain m w1 where w1: "run_state (client_UploadPatch S (at_disk a) uid (int n) (at_cut a (drop n f))) w
        = (case at_cut a (drop n f) of Answered _ \<Rightarrow> Inr (int (length f)) | _ \<Rightarrow> Inl ErrNetwork, w1)"
      "holds_prefix uid i sid f m w1" "n \<le> m" "(\<exists>cs. at_cut a (drop n f) = Answered cs) \<longrightarrow> m = length f" by auto
    show ?thesis
    proof (cases "\<exists>cs. at_cut a (drop n f) = Answered cs")
      case True
      then have "run_state (upload_attempts S uid (int (length f)) (a # as)) w = (None, w1)"
        using 3 w1(1) by (auto simp: off a b)
      then show ?thesis using w1 True by (intro exI [of _ None] exI [of _ m] exI [of _ w1]) simp
    next
      case False
      then have l: "run_state (client_UploadPatch S (at_disk a) uid (int n) (at_cut a (drop n f))) w = (Inl ErrNetwork, w1)"
        using w1(1) by (cases "at_cut a (drop n f)") auto
      have no: "\<not> works a" using False unfolding works_def by blast
      have "\<forall>a\<in>set as. steady S f a" using Cons.prems(2) by simp
      from Cons.IH [OF w1(2) this] obtain r m' w' where ih:
        "run_state (upload_attempts S uid (int (length f)) as) w1 = (r, w')" "holds_prefix uid i sid f m' w'"
        "m \<le> m'" "r = None \<longrightarrow> m' = length f" "r = None \<or> r = Some ErrNetwork"
        "(\<forall>a\<in>set as. at_head a) \<and> (\<exists>a\<in>set as. works a) \<longrightarrow> r = None" by blast
      have "run_state (upload_attempts S uid (int (length f)) (a # as)) w = (r, w')"
        using 3 by (simp add: off a b l ih(1))
      then show ?thesis
        using ih w1(3) no by (intro exI [of _ r] exI [of _ m'] exI [of _ w']) auto
    qed
  qed
qed

text \<open>
  C11: Uploading a segment over a bad connection. Whatever the connection does to each request and
  answer, the client reports success only when the server holds and acknowledges exactly the
  source; otherwise it reports a network error and the acknowledged bytes are still a prefix
  of the source that a rerun continues from. If the offset can be asked each time and one of
  the three requests gets through, the upload succeeds.
\<close>

theorem uploadOne_delivers:
  assumes "patchable uid seg c w" and "sg_ExpectedLength seg = int (length f)" and "length c \<le> length f"
    and "take (nat (sg_ReceivedLength seg)) c = take (nat (sg_ReceivedLength seg)) f"
    and "\<And>k. k < 3 \<Longrightarrow> at_source (env k) = Some f"
    and "\<And>k j. k < 3 \<Longrightarrow> CheckStreaming (adm S) (at_disk (env k) j) = None"
    and "\<And>k body. k < 3 \<Longrightarrow> carries body (at_cut (env k) body)"
  shows "\<exists>r m w'. run_state (uploadOne S uid (int (length f)) env) w = (r, w')
    \<and> (r = None \<longrightarrow> staged_bytes w' (sg_TransferID seg) (sg_ID seg) = f)
    \<and> run_state (UploadState uid) w' = (Inr (int m, int (length f)), w')
    \<and> sg_ReceivedLength seg \<le> int m \<and> take m (staged_bytes w' (sg_TransferID seg) (sg_ID seg)) = take m f
    \<and> (r \<noteq> None \<longrightarrow> r = Some ErrNetwork)
    \<and> ((\<forall>k<3. at_head (env k)) \<and> (\<exists>k<3. works (env k)) \<longrightarrow> r = None)"
proof -
  have nn: "0 \<le> sg_ReceivedLength seg" using assms(1) by (simp add: patchable_def)
  then have h: "holds_prefix uid (sg_TransferID seg) (sg_ID seg) f (nat (sg_ReceivedLength seg)) w"
    unfolding holds_prefix_def using assms(1-4) by (intro exI [of _ seg] exI [of _ c]) simp
  have steady: "\<forall>a\<in>set (map env [0, 1, 2]). steady S f a" using assms(5-7) by (simp add: steady_def)
  from run_upload_attempts [OF h steady] obtain r m w' where r:
    "run_state (uploadOne S uid (int (length f)) env) w = (r, w')"
    "holds_prefix uid (sg_TransferID seg) (sg_ID seg) f m w'" "nat (sg_ReceivedLength seg) \<le> m"
    "r = None \<longrightarrow> m = length f" "r = None \<or> r = Some ErrNetwork"
    "(\<forall>a\<in>set (map env [0, 1, 2]). at_head a) \<and> (\<exists>a\<in>set (map env [0, 1, 2]). works a) \<longrightarrow> r = None"
    unfolding uploadOne_def by blast
  have three: "(\<forall>k<3. P k) \<longleftrightarrow> P 0 \<and> P 1 \<and> P 2" "(\<exists>k<3. P k) \<longleftrightarrow> P 0 \<or> P 1 \<or> P 2" for P :: "nat \<Rightarrow> bool"
    by (simp_all add: numeral_3_eq_3 numeral_2_eq_2 All_less_Suc Ex_less_Suc) blast+
  show ?thesis
    using r(1,3,4,5,6) nn holds_prefix_staged [OF r(2)] holds_prefix_full [of uid _ _ f w'] r(2)
    by (intro exI [of _ r] exI [of _ m] exI [of _ w']) (auto simp: three)
qed

text \<open>
  The sample upload has two of five bytes. The first answer is lost after one more byte, the
  second request goes through.
\<close>

definition sample_env :: "nat \<Rightarrow> attempt" where
  "sample_env k = \<lparr>at_head = True, at_source = Some ''hello'', at_disk = sample_disk,
     at_cut = (if k = 0 then (\<lambda>b. Unanswered [take 1 b] False) else (\<lambda>b. Answered [b]))\<rparr>"

theorem uploadOne_delivers_witness:
  "\<exists>w'. run_state (uploadOne sample_server ''u-1'' 5 sample_env) sample_patch_world = (None, w')
     \<and> staged_bytes w' sample_id ''s-1'' = ''hello''"
proof -
  have sg: "sg_ReceivedLength sample_received = 2" "sg_ExpectedLength sample_received = 5"
    "sg_TransferID sample_received = sample_id" "sg_ID sample_received = ''s-1''" by code_simp+
  have c: "carries body (at_cut (sample_env k) body)" for k body
    by (auto simp: sample_env_def intro: exI [of _ "drop 1 body"])
  have w: "works (sample_env 1)" by (simp add: works_def sample_env_def)
  from uploadOne_delivers [where f = "''hello''" and env = sample_env and S = sample_server, OF sample_patchable]
  obtain r m w' where "run_state (uploadOne sample_server ''u-1'' 5 sample_env) sample_patch_world = (r, w')"
    "r = None \<longrightarrow> staged_bytes w' sample_id ''s-1'' = ''hello''"
    "(\<forall>k<3. at_head (sample_env k)) \<and> (\<exists>k<3. works (sample_env k)) \<longrightarrow> r = None"
    using sample_disk_ok c by (auto simp: sg sample_env_def)
  moreover have "\<forall>k<3. at_head (sample_env k)" by (simp add: sample_env_def)
  moreover have "\<exists>k<3. works (sample_env k)" using w by (intro exI [of _ 1]) simp
  ultimately show ?thesis by blast
qed

end
