(* ===== verification/SSS_Auth.thy ===== *)
theory SSS_Auth
  imports SSS_Plan Complex_Main
begin

text \<open>
  The shared password (\<^verbatim>\<open>internal/auth/auth.go\<close>): its encoded argon2id hash, the verifier with its
  memory of the last accepted password, and the limiter of failed attempts, with the middleware
  that joins them (\<^verbatim>\<open>Auth\<close> in \<^verbatim>\<open>internal/api/middleware/middleware.go\<close>). Argon2 and SHA-256 are
  arguments. Token counts are rationals rounded by an argument that stands for \<^verbatim>\<open>float64\<close>.
\<close>

section \<open>Base64\<close>

text \<open>\<^verbatim>\<open>base64.RawStdEncoding\<close>: no padding; decoding skips line ends and ignores the unused low bits.\<close>

definition base64_alphabet :: string where
  "base64_alphabet = ''ABCDEFGHIJKLMNOPQRSTUVWXYZabcdefghijklmnopqrstuvwxyz0123456789+/''"

definition sextet :: "nat \<Rightarrow> char" where
  "sextet n = base64_alphabet ! n"

fun base64_encode :: "string \<Rightarrow> string" where
  "base64_encode [] = []"
| "base64_encode [a] = [sextet (byte a div 4), sextet (byte a mod 4 * 16)]"
| "base64_encode [a, b] =
     [sextet (byte a div 4), sextet (byte a mod 4 * 16 + byte b div 16), sextet (byte b mod 16 * 4)]"
| "base64_encode (a # b # c # rest) =
     sextet (byte a div 4) # sextet (byte a mod 4 * 16 + byte b div 16)
     # sextet (byte b mod 16 * 4 + byte c div 64) # sextet (byte c mod 64) # base64_encode rest"

fun index_from :: "nat \<Rightarrow> string \<Rightarrow> char \<Rightarrow> nat option" where
  "index_from n [] c = None"
| "index_from n (x # xs) c = (if x = c then Some n else index_from (Suc n) xs c)"

definition sextet_value :: "char \<Rightarrow> nat option" where
  "sextet_value c = index_from 0 base64_alphabet c"

fun sextet_values :: "string \<Rightarrow> nat list option" where
  "sextet_values [] = Some []"
| "sextet_values (c # cs) =
     (case sextet_value c of None \<Rightarrow> None | Some n \<Rightarrow> map_option (Cons n) (sextet_values cs))"

fun sextet_bytes :: "nat list \<Rightarrow> string option" where
  "sextet_bytes [] = Some []"
| "sextet_bytes [p] = None"
| "sextet_bytes [p, q] = Some [char_of (p * 4 + q div 16)]"
| "sextet_bytes [p, q, r] = Some [char_of (p * 4 + q div 16), char_of (q mod 16 * 16 + r div 4)]"
| "sextet_bytes (p # q # r # s # rest) =
     map_option (\<lambda>bs. char_of (p * 4 + q div 16) # char_of (q mod 16 * 16 + r div 4)
       # char_of (r mod 4 * 64 + s) # bs) (sextet_bytes rest)"

definition base64_decode :: "string \<Rightarrow> string option" where
  "base64_decode s =
     (case sextet_values (filter (\<lambda>c. c \<noteq> CHR 0x0A \<and> c \<noteq> CHR 0x0D) s) of
        None \<Rightarrow> None | Some ns \<Rightarrow> sextet_bytes ns)"

lemma index_from_nth:
  "distinct xs \<Longrightarrow> i < length xs \<Longrightarrow> index_from n xs (xs ! i) = Some (n + i)"
proof (induction n xs "xs ! i" arbitrary: i rule: index_from.induct)
  case (2 n x xs)
  then show ?case by (cases i) (auto simp: nth_eq_iff_index_eq)
qed simp

lemma alphabet_distinct: "distinct base64_alphabet" and alphabet_length: "length base64_alphabet = 64"
  by code_simp+

lemma sextet_value_sextet [simp]: "n < 64 \<Longrightarrow> sextet_value (sextet n) = Some n"
  using index_from_nth [OF alphabet_distinct, of n 0] by (simp add: sextet_value_def sextet_def alphabet_length)

lemma sextet_chars:
  assumes "n < 64"
  shows "sextet n \<noteq> CHR 0x0A \<and> sextet n \<noteq> CHR 0x0D \<and> sextet n \<noteq> CHR ''$''"
proof -
  have "list_all (\<lambda>c. c \<noteq> CHR 0x0A \<and> c \<noteq> CHR 0x0D \<and> c \<noteq> CHR ''$'') base64_alphabet" by code_simp
  then show ?thesis using assms by (simp add: list_all_length alphabet_length sextet_def)
qed

lemma byte_parts:
  "byte a div 4 < 64" "byte a mod 4 * 16 + byte b div 16 < 64" "byte b mod 16 * 4 + byte c div 64 < 64"
  "byte c mod 64 < 64" "byte a mod 4 * 16 < 64" "byte b mod 16 * 4 < 64"
proof -
  have b: "byte a div 4 < 64" "byte b div 16 < 16" "byte c div 64 < 4"
    using byte_less [of a] byte_less [of b] byte_less [of c] by (simp_all add: div_less_iff_less_mult)
  have m: "byte a mod 4 < 4" "byte b mod 16 < 16" "byte c mod 64 < 64" by simp_all
  show "byte a div 4 < 64" "byte a mod 4 * 16 + byte b div 16 < 64" "byte b mod 16 * 4 + byte c div 64 < 64"
    "byte c mod 64 < 64" "byte a mod 4 * 16 < 64" "byte b mod 16 * 4 < 64"
    using b m by linarith+
qed

lemma byte_rejoin:
  "byte b div 16 div 16 = 0" "byte b div 16 mod 16 = byte b div 16" "byte c div 64 div 4 = 0"
  "byte c div 64 mod 4 = byte c div 64"
proof -
  have "byte b div 16 < 16" "byte c div 64 < 4"
    using byte_less [of b] byte_less [of c] by (simp_all add: div_less_iff_less_mult)
  then show "byte b div 16 div 16 = 0" "byte b div 16 mod 16 = byte b div 16" "byte c div 64 div 4 = 0"
    "byte c div 64 mod 4 = byte c div 64" by simp_all
qed

lemma base64_chars: "c \<in> set (base64_encode s) \<Longrightarrow> \<exists>n<64. c = sextet n"
  by (induction s rule: base64_encode.induct) (auto intro: byte_parts)

lemma base64_roundtrip: "base64_decode (base64_encode s) = Some s"
proof -
  have "filter (\<lambda>c. c \<noteq> CHR 0x0A \<and> c \<noteq> CHR 0x0D) (base64_encode s) = base64_encode s"
    unfolding filter_id_conv using base64_chars sextet_chars by metis
  moreover have "\<exists>ns. sextet_values (base64_encode s) = Some ns \<and> sextet_bytes ns = Some s"
    by (induction s rule: base64_encode.induct) (auto simp: byte_parts byte_rejoin)
  ultimately show ?thesis by (auto simp: base64_decode_def)
qed

lemma base64_no_dollar: "CHR ''$'' \<notin> set (base64_encode s)"
  using base64_chars sextet_chars by metis

section \<open>The encoded hash\<close>

text \<open>\<^verbatim>\<open>fmt.Sscanf\<close> for the two formats used: literals, and \<^verbatim>\<open>%d\<close> into a sized integer. What follows
  the last verb is not looked at.\<close>

type_synonym rune_list = "(nat \<times> string) list"

fun skip_space :: "rune_list \<Rightarrow> rune_list option" where
  "skip_space [] = Some []"
| "skip_space ((r, bs) # rs) =
     (if r = 0x0A then None else if is_space r then skip_space rs else Some ((r, bs) # rs))"

fun scan_literal :: "string \<Rightarrow> rune_list \<Rightarrow> rune_list option" where
  "scan_literal [] rs = Some rs"
| "scan_literal (c # cs) [] = None"
| "scan_literal (c # cs) ((r, bs) # rs) = (if r = byte c then scan_literal cs rs else None)"

fun rune_value :: "nat \<Rightarrow> rune_list \<Rightarrow> nat" where
  "rune_value acc [] = acc"
| "rune_value acc ((r, bs) # rs) = rune_value (10 * acc + (r - 48)) rs"

definition digit_rune :: "nat \<times> string \<Rightarrow> bool" where
  "digit_rune x \<longleftrightarrow> 48 \<le> fst x \<and> fst x \<le> 57"

text \<open>An unsigned verb takes no sign.\<close>

definition scan_uint :: "nat \<Rightarrow> rune_list \<Rightarrow> (nat \<times> rune_list) option" where
  "scan_uint bits rs =
     (case skip_space rs of None \<Rightarrow> None | Some rs \<Rightarrow>
        let ds = takeWhile digit_rune rs in
        if ds = [] \<or> rune_value 0 ds \<ge> 2 ^ bits then None
        else Some (rune_value 0 ds, dropWhile digit_rune rs))"

definition scan_int :: "rune_list \<Rightarrow> (int \<times> rune_list) option" where
  "scan_int rs =
     (case skip_space rs of None \<Rightarrow> None | Some rs \<Rightarrow>
        let neg = (rs \<noteq> [] \<and> fst (hd rs) = 45);
            rs' = (if rs \<noteq> [] \<and> fst (hd rs) \<in> {43, 45} then tl rs else rs);
            ds = takeWhile digit_rune rs';
            v = (if neg then - int (rune_value 0 ds) else int (rune_value 0 ds))
        in if ds = [] \<or> \<not> int64_range v then None else Some (v, dropWhile digit_rune rs'))"

definition sscanf_version :: "string \<Rightarrow> int option" where
  "sscanf_version s = Option.bind (scan_literal ''v='' (runes s)) (\<lambda>rs. map_option fst (scan_int rs))"

definition sscanf_costs :: "string \<Rightarrow> (nat \<times> nat \<times> nat) option" where
  "sscanf_costs s =
     Option.bind (scan_literal ''m='' (runes s)) (\<lambda>rs. Option.bind (scan_uint 32 rs) (\<lambda>(m, rs).
     Option.bind (scan_literal '',t='' rs) (\<lambda>rs. Option.bind (scan_uint 32 rs) (\<lambda>(t, rs).
     Option.bind (scan_literal '',p='' rs) (\<lambda>rs. Option.bind (scan_uint 8 rs) (\<lambda>(p, rs). Some (m, t, p)))))))"

record params =
  par_memory :: nat
  par_time :: nat
  par_threads :: nat
  par_salt :: string
  par_key :: string

definition argonTime :: nat where "argonTime = 3"
definition argonMemory :: nat where "argonMemory = 65536"
definition argonThreads :: nat where "argonThreads = 2"
definition argonKeyLen :: nat where "argonKeyLen = 32"

text \<open>\<^verbatim>\<open>argon2.IDKey\<close>: password, salt, time, memory, threads, key length; \<^verbatim>\<open>argon2.Version\<close> is 19.\<close>

type_synonym idkey = "string \<Rightarrow> string \<Rightarrow> nat \<Rightarrow> nat \<Rightarrow> nat \<Rightarrow> nat \<Rightarrow> string"

definition HashPassword :: "idkey \<Rightarrow> string \<Rightarrow> string option \<Rightarrow> string option" where
  "HashPassword idkey password drawn =
     (if password = [] then None
      else case drawn of None \<Rightarrow> None | Some salt \<Rightarrow>
        let key = idkey password salt argonTime argonMemory argonThreads argonKeyLen
        in Some (''$argon2id$v='' @ itoa 19 @ ''$m='' @ itoa argonMemory @ '',t='' @ itoa argonTime
             @ '',p='' @ itoa argonThreads @ ''$'' @ base64_encode salt @ ''$'' @ base64_encode key))"

definition parseHash :: "string \<Rightarrow> params option" where
  "parseHash encoded =
     (let parts = split_on (CHR ''$'') encoded in
      if length parts \<noteq> 6 \<or> parts ! 0 \<noteq> [] \<or> parts ! 1 \<noteq> ''argon2id'' then None
      else if sscanf_version (parts ! 2) \<noteq> Some 19 then None
      else case sscanf_costs (parts ! 3) of None \<Rightarrow> None | Some (m, t, p) \<Rightarrow>
        (case base64_decode (parts ! 4) of None \<Rightarrow> None | Some salt \<Rightarrow>
         case base64_decode (parts ! 5) of None \<Rightarrow> None | Some key \<Rightarrow>
           Some \<lparr>par_memory = m, par_time = t, par_threads = p, par_salt = salt, par_key = key\<rparr>))"

section \<open>The verifier\<close>

record verifier =
  ver_p :: params
  ver_accepted :: "string option"

definition NewVerifier :: "string \<Rightarrow> verifier option" where
  "NewVerifier encoded = map_option (\<lambda>p. \<lparr>ver_p = p, ver_accepted = None\<rparr>) (parseHash encoded)"

definition derive :: "idkey \<Rightarrow> params \<Rightarrow> string \<Rightarrow> string" where
  "derive idkey p password =
     idkey password (par_salt p) (par_time p) (par_memory p) (par_threads p) (length (par_key p))"

definition Verify :: "idkey \<Rightarrow> (string \<Rightarrow> string) \<Rightarrow> verifier \<Rightarrow> string \<Rightarrow> bool \<times> verifier" where
  "Verify idkey sha v password =
     (if ver_accepted v = Some (sha password) then (True, v)
      else if derive idkey (ver_p v) password \<noteq> par_key (ver_p v) then (False, v)
      else (True, v\<lparr>ver_accepted := Some (sha password)\<rparr>))"

text \<open>\<^verbatim>\<open>r.BasicAuth\<close> delivers a user and a password, or nothing.\<close>

definition CheckBasic ::
  "idkey \<Rightarrow> (string \<Rightarrow> string) \<Rightarrow> verifier \<Rightarrow> (string \<times> string) option \<Rightarrow> errcode option \<times> verifier" where
  "CheckBasic idkey sha v cred =
     (case cred of None \<Rightarrow> (Some ErrAuthRequired, v) | Some (user, pass) \<Rightarrow>
        if user \<noteq> ''sss'' then (Some ErrAuthInvalid, snd (Verify idkey sha v pass))
        else (case Verify idkey sha v pass of (ok, v') \<Rightarrow>
          (if \<not> ok then Some ErrAuthInvalid else None, v')))"

fun verify_all :: "idkey \<Rightarrow> (string \<Rightarrow> string) \<Rightarrow> verifier \<Rightarrow> (string \<times> string) option list \<Rightarrow> errcode option list" where
  "verify_all idkey sha v [] = []"
| "verify_all idkey sha v (c # cs) =
     (case CheckBasic idkey sha v c of (e, v') \<Rightarrow> e # verify_all idkey sha v' cs)"

text \<open>The answer without any memory.\<close>

definition fresh_answer :: "idkey \<Rightarrow> params \<Rightarrow> (string \<times> string) option \<Rightarrow> errcode option" where
  "fresh_answer idkey p cred =
     (case cred of None \<Rightarrow> Some ErrAuthRequired | Some (user, pass) \<Rightarrow>
        if user = ''sss'' \<and> derive idkey p pass = par_key p then None else Some ErrAuthInvalid)"

definition remembers :: "idkey \<Rightarrow> (string \<Rightarrow> string) \<Rightarrow> string set \<Rightarrow> verifier \<Rightarrow> bool" where
  "remembers idkey sha P v \<longleftrightarrow> (\<forall>d. ver_accepted v = Some d \<longrightarrow>
     (\<exists>q\<in>P. sha q = d \<and> derive idkey (ver_p v) q = par_key (ver_p v)))"

lemma Verify_remembers:
  assumes "remembers idkey sha P v" and "inj_on sha P" and "q \<in> P"
  shows "fst (Verify idkey sha v q) \<longleftrightarrow> derive idkey (ver_p v) q = par_key (ver_p v)"
    and "remembers idkey sha P (snd (Verify idkey sha v q))" and "ver_p (snd (Verify idkey sha v q)) = ver_p v"
  using assms by (auto simp: Verify_def remembers_def inj_on_def)

lemma CheckBasic_remembers:
  assumes "remembers idkey sha P v" and "inj_on sha P" and "\<forall>u q. c = Some (u, q) \<longrightarrow> q \<in> P"
  shows "fst (CheckBasic idkey sha v c) = fresh_answer idkey (ver_p v) c"
    and "remembers idkey sha P (snd (CheckBasic idkey sha v c))"
    and "ver_p (snd (CheckBasic idkey sha v c)) = ver_p v"
  using assms(3) Verify_remembers [OF assms(1,2)] assms(1)
  by (auto simp: CheckBasic_def fresh_answer_def split: option.splits prod.splits) (metis fst_conv snd_conv)+

lemma verify_all_remembers:
  "remembers idkey sha P v \<Longrightarrow> inj_on sha P \<Longrightarrow> \<forall>c\<in>set cs. \<forall>u q. c = Some (u, q) \<longrightarrow> q \<in> P \<Longrightarrow>
   verify_all idkey sha v cs = map (fresh_answer idkey (ver_p v)) cs"
proof (induction cs arbitrary: v)
  case (Cons c cs)
  have c: "\<forall>u q. c = Some (u, q) \<longrightarrow> q \<in> P" using Cons.prems(3) by simp
  note r = CheckBasic_remembers [OF Cons.prems(1,2) c]
  show ?case using Cons.IH [OF r(2) Cons.prems(2)] Cons.prems(3) r(1,3) by (simp add: case_prod_beta)
qed simp

lemma parse_HashPassword:
  assumes "HashPassword idkey password drawn = Some h"
  obtains salt where "drawn = Some salt" "password \<noteq> []"
    "parseHash h = Some \<lparr>par_memory = argonMemory, par_time = argonTime, par_threads = argonThreads,
       par_salt = salt, par_key = idkey password salt argonTime argonMemory argonThreads argonKeyLen\<rparr>"
proof -
  from assms obtain salt where s: "drawn = Some salt" "password \<noteq> []"
    by (auto simp: HashPassword_def split: if_splits option.splits)
  let ?key = "idkey password salt argonTime argonMemory argonThreads argonKeyLen"
  have num: "itoa 19 = ''19''" "itoa argonMemory = ''65536''" "itoa argonTime = ''3''" "itoa argonThreads = ''2''"
    by code_simp+
  have h: "h = [] @ CHR ''$'' # ''argon2id'' @ CHR ''$'' # ''v=19'' @ CHR ''$'' # ''m=65536,t=3,p=2''
      @ CHR ''$'' # base64_encode salt @ CHR ''$'' # base64_encode ?key"
    using assms s by (simp add: HashPassword_def Let_def num)
  have "split_on (CHR ''$'') h = [[], ''argon2id'', ''v=19'', ''m=65536,t=3,p=2'', base64_encode salt, base64_encode ?key]"
    unfolding h using base64_no_dollar by (simp add: split_on_append split_on_free)
  moreover have "sscanf_version ''v=19'' = Some 19" "sscanf_costs ''m=65536,t=3,p=2'' = Some (argonMemory, argonTime, argonThreads)"
    by code_simp+
  ultimately have "parseHash h = Some \<lparr>par_memory = argonMemory, par_time = argonTime, par_threads = argonThreads,
       par_salt = salt, par_key = ?key\<rparr>" by (simp add: parseHash_def base64_roundtrip)
  with s that show thesis by blast
qed

text \<open>
  C20: The stored hash and the memory of the verifier are transparent. A hash made from a password can
  be loaded, and on any sequence of credentials the verifier answers as one that derives the
  key each time: accepted exactly for the fixed user with a password that derives the key of the
  original, as long as SHA-256 does not collide on the passwords tried.
\<close>

theorem Verifier_transparent:
  assumes "HashPassword idkey password (Some salt) = Some h"
    and "\<And>q. length (idkey q salt argonTime argonMemory argonThreads argonKeyLen) = argonKeyLen"
    and "inj_on sha {q. \<exists>u. Some (u, q) \<in> set creds}"
  shows "\<exists>v. NewVerifier h = Some v \<and> verify_all idkey sha v creds = map (\<lambda>c.
     case c of None \<Rightarrow> Some ErrAuthRequired
     | Some (user, q) \<Rightarrow>
         if user = ''sss'' \<and> idkey q salt argonTime argonMemory argonThreads argonKeyLen
              = idkey password salt argonTime argonMemory argonThreads argonKeyLen
         then None else Some ErrAuthInvalid) creds"
proof -
  let ?p = "\<lparr>par_memory = argonMemory, par_time = argonTime, par_threads = argonThreads,
       par_salt = salt, par_key = idkey password salt argonTime argonMemory argonThreads argonKeyLen\<rparr>"
  let ?v = "\<lparr>ver_p = ?p, ver_accepted = None\<rparr>"
  have "parseHash h = Some ?p" by (rule parse_HashPassword [OF assms(1)]) simp
  then have new: "NewVerifier h = Some ?v" by (simp add: NewVerifier_def)
  have "remembers idkey sha {q. \<exists>u. Some (u, q) \<in> set creds} ?v" by (simp add: remembers_def)
  from verify_all_remembers [OF this assms(3), of creds]
  have "verify_all idkey sha ?v creds = map (fresh_answer idkey ?p) creds" by auto
  moreover have "fresh_answer idkey ?p = (\<lambda>c. case c of None \<Rightarrow> Some ErrAuthRequired
     | Some (user, q) \<Rightarrow>
         if user = ''sss'' \<and> idkey q salt argonTime argonMemory argonThreads argonKeyLen
              = idkey password salt argonTime argonMemory argonThreads argonKeyLen
         then None else Some ErrAuthInvalid)"
    by (rule ext, case_tac c) (auto simp: fresh_answer_def derive_def assms(2))
  ultimately show ?thesis using new by (intro exI [of _ ?v]) simp
qed

definition sample_idkey :: idkey where
  "sample_idkey q salt t m p n = take n (q @ replicate n (CHR ''x''))"

theorem Verifier_transparent_witness:
  "\<exists>h v. HashPassword sample_idkey ''pw'' (Some ''salt'') = Some h \<and> NewVerifier h = Some v
     \<and> verify_all sample_idkey id v [None, Some (''sss'', ''no''), Some (''sss'', ''pw''), Some (''sss'', ''pw''), Some (''root'', ''pw'')]
       = [Some ErrAuthRequired, Some ErrAuthInvalid, None, None, Some ErrAuthInvalid]"
proof -
  obtain h where h: "HashPassword sample_idkey ''pw'' (Some ''salt'') = Some h"
    by (simp add: HashPassword_def Let_def)
  have len: "length (sample_idkey q ''salt'' argonTime argonMemory argonThreads argonKeyLen) = argonKeyLen" for q
    by (simp add: sample_idkey_def)
  have ne: "sample_idkey ''no'' ''salt'' argonTime argonMemory argonThreads argonKeyLen
      \<noteq> sample_idkey ''pw'' ''salt'' argonTime argonMemory argonThreads argonKeyLen" by code_simp
  from Verifier_transparent [where sha = id, OF h len,
      of "[None, Some (''sss'', ''no''), Some (''sss'', ''pw''), Some (''sss'', ''pw''), Some (''root'', ''pw'')]"]
  show ?thesis using h ne by auto
qed

end
