(* ===== verification/SSS_Limiter.thy ===== *)
theory SSS_Limiter
  imports SSS_Auth
begin

text \<open>
  The limiter of failed attempts (\<^verbatim>\<open>internal/auth/auth.go\<close>) and the authentication middleware
  (\<^verbatim>\<open>internal/api/middleware/middleware.go\<close>). Tokens are \<^verbatim>\<open>float64\<close>: rationals here, rounded after
  each operation by a function that is an argument. The lemmas bound the guesses one address
  gets, whatever the rounding, and show that forgetting idle addresses changes nothing.
\<close>

section \<open>The limiter\<close>

record bucket =
  bk_tokens :: rat
  bk_last :: time

record limiter =
  lim_perMinute :: int
  lim_buckets :: "(string \<times> bucket) list"

definition NewLimiter :: "int \<Rightarrow> limiter" where
  "NewLimiter perMinute =
     \<lparr>lim_perMinute = (if perMinute \<le> 0 then 20 else perMinute), lim_buckets = []\<rparr>"

definition full_bucket :: "limiter \<Rightarrow> time \<Rightarrow> bucket" where
  "full_bucket l now = \<lparr>bk_tokens = of_int (lim_perMinute l), bk_last = now\<rparr>"

text \<open>\<^verbatim>\<open>Time.Sub\<close> saturates; \<^verbatim>\<open>Duration.Minutes\<close> adds whole minutes and a rounded fraction.\<close>

definition time_sub :: "time \<Rightarrow> time \<Rightarrow> int" where
  "time_sub a b = max (- (2 ^ 63)) (min (2 ^ 63 - 1) (a - b))"

definition Minutes :: "(rat \<Rightarrow> rat) \<Rightarrow> int \<Rightarrow> rat" where
  "Minutes rnd d = rnd (of_int (go_div d minute) + rnd (of_int (go_mod d minute) / of_int minute))"

definition evictLocked :: "time \<Rightarrow> limiter \<Rightarrow> limiter" where
  "evictLocked now l =
     l\<lparr>lim_buckets := filter (\<lambda>(k, b). \<not> time_sub now (bk_last b) > 10 * minute) (lim_buckets l)\<rparr>"

definition refilled :: "(rat \<Rightarrow> rat) \<Rightarrow> limiter \<Rightarrow> time \<Rightarrow> bucket \<Rightarrow> bucket" where
  "refilled rnd l now b =
     (let refill = rnd (Minutes rnd (time_sub now (bk_last b)) * of_int (lim_perMinute l))
      in \<lparr>bk_tokens = min (of_int (lim_perMinute l)) (rnd (bk_tokens b + refill)), bk_last = now\<rparr>)"

definition Allow :: "(rat \<Rightarrow> rat) \<Rightarrow> limiter \<Rightarrow> time \<Rightarrow> string \<Rightarrow> bool \<times> limiter" where
  "Allow rnd l now key =
     (let l1 = (if map_of (lim_buckets l) key = None \<and> length (lim_buckets l) > 4096
                then evictLocked now l else l);
          b0 = (case map_of (lim_buckets l1) key of Some b \<Rightarrow> b | None \<Rightarrow> full_bucket l now);
          b = refilled rnd l now b0
      in (bk_tokens b \<ge> 1, l1\<lparr>lim_buckets := AList.update key b (lim_buckets l1)\<rparr>))"

definition Fail_attempt :: "(rat \<Rightarrow> rat) \<Rightarrow> limiter \<Rightarrow> time \<Rightarrow> string \<Rightarrow> limiter" where
  "Fail_attempt rnd l now key =
     (let b = (case map_of (lim_buckets l) key of Some b \<Rightarrow> b | None \<Rightarrow> full_bucket l now);
          t = rnd (bk_tokens b - 1)
      in l\<lparr>lim_buckets := AList.update key (b\<lparr>bk_tokens := (if t < 0 then 0 else t)\<rparr>) (lim_buckets l)\<rparr>)"

section \<open>The middleware\<close>

text \<open>\<^verbatim>\<open>net.SplitHostPort\<close>: the host, or an error.\<close>

definition SplitHost :: "string \<Rightarrow> string option" where
  "SplitHost hp =
     (if CHR '':'' \<notin> set hp then None
      else let port = takeWhile (\<lambda>c. c \<noteq> CHR '':'') (rev hp);
               i = length hp - 1 - length port
        in if hd hp = CHR ''['' then
             (if CHR '']'' \<notin> set hp then None
              else let e = length (takeWhile (\<lambda>c. c \<noteq> CHR '']'') hp)
                in if e + 1 \<noteq> i then None
                   else if CHR ''['' \<in> set (drop 1 hp) \<or> CHR '']'' \<in> set (drop (e + 1) hp) then None
                   else Some (take (e - 1) (drop 1 hp)))
           else if CHR '':'' \<in> set (take i hp) then None
           else if CHR ''['' \<in> set hp \<or> CHR '']'' \<in> set hp then None
           else Some (take i hp))"

definition blank :: "char \<Rightarrow> bool" where "blank c \<longleftrightarrow> c = CHR '' '' \<or> c = CHR 0x09"

definition trimSpace :: "string \<Rightarrow> string" where
  "trimSpace s = rev (dropWhile blank (rev (dropWhile blank s)))"

definition firstAddress :: "string \<Rightarrow> string" where
  "firstAddress xs = trimSpace (takeWhile (\<lambda>c. c \<noteq> CHR '','') xs)"

definition clientKey :: "string \<Rightarrow> string \<Rightarrow> string" where
  "clientKey forwarded remote =
     (if forwarded \<noteq> [] then (case SplitHost forwarded of Some host \<Rightarrow> host | None \<Rightarrow> firstAddress forwarded)
      else case SplitHost remote of Some host \<Rightarrow> host | None \<Rightarrow> remote)"

record request =
  rq_Forwarded :: string
  rq_Remote :: string
  rq_Basic :: "(string \<times> string) option"

text \<open>The clock is read by \<^verbatim>\<open>Allow\<close>; \<^verbatim>\<open>Fail\<close> reads it only for a bucket that does not exist.\<close>

definition Auth ::
  "(rat \<Rightarrow> rat) \<Rightarrow> idkey \<Rightarrow> (string \<Rightarrow> string) \<Rightarrow> time \<Rightarrow> request \<Rightarrow> limiter \<times> verifier
   \<Rightarrow> errcode option \<times> limiter \<times> verifier" where
  "Auth rnd idkey sha now r lv =
     (case lv of (l, v) \<Rightarrow>
        let key = clientKey (rq_Forwarded r) (rq_Remote r) in
        case Allow rnd l now key of (allowed, l1) \<Rightarrow>
          if \<not> allowed then (Some ErrRateLimited, l1, v)
          else case CheckBasic idkey sha v (rq_Basic r) of
            (Some e, v1) \<Rightarrow> (Some e, Fail_attempt rnd l1 now key, v1)
          | (None, v1) \<Rightarrow> (None, l1, v1))"

text \<open>A run of requests with their times: the answer to each.\<close>

fun auth_run ::
  "(rat \<Rightarrow> rat) \<Rightarrow> idkey \<Rightarrow> (string \<Rightarrow> string) \<Rightarrow> (time \<times> request) list \<Rightarrow> limiter \<times> verifier
   \<Rightarrow> errcode option list" where
  "auth_run rnd idkey sha [] lv = []"
| "auth_run rnd idkey sha ((now, r) # rs) lv =
     (case Auth rnd idkey sha now r lv of (e, lv') \<Rightarrow> e # auth_run rnd idkey sha rs lv')"

section \<open>The credit of an address\<close>

text \<open>
  What the proofs use of \<^verbatim>\<open>float64\<close> for a rate of \<open>p\<close> per minute: rounding is monotone, exact at zero
  and at \<open>p\<close>, and off upwards by at most \<open>eps\<close> on the values a bucket can reach.
\<close>

definition rounding :: "(rat \<Rightarrow> rat) \<Rightarrow> int \<Rightarrow> rat \<Rightarrow> bool" where
  "rounding rnd p eps \<longleftrightarrow> 0 \<le> eps \<and> eps \<le> 1 / 4 \<and> (\<forall>x y. x \<le> y \<longrightarrow> rnd x \<le> rnd y)
     \<and> rnd 0 = 0 \<and> rnd (of_int p) = of_int p
     \<and> (\<forall>x. 0 \<le> x \<and> x \<le> 2 * of_int p + 2 \<longrightarrow> rnd x \<le> x + eps)"

text \<open>The exact number of tokens an address could use at a time.\<close>

definition rate :: "limiter \<Rightarrow> rat" where "rate l = of_int (lim_perMinute l) / of_int minute"

definition credit :: "limiter \<Rightarrow> string \<Rightarrow> time \<Rightarrow> rat" where
  "credit l key now = (case map_of (lim_buckets l) key of None \<Rightarrow> of_int (lim_perMinute l)
     | Some b \<Rightarrow> min (of_int (lim_perMinute l)) (bk_tokens b + rate l * of_int (now - bk_last b)))"

definition limiter_ok :: "time \<Rightarrow> limiter \<Rightarrow> time \<Rightarrow> bool" where
  "limiter_ok t0 l now \<longleftrightarrow> 1 \<le> lim_perMinute l \<and> t0 \<le> now \<and> now - t0 < 2 ^ 63 \<and> distinct (map fst (lim_buckets l))
     \<and> (\<forall>(k, b)\<in>set (lim_buckets l). 0 \<le> bk_tokens b \<and> bk_tokens b \<le> of_int (lim_perMinute l)
          \<and> t0 \<le> bk_last b \<and> bk_last b \<le> now)"

lemma minute_pos: "0 < minute"
  by (simp add: minute_def)

lemma roundingD:
  assumes "rounding rnd p eps"
  shows "0 \<le> eps" "eps \<le> 1 / 4" "x \<le> y \<Longrightarrow> rnd x \<le> rnd y" "rnd 0 = 0" "rnd (of_int p) = of_int p"
    "0 \<le> x \<Longrightarrow> x \<le> 2 * of_int p + 2 \<Longrightarrow> rnd x \<le> x + eps" "0 \<le> x \<Longrightarrow> 0 \<le> rnd x"
proof -
  show "0 \<le> eps" "eps \<le> 1 / 4" "x \<le> y \<Longrightarrow> rnd x \<le> rnd y" and z: "rnd 0 = 0" and "rnd (of_int p) = of_int p"
    "0 \<le> x \<Longrightarrow> x \<le> 2 * of_int p + 2 \<Longrightarrow> rnd x \<le> x + eps"
    using assms by (simp_all add: rounding_def)
  show "0 \<le> x \<Longrightarrow> 0 \<le> rnd x" using assms z unfolding rounding_def by metis
qed

text \<open>One refill: the tokens stay within the limit and gain little more than the exact amount.\<close>

lemma refilled_bounds:
  assumes r: "rounding rnd (lim_perMinute l) eps" and p: "1 \<le> lim_perMinute l"
    and b: "0 \<le> bk_tokens b" "bk_tokens b \<le> of_int (lim_perMinute l)"
    and t: "bk_last b \<le> now" "now - bk_last b < 2 ^ 63"
  shows "0 \<le> bk_tokens (refilled rnd l now b)" and "bk_tokens (refilled rnd l now b) \<le> of_int (lim_perMinute l)"
    and "bk_last (refilled rnd l now b) = now"
    and "bk_tokens (refilled rnd l now b)
      \<le> min (of_int (lim_perMinute l)) (bk_tokens b + rate l * of_int (now - bk_last b))
        + (2 * of_int (lim_perMinute l) + 2) * eps"
proof -
  define q :: rat where "q = of_int (lim_perMinute l)"
  let ?d = "now - bk_last b"
  define M where "M = Minutes rnd ?d"
  define R where "R = rnd (M * q)"
  note rd = roundingD [OF r, folded q_def]
  have q: "1 \<le> q" using p by (simp add: q_def)
  have sub: "time_sub now (bk_last b) = ?d" using t by (simp add: time_sub_def)
  have d: "0 \<le> ?d" using t by simp
  have tok: "bk_tokens (refilled rnd l now b) = min q (rnd (bk_tokens b + R))"
    by (simp add: refilled_def Let_def sub M_def R_def q_def)
  have gd: "go_div ?d minute = ?d div minute" "go_mod ?d minute = ?d mod minute"
    using d minute_pos by simp_all
  have "0 \<le> rnd (of_int (?d mod minute) / of_int minute)"
    using minute_pos by (intro rd(7)) simp
  then have M0: "0 \<le> M"
    unfolding M_def Minutes_def gd using d minute_pos by (intro rd(7)) (simp add: pos_imp_zdiv_nonneg_iff)
  then have R0: "0 \<le> R" unfolding R_def using q by (intro rd(7)) simp
  then show "0 \<le> bk_tokens (refilled rnd l now b)"
    unfolding tok using q b(1) by (simp add: rd(7))
  show "bk_tokens (refilled rnd l now b) \<le> of_int (lim_perMinute l)" by (simp add: tok q_def)
  show "bk_last (refilled rnd l now b) = now" by (simp add: refilled_def Let_def)
  have e: "0 \<le> (2 * q + 2) * eps" using q rd(1) by simp
  show "bk_tokens (refilled rnd l now b)
      \<le> min (of_int (lim_perMinute l)) (bk_tokens b + rate l * of_int ?d) + (2 * of_int (lim_perMinute l) + 2) * eps"
  proof (cases "q \<le> bk_tokens b + rate l * of_int ?d")
    case True
    then show ?thesis unfolding tok q_def [symmetric] using e by simp
  next
    case False
    let ?x = "of_int ?d / of_int minute :: rat"
    have rx: "rate l * of_int ?d = ?x * q" by (simp add: rate_def q_def)
    have "?x * q < q" using False b(1) unfolding rx by linarith
    have x: "?x < 1"
    proof (rule ccontr)
      assume "\<not> ?x < 1"
      then have "1 * q \<le> ?x * q" using q by (intro mult_right_mono) simp_all
      then show False using \<open>?x * q < q\<close> by simp
    qed
    then have "?d < minute" using minute_pos by (simp add: divide_less_eq)
    then have m: "?d div minute = 0" "?d mod minute = ?d" using d by simp_all
    have x0: "0 \<le> ?x" using d minute_pos by simp
    have M1: "rnd ?x \<le> ?x + eps" "0 \<le> rnd ?x" using x x0 q rd(6,7) by simp_all
    then have "rnd (rnd ?x) \<le> rnd ?x + eps" using x rd(2) q by (intro rd(6)) linarith+
    then have M: "M \<le> ?x + 2 * eps" using M1 unfolding M_def Minutes_def gd m by simp
    have Mq: "M * q \<le> ?x * q + 2 * (eps * q)"
      using mult_right_mono [OF M, of q] q by (simp add: distrib_right)
    have "eps * q \<le> q / 4" using mult_right_mono [OF rd(2), of q] q by simp
    note eq = this
    have "0 \<le> M * q" using M0 q by simp
    moreover have "M * q \<le> 2 * q + 2" using Mq eq \<open>?x * q < q\<close> q by linarith
    ultimately have "R \<le> M * q + eps" unfolding R_def by (rule rd(6))
    then have R: "R \<le> ?x * q + 2 * (eps * q) + eps" using Mq by linarith
    have "bk_tokens b + R \<le> 2 * q + 2" using R False eq rd(2) q unfolding rx by linarith
    then have "rnd (bk_tokens b + R) \<le> bk_tokens b + R + eps" using R0 b(1) by (intro rd(6)) simp
    then have "rnd (bk_tokens b + R) \<le> bk_tokens b + ?x * q + (2 * q + 2) * eps"
      using R by (simp add: algebra_simps)
    moreover have "min q (bk_tokens b + ?x * q) = bk_tokens b + ?x * q" using False unfolding rx by simp
    ultimately show ?thesis
      unfolding tok q_def [symmetric] rx using min.cobounded2 [of q "rnd (bk_tokens b + R)"] by linarith
  qed
qed

lemma rate_nonneg: "1 \<le> lim_perMinute l \<Longrightarrow> 0 \<le> rate l"
  using minute_pos by (simp add: rate_def)

lemma credit_later:
  assumes "limiter_ok t0 l now" and "now \<le> now'"
  shows "credit l key now' \<le> credit l key now + rate l * of_int (now' - now)"
proof (cases "map_of (lim_buckets l) key")
  case None
  then show ?thesis using assms rate_nonneg [of l] by (simp add: credit_def limiter_ok_def)
next
  case (Some b)
  have "0 \<le> rate l" using assms(1) rate_nonneg by (simp add: limiter_ok_def)
  then have "0 \<le> rate l * of_int (now' - now)" using assms(2) by simp
  moreover have "rate l * of_int (now' - bk_last b) = rate l * of_int (now - bk_last b) + rate l * of_int (now' - now)"
    by (simp add: algebra_simps)
  ultimately show ?thesis using Some by (simp add: credit_def min_def)
qed

lemma map_of_filter_keyed:
  "distinct (map fst al) \<Longrightarrow> map_of (filter (\<lambda>(k, b). P b) al) k
     = (case map_of al k of Some b \<Rightarrow> if P b then Some b else None | None \<Rightarrow> None)"
  by (induction al) (auto split: option.splits simp: map_of_eq_None_iff image_iff)

text \<open>An address idle for ten minutes has its full credit back, so forgetting it changes nothing.\<close>

lemma credit_evict:
  assumes "limiter_ok t0 l now"
  shows "credit (evictLocked now l) key now = credit l key now"
proof -
  have d: "distinct (map fst (lim_buckets l))" using assms by (simp add: limiter_ok_def)
  have r: "rate (evictLocked now l) = rate l" "lim_perMinute (evictLocked now l) = lim_perMinute l"
    by (simp_all add: rate_def evictLocked_def)
  show ?thesis
  proof (cases "map_of (lim_buckets l) key")
    case None
    then show ?thesis by (simp add: credit_def evictLocked_def map_of_filter_keyed [OF d])
  next
    case (Some b)
    then have b: "0 \<le> bk_tokens b" "bk_last b \<le> now" "now - bk_last b < 2 ^ 63" and p: "1 \<le> lim_perMinute l"
      using assms map_of_SomeD [OF Some] by (auto simp: limiter_ok_def)
    show ?thesis
    proof (cases "time_sub now (bk_last b) > 10 * minute")
      case True
      then have "10 * minute \<le> now - bk_last b" using b(2,3) by (simp add: time_sub_def)
      then have "rate l * of_int (10 * minute) \<le> rate l * of_int (now - bk_last b)"
        using rate_nonneg [OF p] by (intro mult_left_mono) (simp_all only: of_int_le_iff)
      moreover have "rate l * of_int (10 * minute) = 10 * of_int (lim_perMinute l)"
        using minute_pos by (simp add: rate_def)
      ultimately have "of_int (lim_perMinute l) \<le> bk_tokens b + rate l * of_int (now - bk_last b)"
        using b(1) p by simp
      then show ?thesis using True Some r
        by (simp add: credit_def evictLocked_def map_of_filter_keyed [OF d])
    next
      case False
      then show ?thesis using Some r by (simp add: credit_def evictLocked_def map_of_filter_keyed [OF d] rate_def)
    qed
  qed
qed

lemma evict_ok: "limiter_ok t0 l now \<Longrightarrow> limiter_ok t0 (evictLocked now l) now"
  by (auto simp: limiter_ok_def evictLocked_def distinct_map_filter)

lemma limiter_ok_later:
  "limiter_ok t0 l now \<Longrightarrow> now \<le> now' \<Longrightarrow> now' - t0 < 2 ^ 63 \<Longrightarrow> limiter_ok t0 l now'"
  by (fastforce simp: limiter_ok_def)

lemma limiter_ok_update:
  assumes "limiter_ok t0 l now" and "0 \<le> bk_tokens b" "bk_tokens b \<le> of_int (lim_perMinute l)" "bk_last b = now"
  shows "limiter_ok t0 (l\<lparr>lim_buckets := AList.update key b (lim_buckets l)\<rparr>) now"
proof -
  have "set (AList.update key b al) \<subseteq> insert (key, b) (set al)" for al :: "(string \<times> bucket) list"
    by (induction al) auto
  then have "\<forall>(k, c)\<in>set (AList.update key b (lim_buckets l)). 0 \<le> bk_tokens c
      \<and> bk_tokens c \<le> of_int (lim_perMinute l) \<and> t0 \<le> bk_last c \<and> bk_last c \<le> now"
    using assms unfolding limiter_ok_def by fastforce
  then show ?thesis using assms(1) by (simp add: limiter_ok_def distinct_update)
qed

lemma credit_update:
  "credit (l\<lparr>lim_buckets := AList.update key b (lim_buckets l)\<rparr>) k now =
     (if k = key then min (of_int (lim_perMinute l)) (bk_tokens b + rate l * of_int (now - bk_last b))
      else credit l k now)"
  by (cases "map_of (lim_buckets l) k") (simp_all add: credit_def update_conv rate_def)

lemma Allow_credit:
  assumes r: "rounding rnd (lim_perMinute l) eps" and ok: "limiter_ok t0 l now"
    and A: "Allow rnd l now key = (a, l')"
  shows "limiter_ok t0 l' now" and "lim_perMinute l' = lim_perMinute l"
    and "k \<noteq> key \<Longrightarrow> credit l' k now = credit l k now"
    and "credit l' key now \<le> credit l key now + (2 * of_int (lim_perMinute l) + 2) * eps"
    and "\<exists>b. map_of (lim_buckets l') key = Some b \<and> bk_last b = now \<and> (a \<longleftrightarrow> 1 \<le> bk_tokens b)"
proof -
  define l1 where "l1 = (if map_of (lim_buckets l) key = None \<and> length (lim_buckets l) > 4096
                then evictLocked now l else l)"
  define b0 where "b0 = (case map_of (lim_buckets l1) key of Some b \<Rightarrow> b | None \<Rightarrow> full_bucket l now)"
  define b where "b = refilled rnd l now b0"
  have l': "l' = l1\<lparr>lim_buckets := AList.update key b (lim_buckets l1)\<rparr>" and a: "a \<longleftrightarrow> 1 \<le> bk_tokens b"
    using A by (auto simp: Allow_def l1_def b0_def b_def Let_def)
  have p: "1 \<le> lim_perMinute l" using ok by (simp add: limiter_ok_def)
  have l1: "limiter_ok t0 l1 now" "lim_perMinute l1 = lim_perMinute l" "\<And>k. credit l1 k now = credit l k now" "rate l1 = rate l"
    using evict_ok [OF ok] credit_evict [OF ok] ok by (simp_all add: l1_def evictLocked_def rate_def)
  have b0: "0 \<le> bk_tokens b0" "bk_tokens b0 \<le> of_int (lim_perMinute l)" "bk_last b0 \<le> now" "now - bk_last b0 < 2 ^ 63"
  proof -
    have "b0 = full_bucket l now \<or> (\<exists>k. (k, b0) \<in> set (lim_buckets l1))"
      by (auto simp: b0_def split: option.splits dest: map_of_SomeD)
    then show "0 \<le> bk_tokens b0" "bk_tokens b0 \<le> of_int (lim_perMinute l)" "bk_last b0 \<le> now" "now - bk_last b0 < 2 ^ 63"
      using l1(1,2) p by (auto simp: limiter_ok_def full_bucket_def)
  qed
  note rb = refilled_bounds [OF r p b0, folded b_def]
  have c0: "min (of_int (lim_perMinute l)) (bk_tokens b0 + rate l * of_int (now - bk_last b0)) = credit l key now"
    unfolding l1(3) [symmetric]
    by (simp add: credit_def b0_def l1(2,4) full_bucket_def split: option.splits)
  show "limiter_ok t0 l' now" unfolding l' using rb l1 by (intro limiter_ok_update) simp_all
  show "lim_perMinute l' = lim_perMinute l" by (simp add: l' l1)
  show "k \<noteq> key \<Longrightarrow> credit l' k now = credit l k now" by (simp add: l' credit_update l1)
  show "credit l' key now \<le> credit l key now + (2 * of_int (lim_perMinute l) + 2) * eps"
    using rb(2,3) rb(4) [unfolded c0] by (simp add: l' credit_update l1)
  show "\<exists>b. map_of (lim_buckets l') key = Some b \<and> bk_last b = now \<and> (a \<longleftrightarrow> 1 \<le> bk_tokens b)"
    using rb(3) a by (simp add: l' update_conv)
qed

lemma Fail_credit:
  assumes r: "rounding rnd (lim_perMinute l) eps" and ok: "limiter_ok t0 l now"
    and b: "map_of (lim_buckets l) key = Some b" "bk_last b = now" "1 \<le> bk_tokens b"
  shows "limiter_ok t0 (Fail_attempt rnd l now key) now" and "lim_perMinute (Fail_attempt rnd l now key) = lim_perMinute l"
    and "k \<noteq> key \<Longrightarrow> credit (Fail_attempt rnd l now key) k now = credit l k now"
    and "credit (Fail_attempt rnd l now key) key now \<le> credit l key now - 1 + eps"
proof -
  let ?t = "rnd (bk_tokens b - 1)"
  note rd = roundingD [OF r]
  have p: "1 \<le> lim_perMinute l" "bk_tokens b \<le> of_int (lim_perMinute l)"
    using ok map_of_SomeD [OF b(1)] by (auto simp: limiter_ok_def)
  have t: "0 \<le> ?t" "?t \<le> of_int (lim_perMinute l)" "?t \<le> bk_tokens b - 1 + eps"
    using b(3) p rd(7) rd(3) [of "bk_tokens b - 1" "of_int (lim_perMinute l)"] rd(5) rd(6) [of "bk_tokens b - 1"]
    by simp_all
  have F: "Fail_attempt rnd l now key
      = l\<lparr>lim_buckets := AList.update key (b\<lparr>bk_tokens := ?t\<rparr>) (lim_buckets l)\<rparr>"
    using t(1) by (simp add: Fail_attempt_def b(1) Let_def)
  have c: "credit l key now = bk_tokens b" using b p by (simp add: credit_def)
  show "limiter_ok t0 (Fail_attempt rnd l now key) now"
    unfolding F using t b(2) ok by (intro limiter_ok_update) simp_all
  show "lim_perMinute (Fail_attempt rnd l now key) = lim_perMinute l" by (simp add: F)
  show "k \<noteq> key \<Longrightarrow> credit (Fail_attempt rnd l now key) k now = credit l k now" by (simp add: F credit_update)
  show "credit (Fail_attempt rnd l now key) key now \<le> credit l key now - 1 + eps"
    using t b(2) by (simp add: F credit_update c)
qed

definition rejected :: "errcode option \<Rightarrow> bool" where
  "rejected e \<longleftrightarrow> e = Some ErrAuthRequired \<or> e = Some ErrAuthInvalid"

fun guesses :: "string \<Rightarrow> (time \<times> request) list \<Rightarrow> errcode option list \<Rightarrow> nat" where
  "guesses key ((now, r) # rs) (e # es) =
     (if clientKey (rq_Forwarded r) (rq_Remote r) = key \<and> rejected e then 1 else 0) + guesses key rs es"
| "guesses key rs es = 0"

lemma CheckBasic_rejected: "CheckBasic idkey sha v c = (Some e, v') \<Longrightarrow> rejected (Some e)"
  by (auto simp: CheckBasic_def rejected_def split: option.splits if_splits prod.splits)

text \<open>One request costs its address a token when it is rejected, and gains at most the rounding.\<close>

lemma Auth_credit:
  assumes r: "rounding rnd (lim_perMinute l) eps" and ok: "limiter_ok t0 l now"
    and A: "Auth rnd idkey sha now q (l, v) = (e, l', v')"
  shows "limiter_ok t0 l' now" and "lim_perMinute l' = lim_perMinute l"
    and "credit l' key now + of_nat (guesses key [(now, q)] [e])
      \<le> credit l key now + (2 * of_int (lim_perMinute l) + 3) * eps"
proof -
  let ?k = "clientKey (rq_Forwarded q) (rq_Remote q)"
  obtain a l1 where al: "Allow rnd l now ?k = (a, l1)" by (cases "Allow rnd l now ?k")
  note ac = Allow_credit [OF r ok al]
  have p: "1 \<le> lim_perMinute l" using ok by (simp add: limiter_ok_def)
  have eps: "0 \<le> eps" using roundingD(1) [OF r] .
  have more: "0 \<le> (2 * of_int (lim_perMinute l) + 2) * eps" using p eps by simp
  have all: "credit l1 key now \<le> credit l key now + (2 * of_int (lim_perMinute l) + 2) * eps"
    using ac(3) [of key] ac(4) more by (cases "key = ?k") auto
  have e3: "(2 * of_int (lim_perMinute l) + 3) * eps = (2 * of_int (lim_perMinute l) + 2) * eps + eps"
    by (simp add: algebra_simps)
  consider (limited) "\<not> a" "l' = l1" "e = Some ErrRateLimited"
    | (failed) e0 where "a" "e = Some e0" "l' = Fail_attempt rnd l1 now ?k" "rejected e"
    | (passed) "a" "e = None" "l' = l1"
    using A al by (auto simp: Auth_def Let_def split: prod.splits option.splits if_splits dest: CheckBasic_rejected)
  then have "limiter_ok t0 l' now \<and> lim_perMinute l' = lim_perMinute l
    \<and> credit l' key now + of_nat (guesses key [(now, q)] [e]) \<le> credit l1 key now + eps"
  proof cases
    case limited
    then show ?thesis using ac(1,2) eps by (simp add: rejected_def)
  next
    case failed
    from ac(5) failed(1) obtain b where b: "map_of (lim_buckets l1) ?k = Some b" "bk_last b = now" "1 \<le> bk_tokens b" by blast
    note fc = Fail_credit [OF r [folded ac(2)] ac(1) b, folded failed(3)]
    show ?thesis using fc ac(2) failed(4) eps fc(3) [of key] by (cases "?k = key") auto
  next
    case passed
    then show ?thesis using ac(1,2) eps by (simp add: rejected_def)
  qed
  then show "limiter_ok t0 l' now" and "lim_perMinute l' = lim_perMinute l"
    and "credit l' key now + of_nat (guesses key [(now, q)] [e])
      \<le> credit l key now + (2 * of_int (lim_perMinute l) + 3) * eps"
    using all e3 by linarith+
qed

fun end_time :: "time \<Rightarrow> (time \<times> request) list \<Rightarrow> time" where
  "end_time t [] = t"
| "end_time t ((now, r) # rs) = end_time now rs"

lemma end_time_ge: "sorted (t # map fst rs) \<Longrightarrow> t \<le> end_time t rs"
  by (induction t rs rule: end_time.induct) auto

lemma guesses_bound:
  assumes "rounding rnd p eps"
  shows "sorted (t # map fst rs) \<Longrightarrow> limiter_ok t0 l t \<Longrightarrow> lim_perMinute l = p \<Longrightarrow> end_time t rs - t0 < 2 ^ 63 \<Longrightarrow>
    of_nat (guesses key rs (auth_run rnd idkey sha rs (l, v)))
      \<le> credit l key t + rate l * of_int (end_time t rs - t) + of_nat (length rs) * ((2 * of_int p + 3) * eps)"
proof (induction rs arbitrary: t l v)
  case Nil
  then have "0 \<le> credit l key t"
    using rate_nonneg [of l] by (auto simp: credit_def limiter_ok_def split: option.splits dest!: map_of_SomeD)
  then show ?case by simp
next
  case (Cons x rs)
  obtain now q where x: "x = (now, q)" by (cases x)
  obtain e l' v' where A: "Auth rnd idkey sha now q (l, v) = (e, l', v')"
    by (cases "Auth rnd idkey sha now q (l, v)") auto
  have t: "t \<le> now" "sorted (now # map fst rs)" using Cons.prems(1) by (simp_all add: x)
  have en: "now \<le> end_time now rs" using end_time_ge [OF t(2)] .
  have ok: "limiter_ok t0 l now"
    using limiter_ok_later [OF Cons.prems(2) t(1)] Cons.prems(4) en by (simp add: x)
  note ac = Auth_credit [OF assms [folded Cons.prems(3)] ok A]
  from Cons.IH [OF t(2) ac(1)] Cons.prems(3,4) ac(2)
  have ih: "of_nat (guesses key rs (auth_run rnd idkey sha rs (l', v')))
      \<le> credit l' key now + rate l' * of_int (end_time now rs - now) + of_nat (length rs) * ((2 * of_int p + 3) * eps)"
    by (simp add: x)
  have g: "guesses key (x # rs) (auth_run rnd idkey sha (x # rs) (l, v))
      = guesses key [(now, q)] [e] + guesses key rs (auth_run rnd idkey sha rs (l', v'))"
    by (simp add: x A)
  have "rate l' = rate l" using ac(2) by (simp add: rate_def)
  moreover have "credit l key now \<le> credit l key t + rate l * of_int (now - t)"
    using credit_later [OF Cons.prems(2) t(1)] .
  moreover have "rate l * of_int (end_time t (x # rs) - t)
      = rate l * of_int (now - t) + rate l * of_int (end_time now rs - now)"
    by (simp add: x algebra_simps)
  moreover have "of_nat (length (x # rs)) * ((2 * of_int p + 3) * eps)
      = of_nat (length rs) * ((2 * of_int p + 3) * eps) + (2 * of_int p + 3) * eps"
    by (simp add: algebra_simps)
  ultimately show ?case unfolding g using ih ac(3) [of key] Cons.prems(3) by simp
qed


text \<open>A rounding down to multiples of a small power of two.\<close>

definition sample_rnd :: "rat \<Rightarrow> rat" where
  "sample_rnd x = of_int \<lfloor>x * 1024\<rfloor> / 1024"

lemma sample_rounding: "rounding sample_rnd p 0"
proof -
  have "sample_rnd x \<le> x" for x
    using of_int_floor_le [of "x * 1024"] by (simp add: sample_rnd_def field_simps)
  moreover have "x \<le> y \<Longrightarrow> sample_rnd x \<le> sample_rnd y" for x y
    by (simp add: sample_rnd_def divide_right_mono floor_mono)
  moreover have "sample_rnd (of_int p) = of_int p"
  proof -
    have "(of_int p * 1024 :: rat) = of_int (p * 1024)" by simp
    then show ?thesis unfolding sample_rnd_def by simp
  qed
  moreover have "sample_rnd 0 = 0" by (simp add: sample_rnd_def)
  ultimately show ?thesis by (simp add: rounding_def)
qed

definition sample_guesses :: "(time \<times> request) list" where
  "sample_guesses = replicate 3
     (0, \<lparr>rq_Forwarded = [], rq_Remote = ''10.0.0.1:99'', rq_Basic = Some (''sss'', ''no'')\<rparr>)"

definition sample_verifier :: verifier where
  "sample_verifier = \<lparr>ver_p = \<lparr>par_memory = 1, par_time = 1, par_threads = 1, par_salt = [], par_key = ''key''\<rparr>,
     ver_accepted = None\<rparr>"


end
