(* ===== verification/SSS_Fetch.thy ===== *)
theory SSS_Fetch
  imports SSS_Service
begin

text \<open>
  How the receiving client downloads one segment (\<^verbatim>\<open>fetchOneSegment\<close>, \<^verbatim>\<open>fetchVerified\<close>,
  \<^verbatim>\<open>repairGroup\<close> and \<^verbatim>\<open>fetchSegment\<close> of \<^verbatim>\<open>internal/client/recv.go\<close> with the readers and
  \<^verbatim>\<open>parseError\<close> of \<^verbatim>\<open>internal/client/client.go\<close>). The server and the network are an arbitrary
  function from requests to answers, so the theorems hold against a server that lies; the
  filesystem may fail at every call, and a failing write may have written a part.
\<close>

section \<open>Requests and answers\<close>

datatype byte_range = Whole | From int | Between int int

record get =
  gt_Path :: string
  gt_Token :: string
  gt_Range :: byte_range

text \<open>
  No answer, or a status with the bytes of the body that arrive and whether the body ends
  cleanly after them. The number counts the requests of the client.
\<close>

datatype answer = Unreachable | Answer int bytes bool

type_synonym network = "nat \<Rightarrow> get \<Rightarrow> answer"

text \<open>
  The client's library: the code of a JSON error envelope (none when the body is no such
  document), the check of a verification group, and the digest of a whole file.
\<close>

record client_lib =
  cl_envelope :: "bytes \<Rightarrow> string option"
  cl_verify :: "bytes \<Rightarrow> bytes \<Rightarrow> int \<Rightarrow> string \<Rightarrow> bool"
  cl_blake3 :: "bytes \<Rightarrow> string"

text \<open>
  The segments directory, the number of requests sent, and the outcomes of the filesystem
  calls still to come: \<open>Some n\<close> is a failing call (a write fails after \<open>n\<close> bytes), and when
  the list is used up no call fails any more.
\<close>

record fetching =
  fe_segments :: "(string \<times> bytes) list"
  fe_requests :: nat
  fe_faults :: "nat option list"

type_synonym 'a fetch = "(fetching, 'a) state"

definition send :: "network \<Rightarrow> get \<Rightarrow> answer fetch" where
  "send net g = State (\<lambda>s. (net (fe_requests s) g, s\<lparr>fe_requests := Suc (fe_requests s)\<rparr>))"

definition parseError :: "client_lib \<Rightarrow> int \<Rightarrow> bytes \<Rightarrow> string" where
  "parseError L status full =
     (let body = take 65536 full; trimmed = TrimSpace body
      in case cl_envelope L body of
           Some (c # cs) \<Rightarrow> c # cs
         | _ \<Rightarrow> (case cut_colon trimmed of
               Some (code, message) \<Rightarrow>
                 if looksLikeCode code then code else code_string (statusToCode status)
             | None \<Rightarrow> code_string (statusToCode status)))"

text \<open>\<^verbatim>\<open>Client.do\<close> for the expected statuses.\<close>

definition client_do :: "client_lib \<Rightarrow> network \<Rightarrow> get \<Rightarrow> int list \<Rightarrow> (string + int \<times> bytes \<times> bool) fetch" where
  "client_do L net g expect = do {
     a \<leftarrow> send net g;
     return (case a of Unreachable \<Rightarrow> Inl (code_string ErrNetwork)
       | Answer status body clean \<Rightarrow>
           if status \<in> set expect then Inr (status, body, clean) else Inl (parseError L status body))
   }"

definition SegmentReader ::
  "client_lib \<Rightarrow> network \<Rightarrow> string \<Rightarrow> string \<Rightarrow> int \<Rightarrow> (string + bytes \<times> bool) fetch" where
  "SegmentReader L net path token offset = do {
     r \<leftarrow> client_do L net \<lparr>gt_Path = path, gt_Token = token, gt_Range = (if offset > 0 then From offset else Whole)\<rparr>
       (if offset > 0 then [206, 200] else [200]);
     return (case r of Inl e \<Rightarrow> Inl e | Inr (status, body, clean) \<Rightarrow>
       if offset > 0 \<and> status = 200 then Inl (code_string ErrNetwork) else Inr (body, clean))
   }"

definition SegmentRangeReader ::
  "client_lib \<Rightarrow> network \<Rightarrow> string \<Rightarrow> string \<Rightarrow> int \<Rightarrow> int \<Rightarrow> (string + bytes \<times> bool) fetch" where
  "SegmentRangeReader L net path token offset len = do {
     r \<leftarrow> client_do L net \<lparr>gt_Path = path, gt_Token = token, gt_Range = Between offset (offset + len - 1)\<rparr> [206, 200];
     return (case r of Inl e \<Rightarrow> Inl e | Inr (status, body, clean) \<Rightarrow>
       if status = 200 \<and> offset > 0 then Inl (code_string ErrNetwork) else Inr (body, clean))
   }"

text \<open>\<^verbatim>\<open>io.ReadAll(io.LimitReader(body, max+1))\<close> fails only when the stream breaks before the limit.\<close>

definition OutboardBytes ::
  "client_lib \<Rightarrow> network \<Rightarrow> string \<Rightarrow> string \<Rightarrow> int \<Rightarrow> (string + bytes) fetch" where
  "OutboardBytes L net path token limit = do {
     r \<leftarrow> client_do L net \<lparr>gt_Path = path, gt_Token = token, gt_Range = Whole\<rparr> [200];
     return (case r of Inl e \<Rightarrow> Inl e | Inr (status, body, clean) \<Rightarrow>
       let data = take (nat (limit + 1)) body in
       if \<not> clean \<and> int (length body) < limit + 1 then Inl (code_string ErrNetwork)
       else if int (length data) \<noteq> limit then Inl (code_string ErrHashMismatch)
       else Inr data)
   }"

section \<open>The segment file\<close>

abbreviation seg_file :: "string \<Rightarrow> fetching \<Rightarrow> bytes option" where
  "seg_file t s \<equiv> map_of (fe_segments s) t"

definition set_file :: "string \<Rightarrow> bytes \<Rightarrow> fetching \<Rightarrow> fetching" where
  "set_file t c s = s\<lparr>fe_segments := AList.update t c (fe_segments s)\<rparr>"

definition fault :: "nat option fetch" where
  "fault = State (\<lambda>s. case fe_faults s of [] \<Rightarrow> (None, s) | f # fs \<Rightarrow> (f, s\<lparr>fe_faults := fs\<rparr>))"

definition file_open :: "string \<Rightarrow> bool fetch" where
  "file_open t = do {
     f \<leftarrow> fault;
     State (\<lambda>s. if f \<noteq> None then (False, s)
       else case seg_file t s of None \<Rightarrow> (True, set_file t [] s) | Some _ \<Rightarrow> (True, s))
   }"

definition file_stat :: "string \<Rightarrow> int option fetch" where
  "file_stat t = do {
     f \<leftarrow> fault;
     State (\<lambda>s. (if f \<noteq> None then None else map_option (\<lambda>c. int (length c)) (seg_file t s), s))
   }"

definition file_truncate :: "string \<Rightarrow> int \<Rightarrow> bool fetch" where
  "file_truncate t n = do {
     f \<leftarrow> fault;
     State (\<lambda>s. case seg_file t s of None \<Rightarrow> (False, s) | Some c \<Rightarrow>
       if f \<noteq> None \<or> n < 0 then (False, s)
       else (True, set_file t (take (nat n) (c @ replicate (nat n) (CHR 0x00))) s))
   }"

text \<open>\<^verbatim>\<open>pwrite\<close>: a hole before the offset reads as zeros.\<close>

definition overwrite :: "bytes \<Rightarrow> nat \<Rightarrow> bytes \<Rightarrow> bytes" where
  "overwrite c n d = (if d = [] then c
     else take n (c @ replicate n (CHR 0x00)) @ d @ drop (n + length d) c)"

definition file_write :: "string \<Rightarrow> int \<Rightarrow> bytes \<Rightarrow> bool fetch" where
  "file_write t offset data = do {
     f \<leftarrow> fault;
     State (\<lambda>s. case seg_file t s of None \<Rightarrow> (False, s) | Some c \<Rightarrow>
       if offset < 0 then (False, s)
       else case f of
           None \<Rightarrow> (True, set_file t (overwrite c (nat offset) data) s)
         | Some k \<Rightarrow> (False, set_file t (overwrite c (nat offset) (take k data)) s))
   }"

definition file_sync :: "bool fetch" where
  "file_sync = do { f \<leftarrow> fault; return (f = None) }"

definition file_seek :: "bool fetch" where
  "file_seek = do { f \<leftarrow> fault; return (f = None) }"

definition file_remove :: "string \<Rightarrow> unit fetch" where
  "file_remove t = do {
     f \<leftarrow> fault;
     State (\<lambda>s. ((), if f \<noteq> None then s else s\<lparr>fe_segments := AList.delete t (fe_segments s)\<rparr>))
   }"

definition HashFile :: "client_lib \<Rightarrow> string \<Rightarrow> (string \<times> int) option fetch" where
  "HashFile L t = do {
     f \<leftarrow> fault;
     State (\<lambda>s. (if f \<noteq> None then None
        else map_option (\<lambda>c. (cl_blake3 L c, int (length c))) (seg_file t s), s))
   }"

section \<open>Verified streaming\<close>

definition GroupSize :: int where "GroupSize = 65536"

definition ReadFull :: "int \<Rightarrow> bytes \<Rightarrow> (bytes \<times> bytes) option" where
  "ReadFull want body =
     (if want \<le> int (length body) then Some (take (nat want) body, drop (nat want) body) else None)"

text \<open>The bytes of one group, fetched on their own and proved.\<close>

definition repairGroup ::
  "client_lib \<Rightarrow> network \<Rightarrow> string \<Rightarrow> ClaimSegment \<Rightarrow> int \<Rightarrow> int \<Rightarrow> bytes \<Rightarrow> (string + bytes) fetch" where
  "repairGroup L net token seg offset want outboard = do {
     r \<leftarrow> SegmentRangeReader L net (cs_Path seg) token offset want;
     return (case r of Inl e \<Rightarrow> Inl e | Inr (body, clean) \<Rightarrow>
       case ReadFull want body of None \<Rightarrow> Inl (code_string ErrNetwork) | Some (buf, _) \<Rightarrow>
         if \<not> cl_verify L buf outboard offset (cs_Digest seg) then Inl (code_string ErrHashMismatch)
         else Inr buf)
   }"

text \<open>
  The loop of \<^verbatim>\<open>fetchVerified\<close>; \<open>body\<close> is the open stream. Every turn either advances by a group
  or uses up one of three attempts, so it ends.
\<close>

definition group_want :: "ClaimSegment \<Rightarrow> int \<Rightarrow> int" where
  "group_want seg offset =
     (if cs_Length seg - offset > GroupSize then GroupSize else cs_Length seg - offset)"

lemma group_want_pos: "offset < cs_Length seg \<Longrightarrow> 0 < group_want seg offset"
  by (simp add: group_want_def GroupSize_def)

function fetch_loop ::
  "client_lib \<Rightarrow> network \<Rightarrow> string \<Rightarrow> ClaimSegment \<Rightarrow> string \<Rightarrow> bytes
   \<Rightarrow> int \<Rightarrow> nat \<Rightarrow> bytes option \<Rightarrow> (string option) fetch" where
  "fetch_loop L net token seg target outboard offset attempts body =
     (if \<not> offset < cs_Length seg then return None
      else if attempts \<ge> 3 then return (Some (code_string ErrHashMismatch))
      else do {
        opened \<leftarrow> (case body of Some b \<Rightarrow> return (Inr b)
          | None \<Rightarrow> do {
              r \<leftarrow> SegmentReader L net (cs_Path seg) token offset;
              return (map_sum id fst r) });
        case opened of
          Inl e \<Rightarrow> if e = code_string ErrNetwork
                   then fetch_loop L net token seg target outboard offset (Suc attempts) None
                   else return (Some e)
        | Inr b \<Rightarrow> (case ReadFull (group_want seg offset) b of
            None \<Rightarrow> fetch_loop L net token seg target outboard offset (Suc attempts) None
          | Some (buf, rest) \<Rightarrow> do {
              proved \<leftarrow> (if cl_verify L buf outboard offset (cs_Digest seg) then return (Inr buf)
                 else repairGroup L net token seg offset (group_want seg offset) outboard);
              case proved of
                Inl e \<Rightarrow> fetch_loop L net token seg target outboard offset (Suc attempts) (Some rest)
              | Inr data \<Rightarrow> do {
                  ok \<leftarrow> file_write target offset data;
                  if \<not> ok then return (Some (code_string ErrDestinationExists))
                  else fetch_loop L net token seg target outboard
                         (offset + group_want seg offset) 0 (Some rest)
                }
            })
      })"
  by pat_completeness auto

termination
proof (relation "measures [\<lambda>(L, net, token, seg, target, outboard, offset, attempts, body). nat (cs_Length seg - offset),
     \<lambda>(L, net, token, seg, target, outboard, offset, attempts, body). 3 - attempts]", goal_cases)
  case 5
  then show ?case using group_want_pos by auto
qed auto

declare fetch_loop.simps [simp del]

text \<open>Where a download resumes: at a group boundary of what is on disk, within the segment.\<close>

definition resume_offset :: "ClaimSegment \<Rightarrow> int option \<Rightarrow> int" where
  "resume_offset seg info =
     (case info of None \<Rightarrow> 0 | Some n \<Rightarrow>
        let offset = n - go_mod n GroupSize in
        if offset > cs_Length seg then cs_Length seg - go_mod (cs_Length seg) GroupSize else offset)"

definition fetchVerified ::
  "client_lib \<Rightarrow> network \<Rightarrow> string \<Rightarrow> ClaimSegment \<Rightarrow> string \<Rightarrow> bytes \<Rightarrow> (string option) fetch" where
  "fetchVerified L net token seg target outboard = do {
     ok \<leftarrow> file_open target;
     if \<not> ok then return (Some (code_string ErrDestinationExists)) else do {
       info \<leftarrow> file_stat target;
       let offset = resume_offset seg info;
       ok \<leftarrow> file_truncate target offset;
       if \<not> ok then return (Some (code_string ErrDestinationExists)) else do {
         e \<leftarrow> fetch_loop L net token seg target outboard offset 0 None;
         case e of Some e \<Rightarrow> return (Some e) | None \<Rightarrow> do {
           ok \<leftarrow> file_sync;
           return (if ok then None else Some (code_string ErrDestinationExists))
         }
       }
     }
   }"

section \<open>Whole-segment hashing\<close>

text \<open>Copying the body of an answer to the file: an error, a broken copy, or done and flushed.\<close>

datatype copy_outcome = CopyFailed string | CopyBroken | CopyDone

definition copy_body :: "string \<Rightarrow> int \<Rightarrow> bytes \<Rightarrow> bool \<Rightarrow> copy_outcome fetch" where
  "copy_body target offset body clean = do {
     ok \<leftarrow> file_open target;
     if \<not> ok then return (CopyFailed (code_string ErrDestinationExists)) else do {
       sought \<leftarrow> file_seek;
       if \<not> sought then return (CopyFailed (code_string ErrDestinationExists)) else do {
         copied \<leftarrow> file_write target offset body;
         synced \<leftarrow> file_sync;
         return (if \<not> (copied \<and> clean) then CopyBroken
                 else if \<not> synced then CopyFailed (code_string ErrDestinationExists) else CopyDone)
       }
     }
   }"

text \<open>\<open>left\<close> attempts of three are left; \<^verbatim>\<open>attempt < 2\<close> holds when another one follows.\<close>

fun fetch_attempts ::
  "client_lib \<Rightarrow> network \<Rightarrow> string \<Rightarrow> ClaimSegment \<Rightarrow> string \<Rightarrow> nat \<Rightarrow> (string option) fetch" where
  "fetch_attempts L net token seg target 0 = return (Some (code_string ErrHashMismatch))"
| "fetch_attempts L net token seg target (Suc left) = do {
     info \<leftarrow> file_stat target;
     offset \<leftarrow> (case info of None \<Rightarrow> return 0 | Some n \<Rightarrow>
       if n > cs_Length seg then do { _ \<leftarrow> file_remove target; return 0 } else return n);
     copied \<leftarrow> (if offset < cs_Length seg then do {
         r \<leftarrow> SegmentReader L net (cs_Path seg) token offset;
         case r of
           Inl e \<Rightarrow> return (if e = code_string ErrNetwork then CopyBroken else CopyFailed e)
         | Inr (body, clean) \<Rightarrow> copy_body target offset body clean
       } else return CopyDone);
     case copied of
       CopyFailed e \<Rightarrow> return (Some e)
     | CopyBroken \<Rightarrow> if left > 0 then fetch_attempts L net token seg target left
                     else return (Some (code_string ErrNetwork))
     | CopyDone \<Rightarrow> do {
         h \<leftarrow> HashFile L target;
         case h of None \<Rightarrow> return (Some (code_string ErrDestinationExists)) | Some (digest, n) \<Rightarrow>
           if n = cs_Length seg \<and> digest = cs_Digest seg then return None
           else do { _ \<leftarrow> file_remove target; fetch_attempts L net token seg target left }
       }
   }"

definition fetchSegment ::
  "client_lib \<Rightarrow> network \<Rightarrow> string \<Rightarrow> ClaimSegment \<Rightarrow> string \<Rightarrow> (string option) fetch" where
  "fetchSegment L net token seg target = fetch_attempts L net token seg target 3"

definition fetchOneSegment ::
  "client_lib \<Rightarrow> network \<Rightarrow> string \<Rightarrow> ClaimSegment \<Rightarrow> string \<Rightarrow> (string option) fetch" where
  "fetchOneSegment L net token seg target =
     (if cs_OutboardPath seg = [] \<or> cs_OutboardLength seg \<le> 0 then fetchSegment L net token seg target
      else do {
        fetched \<leftarrow> OutboardBytes L net (cs_OutboardPath seg) token (cs_OutboardLength seg);
        case fetched of Inl e \<Rightarrow> fetchSegment L net token seg target
          | Inr outboard \<Rightarrow> fetchVerified L net token seg target outboard
      })"

section \<open>What a call can do\<close>

lemma seg_file_set [simp]: "seg_file u (set_file t c s) = (if u = t then Some c else seg_file u s)"
  by (simp add: set_file_def update_conv')

lemma requests_set [simp]: "fe_requests (set_file t c s) = fe_requests s"
  by (simp add: set_file_def)

lemma faults_set [simp]: "fe_faults (set_file t c s) = fe_faults s"
  by (simp add: set_file_def)

text \<open>What matters of a state: the file under the name, the others, and the requests.\<close>

definition holds :: "string \<Rightarrow> fetching \<Rightarrow> bytes option \<Rightarrow> nat \<Rightarrow> fetching \<Rightarrow> bool" where
  "holds t s f n s' \<longleftrightarrow> seg_file t s' = f \<and> (\<forall>u. u \<noteq> t \<longrightarrow> seg_file u s' = seg_file u s) \<and> fe_requests s' = n"

lemma holds_self: "holds t s (seg_file t s) (fe_requests s) s"
  by (simp add: holds_def)

lemma wp_fault: "holds t s0 f n s \<Longrightarrow> (\<And>x s'. holds t s0 f n s' \<Longrightarrow> Q x s') \<Longrightarrow> wp fault Q s"
  by (simp add: fault_def holds_def split: list.splits)

lemma wp_send:
  assumes "holds t s0 f n s" and "\<And>s'. holds t s0 f (Suc n) s' \<Longrightarrow> Q (net n g) s'"
  shows "wp (send net g) Q s"
  using assms by (simp add: send_def holds_def)

lemma wp_client_do:
  assumes "holds t s0 f n s" and "\<And>r s'. holds t s0 f (Suc n) s' \<Longrightarrow> Q r s'"
  shows "wp (client_do L net g expect) Q s"
  unfolding client_do_def wp_bind by (rule wp_send [OF assms(1)]) (simp add: assms(2))

lemma wp_SegmentReader:
  assumes "holds t s0 f n s" and "\<And>r s'. holds t s0 f (Suc n) s' \<Longrightarrow> Q r s'"
  shows "wp (SegmentReader L net p tok off) Q s"
  unfolding SegmentReader_def wp_bind by (rule wp_client_do [OF assms(1)]) (simp add: assms(2))

lemma wp_OutboardBytes:
  assumes "holds t s0 f n s" and "\<And>r s'. holds t s0 f (Suc n) s' \<Longrightarrow> Q r s'"
  shows "wp (OutboardBytes L net p tok len) Q s"
  unfolding OutboardBytes_def wp_bind by (rule wp_client_do [OF assms(1)]) (simp add: assms(2))

text \<open>A repaired group is proved and complete.\<close>

definition proved :: "client_lib \<Rightarrow> ClaimSegment \<Rightarrow> bytes \<Rightarrow> int \<Rightarrow> bytes \<Rightarrow> bool" where
  "proved L seg outboard offset d \<longleftrightarrow>
     cl_verify L d outboard offset (cs_Digest seg) \<and> int (length d) = group_want seg offset"

lemma ReadFull_Some: "ReadFull want b = Some (d, rest) \<Longrightarrow> 0 \<le> want \<Longrightarrow> int (length d) = want \<and> b = d @ rest"
  by (auto simp: ReadFull_def split: if_splits)

lemma wp_repairGroup:
  assumes "holds t s0 f n s" and "offset < cs_Length seg"
    and "\<And>e s'. holds t s0 f (Suc n) s' \<Longrightarrow> Q (Inl e) s'"
    and "\<And>d s'. holds t s0 f (Suc n) s' \<Longrightarrow> proved L seg outboard offset d \<Longrightarrow> Q (Inr d) s'"
  shows "wp (repairGroup L net tok seg offset (group_want seg offset) outboard) Q s"
  unfolding repairGroup_def SegmentRangeReader_def wp_bind
  by (rule wp_client_do [OF assms(1)])
    (use assms(3,4) group_want_pos [OF assms(2)]
      in \<open>auto simp: proved_def dest!: ReadFull_Some split: sum.splits option.splits prod.splits\<close>)

lemma wp_file_open:
  assumes "holds t s0 f n s" and "\<And>s'. holds t s0 f n s' \<Longrightarrow> Q False s'"
    and "\<And>s'. holds t s0 (Some (case f of None \<Rightarrow> [] | Some c \<Rightarrow> c)) n s' \<Longrightarrow> Q True s'"
  shows "wp (file_open t) Q s"
  unfolding file_open_def wp_bind
  by (rule wp_fault [OF assms(1)]) (use assms(2,3) in \<open>auto simp: holds_def split: option.splits\<close>)

lemma wp_file_stat:
  assumes "holds t s0 f n s" and "\<And>s'. holds t s0 f n s' \<Longrightarrow> Q None s'"
    and "\<And>c s'. holds t s0 f n s' \<Longrightarrow> f = Some c \<Longrightarrow> Q (Some (int (length c))) s'"
  shows "wp (file_stat t) Q s"
  unfolding file_stat_def wp_bind
  by (rule wp_fault [OF assms(1)], rename_tac x s', case_tac f) (use assms(2,3) in \<open>auto simp: holds_def\<close>)

lemma wp_file_truncate:
  assumes "holds t s0 (Some c) n s" and "k \<le> int (length c)"
    and "\<And>s'. holds t s0 (Some c) n s' \<Longrightarrow> Q False s'"
    and "\<And>s'. holds t s0 (Some (take (nat k) c)) n s' \<Longrightarrow> 0 \<le> k \<Longrightarrow> Q True s'"
  shows "wp (file_truncate t k) Q s"
  unfolding file_truncate_def wp_bind
  by (rule wp_fault [OF assms(1)]) (use assms(2,3,4) in \<open>auto simp: holds_def\<close>)

lemma holds_set: "holds t s0 f n s \<Longrightarrow> holds t s0 (Some c) n (set_file t c s)"
  by (simp add: holds_def)

lemma wp_file_write:
  assumes "holds t s0 (Some c) n s"
    and "\<And>d' s'. holds t s0 (Some d') n s' \<Longrightarrow> d' = c \<or> (\<exists>k. d' = overwrite c (nat off) (take k d)) \<Longrightarrow> Q False s'"
    and "\<And>s'. holds t s0 (Some (overwrite c (nat off) d)) n s' \<Longrightarrow> Q True s'"
  shows "wp (file_write t off d) Q s"
  unfolding file_write_def wp_bind
proof (rule wp_fault [OF assms(1)])
  fix x s' assume h: "holds t s0 (Some c) n s'"
  then have f: "seg_file t s' = Some c" by (simp add: holds_def)
  note w = holds_set [OF h]
  show "wp (State (\<lambda>s. case seg_file t s of None \<Rightarrow> (False, s) | Some c \<Rightarrow>
       if off < 0 then (False, s)
       else case x of
           None \<Rightarrow> (True, set_file t (overwrite c (nat off) d) s)
         | Some k \<Rightarrow> (False, set_file t (overwrite c (nat off) (take k d)) s))) Q s'"
    using assms(2) [OF h] assms(3) [OF w] assms(2) [OF w] by (cases x) (auto simp: f)
qed

lemma wp_file_sync:
  assumes "holds t s0 f n s" and "\<And>b s'. holds t s0 f n s' \<Longrightarrow> Q b s'"
  shows "wp file_sync Q s"
  unfolding file_sync_def wp_bind by (rule wp_fault [OF assms(1)]) (simp add: assms(2))

lemma wp_file_seek:
  assumes "holds t s0 f n s" and "\<And>b s'. holds t s0 f n s' \<Longrightarrow> Q b s'"
  shows "wp file_seek Q s"
  unfolding file_seek_def wp_bind by (rule wp_fault [OF assms(1)]) (simp add: assms(2))

lemma wp_file_remove:
  assumes "holds t s0 f n s" and "\<And>s' f'. holds t s0 f' n s' \<Longrightarrow> f' = f \<or> f' = None \<Longrightarrow> Q () s'"
  shows "wp (file_remove t) Q s"
  unfolding file_remove_def wp_bind
  by (rule wp_fault [OF assms(1)]) (use assms(2) in \<open>auto simp: holds_def delete_conv'\<close>)

lemma wp_HashFile:
  assumes "holds t s0 f n s" and "\<And>s'. holds t s0 f n s' \<Longrightarrow> Q None s'"
    and "\<And>c s'. holds t s0 f n s' \<Longrightarrow> f = Some c \<Longrightarrow> Q (Some (cl_blake3 L c, int (length c))) s'"
  shows "wp (HashFile L t) Q s"
  unfolding HashFile_def wp_bind
  by (rule wp_fault [OF assms(1)], rename_tac x s', case_tac f) (use assms(2,3) in \<open>auto simp: holds_def\<close>)

section \<open>Only proved bytes reach the disk\<close>

text \<open>
  The check of a group is sound for these bytes: whatever tree comes with it, only the
  authentic bytes of the group pass it.
\<close>

definition authentic :: "client_lib \<Rightarrow> ClaimSegment \<Rightarrow> bytes \<Rightarrow> bool" where
  "authentic L seg content \<longleftrightarrow> cs_Length seg = int (length content)
     \<and> (\<forall>d outboard offset. proved L seg outboard offset d \<and> GroupSize dvd offset
          \<and> 0 \<le> offset \<and> offset < cs_Length seg
        \<longrightarrow> d = take (length d) (drop (nat offset) content))"

lemma overwrite_prefix:
  assumes "m \<le> length x" and "d = take (length d) (drop m x)"
  shows "overwrite (take m x) m d = take (m + length d) x"
proof -
  have "take m x @ d = take (m + length d) x" using assms(2) by (simp add: take_add)
  then show ?thesis using assms(1) by (simp add: overwrite_def)
qed

text \<open>A turn of the loop, by what becomes of it: the read of a group, then the whole turn.\<close>

lemma wp_read_group:
  assumes "holds t s0 f n s" and "offset < cs_Length seg"
    and again: "\<And>b k u. holds t s0 f k u \<Longrightarrow> k \<le> Suc n \<Longrightarrow> wp (again b) Q u"
    and store: "\<And>d b k u. holds t s0 f k u \<Longrightarrow> k \<le> Suc n \<Longrightarrow> proved L seg outboard offset d \<Longrightarrow> wp (store d b) Q u"
  shows "wp (case ReadFull (group_want seg offset) b of
            None \<Rightarrow> again None
          | Some (buf, rest) \<Rightarrow> do {
              proved \<leftarrow> (if cl_verify L buf outboard offset (cs_Digest seg) then return (Inr buf)
                 else repairGroup L net tok seg offset (group_want seg offset) outboard);
              case proved of Inl e \<Rightarrow> again (Some rest) | Inr data \<Rightarrow> store data rest
            }) Q s"
proof (cases "ReadFull (group_want seg offset) b")
  case None
  then show ?thesis using again [OF assms(1)] by simp
next
  case (Some p)
  obtain buf rest where p: "p = (buf, rest)" by (cases p)
  have len: "int (length buf) = group_want seg offset"
    using ReadFull_Some [OF Some [unfolded p]] group_want_pos [OF assms(2)] by simp
  show ?thesis
  proof (cases "cl_verify L buf outboard offset (cs_Digest seg)")
    case True
    then show ?thesis unfolding Some p using store [OF assms(1), of buf] len by (simp add: proved_def)
  next
    case False
    have "wp (repairGroup L net tok seg offset (group_want seg offset) outboard)
        (\<lambda>v. wp (case v of Inl e \<Rightarrow> again (Some rest) | Inr data \<Rightarrow> store data rest) Q) s"
      by (rule wp_repairGroup [OF assms(1,2)]) (simp_all add: again store)
    then show ?thesis unfolding Some p using False by simp
  qed
qed

lemma wp_fetch_loop:
  assumes "holds t s0 f n s" and "offset < cs_Length seg" and "attempts < 3"
    and fail: "\<And>e k s'. holds t s0 f k s' \<Longrightarrow> k \<le> n + 2 \<Longrightarrow> Q (Some e) s'"
    and retry: "\<And>b k s'. holds t s0 f k s' \<Longrightarrow> k \<le> n + 2 \<Longrightarrow>
        wp (fetch_loop L net tok seg t outboard offset (Suc attempts) b) Q s'"
    and move: "\<And>d b k s'. holds t s0 f k s' \<Longrightarrow> k \<le> n + 2 \<Longrightarrow> proved L seg outboard offset d \<Longrightarrow>
        wp (do { ok \<leftarrow> file_write t offset d;
                 if \<not> ok then return (Some (code_string ErrDestinationExists))
                 else fetch_loop L net tok seg t outboard (offset + group_want seg offset) 0 (Some b) }) Q s'"
  shows "wp (fetch_loop L net tok seg t outboard offset attempts body) Q s"
proof -
  note group = wp_read_group [OF _ assms(2), where L = L and net = net and tok = tok and outboard = outboard and Q = Q
      and again = "fetch_loop L net tok seg t outboard offset (Suc attempts)"
      and store = "\<lambda>d b. do { ok \<leftarrow> file_write t offset d;
                 if \<not> ok then return (Some (code_string ErrDestinationExists))
                 else fetch_loop L net tok seg t outboard (offset + group_want seg offset) 0 (Some b) }"]
  have step: "wp (case opened of
          Inl e \<Rightarrow> if e = code_string ErrNetwork
                   then fetch_loop L net tok seg t outboard offset (Suc attempts) None
                   else return (Some e)
        | Inr b \<Rightarrow> (case ReadFull (group_want seg offset) b of
            None \<Rightarrow> fetch_loop L net tok seg t outboard offset (Suc attempts) None
          | Some (buf, rest) \<Rightarrow> do {
              proved \<leftarrow> (if cl_verify L buf outboard offset (cs_Digest seg) then return (Inr buf)
                 else repairGroup L net tok seg offset (group_want seg offset) outboard);
              case proved of
                Inl e \<Rightarrow> fetch_loop L net tok seg t outboard offset (Suc attempts) (Some rest)
              | Inr data \<Rightarrow> do {
                  ok \<leftarrow> file_write t offset data;
                  if \<not> ok then return (Some (code_string ErrDestinationExists))
                  else fetch_loop L net tok seg t outboard (offset + group_want seg offset) 0 (Some rest)
                }
            })) Q u" if h: "holds t s0 f k u" "k \<le> Suc n" for opened k u
  proof (cases opened)
    case (Inl e)
    then show ?thesis using fail [OF h(1)] retry [OF h(1)] h(2) by (simp del: code_string.simps)
  next
    case (Inr b)
    show ?thesis unfolding Inr sum.case
    proof (rule group [OF h(1)], goal_cases)
      case (1 b j u)
      then show ?case by (intro retry) (assumption, use h(2) in simp)
    next
      case (2 d b j u)
      then show ?case by (intro move) (assumption, use h(2) in simp, assumption)
    qed
  qed
  have go: "offset < cs_Length seg \<longleftrightarrow> True" "3 \<le> attempts \<longleftrightarrow> False" using assms(2,3) by simp_all
  show ?thesis
  proof (cases body)
    case (Some b)
    show ?thesis
      unfolding Some by (subst fetch_loop.simps, simp only: go not_True_eq_False if_False wp_bind option.case wp_return)
        (use step [OF assms(1) le_SucI [OF le_refl], of "Inr b"] in \<open>simp only: sum.case wp_bind\<close>)
  next
    case None
    show ?thesis
      unfolding None by (subst fetch_loop.simps, simp only: go not_True_eq_False if_False wp_bind option.case wp_return)
        (rule wp_SegmentReader [OF assms(1)], subst wp_return, erule step [OF _ le_refl])
  qed
qed

text \<open>How many requests the loop has left: two for every attempt at every remaining group.\<close>

definition groups :: "int \<Rightarrow> nat" where "groups n = nat ((n + (GroupSize - 1)) div GroupSize)"

definition budget :: "ClaimSegment \<Rightarrow> int \<Rightarrow> nat \<Rightarrow> nat" where
  "budget seg offset attempts =
     (if offset < cs_Length seg then 2 * (3 - attempts) + 6 * (groups (cs_Length seg - offset) - 1) else 0)"

lemma groups_next:
  assumes "offset < cs_Length seg"
  shows "groups (cs_Length seg - offset) = Suc (groups (cs_Length seg - (offset + group_want seg offset)))"
  using assms unfolding groups_def group_want_def GroupSize_def by (auto simp: nat_eq_iff2)

lemma budget_retry: "offset < cs_Length seg \<Longrightarrow> attempts < 3 \<Longrightarrow> budget seg offset (Suc attempts) + 2 = budget seg offset attempts"
  by (auto simp: budget_def)

lemma budget_move:
  "offset < cs_Length seg \<Longrightarrow> attempts < 3 \<Longrightarrow>
   budget seg (offset + group_want seg offset) 0 + 2 \<le> budget seg offset attempts"
  using groups_next [of offset seg] groups_next [of "offset + group_want seg offset" seg]
  by (auto simp: budget_def)

lemma budget_full: "budget seg offset 0 \<le> 6 * groups (cs_Length seg - offset)"
  using groups_next [of offset seg] by (auto simp: budget_def)

text \<open>
  The loop keeps what every proved group keeps (\<open>P\<close> at an offset, \<open>W\<close> also after a torn
  write), and stays within its budget.
\<close>

lemma fetch_loop_keeps:
  assumes "holds t s0 (Some c) n s" and "P offset c"
    and weak: "\<And>offset c. P offset c \<Longrightarrow> W c"
    and group: "\<And>offset c d. P offset c \<Longrightarrow> offset < cs_Length seg \<Longrightarrow> proved L seg outboard offset d \<Longrightarrow>
          P (offset + group_want seg offset) (overwrite c (nat offset) d)"
    and torn: "\<And>offset c d k. P offset c \<Longrightarrow> offset < cs_Length seg \<Longrightarrow> proved L seg outboard offset d \<Longrightarrow>
          W (overwrite c (nat offset) (take k d))"
  shows "wp (fetch_loop L net tok seg t outboard offset attempts body) (\<lambda>r s'. \<exists>c k. holds t s0 (Some c) k s'
           \<and> W c \<and> k \<le> n + budget seg offset attempts \<and> (r = None \<longrightarrow> (\<exists>e. P e c \<and> cs_Length seg \<le> e))) s"
  using assms(1,2)
proof (induction "budget seg offset attempts" arbitrary: c n s offset attempts body rule: less_induct)
  case less
  show ?case
  proof (cases "offset < cs_Length seg \<and> attempts < 3")
    case False
    then show ?thesis
      using less.prems weak [OF less.prems(2)]
      by (subst fetch_loop.simps) (auto simp: not_less intro!: exI [of _ c] exI [of _ n])
  next
    case True
    then have o: "offset < cs_Length seg" and a: "attempts < 3" by simp_all
    note again = budget_retry [OF o a] and on = budget_move [OF o a]
    show ?thesis
    proof (rule wp_fetch_loop [OF less.prems(1) o a], goal_cases)
      case (1 e k s')
      then show ?case using weak [OF less.prems(2)] again by (intro exI [of _ c] exI [of _ k]) simp
    next
      case (2 b k s')
      show ?case
        by (rule wp_mono [OF less.hyps [OF _ 2(1) less.prems(2)]]) (use again 2(2) in force)+
    next
      case (3 d b k s')
      note moved = group [OF less.prems(2) o 3(3)]
      show ?case
      proof (subst wp_bind, rule wp_file_write [OF 3(1)], goal_cases)
        case (1 d' u)
        moreover have "W d'" using 1(2) weak [OF less.prems(2)] torn [OF less.prems(2) o 3(3)] by auto
        ultimately show ?case using 3(2) on by (auto intro!: exI [of _ d'] exI [of _ k])
      next
        case (2 u)
        have "wp (fetch_loop L net tok seg t outboard (offset + group_want seg offset) 0 (Some b)) (\<lambda>r s'. \<exists>c k'. holds t s0 (Some c) k' s'
           \<and> W c \<and> k' \<le> k + budget seg (offset + group_want seg offset) 0 \<and> (r = None \<longrightarrow> (\<exists>e. P e c \<and> cs_Length seg \<le> e))) u"
          using on by (intro less.hyps [OF _ 2 moved]) simp
        then show ?case 
          by (simp, rule wp_mono) (use on 3(2) in force)
      qed
    qed
  qed
qed

section \<open>Resuming\<close>

lemma go_mod_Group: "0 \<le> n \<Longrightarrow> go_mod n GroupSize = n mod GroupSize"
  by (simp add: GroupSize_def go_mod_nonneg)

lemma go_mod_neg: "n < 0 \<Longrightarrow> n - go_mod n GroupSize \<le> 0"
  by (simp add: go_mod_def go_div_def GroupSize_def)

lemma resume_offset_le: "resume_offset seg (Some (int n)) \<le> int n"
proof (cases "0 \<le> cs_Length seg")
  case True
  then show ?thesis by (auto simp: resume_offset_def Let_def go_mod_Group GroupSize_def)
next
  case False
  then show ?thesis using go_mod_neg [of "cs_Length seg"]
    by (auto simp: resume_offset_def Let_def go_mod_Group GroupSize_def)
qed

lemma resume_offset_within:
  assumes "0 \<le> cs_Length seg" and "info = None \<or> info = Some (int n)"
  shows "0 \<le> resume_offset seg info \<and> resume_offset seg info \<le> cs_Length seg
    \<and> GroupSize dvd resume_offset seg info"
proof -
  have "0 < GroupSize" by (simp add: GroupSize_def)
  moreover have "m mod GroupSize \<le> m" if "0 \<le> m" for m using that by (simp add: zmod_le_nonneg_dividend)
  ultimately show ?thesis using assms
    by (auto simp: resume_offset_def Let_def go_mod_Group dvd_minus_mod)
qed

text \<open>
  A file one can resume: absent, or authentic up to the point of resumption. Every prefix of
  the content is such a file, so an interrupted download is resumable by construction.
\<close>

definition resumable :: "ClaimSegment \<Rightarrow> bytes \<Rightarrow> bytes option \<Rightarrow> bool" where
  "resumable seg content f = (case f of None \<Rightarrow> True | Some c \<Rightarrow>
     take (nat (resume_offset seg (Some (int (length c))))) c
     = take (nat (resume_offset seg (Some (int (length c))))) content)"

lemma resumable_prefix: "resumable seg content (Some (take m content))"
proof -
  let ?c = "take m content"
  have "nat (resume_offset seg (Some (int (length ?c)))) \<le> length ?c"
    using resume_offset_le [of seg "length ?c"] by linarith
  then show ?thesis by (simp add: resumable_def min_absorb1)
qed

lemma wp_return_fun: "wp (return x) Q = Q x"
  by (rule ext) simp

text \<open>The loop is entered at a group boundary with the bytes below it.\<close>

lemma wp_fetchVerified:
  assumes "holds t s0 f n s"
    and fail: "\<And>f' s'. holds t s0 f' n s' \<Longrightarrow> f' = f \<or> f' = Some [] \<Longrightarrow> Q (Some (code_string ErrDestinationExists)) s'"
    and loop: "\<And>k s' info. holds t s0 (Some (take (nat k) (case f of None \<Rightarrow> [] | Some c \<Rightarrow> c))) n s' \<Longrightarrow> 0 \<le> k \<Longrightarrow>
        k = resume_offset seg info \<Longrightarrow>
        info = None \<or> info = Some (int (length (case f of None \<Rightarrow> [] | Some c \<Rightarrow> c))) \<Longrightarrow>
        wp (fetch_loop L net tok seg t outboard k 0 None) (\<lambda>e s''. case e of Some e \<Rightarrow> Q (Some e) s''
          | None \<Rightarrow> wp file_sync (\<lambda>ok. Q (if ok then None else Some (code_string ErrDestinationExists))) s'') s'"
  shows "wp (fetchVerified L net tok seg t outboard) Q s"
proof -
  let ?c = "case f of None \<Rightarrow> [] | Some c \<Rightarrow> c"
  have trunc: "wp (do {
       ok \<leftarrow> file_truncate t (resume_offset seg info);
       if \<not> ok then return (Some (code_string ErrDestinationExists)) else do {
         e \<leftarrow> fetch_loop L net tok seg t outboard (resume_offset seg info) 0 None;
         case e of Some e \<Rightarrow> return (Some e) | None \<Rightarrow> do {
           ok \<leftarrow> file_sync;
           return (if ok then None else Some (code_string ErrDestinationExists))
         }
       } }) Q u" if h: "holds t s0 (Some ?c) n u" "info = None \<or> info = Some (int (length ?c))" for info u
  proof (subst wp_bind, rule wp_file_truncate [OF h(1)], goal_cases)
    case 1
    show ?case using h(2) resume_offset_le [of seg "length ?c"] by (auto simp: resume_offset_def)
  next
    case (2 u)
    then show ?case using fail [OF 2] by (cases f) auto
  next
    case (3 v)
    show ?case using loop [OF 3 refl h(2)]
      by (simp, elim wp_mono) (simp add: wp_return_fun split: option.splits)
  qed
  show ?thesis unfolding fetchVerified_def wp_bind
  proof (rule wp_file_open [OF assms(1)], goal_cases)
    case (1 s')
    then show ?case using fail [OF 1] by simp
  next
    case (2 s')
    show ?case
      by (simp only: if_False not_True_eq_False wp_bind, rule wp_file_stat [OF 2])
        (use trunc in \<open>simp_all add: Let_def del: code_string.simps\<close>)
  qed
qed

lemma wp_fetch_loop_authentic:
  assumes a: "authentic L seg content" and h: "holds t s0 (Some (take (nat k) content)) n s"
    and k: "0 \<le> k" "k \<le> cs_Length seg" "GroupSize dvd k"
  shows "wp (fetch_loop L net tok seg t outboard k 0 None) (\<lambda>r s'. \<exists>m j. holds t s0 (Some (take m content)) j s'
           \<and> (r = None \<longrightarrow> take m content = content)) s"
proof -
  define P where "P off c \<longleftrightarrow> 0 \<le> off \<and> off \<le> cs_Length seg \<and> (off < cs_Length seg \<longrightarrow> GroupSize dvd off)
      \<and> c = take (nat off) content" for off c
  have len: "cs_Length seg = int (length content)" using a by (simp add: authentic_def)
  have sound: "d = take (length d) (drop (nat off) content) \<and> nat off \<le> length content"
    if "P off c" "off < cs_Length seg" "proved L seg outboard off d" for off c d
    using a that len unfolding authentic_def P_def by auto
  have start: "P k (take (nat k) content)" using k by (simp add: P_def)
  have weak: "\<exists>m. c = take m content" if "P off c" for off c using that by (auto simp: P_def)
  have group: "P (off + group_want seg off) (overwrite c (nat off) d)"
    if p: "P off c" "off < cs_Length seg" "proved L seg outboard off d" for off c d
  proof -
    have c: "c = take (nat off) content" "0 \<le> off" "GroupSize dvd off" using p by (simp_all add: P_def)
    have d: "int (length d) = group_want seg off" using p(3) by (simp add: proved_def)
    have "nat off + length d = nat (off + group_want seg off)" using d c(2) by linarith
    moreover have "overwrite c (nat off) d = take (nat off + length d) content"
      unfolding c(1) using sound [OF p] by (intro overwrite_prefix) auto
    moreover have "off + group_want seg off < cs_Length seg \<longrightarrow> GroupSize dvd (off + group_want seg off)"
      using c(3) by (simp add: group_want_def)
    moreover have "off + group_want seg off \<le> cs_Length seg" by (simp add: group_want_def)
    ultimately show ?thesis using c(2) group_want_pos [OF p(2)] by (simp add: P_def)
  qed
  have torn: "\<exists>m. overwrite c (nat off) (take j d) = take m content"
    if p: "P off c" "off < cs_Length seg" "proved L seg outboard off d" for off c d j
  proof -
    have "take j d = take (length (take j d)) (drop (nat off) content)"
      by (metis sound [OF p] length_take min.commute take_take)
    moreover have "c = take (nat off) content" using p(1) by (simp add: P_def)
    ultimately show ?thesis using sound [OF p] overwrite_prefix by blast
  qed
  show ?thesis
    by (rule wp_mono, rule fetch_loop_keeps [where P = P and W = "\<lambda>c. \<exists>m. c = take m content", OF h start])
      (use weak group torn in \<open>auto simp: P_def len\<close>)
qed

lemma wp_fetchVerified_authentic:
  assumes a: "authentic L seg content" and r: "resumable seg content f" and "holds t s0 f n s"
  shows "wp (fetchVerified L net tok seg t outboard) (\<lambda>r s'. \<exists>f' k. holds t s0 f' k s'
     \<and> (f' = f \<or> (\<exists>m. f' = Some (take m content))) \<and> (r = None \<longrightarrow> f' = Some content)) s"
proof (rule wp_fetchVerified [OF assms(3)], goal_cases)
  case (1 f' s')
  then show ?case by (cases "f' = f") (auto intro: exI [of _ 0])
next
  case (2 k s' info)
  have len: "0 \<le> cs_Length seg" using a by (simp add: authentic_def)
  have "take (nat k) (case f of None \<Rightarrow> [] | Some c \<Rightarrow> c) = take (nat k) content"
  proof (cases f)
    case None
    then have "k = 0" using 2(3,4) len
      by (auto simp: resume_offset_def GroupSize_def go_mod_def go_div_def Let_def split: if_splits)
    then show ?thesis by simp
  next
    case (Some c)
    then show ?thesis using 2(3,4) r by (auto simp: resumable_def resume_offset_def)
  qed
  note h = 2(1) [unfolded this]
  have k: "0 \<le> k \<and> k \<le> cs_Length seg \<and> GroupSize dvd k"
    using resume_offset_within [OF len, of info] 2(3,4) by blast
  show ?case
    by (rule wp_mono [OF wp_fetch_loop_authentic [OF a h]], use k in simp, use k in simp, use k in simp)
      (auto split: option.splits intro!: wp_file_sync)
qed

text \<open>
  C14: Whatever the server sends and whenever the disk fails or the process dies, the segment
  file is left as it was or holds a prefix of the authentic bytes, so that the next run resumes
  from it; a run that reports success has left exactly the content; and no other segment is touched.
\<close>

theorem fetchVerified_authentic:
  assumes "authentic L seg content" and "resumable seg content (seg_file target s)"
    and "run_state (fetchVerified L net token seg target outboard) s = (r, s')"
  shows "(seg_file target s' = seg_file target s \<or> (\<exists>m. seg_file target s' = Some (take m content)))
    \<and> resumable seg content (seg_file target s')
    \<and> (r = None \<longrightarrow> seg_file target s' = Some content)
    \<and> (\<forall>u. u \<noteq> target \<longrightarrow> seg_file u s' = seg_file u s)"
  using wp_run [OF wp_fetchVerified_authentic [OF assms(1,2) holds_self] assms(3)] unfolding holds_def
  by (elim exE conjE disjE) (use assms(2) in \<open>auto simp: resumable_prefix\<close>)

section \<open>Whole segments, and how much a segment can cost\<close>

lemma wp_copy_body:
  assumes "holds t s0 f n s" and "\<And>r f' s'. holds t s0 f' n s' \<Longrightarrow> Q r s'"
  shows "wp (copy_body t off body clean) Q s"
  unfolding copy_body_def wp_bind
proof (rule wp_file_open [OF assms(1)], goal_cases)
  case (1 s')
  then show ?case by (simp add: assms(2))
next
  case (2 s')
  have put: "wp (do {
         copied \<leftarrow> file_write t off body;
         synced \<leftarrow> file_sync;
         return (if \<not> (copied \<and> clean) then CopyBroken
                 else if \<not> synced then CopyFailed (code_string ErrDestinationExists) else CopyDone)
       }) Q u" if h: "holds t s0 (Some c) n u" for c u
    unfolding wp_bind
    by (rule wp_file_write [OF h]; erule wp_file_sync; simp add: assms(2))
  show ?case
    by (simp only: if_False not_True_eq_False wp_bind, rule wp_file_seek [OF 2])
      (use put assms(2) in \<open>simp del: code_string.simps wp_bind\<close>)
qed

text \<open>
  Attempts that end well leave a file of the declared length and digest; each costs at most
  one request.
\<close>

lemma wp_fetch_attempts:
  assumes "holds t s0 f n s"
  shows "wp (fetch_attempts L net tok seg t left) (\<lambda>r s'. \<exists>f k. holds t s0 f k s' \<and> k \<le> n + left
     \<and> (r = None \<longrightarrow> (\<exists>c. f = Some c \<and> int (length c) = cs_Length seg \<and> cl_blake3 L c = cs_Digest seg))) s"
  using assms
proof (induction left arbitrary: f n s)
  case 0
  then show ?case by auto
next
  case (Suc left)
  let ?Q = "\<lambda>r s'. \<exists>f k. holds t s0 f k s' \<and> k \<le> n + Suc left
     \<and> (r = None \<longrightarrow> (\<exists>c. f = Some c \<and> int (length c) = cs_Length seg \<and> cl_blake3 L c = cs_Digest seg))"
  have again: "wp (fetch_attempts L net tok seg t left) ?Q u" if "holds t s0 f' k u" "k \<le> Suc n" for f' k u
    by (rule wp_mono [OF Suc.IH [OF that(1)]]) (use that(2) in force)
  have finish: "wp (case copied of
       CopyFailed e \<Rightarrow> return (Some e)
     | CopyBroken \<Rightarrow> if left > 0 then fetch_attempts L net tok seg t left
                     else return (Some (code_string ErrNetwork))
     | CopyDone \<Rightarrow> do {
         h \<leftarrow> HashFile L t;
         case h of None \<Rightarrow> return (Some (code_string ErrDestinationExists)) | Some (digest, n) \<Rightarrow>
           if n = cs_Length seg \<and> digest = cs_Digest seg then return None
           else do { _ \<leftarrow> file_remove t; fetch_attempts L net tok seg t left }
       }) ?Q u" if h: "holds t s0 f' k u" "k \<le> Suc n" for copied f' k u
  proof (cases copied)
    case CopyDone
    show ?thesis unfolding CopyDone copy_outcome.case wp_bind
    proof (rule wp_HashFile [OF h(1)], goal_cases)
      case (1 v)
      then show ?case using h(2) by (auto intro!: exI [of _ f'] exI [of _ k])
    next
      case (2 c v)
      show ?case
      proof (cases "int (length c) = cs_Length seg \<and> cl_blake3 L c = cs_Digest seg")
        case True
        then show ?thesis using 2 h(2) by (auto intro!: exI [of _ "Some c"] exI [of _ k])
      next
        case False
        then show ?thesis using again [OF _ h(2)] by (auto intro!: wp_file_remove [OF 2(1)])
      qed
    qed
  qed (use h again [OF h] in \<open>auto intro!: exI [of _ f'] exI [of _ k]\<close>)
  have send: "wp (if off < cs_Length seg then do {
         r \<leftarrow> SegmentReader L net (cs_Path seg) tok off;
         case r of
           Inl e \<Rightarrow> return (if e = code_string ErrNetwork then CopyBroken else CopyFailed e)
         | Inr (body, clean) \<Rightarrow> copy_body t off body clean
       } else return CopyDone) (\<lambda>r u. \<exists>f' k. holds t s0 f' k u \<and> k \<le> Suc n) u" if h: "holds t s0 f' n u" for off f' u
    using h by (auto simp del: code_string.simps simp: holds_def intro!: wp_SegmentReader [OF h] wp_copy_body split: sum.split)
  have one: "wp (do {
     copied \<leftarrow> (if off < cs_Length seg then do {
         r \<leftarrow> SegmentReader L net (cs_Path seg) tok off;
         case r of
           Inl e \<Rightarrow> return (if e = code_string ErrNetwork then CopyBroken else CopyFailed e)
         | Inr (body, clean) \<Rightarrow> copy_body t off body clean
       } else return CopyDone);
     case copied of
       CopyFailed e \<Rightarrow> return (Some e)
     | CopyBroken \<Rightarrow> if left > 0 then fetch_attempts L net tok seg t left
                     else return (Some (code_string ErrNetwork))
     | CopyDone \<Rightarrow> do {
         h \<leftarrow> HashFile L t;
         case h of None \<Rightarrow> return (Some (code_string ErrDestinationExists)) | Some (digest, n) \<Rightarrow>
           if n = cs_Length seg \<and> digest = cs_Digest seg then return None
           else do { _ \<leftarrow> file_remove t; fetch_attempts L net tok seg t left }
       } }) ?Q u" if h: "holds t s0 f' n u" for off f' u
    unfolding wp_bind [of "If _ _ _"] by (rule wp_mono [OF send [OF h]], elim exE conjE, rule finish)
  show ?case unfolding fetch_attempts.simps wp_bind [of "file_stat _"]
  proof (rule wp_file_stat [OF Suc.prems], goal_cases)
    case (1 u)
    show ?case by (simp only: option.case wp_bind [of "return _"] wp_return, rule one [OF 1])
  next
    case (2 c u)
    show ?case
      by (simp only: option.case, cases "int (length c) > cs_Length seg")
        (simp_all only: if_True if_False wp_bind [of "return _"] wp_return one [OF 2(1)] wp_bind [of "State_Monad.bind _ _"]
          wp_bind [of "file_remove _"] wp_return_fun, rule wp_file_remove [OF 2(1)], rule one)
  qed
qed

lemma wp_fetchOneSegment:
  assumes "holds t s0 f n s"
    and whole: "\<And>k u. holds t s0 f k u \<Longrightarrow> k \<le> Suc n \<Longrightarrow> wp (fetchSegment L net tok seg t) Q u"
    and stream: "\<And>k u ob. holds t s0 f k u \<Longrightarrow> k \<le> Suc n \<Longrightarrow> wp (fetchVerified L net tok seg t ob) Q u"
  shows "wp (fetchOneSegment L net tok seg t) Q s"
proof (cases "cs_OutboardPath seg = [] \<or> cs_OutboardLength seg \<le> 0")
  case True
  then show ?thesis unfolding fetchOneSegment_def using whole [OF assms(1)] by simp
next
  case False
  then show ?thesis unfolding fetchOneSegment_def
    by (simp only: if_False wp_bind, intro wp_OutboardBytes [OF assms(1)])
      (auto intro: whole stream split: sum.splits)
qed

text \<open>
  A segment fetched with success, by either way, is in place with the declared length and digest,
  whatever the server sends; the segments beside it are as before.
\<close>

theorem fetchOneSegment_verified:
  assumes "authentic L seg content" and "cl_blake3 L content = cs_Digest seg"
    and "resumable seg content (seg_file target s)"
    and "run_state (fetchOneSegment L net token seg target) s = (None, s')"
  shows "(\<exists>c. seg_file target s' = Some c \<and> int (length c) = cs_Length seg \<and> cl_blake3 L c = cs_Digest seg)
    \<and> (\<forall>u. u \<noteq> target \<longrightarrow> seg_file u s' = seg_file u s)"
proof -
  let ?Q = "\<lambda>r s'. \<exists>f k. holds target s f k s' \<and> (r = None \<longrightarrow>
     (\<exists>c. f = Some c \<and> int (length c) = cs_Length seg \<and> cl_blake3 L c = cs_Digest seg))"
  have whole: "wp (fetchSegment L net token seg target) ?Q u" if "holds target s f n u" for f n u
    unfolding fetchSegment_def by (rule wp_mono [OF wp_fetch_attempts [OF that]]) blast
  have len: "int (length content) = cs_Length seg" using assms(1) by (simp add: authentic_def)
  have stream: "wp (fetchVerified L net token seg target ob) ?Q u" if "holds target s (seg_file target s) n u" for n u ob
    by (rule wp_mono [OF wp_fetchVerified_authentic [OF assms(1,3) that]]) (use len assms(2) in blast)
  have "wp (fetchOneSegment L net token seg target) ?Q s"
    by (rule wp_fetchOneSegment [OF holds_self]; erule whole stream)
  from wp_run [OF this assms(4)] show ?thesis by (auto simp: holds_def)
qed

lemma groups_mono: "m \<le> n \<Longrightarrow> groups m \<le> groups n"
  by (auto simp: groups_def GroupSize_def intro!: nat_mono zdiv_mono1)

lemma wp_fetchVerified_bounded:
  assumes "holds t s0 f n s"
  shows "wp (fetchVerified L net tok seg t outboard) (\<lambda>r s'. \<exists>f' k. holds t s0 f' k s'
     \<and> k \<le> n + 6 * groups (cs_Length seg)) s"
proof (rule wp_fetchVerified [OF assms], goal_cases)
  case (1 f' s')
  then show ?case by (intro exI [of _ f'] exI [of _ n]) simp
next
  case (2 k s' info)
  have "budget seg k 0 \<le> 6 * groups (cs_Length seg)"
    using budget_full [of seg k] groups_mono [of "cs_Length seg - k" "cs_Length seg"] 2(2) by linarith
  then show ?case
    by - (rule wp_mono [OF fetch_loop_keeps [where P = "\<lambda>_ _. True" and W = "\<lambda>_. True", OF 2(1)]];
      fastforce split: option.splits intro!: wp_file_sync)
qed

text \<open>
  C15: Fetching a segment ends, and how many requests it makes is bounded by the length of the
  segment alone: one for the tree, then at most two for each of three attempts at each group, or
  three for the whole segment. No server can keep the client in the loop.
\<close>

theorem fetchOneSegment_bounded:
  "fe_requests (snd (run_state (fetchOneSegment L net token seg target) s))
     \<le> fe_requests s + 1 + max 3 (6 * groups (cs_Length seg))"
proof -
  let ?Q = "\<lambda>s'. \<exists>f k. holds target s f k s' \<and> k \<le> fe_requests s + 1 + max 3 (6 * groups (cs_Length seg))"
  have whole: "wp (fetchSegment L net token seg target) (\<lambda>_. ?Q) u"
    if "holds target s f n u" "n \<le> fe_requests s + 1" for f n u
    unfolding fetchSegment_def by (rule wp_mono [OF wp_fetch_attempts [OF that(1)]]) (use that(2) in force)
  have stream: "wp (fetchVerified L net token seg target ob) (\<lambda>_. ?Q) u"
    if "holds target s f n u" "n \<le> fe_requests s + 1" for f n u ob
    by (rule wp_mono [OF wp_fetchVerified_bounded [OF that(1)]]) (use that(2) in force)
  have "wp (fetchOneSegment L net token seg target) (\<lambda>_. ?Q) s"
    by (rule wp_fetchOneSegment [OF holds_self]; erule whole stream; simp)
  then show ?thesis unfolding wp_snd by (auto simp: holds_def)
qed

section \<open>What a damaged stream costs\<close>

definition group_of :: "bytes \<Rightarrow> nat \<Rightarrow> bytes" where
  "group_of c k = take (nat GroupSize) (drop (nat GroupSize * k) c)"

text \<open>The groups in which a stream differs from the content, from the \<open>k\<close>-th on.\<close>

definition damaged_from :: "nat \<Rightarrow> bytes \<Rightarrow> bytes \<Rightarrow> nat list" where
  "damaged_from k content b =
     filter (\<lambda>j. group_of b j \<noteq> group_of content j) [k..<groups (int (length content))]"

text \<open>
  The tree proves the content, and a request for one group is answered by that group. The
  disk does not fail.
\<close>

definition repairable :: "client_lib \<Rightarrow> network \<Rightarrow> string \<Rightarrow> ClaimSegment \<Rightarrow> bytes \<Rightarrow> bytes \<Rightarrow> bool" where
  "repairable L net token seg outboard content \<longleftrightarrow> authentic L seg content
     \<and> (\<forall>k<groups (cs_Length seg). let offset = GroupSize * int k in
          cl_verify L (group_of content k) outboard offset (cs_Digest seg)
          \<and> (\<forall>n. net n \<lparr>gt_Path = cs_Path seg, gt_Token = token,
                gt_Range = Between offset (offset + group_want seg offset - 1)\<rparr>
              = Answer 206 (group_of content k) True))"

lemma run_fault [simp]: "fe_faults s = [] \<Longrightarrow> run_state fault s = (None, s)"
  by (simp add: fault_def)

lemma less_groups: "k < groups n \<longleftrightarrow> GroupSize * int k < n"
  by (auto simp: groups_def GroupSize_def)

lemma length_group_of:
  assumes "length c = nat (cs_Length seg)" and "k < groups (cs_Length seg)"
  shows "int (length (group_of c k)) = group_want seg (GroupSize * int k)"
  using assms unfolding less_groups by (auto simp: group_of_def group_want_def GroupSize_def)

lemma ReadFull_group:
  assumes "length c = nat (cs_Length seg)" and "k < groups (cs_Length seg)"
  shows "ReadFull (group_want seg (GroupSize * int k)) (drop (nat GroupSize * k) c)
     = Some (group_of c k, drop (nat GroupSize * Suc k) c)"
proof -
  let ?w = "group_want seg (GroupSize * int k)" and ?X = "drop (nat GroupSize * k) c"
  have w: "?w = int (min (length ?X) (nat GroupSize))"
    using length_group_of [OF assms] by (simp add: group_of_def min.commute)
  have "take (nat ?w) ?X = take (nat GroupSize) ?X \<and> drop (nat ?w) ?X = drop (nat GroupSize) ?X"
    unfolding w nat_int by (cases "length ?X \<le> nat GroupSize") (simp_all only: min_absorb1 min_absorb2 take_all drop_all order_refl linear not_le less_imp_le simp_thms)
  moreover have "?w \<le> int (length ?X)" unfolding w by simp
  moreover have "drop (nat GroupSize) ?X = drop (nat GroupSize * Suc k) c" by (simp add: add.commute)
  ultimately show ?thesis by (simp only: ReadFull_def if_True group_of_def)
qed

lemma take_length_take: "take (length (take n xs)) xs = take n xs"
  by (cases "length xs \<le> n") simp_all

lemma nat_group: "nat (GroupSize * int k) = nat GroupSize * k"
  by (simp add: GroupSize_def nat_mult_distrib)

lemma run_client_do: "run_state (client_do L net g expect) s =
   (case net (fe_requests s) g of Unreachable \<Rightarrow> Inl (code_string ErrNetwork)
    | Answer status body clean \<Rightarrow> if status \<in> set expect then Inr (status, body, clean) else Inl (parseError L status body),
    s\<lparr>fe_requests := Suc (fe_requests s)\<rparr>)"
  by (simp add: client_do_def send_def)

lemma run_repairGroup:
  assumes r: "repairable L net token seg outboard content" and k: "k < groups (cs_Length seg)"
  shows "run_state (repairGroup L net token seg (GroupSize * int k) (group_want seg (GroupSize * int k)) outboard) s
     = (Inr (group_of content k), s\<lparr>fe_requests := Suc (fe_requests s)\<rparr>)"
proof -
  have "int (length (group_of content k)) = group_want seg (GroupSize * int k)"
    using length_group_of [OF _ k] r by (simp add: repairable_def authentic_def)
  then have "ReadFull (group_want seg (GroupSize * int k)) (group_of content k) = Some (group_of content k, [])"
    by (auto simp: ReadFull_def)
  then show ?thesis using r k
    by (simp add: repairGroup_def SegmentRangeReader_def run_client_do repairable_def Let_def)
qed

lemma checks_only_content:
  assumes r: "repairable L net token seg outboard content" and k: "k < groups (cs_Length seg)"
    and "length b = length content"
  shows "cl_verify L (group_of b k) outboard (GroupSize * int k) (cs_Digest seg) \<longleftrightarrow> group_of b k = group_of content k"
proof
  have len: "cs_Length seg = int (length content)" using r by (simp add: repairable_def authentic_def)
  note lb = length_group_of [of b seg k] length_group_of [of content seg k]
  assume "cl_verify L (group_of b k) outboard (GroupSize * int k) (cs_Digest seg)"
  then have "proved L seg outboard (GroupSize * int k) (group_of b k)"
    using lb len assms(2,3) by (simp add: proved_def)
  then have "group_of b k = take (length (group_of b k)) (drop (nat (GroupSize * int k)) content)"
    using r k unfolding repairable_def authentic_def less_groups by (simp add: GroupSize_def)
  moreover have "length (group_of b k) = length (group_of content k)" using lb len assms(2,3) by simp
  ultimately show "group_of b k = group_of content k"
    by (simp only: nat_group) (simp only: group_of_def take_length_take)
next
  assume "group_of b k = group_of content k"
  then show "cl_verify L (group_of b k) outboard (GroupSize * int k) (cs_Digest seg)"
    using r k by (simp add: repairable_def Let_def)
qed

lemma run_fetch_loop_repairs:
  assumes r: "repairable L net token seg outboard content"
    and "groups (cs_Length seg) = k + j" and b: "length b = length content"
    and "fe_faults s = []" and "seg_file t s = Some (take (nat GroupSize * k) content)"
  shows "\<exists>s'. run_state (fetch_loop L net token seg t outboard (min (GroupSize * int k) (cs_Length seg)) 0
         (Some (drop (nat GroupSize * k) b))) s
       = (None, s') \<and> seg_file t s' = Some content \<and> fe_faults s' = []
     \<and> fe_requests s' = fe_requests s + length (damaged_from k content b)"
  using assms(2,4,5)
proof (induction j arbitrary: k s)
  case 0
  have "cs_Length seg \<le> GroupSize * int k" using 0(1) less_groups [of k "cs_Length seg"] by simp
  moreover from this have "length content \<le> nat GroupSize * k"
    using r by (simp add: repairable_def authentic_def GroupSize_def)
  ultimately show ?case using 0 r
    by (subst fetch_loop.simps) (simp add: damaged_from_def repairable_def authentic_def)
next
  case (Suc j)
  let ?o = "GroupSize * int k"
  have k: "k < groups (cs_Length seg)" using Suc.prems(1) by simp
  have len: "cs_Length seg = int (length content)" using r by (simp add: repairable_def authentic_def)
  have o: "?o < cs_Length seg" using k by (simp add: less_groups)
  have lc: "int (length (group_of content k)) = group_want seg ?o" using length_group_of [OF _ k] len by simp
  let ?d = "take (nat GroupSize * Suc k) content"
  have pos: "\<not> ?o < 0" by (simp add: GroupSize_def)
  have on: "?o + group_want seg ?o = min (GroupSize * int (Suc k)) (cs_Length seg)"
    using o by (auto simp: group_want_def GroupSize_def)
  have put: "overwrite (take (nat GroupSize * k) content) (nat ?o) (group_of content k) = ?d"
  proof -
    have "overwrite (take (nat GroupSize * k) content) (nat GroupSize * k) (group_of content k)
        = take (nat GroupSize * k + length (group_of content k)) content"
      using o len by (intro overwrite_prefix) (simp_all only: group_of_def take_length_take, simp add: GroupSize_def)
    also have "\<dots> = take (nat GroupSize * k) content @ take (length (group_of content k)) (drop (nat GroupSize * k) content)"
      by (rule take_add)
    also have "\<dots> = ?d" unfolding group_of_def take_length_take
      by (simp only: mult_Suc_right add.commute [of "nat GroupSize"] take_add)
    finally show ?thesis unfolding nat_group .
  qed
  have read: "ReadFull (group_want seg ?o) (drop (nat GroupSize * k) b)
     = Some (group_of b k, drop (nat GroupSize * Suc k) b)"
    using ReadFull_group [OF _ k, of b] b len by simp
  let ?bad = "group_of b k \<noteq> group_of content k"
  let ?s = "set_file t ?d (if ?bad then s\<lparr>fe_requests := Suc (fe_requests s)\<rparr> else s)"
  have "run_state (fetch_loop L net token seg t outboard ?o 0 (Some (drop (nat GroupSize * k) b))) s
     = run_state (fetch_loop L net token seg t outboard (?o + group_want seg ?o) 0
         (Some (drop (nat GroupSize * Suc k) b))) ?s"
    by (subst fetch_loop.simps)
      (use o pos Suc.prems read put checks_only_content [OF r k b] run_repairGroup [OF r k] in \<open>simp add: file_write_def nat_group GroupSize_def [symmetric] del: code_string.simps\<close>)
  moreover have "damaged_from k content b = (if ?bad then [k] else []) @ damaged_from (Suc k) content b"
    using k len by (simp add: damaged_from_def upt_conv_Cons)
  ultimately show ?case using Suc.IH [of "Suc k" ?s] Suc.prems o on by (auto simp: min_def)
qed

lemma set_file_same: "seg_file t s = Some c \<Longrightarrow> set_file t c s = s"
proof -
  have "map_of xs t = Some c \<Longrightarrow> AList.update t c xs = xs" for xs :: "(string \<times> bytes) list"
    by (induction xs) (auto split: if_splits)
  then show "seg_file t s = Some c \<Longrightarrow> set_file t c s = s" by (simp add: set_file_def)
qed

lemma run_fetchVerified_repairs:
  assumes "repairable L net token seg outboard content" and "content \<noteq> []"
    and "net (fe_requests s) \<lparr>gt_Path = cs_Path seg, gt_Token = token, gt_Range = Whole\<rparr> = Answer 200 b clean"
    and "length b = length content"
    and "seg_file target s = None" and "fe_faults s = []"
  shows "\<exists>s'. run_state (fetchVerified L net token seg target outboard) s = (None, s')
    \<and> seg_file target s' = Some content
    \<and> fe_requests s' = fe_requests s + 1 + length (damaged_from 0 content b)"
proof -
  have len: "0 < cs_Length seg" "cs_Length seg = int (length content)"
    using assms(1,2) by (simp_all add: repairable_def authentic_def)
  let ?s = "set_file target [] s"
  let ?u = "?s\<lparr>fe_requests := Suc (fe_requests s)\<rparr>"
  have opened: "run_state (fetch_loop L net token seg target outboard 0 0 None) ?s
      = run_state (fetch_loop L net token seg target outboard 0 0 (Some b)) ?u"
    unfolding fetch_loop.simps [of L net token seg target outboard 0 0 None]
      fetch_loop.simps [of L net token seg target outboard 0 0 "Some b"]
    using len assms(3) by (simp add: SegmentReader_def run_client_do del: code_string.simps)
  obtain s' where s': "run_state (fetch_loop L net token seg target outboard 0 0 (Some b)) ?u = (None, s')"
      "seg_file target s' = Some content" "fe_faults s' = []"
      "fe_requests s' = fe_requests s + 1 + length (damaged_from 0 content b)"
    using run_fetch_loop_repairs [OF assms(1) _ assms(4), of 0 _ ?u target] assms(6) len by (auto simp: min_def)
  have "resume_offset seg (Some 0) = 0" using len by (simp add: resume_offset_def go_mod_def go_div_def GroupSize_def)
  then have "run_state (fetchVerified L net token seg target outboard) s = (None, s')"
    using assms(5,6) opened s'(1,3)
    by (simp add: fetchVerified_def file_open_def file_stat_def file_truncate_def file_sync_def Let_def
         set_file_same del: code_string.simps)
  then show ?thesis using s'(2,4) by blast
qed

text \<open>
  C16: Damage costs exactly what it touches. When the server's stream is damaged in some groups and
  the groups asked for on their own arrive intact, a new download succeeds with the authentic
  content after one request for the stream and one for each damaged group.
\<close>

theorem fetchVerified_repairs:
  assumes "repairable L net token seg outboard content" and "content \<noteq> []"
    and "net (fe_requests s) \<lparr>gt_Path = cs_Path seg, gt_Token = token, gt_Range = Whole\<rparr> = Answer 200 b clean"
    and "length b = length content"
    and "seg_file target s = None" and "fe_faults s = []"
  shows "\<exists>s'. run_state (fetchVerified L net token seg target outboard) s = (None, s')
    \<and> seg_file target s' = Some content
    \<and> fe_requests s' = fe_requests s + 1 + length (damaged_from 0 content b)"
  using assms by (rule run_fetchVerified_repairs)

text \<open>
  C40: A segment without bytes and without a tree, which is what an empty file of a simple upload
  becomes, is never received: the file is not created, so hashing it fails, whatever the server answers.
\<close>

theorem fetchOneSegment_empty:
  assumes "cs_Length seg = 0" and "cs_OutboardPath seg = []" and "seg_file target s = None"
  shows "\<exists>s'. run_state (fetchOneSegment L net token seg target) s
      = (Some (code_string ErrDestinationExists), s') \<and> seg_file target s' = None"
proof -
  have stat: "\<exists>u. run_state (file_stat target) s = (None, u) \<and> seg_file target u = None"
    using assms(3) by (auto simp: file_stat_def fault_def split: list.splits)
  then obtain u where u: "run_state (file_stat target) s = (None, u)" "seg_file target u = None" by blast
  then have "\<exists>v. run_state (HashFile L target) u = (None, v) \<and> seg_file target v = None"
    by (auto simp: HashFile_def fault_def split: list.splits)
  then obtain v where "run_state (HashFile L target) u = (None, v)" "seg_file target v = None" by blast
  then show ?thesis using u assms(1,2)
    by (simp add: fetchOneSegment_def fetchSegment_def numeral_3_eq_3 del: code_string.simps)
qed

section \<open>A download\<close>

text \<open>A small segment whose stream is damaged, and a server that repairs it.\<close>

definition sample_lib :: client_lib where
  "sample_lib = \<lparr>cl_envelope = (\<lambda>_. None),
     cl_verify = (\<lambda>d outboard offset digest. d = take (nat GroupSize) (drop (nat offset) ''abc'')),
     cl_blake3 = (\<lambda>c. c)\<rparr>"

definition sample_seg :: ClaimSegment where
  "sample_seg = \<lparr>cs_ID = ''s'', cs_Kind = ''raw'', cs_Length = 3, cs_Digest = ''abc'', cs_Path = ''/s'',
     cs_OutboardPath = ''/s/outboard'', cs_OutboardLength = 2\<rparr>"

definition sample_net :: network where
  "sample_net n g = (if gt_Path g = ''/s/outboard'' then Answer 200 ''tt'' True
     else if gt_Range g = Whole then Answer 200 ''abX'' True else Answer 206 ''abc'' True)"

definition sample_fetching :: fetching where
  "sample_fetching = \<lparr>fe_segments = [], fe_requests = 0, fe_faults = []\<rparr>"

lemma sample_authentic: "authentic sample_lib sample_seg ''abc''"
  unfolding authentic_def proved_def sample_lib_def
  by (simp add: sample_seg_def take_length_take del: length_take)

lemma sample_repairable: "repairable sample_lib sample_net ''t'' sample_seg ob ''abc''"
proof -
  have "groups 3 = 1" by (simp add: groups_def GroupSize_def)
  then show ?thesis using sample_authentic
    by (simp add: repairable_def sample_lib_def sample_net_def sample_seg_def group_of_def, simp add: GroupSize_def)
qed

lemma run_sample:
  assumes "seg_file ''s'' s = None" "fe_faults s = []"
  shows "\<exists>s'. run_state (fetchVerified sample_lib sample_net ''t'' sample_seg ''s'' ob) s = (None, s')
     \<and> seg_file ''s'' s' = Some ''abc''"
  using run_fetchVerified_repairs [OF sample_repairable [of ob], where s = s and b = "''abX''" and clean = True and target = "''s''"] assms
  by (auto simp: sample_net_def sample_seg_def)

theorem fetchVerified_authentic_witness:
  "\<exists>s'. run_state (fetchVerified sample_lib sample_net ''t'' sample_seg ''s'' []) sample_fetching = (None, s')
     \<and> seg_file ''s'' s' = Some ''abc''"
proof -
  obtain s' where r: "run_state (fetchVerified sample_lib sample_net ''t'' sample_seg ''s'' []) sample_fetching = (None, s')"
    using run_sample [of sample_fetching "[]"] by (auto simp: sample_fetching_def)
  from fetchVerified_authentic [OF sample_authentic _ r] show ?thesis
    using r by (simp add: sample_fetching_def resumable_def)
qed

theorem fetchOneSegment_verified_witness:
  "\<exists>s'. run_state (fetchOneSegment sample_lib sample_net ''t'' sample_seg ''s'') sample_fetching = (None, s')
     \<and> seg_file ''s'' s' = Some ''abc''"
proof -
  let ?u = "sample_fetching\<lparr>fe_requests := Suc 0\<rparr>"
  obtain s' where "run_state (fetchVerified sample_lib sample_net ''t'' sample_seg ''s'' ''tt'') ?u = (None, s')"
    using run_sample [of ?u "''tt''"] by (auto simp: sample_fetching_def)
  then have r: "run_state (fetchOneSegment sample_lib sample_net ''t'' sample_seg ''s'') sample_fetching = (None, s')"
    by (simp add: fetchOneSegment_def OutboardBytes_def run_client_do) (simp add: sample_net_def sample_seg_def sample_fetching_def)
  from fetchOneSegment_verified [OF sample_authentic _ _ r] show ?thesis
    using r by (auto simp: sample_fetching_def resumable_def sample_lib_def sample_seg_def)
qed

theorem fetchVerified_repairs_witness:
  "\<exists>s'. run_state (fetchVerified sample_lib sample_net ''t'' sample_seg ''s'' []) sample_fetching = (None, s')
     \<and> fe_requests s' = 2"
proof -
  have "damaged_from 0 ''abc'' ''abX'' = [0]"
    by (simp add: damaged_from_def groups_def group_of_def GroupSize_def)
  then show ?thesis
    using fetchVerified_repairs [OF sample_repairable [of "[]"], where s = sample_fetching and b = "''abX''" and clean = True and target = "''s''"]
    by (auto simp: sample_net_def sample_seg_def sample_fetching_def)
qed

theorem fetchOneSegment_empty_witness:
  "\<exists>s'. run_state (fetchOneSegment sample_lib sample_net ''t'' (sample_seg\<lparr>cs_Length := 0, cs_OutboardPath := []\<rparr>) ''s'') sample_fetching
     = (Some ''DESTINATION_EXISTS'', s')"
  using fetchOneSegment_empty [where seg = "sample_seg\<lparr>cs_Length := 0, cs_OutboardPath := []\<rparr>" and target = "''s''" and s = sample_fetching
      and L = sample_lib and net = sample_net and token = "''t''"]
  by (auto simp: sample_fetching_def)

end
