(* ===== verification/SSS_Recv.thy ===== *)
theory SSS_Recv
  imports SSS_Fetch
begin

text \<open>
  The receiving client (\<^verbatim>\<open>Recv\<close>, \<^verbatim>\<open>fetchSegments\<close> and \<^verbatim>\<open>resolveDestination\<close> of
  \<^verbatim>\<open>internal/client/recv.go\<close>): claim, fetch into a hidden directory, materialize with the
  server's own \<^verbatim>\<open>materialize.Run\<close>, and one rename to the destination. The theorems show that a
  destination appears only complete and verified and never over something else, and that what
  arrives is byte for byte what the server holds under the code.
\<close>

section \<open>The receiver's state\<close>

datatype place = PlaceOther | PlaceDir payload

text \<open>
  The working directories are the staging area of a world, each under its own path; the
  places are what exists at paths outside them.
\<close>

record receiver =
  rc_world :: world
  rc_requests :: nat
  rc_faults :: "nat option list"
  rc_places :: "(string \<times> place) list"

type_synonym 'a recv = "(receiver, 'a) state"

definition on_world :: "'a svc \<Rightarrow> 'a recv" where
  "on_world m = State (\<lambda>c. case run_state m (rc_world c) of (x, w) \<Rightarrow> (x, c\<lparr>rc_world := w\<rparr>))"

definition staged_segments :: "string \<Rightarrow> world \<Rightarrow> (string \<times> bytes) list" where
  "staged_segments i w = (case d_segments (the_tdir (staging w i)) of None \<Rightarrow> [] | Some ss \<Rightarrow> ss)"

definition put_segments :: "string \<Rightarrow> (string \<times> bytes) list \<Rightarrow> world \<Rightarrow> world" where
  "put_segments i ss w = w\<lparr>w_staging :=
     AList.update i ((the_tdir (staging w i))\<lparr>d_segments := Some ss\<rparr>) (w_staging w)\<rparr>"

text \<open>A download into the segments directory of a working directory.\<close>

definition in_segments_dir :: "string \<Rightarrow> 'a fetch \<Rightarrow> 'a recv" where
  "in_segments_dir i m = State (\<lambda>c.
     case run_state m \<lparr>fe_segments = staged_segments i (rc_world c), fe_requests = rc_requests c,
          fe_faults = rc_faults c\<rparr> of
       (x, f) \<Rightarrow> (x, c\<lparr>rc_world := put_segments i (fe_segments f) (rc_world c),
                      rc_requests := fe_requests f, rc_faults := fe_faults f\<rparr>))"

definition recv_fault :: "bool recv" where
  "recv_fault = State (\<lambda>c. case rc_faults c of [] \<Rightarrow> (True, c) | f # fs \<Rightarrow> (f = None, c\<lparr>rc_faults := fs\<rparr>))"

definition Lstat_place :: "string \<Rightarrow> lstat recv" where
  "Lstat_place p = do {
     ok \<leftarrow> recv_fault;
     State (\<lambda>c. (if \<not> ok then StatError else if map_of (rc_places c) p = None then Missing else Present, c))
   }"

text \<open>\<^verbatim>\<open>os.Rename\<close> of the payload directory: it replaces nothing but an empty directory.\<close>

definition rename_place :: "string \<Rightarrow> string \<Rightarrow> bool recv" where
  "rename_place i dest = do {
     ok \<leftarrow> recv_fault;
     State (\<lambda>c. case Option.bind (staging (rc_world c) i) d_payload of
         None \<Rightarrow> (False, c)
       | Some pl \<Rightarrow>
           if \<not> ok \<or> \<not> (map_of (rc_places c) dest = None \<or> map_of (rc_places c) dest = Some (PlaceDir []))
           then (False, c)
           else (True, c\<lparr>rc_places := AList.update dest (PlaceDir pl) (rc_places c),
             rc_world := (rc_world c)\<lparr>w_staging := AList.update i
               ((the_tdir (staging (rc_world c) i))\<lparr>d_payload := None\<rparr>) (w_staging (rc_world c))\<rparr>\<rparr>))
   }"

section \<open>The destination\<close>

definition ascii_upper :: "char \<Rightarrow> char" where
  "ascii_upper c = char_of (upper_rune (byte c))"

text \<open>\<^verbatim>\<open>strings.ToUpper\<close> is only applied to a canonical code here, which is ASCII.\<close>

definition resolveDestination :: "(string \<Rightarrow> lstat) \<Rightarrow> (string \<Rightarrow> bool) \<Rightarrow> string \<Rightarrow> string \<Rightarrow> string result" where
  "resolveDestination stat isdir explicit canonicalCode =
     (if explicit \<noteq> [] then
        let clean = Clean explicit in
        if stat clean = Present then Inl ErrDestinationExists
        else if \<not> isdir (path_dir clean) then Inl ErrDestinationExists
        else Inr clean
      else case UniqueDestination stat (''sss-'' @ FormatCode (map ascii_upper canonicalCode)) of
          None \<Rightarrow> Inl ErrDestinationExists
        | Some unique \<Rightarrow> Inr unique)"

definition partial_path :: "string \<Rightarrow> string" where
  "partial_path dest = path_join (path_dir dest) (''.'' @ path_base dest @ ''.sss-partial'')"

section \<open>Receiving\<close>

text \<open>
  The segments in order; the code runs a bounded number at a time, each into its own file, and
  stops handing out segments after a failure.
\<close>

fun fetchSegments :: "client_lib \<Rightarrow> network \<Rightarrow> string \<Rightarrow> ClaimSegment list \<Rightarrow> (string option) fetch" where
  "fetchSegments L net token [] = return None"
| "fetchSegments L net token (seg # segs) = do {
     failure \<leftarrow> fetchOneSegment L net token seg (cs_ID seg);
     case failure of Some e \<Rightarrow> return (Some e) | None \<Rightarrow> fetchSegments L net token segs
   }"

record RecvResult =
  rr_Path :: string
  rr_Files :: int
  rr_Bytes :: int
  rr_Note :: string
  rr_ClaimID :: string

text \<open>
  What the surroundings decide: the answer to the claim, which paths cannot be examined, which
  are directories, the working directory, and what other processes do to the places while the
  client downloads and between its last look at the destination and the rename.
\<close>

record surroundings =
  su_claim :: "string + ClaimResponse"
  su_unreadable :: "string \<Rightarrow> bool"
  su_isdir :: "string \<Rightarrow> bool"
  su_cwd :: "string option"
  su_meanwhile :: "(string \<times> place) list \<Rightarrow> (string \<times> place) list"
  su_race :: "(string \<times> place) list \<Rightarrow> (string \<times> place) list"

definition others :: "((string \<times> place) list \<Rightarrow> (string \<times> place) list) \<Rightarrow> unit recv" where
  "others f = State (\<lambda>c. ((), c\<lparr>rc_places := f (rc_places c)\<rparr>))"

definition stat_of :: "surroundings \<Rightarrow> (string \<times> place) list \<Rightarrow> string \<Rightarrow> lstat" where
  "stat_of env ps p = (if su_unreadable env p then StatError
     else if map_of ps p = None then Missing else Present)"

text \<open>The last part of \<^verbatim>\<open>Recv\<close>: the payload is complete in the working directory.\<close>

definition publish_destination ::
  "surroundings \<Rightarrow> string \<Rightarrow> string \<Rightarrow> ClaimResponse \<Rightarrow> mat_result \<Rightarrow> (string + RecvResult) recv" where
  "publish_destination env partial dest claim result = do {
     _ \<leftarrow> others (su_meanwhile env);
     there \<leftarrow> Lstat_place dest;
     if there = Present then do {
       _ \<leftarrow> on_world (RemoveStaging partial);
       return (Inl (code_string ErrDestinationExists))
     } else do {
       _ \<leftarrow> others (su_race env);
       renamed \<leftarrow> rename_place partial dest;
       _ \<leftarrow> on_world (RemoveStaging partial);
       return (if \<not> renamed then Inl (code_string ErrDestinationExists)
         else Inr \<lparr>rr_Path = (case Abs (su_cwd env) dest of None \<Rightarrow> dest | Some p \<Rightarrow> p),
           rr_Files = FileCount (man_Entries (rs_Manifest claim)), rr_Bytes = MaterializedBytes result,
           rr_Note = man_Note (rs_Manifest claim), rr_ClaimID = rs_ClaimID claim\<rparr>)
     }
   }"

definition Recv ::
  "server \<Rightarrow> client_lib \<Rightarrow> network \<Rightarrow> surroundings \<Rightarrow> string \<Rightarrow> string \<Rightarrow> (string + RecvResult) recv" where
  "Recv S L net env code destination = (case su_claim env of Inl e \<Rightarrow> return (Inl e) | Inr claim \<Rightarrow> do {
     places \<leftarrow> State (\<lambda>c. (rc_places c, c));
     let canonical = (case NormalizeCode code of None \<Rightarrow> [] | Some s \<Rightarrow> s);
     case resolveDestination (stat_of env places) (su_isdir env) destination canonical of
       Inl e \<Rightarrow> return (Inl (code_string e))
     | Inr dest \<Rightarrow> do {
         let partial = partial_path dest;
         made \<leftarrow> on_world (mkdir_segments partial);
         if \<not> made then return (Inl (code_string ErrDestinationExists)) else do {
           failure \<leftarrow> in_segments_dir partial (fetchSegments L net (rs_Token claim) (rs_Segments claim));
           case failure of Some e \<Rightarrow> return (Inl e) | None \<Rightarrow> do {
             result \<leftarrow> on_world (mat_Run S partial (rs_Manifest claim));
             case result of
               Inl e \<Rightarrow> do { _ \<leftarrow> on_world (RemoveStaging partial); return (Inl (code_string e)) }
             | Inr result \<Rightarrow> publish_destination env partial dest claim result
           }
         }
       }
   })"

section \<open>What appears at the destination\<close>

lemma wp_on_world: "wp m (\<lambda>x w. Q x (c\<lparr>rc_world := w\<rparr>)) (rc_world c) \<Longrightarrow> wp (on_world m) Q c"
  by (simp add: on_world_def wp_def split: prod.splits)

lemma wp_in_segments_dir:
  "(\<And>x c'. rc_places c' = rc_places c \<Longrightarrow> Q x c') \<Longrightarrow> wp (in_segments_dir i m) Q c"
  by (simp add: in_segments_dir_def split: prod.splits)

lemma wp_on_world_any: "(\<And>x w. Q x (c\<lparr>rc_world := w\<rparr>)) \<Longrightarrow> wp (on_world m) Q c"
  by (rule wp_on_world) (simp add: wp_def split: prod.splits)

lemma wp_recv_fault: "(\<And>ok fs. Q ok (c\<lparr>rc_faults := fs\<rparr>)) \<Longrightarrow> wp recv_fault Q c"
  by (simp add: recv_fault_def split: list.splits) (metis (full_types) receiver.surjective receiver.update_convs(3))

lemma wp_Lstat_place:
  assumes "\<And>r fs. (r = Present \<longrightarrow> map_of (rc_places c) p \<noteq> None) \<Longrightarrow> Q r (c\<lparr>rc_faults := fs\<rparr>)"
  shows "wp (Lstat_place p) Q c"
  unfolding Lstat_place_def wp_bind by (rule wp_recv_fault) (use assms in simp)

lemma wp_rename_place:
  assumes "\<And>fs. Q False (c\<lparr>rc_faults := fs\<rparr>)"
    and "\<And>fs pl w. payload_of (rc_world c) i = Some pl \<Longrightarrow>
        map_of (rc_places c) dest = None \<or> map_of (rc_places c) dest = Some (PlaceDir []) \<Longrightarrow>
        Q True (c\<lparr>rc_faults := fs, rc_places := AList.update dest (PlaceDir pl) (rc_places c), rc_world := w\<rparr>)"
  shows "wp (rename_place i dest) Q c"
  unfolding rename_place_def wp_bind
  by (rule wp_recv_fault) (use assms in \<open>auto simp: payload_of_def split: option.splits\<close>)

text \<open>
  The places after a receive: on failure whatever the other processes made of them; on
  success, the complete verified tree at the resolved destination, where nothing or an empty
  directory was, and everything else as the others left it.
\<close>

definition placed :: "server \<Rightarrow> ClaimResponse \<Rightarrow> string \<Rightarrow> (string \<times> place) list \<Rightarrow> RecvResult
    \<Rightarrow> (string \<times> place) list \<Rightarrow> bool" where
  "placed S claim dest ps res ps' \<longleftrightarrow>
     (\<exists>pl. (map_of ps dest = None \<or> map_of ps dest = Some (PlaceDir []))
        \<and> ps' = AList.update dest (PlaceDir pl) ps
        \<and> files_ok S pl (man_Entries (rs_Manifest claim)) \<and> dirs_ok pl (man_Entries (rs_Manifest claim))
        \<and> rr_Files res = FileCount (man_Entries (rs_Manifest claim))
        \<and> rr_Bytes res = TotalBytes (rs_Manifest claim))"

text \<open>The path that is reported for a destination.\<close>

definition shown_path :: "string option \<Rightarrow> string \<Rightarrow> string" where
  "shown_path cwd dest = (case Abs cwd dest of None \<Rightarrow> dest | Some p \<Rightarrow> p)"

definition received ::
  "server \<Rightarrow> surroundings \<Rightarrow> ClaimResponse \<Rightarrow> string \<Rightarrow> (string \<times> place) list
   \<Rightarrow> (string + RecvResult) \<Rightarrow> (string \<times> place) list \<Rightarrow> bool" where
  "received S env claim dest ps r ps' \<longleftrightarrow>
     (let later = su_meanwhile env ps; last = su_race env later in
      case r of Inl e \<Rightarrow> ps' \<in> {ps, later, last}
      | Inr res \<Rightarrow> rr_Path res = shown_path (su_cwd env) dest \<and> placed S claim dest last res ps')"

lemma wp_publish_destination:
  assumes "run_ok S partial (rs_Manifest claim) result (rc_world c)"
  shows "wp (publish_destination env partial dest claim result)
     (\<lambda>r c'. received S env claim dest (rc_places c) r (rc_places c')) c"
proof -
  obtain pl where pl: "payload_of (rc_world c) partial = Some pl" "files_ok S pl (man_Entries (rs_Manifest claim))"
      "dirs_ok pl (man_Entries (rs_Manifest claim))" "MaterializedBytes result = TotalBytes (rs_Manifest claim)"
    using assms by (auto simp: run_ok_def payload_of_def)
  show ?thesis unfolding publish_destination_def wp_bind
    by (simp add: others_def, rule wp_Lstat_place)
      (auto intro!: wp_on_world_any wp_rename_place exI [of _ pl] simp: others_def received_def shown_path_def placed_def Let_def pl)
qed

definition canonical_of :: "string \<Rightarrow> string" where
  "canonical_of code = (case NormalizeCode code of None \<Rightarrow> [] | Some s \<Rightarrow> s)"

lemma wp_Recv:
  assumes claim: "su_claim env = Inr claim"
  shows "wp (Recv S L net env code destination) (\<lambda>r c'.
      case resolveDestination (stat_of env (rc_places c)) (su_isdir env) destination (canonical_of code) of
        Inl e \<Rightarrow> r = Inl (code_string e) \<and> rc_places c' = rc_places c
      | Inr dest \<Rightarrow> received S env claim dest (rc_places c) r (rc_places c')) c"
proof (cases "resolveDestination (stat_of env (rc_places c)) (su_isdir env) destination (canonical_of code)")
  case (Inl e)
  then show ?thesis using claim by (simp add: Recv_def canonical_of_def)
next
  case (Inr dest)
  let ?p = "partial_path dest" and ?Q = "\<lambda>r c'. received S env claim dest (rc_places c) r (rc_places c')"
  have run: "wp (do { result \<leftarrow> on_world (mat_Run S ?p (rs_Manifest claim));
             case result of
               Inl e \<Rightarrow> do { _ \<leftarrow> on_world (RemoveStaging ?p); return (Inl (code_string e)) }
             | Inr result \<Rightarrow> publish_destination env ?p dest claim result }) ?Q c'"
    if c': "rc_places c' = rc_places c" for c'
  proof (subst wp_bind, rule wp_on_world, rule wp_mono [OF mat_Run_post], goal_cases)
    case (1 r w')
    show ?case
    proof (cases r)
      case (Inl e)
      then show ?thesis using c' by (auto intro!: wp_on_world_any simp: received_def)
    next
      case (Inr result)
      then show ?thesis using 1 c' wp_publish_destination [of S ?p claim result "c'\<lparr>rc_world := w'\<rparr>" env dest] by simp
    qed
  qed
  have fetch: "wp (do { failure \<leftarrow> in_segments_dir ?p (fetchSegments L net (rs_Token claim) (rs_Segments claim));
           case failure of Some e \<Rightarrow> return (Inl e) | None \<Rightarrow> do {
             result \<leftarrow> on_world (mat_Run S ?p (rs_Manifest claim));
             case result of
               Inl e \<Rightarrow> do { _ \<leftarrow> on_world (RemoveStaging ?p); return (Inl (code_string e)) }
             | Inr result \<Rightarrow> publish_destination env ?p dest claim result } }) ?Q c'"
    if c': "rc_places c' = rc_places c" for c'
  proof (subst wp_bind, rule wp_in_segments_dir, goal_cases)
    case (1 x c'')
    then show ?case using run [of c''] c' by (cases x) (simp_all add: received_def Let_def)
  qed
  have made: "wp (on_world (mkdir_segments ?p)) (\<lambda>made. wp (if \<not> made then return (Inl (code_string ErrDestinationExists))
        else do { failure \<leftarrow> in_segments_dir ?p (fetchSegments L net (rs_Token claim) (rs_Segments claim));
           case failure of Some e \<Rightarrow> return (Inl e) | None \<Rightarrow> do {
             result \<leftarrow> on_world (mat_Run S ?p (rs_Manifest claim));
             case result of
               Inl e \<Rightarrow> do { _ \<leftarrow> on_world (RemoveStaging ?p); return (Inl (code_string e)) }
             | Inr result \<Rightarrow> publish_destination env ?p dest claim result } }) ?Q) c"
  proof (rule wp_on_world_any, goal_cases)
    case (1 made w)
    show ?case using fetch [of "c\<lparr>rc_world := w\<rparr>"] by (cases made) (simp_all add: received_def Let_def del: wp_bind)
  qed
  have get: "wp (State (\<lambda>c. (rc_places c, c))) R c \<longleftrightarrow> R (rc_places c) c" for R by simp
  show ?thesis
    unfolding Recv_def claim sum.case wp_bind [of "State (\<lambda>c. (rc_places c, c))"] get canonical_of_def [symmetric] Let_def Inr
    by (rule made [folded wp_bind])
qed

text \<open>
  A destination appears only complete. Whatever the server and the network send, whatever fails and
  whatever other processes do meanwhile, a successful receive has put the whole verified tree at
  the resolved destination in one step, where there was nothing (or an empty directory), and a
  failed one has put nothing anywhere.
\<close>

theorem Recv_delivers:
  assumes "su_claim env = Inr claim"
    and "run_state (Recv S L net env code destination) c = (r, c')"
  shows "let later = su_meanwhile env (rc_places c); last = su_race env later in
    case r of
      Inl e \<Rightarrow> rc_places c' \<in> {rc_places c, later, last}
    | Inr res \<Rightarrow> (\<exists>dest. resolveDestination (stat_of env (rc_places c)) (su_isdir env) destination
          (canonical_of code) = Inr dest \<and> placed S claim dest last res (rc_places c'))"
  using wp_run [OF wp_Recv [OF assms(1)] assms(2)]
  by (cases r) (auto simp: received_def Let_def split: sum.splits)

section \<open>What arrives is what the server holds\<close>

lemma CreateClaim_live:
  assumes "server_inv S w"
  shows "wp (svc_CreateClaim S now1 now2 token cid code) (\<lambda>r w'. \<forall>claim. r = Inr claim \<longrightarrow>
     (\<exists>i. live_manifest w' i = Some (rs_Manifest claim))) w"
  unfolding svc_CreateClaim_def
proof (rule wp_bindI [OF lookupCommitted_post [OF assms]], goal_cases)
  case (1 r w1)
  show ?case
  proof (cases r)
    case (Inr t)
    have inv1: "server_inv S w1" using 1 by blast
    show ?thesis unfolding Inr sum.case
    proof (rule wp_bindI [OF svc_Manifest_post [OF inv1]], goal_cases)
      case (1 rm w2)
      show ?case
      proof (cases rm)
        case (Inr m)
        then have "live_manifest w2 (t_ID t) = Some m" using 1 by simp
        then show ?thesis unfolding Inr sum.case Let_def
          by (auto intro!: wp_exec wp_exists_in exI [of _ "t_ID t"] simp: outboardsPresent_def split: sum.splits)
      qed simp
    qed
  qed simp
qed

lemma received_there:
  "received S env claim dest ps (Inr res) ps' \<Longrightarrow>
   \<exists>pl. map_of ps' dest = Some (PlaceDir pl) \<and> files_ok S pl (man_Entries (rs_Manifest claim))"
  by (auto simp: received_def placed_def Let_def update_conv')

definition collision :: "server \<Rightarrow> bytes \<Rightarrow> bytes \<Rightarrow> bool" where
  "collision S a b \<longleftrightarrow> a \<noteq> b \<and> lib_blake3 S a = lib_blake3 S b"

text \<open>
  C13: From the server's disk to the receiver's. When a claim was opened on a server that satisfies its
  invariant and the receive that follows succeeds, over whatever network, every file listed is at the
  destination with the very bytes the server holds in its live directory, or BLAKE3 has collided.
\<close>

theorem Recv_end_to_end:
  assumes "server_inv S w"
    and "run_state (svc_CreateClaim S now1 now2 token cid code) w = (Inr claim, w1)"
    and "su_claim env = Inr claim"
    and "run_state (Recv S L net env code destination) c = (Inr res, c')"
  shows "\<exists>i t held dest got. live w1 i = Some t \<and> d_manifest t = Some (rs_Manifest claim) \<and> d_payload t = Some held
    \<and> map_of (rc_places c') dest = Some (PlaceDir got)
    \<and> (\<forall>e\<in>set (man_Entries (rs_Manifest claim)). is_file e \<longrightarrow> (\<exists>k a b p q x y.
         safe_rel (ent_Path e) = Some k \<and> map_of held k = Some (NFile a p x) \<and> map_of got k = Some (NFile b q y)
         \<and> (a = b \<or> collision S a b)))"
proof -
  have inv: "server_inv S w1" using wp_run [OF kept_CreateClaim assms(2)] assms(1) by (simp add: kept_def)
  obtain i t where t: "live w1 i = Some t" "d_manifest t = Some (rs_Manifest claim)"
    using wp_run [OF CreateClaim_live [OF assms(1)] assms(2)] by (auto simp: bind_eq_Some_conv)
  obtain held where held: "d_payload t = Some held" "files_ok S held (man_Entries (rs_Manifest claim))"
    using live_complete [OF inv t(1)] t(2) by (auto simp: dir_complete_def)
  obtain dest got where got: "map_of (rc_places c') dest = Some (PlaceDir got)"
      "files_ok S got (man_Entries (rs_Manifest claim))"
    using wp_run [OF wp_Recv [OF assms(3)] assms(4)]
    by (auto split: sum.splits dest!: received_there)
  have "\<exists>k a b p q x y. safe_rel (ent_Path e) = Some k \<and> map_of held k = Some (NFile a p x)
       \<and> map_of got k = Some (NFile b q y) \<and> (a = b \<or> collision S a b)"
    if "e \<in> set (man_Entries (rs_Manifest claim))" "is_file e" for e
    using held(2) got(2) that by (fastforce simp: files_ok_def file_there_def collision_def)
  then show ?thesis using t held(1) got(1) by blast
qed

section \<open>A receive\<close>

definition sample_claim_run :: "ClaimResponse result \<times> world" where
  "sample_claim_run = run_state (svc_CreateClaim sample_server (1700000200 * second) (1700000201 * second)
     ''tok'' ''c-1'' (FormatCode sample_code)) sample_live_world"

definition sample_surroundings :: surroundings where
  "sample_surroundings = \<lparr>su_claim = map_sum code_string id (fst sample_claim_run), su_unreadable = (\<lambda>_. False),
     su_isdir = (\<lambda>_. True), su_cwd = None, su_meanwhile = (\<lambda>ps. ps), su_race = (\<lambda>ps. ps)\<rparr>"

definition hello_net :: network where
  "hello_net n g = Answer 200 ''hello'' True"

definition hello_lib :: client_lib where
  "hello_lib = \<lparr>cl_envelope = (\<lambda>_. None), cl_verify = (\<lambda>_ _ _ _. False), cl_blake3 = lib_blake3 sample_server\<rparr>"

definition sample_receiver :: receiver where
  "sample_receiver = \<lparr>rc_world = sample_world\<lparr>w_staging := []\<rparr>, rc_requests = 0, rc_faults = [], rc_places = []\<rparr>"

definition sample_recv_run :: "(string + RecvResult) \<times> receiver" where
  "sample_recv_run = run_state (Recv sample_server hello_lib hello_net sample_surroundings
     (FormatCode sample_code) ''/out'') sample_receiver"

lemma sample_claim_ok: "case fst sample_claim_run of Inl _ \<Rightarrow> False | Inr _ \<Rightarrow> True"
  by code_simp

lemma sample_recv_ok: "case fst sample_recv_run of Inl _ \<Rightarrow> False | Inr _ \<Rightarrow> True"
  by code_simp

lemma sample_claim_surroundings:
  obtains claim where "fst sample_claim_run = Inr claim" "su_claim sample_surroundings = Inr claim"
  using sample_claim_ok by (auto simp: sample_surroundings_def split: sum.splits)

lemma sample_recv_run:
  obtains res where "run_state (Recv sample_server hello_lib hello_net sample_surroundings
     (FormatCode sample_code) ''/out'') sample_receiver = (Inr res, snd sample_recv_run)"
  using sample_recv_ok unfolding sample_recv_run_def by (auto simp: prod_eq_iff split: sum.splits)

theorem Recv_delivers_witness:
  "\<exists>claim res dest. placed sample_server claim dest [] res (rc_places (snd sample_recv_run))"
proof -
  obtain claim where c: "su_claim sample_surroundings = Inr claim" by (rule sample_claim_surroundings)
  obtain res where r: "run_state (Recv sample_server hello_lib hello_net sample_surroundings
     (FormatCode sample_code) ''/out'') sample_receiver = (Inr res, snd sample_recv_run)" by (rule sample_recv_run)
  from Recv_delivers [OF c r] show ?thesis
    by (auto simp: Let_def sample_surroundings_def sample_receiver_def)
qed

theorem Recv_end_to_end_witness:
  "\<exists>i t held dest got. live (snd sample_claim_run) i = Some t \<and> d_payload t = Some held
    \<and> map_of (rc_places (snd sample_recv_run)) dest = Some (PlaceDir got)"
proof -
  obtain claim where c: "fst sample_claim_run = Inr claim" "su_claim sample_surroundings = Inr claim"
    by (rule sample_claim_surroundings)
  then have run: "run_state (svc_CreateClaim sample_server (1700000200 * second) (1700000201 * second)
     ''tok'' ''c-1'' (FormatCode sample_code)) sample_live_world = (Inr claim, snd sample_claim_run)"
    by (simp add: sample_claim_run_def prod_eq_iff)
  obtain res where r: "run_state (Recv sample_server hello_lib hello_net sample_surroundings
     (FormatCode sample_code) ''/out'') sample_receiver = (Inr res, snd sample_recv_run)" by (rule sample_recv_run)
  from Recv_end_to_end [OF sample_live_inv run c(2) r] show ?thesis
    by (elim exE conjE) (intro exI conjI; assumption)
qed

text \<open>
  A working directory left by a receive that was killed before its rename is used again by the
  next receive to the same destination, whatever its code: what the first one materialized is
  delivered along with the second transfer.
\<close>

definition stale_receiver :: receiver where
  "stale_receiver = sample_receiver\<lparr>rc_world := sample_world\<lparr>w_staging :=
     [(partial_path ''/out'', empty_tdir\<lparr>d_payload := Some [(''stale'', NFile ''old'' 420 0)]\<rparr>)]\<rparr>\<rparr>"

lemma Recv_delivers_stale:
  "case run_state (Recv sample_server hello_lib hello_net sample_surroundings (FormatCode sample_code) ''/out'')
      stale_receiver of (r, c') \<Rightarrow>
     (case r of Inl _ \<Rightarrow> False | Inr _ \<Rightarrow> (case map_of (rc_places c') ''/out'' of
        Some (PlaceDir pl) \<Rightarrow> map_of pl ''stale'' = Some (NFile ''old'' 420 0) | _ \<Rightarrow> False))"
  by code_simp

end
