(* ===== verification/SSS_Sender.thy ===== *)
theory SSS_Sender
  imports SSS_Send SSS_Transmit SSS_Fingerprint SSS_Recv SSS_Api
begin

text \<open>
  The sending client as a whole (\<^verbatim>\<open>Send\<close>, \<^verbatim>\<open>uploadSegments\<close> and the session file of
  \<^verbatim>\<open>internal/client/send.go\<close>), run against the server model: scan, build or reuse packs, create or
  resume a transfer, upload, commit. The theorems show that the code a send returns opens what
  was scanned, that a lost answer to the commit is repaired by sending again, and, with the
  receiving client, that the receiver gets the bytes the sender scanned.
\<close>

section \<open>The sender's state\<close>

text \<open>The session file; a file that cannot be decoded, or has no upload map, is as good as absent.\<close>

record session =
  sn_Fingerprint :: string
  sn_TransferID :: string
  sn_Uploads :: "(string \<times> string) list"
  sn_Packs :: "(string \<times> pack_ref) list"
  sn_CreatedAt :: time
  sn_ServerURL :: string

record sender =
  sd_world :: world
  sd_sessions :: "(string \<times> session) list"
  sd_packs :: "(string \<times> bytes) list"

type_synonym 'a sending = "(sender, 'a) state"

definition on_server :: "'a svc \<Rightarrow> 'a sending" where
  "on_server m = State (\<lambda>s. case run_state m (sd_world s) of (x, w) \<Rightarrow> (x, s\<lparr>sd_world := w\<rparr>))"

text \<open>A request may be lost, or its answer, or both arrive.\<close>

datatype fate = LostRequest | LostAnswer | Arrives

definition exchange :: "fate \<Rightarrow> ('a result) svc \<Rightarrow> ('a result) sending" where
  "exchange f m = (case f of
     LostRequest \<Rightarrow> return (Inl ErrNetwork)
   | LostAnswer \<Rightarrow> do { _ \<leftarrow> on_server m; return (Inl ErrNetwork) }
   | Arrives \<Rightarrow> on_server m)"

text \<open>
  What the surroundings decide: the sources (as the scan and the re-check see them), the builder
  of packs, the order of the map of raw files, whether the session file can be written, what
  happens to each request, and the server's draws and clock readings.
\<close>

record send_env =
  sv_cwd :: "string option"
  sv_lfs :: "string \<Rightarrow> local_node"
  sv_recheck :: "string \<Rightarrow> local_node"
  sv_URL :: string
  sv_StateDir :: string
  sv_build :: "pack_spec \<Rightarrow> bytes result"
  sv_order :: "(string \<times> source) list \<Rightarrow> (string \<times> source) list"
  sv_saves :: bool
  sv_head :: bool
  sv_create :: fate
  sv_usage :: "disk_usage option"
  sv_createdAt :: time
  sv_id :: string
  sv_uploadIDs :: "nat \<Rightarrow> string"
  sv_attempt :: "string \<Rightarrow> nat \<Rightarrow> attempt"
  sv_now :: time
  sv_commit :: fate
  sv_draws :: "nat \<Rightarrow> 8 word list"
  sv_committedAt :: time

record send_opts =
  so_Roots :: "string list"
  so_Note :: string
  so_TTLMinutes :: int

record SendResult =
  sr_Code :: string
  sr_CommittedAt :: time
  sr_ExpiresAt :: time
  sr_Files :: nat
  sr_Bytes :: int
  sr_Resumed :: bool

section \<open>The session file and the packs\<close>

definition loadSession :: "string \<Rightarrow> string \<Rightarrow> string \<Rightarrow> (session option) sending" where
  "loadSession path fp url = State (\<lambda>s. (case map_of (sd_sessions s) path of None \<Rightarrow> None | Some ss \<Rightarrow>
     if sn_Fingerprint ss \<noteq> fp \<or> sn_TransferID ss = [] \<or> sn_ServerURL ss \<noteq> url then None else Some ss, s))"

definition saveSession :: "bool \<Rightarrow> string \<Rightarrow> session \<Rightarrow> bool sending" where
  "saveSession ok path ss = State (\<lambda>s. if ok then (True, s\<lparr>sd_sessions := AList.update path ss (sd_sessions s)\<rparr>)
     else (False, s))"

definition removeSession :: "string \<Rightarrow> session \<Rightarrow> unit sending" where
  "removeSession path ss = State (\<lambda>s. ((), s\<lparr>sd_sessions := AList.delete path (sd_sessions s),
     sd_packs := filter (\<lambda>(p, _). p \<notin> ref_Path ` snd ` set (sn_Packs ss)) (sd_packs s)\<rparr>))"

definition packUsable :: "pack_ref \<Rightarrow> (string \<times> bytes) list \<Rightarrow> bool" where
  "packUsable ref files = (case map_of files (ref_Path ref) of None \<Rightarrow> False
     | Some b \<Rightarrow> int (length b) = ref_Size ref)"

text \<open>\<^verbatim>\<open>pack.Build\<close>: the builder's bytes become the file of the pack.\<close>

definition Build :: "server \<Rightarrow> send_env \<Rightarrow> pack_spec \<Rightarrow> string \<Rightarrow> (pack_ref result) sending" where
  "Build S env spec dir = (case sv_build env spec of Inl e \<Rightarrow> return (Inl e) | Inr b \<Rightarrow>
     let path = path_join dir (ps_SegmentID spec @ ''.tar.zst'')
     in State (\<lambda>s. (Inr \<lparr>ref_Path = path, ref_Size = int (length b), ref_Digest = lib_blake3 S b\<rparr>,
          s\<lparr>sd_packs := AList.update path b (sd_packs s)\<rparr>)))"

fun build_packs ::
  "server \<Rightarrow> send_env \<Rightarrow> session option \<Rightarrow> string \<Rightarrow> pack_spec list
   \<Rightarrow> (((string \<times> pack_ref) list) result) sending" where
  "build_packs S env sess dir [] = return (Inr [])"
| "build_packs S env sess dir (spec # specs) = do {
     files \<leftarrow> State (\<lambda>s. (sd_packs s, s));
     let reused = (case sess of None \<Rightarrow> None | Some ss \<Rightarrow>
       (case map_of (sn_Packs ss) (ps_SegmentID spec) of None \<Rightarrow> None
        | Some ref \<Rightarrow> if packUsable ref files then Some ref else None));
     built \<leftarrow> (case reused of Some ref \<Rightarrow> return (Inr ref) | None \<Rightarrow> Build S env spec dir);
     case built of Inl e \<Rightarrow> return (Inl e) | Inr ref \<Rightarrow> do {
       rest \<leftarrow> build_packs S env sess dir specs;
       return (case rest of Inl e \<Rightarrow> Inl e | Inr refs \<Rightarrow> Inr ((ps_SegmentID spec, ref) # refs))
     }
   }"

text \<open>A missing key of the Go map reads as the zero reference; every pack of the plan has one.\<close>

definition pack_of :: "(string \<times> pack_ref) list \<Rightarrow> string \<Rightarrow> pack_ref" where
  "pack_of refs i = (case map_of refs i of Some ref \<Rightarrow> ref
     | None \<Rightarrow> \<lparr>ref_Path = [], ref_Size = 0, ref_Digest = []\<rparr>)"

section \<open>Uploading\<close>

text \<open>The upload identifier the server's router takes from an upload path.\<close>

definition upload_of :: "string \<Rightarrow> string" where
  "upload_of path = drop (length ''/v1/uploads/'') path"

definition sessionAlive :: "send_env \<Rightarrow> session \<Rightarrow> bool sending" where
  "sessionAlive env ss = (case sn_Uploads ss of [] \<Rightarrow> return False | (_, path) # _ \<Rightarrow> do {
     r \<leftarrow> on_server (client_UploadOffset (sv_head env) (upload_of path));
     return (case r of Inl _ \<Rightarrow> False | Inr _ \<Rightarrow> True)
   })"

record job =
  jb_SegmentID :: string
  jb_Pack :: "string option"
  jb_Length :: int

definition jobs :: "(string \<times> source) list \<Rightarrow> (string \<times> pack_ref) list \<Rightarrow> job list" where
  "jobs raws refs =
     map (\<lambda>(segID, src). \<lparr>jb_SegmentID = segID, jb_Pack = None, jb_Length = src_Size src\<rparr>) raws
     @ map (\<lambda>(segID, ref). \<lparr>jb_SegmentID = segID, jb_Pack = Some (ref_Path ref), jb_Length = ref_Size ref\<rparr>) refs"

text \<open>
  The jobs in order; the code runs a bounded number at a time, each on its own segment, and
  stops handing out jobs after a failure. A pack is read from its file.
\<close>

fun uploadSegments :: "server \<Rightarrow> send_env \<Rightarrow> session \<Rightarrow> job list \<Rightarrow> errcode option sending" where
  "uploadSegments S env ss [] = return None"
| "uploadSegments S env ss (j # js) =
     (case map_of (sn_Uploads ss) (jb_SegmentID j) of
        None \<Rightarrow> return (Some ErrStateConflict)
      | Some path \<Rightarrow> if path = [] then return (Some ErrStateConflict) else do {
          files \<leftarrow> State (\<lambda>s. (sd_packs s, s));
          failure \<leftarrow> on_server (uploadOne S (upload_of path) (jb_Length j) (\<lambda>k.
            case jb_Pack j of None \<Rightarrow> sv_attempt env (jb_SegmentID j) k
            | Some p \<Rightarrow> (sv_attempt env (jb_SegmentID j) k)\<lparr>at_source := map_of files p\<rparr>));
          case failure of Some e \<Rightarrow> return (Some e) | None \<Rightarrow> uploadSegments S env ss js
        })"

section \<open>Sending\<close>

definition session_path :: "send_env \<Rightarrow> string \<Rightarrow> string" where
  "session_path env fp = path_joins [sv_StateDir env, ''sessions'', fp @ ''.json'']"

text \<open>The transfer to upload to: the one of the session, or a new one.\<close>

definition open_transfer ::
  "server \<Rightarrow> send_env \<Rightarrow> string \<Rightarrow> string \<Rightarrow> create_req \<Rightarrow> (string \<times> pack_ref) list \<Rightarrow> session option
   \<Rightarrow> (session result) sending" where
  "open_transfer S env path fp req refs resumed = (case resumed of
     Some ss \<Rightarrow> do {
       _ \<leftarrow> saveSession (sv_saves env) path (ss\<lparr>sn_Packs := refs\<rparr>);
       return (Inr (ss\<lparr>sn_Packs := refs\<rparr>))
     }
   | None \<Rightarrow> do {
       created \<leftarrow> exchange (sv_create env)
         (svc_CreateTransfer S (sv_usage env) (sv_createdAt env) (sv_id env) (sv_uploadIDs env) req);
       case created of Inl e \<Rightarrow> return (Inl e) | Inr (transferID, us) \<Rightarrow> do {
         let ss = \<lparr>sn_Fingerprint = fp, sn_TransferID = transferID,
           sn_Uploads = map (\<lambda>u. (ur_SegmentID u, ur_UploadPath u)) us, sn_Packs = refs,
           sn_CreatedAt = sv_now env, sn_ServerURL = sv_URL env\<rparr>;
         saved \<leftarrow> saveSession (sv_saves env) path ss;
         return (if saved then Inr ss else Inl ErrDestinationExists)
       }
     })"

text \<open>Upload and commit once the transfer is open.\<close>

definition finish_send ::
  "server \<Rightarrow> send_env \<Rightarrow> send_opts \<Rightarrow> plan \<Rightarrow> string \<Rightarrow> (string \<times> pack_ref) list \<Rightarrow> session \<Rightarrow> bool
   \<Rightarrow> (SendResult result) sending" where
  "finish_send S env opts plan path refs ss resumed = do {
     failure \<leftarrow> uploadSegments S env ss (jobs (sv_order env (plan_RawFiles plan)) refs);
     case failure of Some e \<Rightarrow> return (Inl e) | None \<Rightarrow> do {
       commit \<leftarrow> exchange (sv_commit env) (do {
         r \<leftarrow> svc_Commit S (sv_draws env) (sv_committedAt env) (sn_TransferID ss)
           (send_manifest plan (sn_TransferID ss) (sv_now env) (so_Note opts)
              (sv_order env (plan_RawFiles plan)) (pack_of refs));
         return (map_sum id fst r) });
       case commit of Inl e \<Rightarrow> return (Inl e) | Inr resp \<Rightarrow> do {
         _ \<leftarrow> removeSession path ss;
         return (Inr \<lparr>sr_Code = cp_Code resp, sr_CommittedAt = cp_CommittedAt resp,
           sr_ExpiresAt = cp_ExpiresAt resp, sr_Files = plan_FileCount plan, sr_Bytes = plan_TotalBytes plan,
           sr_Resumed = resumed\<rparr>)
       }
     }
   }"

text \<open>What follows once the session file is read and the sources are unchanged.\<close>

definition send_loaded ::
  "server \<Rightarrow> send_env \<Rightarrow> send_opts \<Rightarrow> plan \<Rightarrow> string \<Rightarrow> session option \<Rightarrow> (SendResult result) sending" where
  "send_loaded S env opts plan fp loaded = do {
     built \<leftarrow> build_packs S env loaded (path_joins [sv_StateDir env, ''packs'', fp]) (plan_Packs plan);
     case built of Inl e \<Rightarrow> return (Inl e) | Inr refs \<Rightarrow> do {
       alive \<leftarrow> (case loaded of None \<Rightarrow> return False | Some ss \<Rightarrow> sessionAlive env ss);
       _ \<leftarrow> (case loaded of None \<Rightarrow> return () | Some ss \<Rightarrow>
         if alive then return () else removeSession (session_path env fp) ss);
       opened \<leftarrow> open_transfer S env (session_path env fp) fp
         (create_request plan (so_TTLMinutes opts) (so_Note opts)
            (sv_order env (plan_RawFiles plan)) (pack_of refs)) refs
         (if alive then loaded else None);
       case opened of Inl e \<Rightarrow> return (Inl e)
       | Inr ss \<Rightarrow> finish_send S env opts plan (session_path env fp) refs ss alive
     }
   }"

definition Send :: "server \<Rightarrow> send_env \<Rightarrow> send_opts \<Rightarrow> (SendResult result) sending" where
  "Send S env opts =
     (case Scan (lib_unicode S) (lib_blake3 S) (sv_cwd env) (sv_lfs env) (so_Roots opts) of
        Inl e \<Rightarrow> return (Inl e)
      | Inr plan \<Rightarrow> do {
          let fp = Fingerprint (lib_blake3 S) plan (so_Note opts) (so_TTLMinutes opts);
          loaded \<leftarrow> loadSession (session_path env fp) fp (sv_URL env);
          case loaded of None \<Rightarrow> send_loaded S env opts plan fp None
          | Some ss \<Rightarrow> (case VerifyUnchanged (sv_recheck env) plan of
              Some e \<Rightarrow> do { _ \<leftarrow> removeSession (session_path env fp) ss; return (Inl e) }
            | None \<Rightarrow> send_loaded S env opts plan fp (Some ss))
        })"

section \<open>What sending leaves alone\<close>

text \<open>A transfer of which no row has a code; and no operation before the commit gives one.\<close>

definition codeless :: "string \<Rightarrow> world \<Rightarrow> bool" where
  "codeless i w \<longleftrightarrow> (\<forall>r. trow (w_db w) i = Some r \<longrightarrow> tr_code r = None)"

definition gives_no_code :: "string \<Rightarrow> world \<Rightarrow> world \<Rightarrow> bool" where
  "gives_no_code i w w' \<longleftrightarrow> (codeless i w \<longrightarrow> codeless i w')"

interpretation ncode: effect "gives_no_code i" for i
  by unfold_locales (auto simp: gives_no_code_def)

lemma ncode_db: "w_db w' = w_db w \<Longrightarrow> gives_no_code i w w'"
  by (simp add: gives_no_code_def codeless_def)

lemma ncode_exec:
  assumes "\<And>ok d r'. trow (snd (f ok d)) i = Some r' \<Longrightarrow> tr_code r' = None \<or> (\<exists>r. trow d i = Some r \<and> tr_code r' = tr_code r)"
  shows "wp (exec f) (\<lambda>_. gives_no_code i w) w"
  by (rule wp_exec) (use assms in \<open>fastforce simp: gives_no_code_def codeless_def\<close>)

lemma ncode_execs:
  "wp (exec (\<lambda>ok. db_SetSegmentProgress ok a b n st)) (\<lambda>_. gives_no_code i w) w"
  "wp (exec (\<lambda>ok. db_AddWireBytes ok a n)) (\<lambda>_. gives_no_code i w) w"
  "wp (exec (\<lambda>ok. db_InsertSegment ok seg)) (\<lambda>_. gives_no_code i w) w"
  "wp (exec (\<lambda>ok. db_SetState ok a ts)) (\<lambda>_. gives_no_code i w) w"
  "wp (exec (\<lambda>ok. db_Purge ok a)) (\<lambda>_. gives_no_code i w) w"
  by (rule ncode_exec; auto simp: db_SetSegmentProgress_def db_AddWireBytes_def db_InsertSegment_def db_SetState_def
      db_Purge_def db_write_def Let_def purge_rows_def tbl_find_delete tbl_find_modify split: if_splits option.splits)+

lemma ncode_create: "wp (exec (\<lambda>ok. db_CreateTransfer ok (new_transfer S j now ttl note n))) (\<lambda>_. gives_no_code i w) w"
proof (rule ncode_exec)
  fix ok d r' assume r': "trow (snd (db_CreateTransfer ok (new_transfer S j now ttl note n) d)) i = Some r'"
  show "tr_code r' = None \<or> (\<exists>r. trow d i = Some r \<and> tr_code r' = tr_code r)"
  proof (cases "db_CreateTransfer ok (new_transfer S j now ttl note n) d")
    case (Pair res d')
    show ?thesis
    proof (cases res)
      case (Inl e)
      then have "d' = d" using Pair by (auto simp: db_CreateTransfer_def db_write_def split: if_splits option.splits)
      then show ?thesis using r' Pair by auto
    next
      case (Inr u)
      from db_CreateTransfer_Inr(3) [OF Pair [unfolded Inr]] r' Pair show ?thesis
        by (auto simp: tbl_find_append new_row_def new_transfer_def nullString_def split: option.splits if_splits)
    qed
  qed
qed

lemma ncode_staging:
  "wp io (\<lambda>_. gives_no_code i w) w" "wp (query f) (\<lambda>_. gives_no_code i w) w"
  "wp (stage j g) (\<lambda>_. gives_no_code i w) w" "wp (RemoveStaging j) (\<lambda>_. gives_no_code i w) w"
  "wp (PrepareStaging j) (\<lambda>_. gives_no_code i w) w"
proof -
  show "wp io (\<lambda>_. gives_no_code i w) w" by (rule wp_io) (simp add: ncode_db)
  show "wp (query f) (\<lambda>_. gives_no_code i w) w" by (rule wp_query) (simp add: ncode_db)
  show "wp (stage j g) (\<lambda>_. gives_no_code i w) w" by (rule wp_stage_frame) (simp_all add: ncode_db staging_onlyD(1))
  show "wp (RemoveStaging j) (\<lambda>_. gives_no_code i w) w" by (rule wp_RemoveStaging) (simp add: ncode_db staging_onlyD(1))
  show "wp (PrepareStaging j) (\<lambda>_. gives_no_code i w) w"
    by (rule wp_frame [OF PrepareStaging_frame]) (simp add: ncode_db staging_onlyD(1))
qed

lemmas ncode_prims = ncode_execs ncode_create ncode_staging

lemma ncode_insert_segments: "wp (insert_segments j us n segs) (\<lambda>_. gives_no_code i w) w"
proof (induction segs arbitrary: n w)
  case Nil
  show ?case by (simp add: ncode.refl)
next
  case (Cons seg segs)
  show ?case unfolding insert_segments.simps by (intro ncode.steps ncode_prims Cons.IH)
qed

lemma ncode_CreateTransfer: "wp (svc_CreateTransfer S usage now j us req) (\<lambda>_. gives_no_code i w) w"
  unfolding svc_CreateTransfer_def svc_Admit_def
  by (intro ncode.steps ncode_prims ncode_insert_segments)

lemma ncode_patch_loop: "wp (patch_loop S disk j sid offset remaining cs eof n s k) (\<lambda>_. gives_no_code i w) w"
proof (induction cs arbitrary: n s k w)
  case Nil
  show ?case by (simp add: ncode.refl)
next
  case (Cons c cs)
  show ?case unfolding patch_loop.simps SSS_Upload.on_segments_def by (intro ncode.steps ncode_prims Cons.IH)
qed

lemma ncode_UploadPatch: "wp (UploadPatch S disk uid offset chunks eof) (\<lambda>_. gives_no_code i w) w"
  unfolding UploadPatch_def finishPatch_def SSS_Upload.on_segments_def
  by (intro ncode.steps ncode_prims ncode_patch_loop)

text \<open>Both together, through the client's loop.\<close>

definition calm :: "server \<Rightarrow> string \<Rightarrow> world \<Rightarrow> world \<Rightarrow> bool" where
  "calm S i w w' \<longleftrightarrow> kept S w w' \<and> gives_no_code i w w'"

interpretation calm: effect "calm S i" for S i
  by unfold_locales (auto simp: calm_def kept_def gives_no_code_def)

lemma calm_wp: "wp m (\<lambda>_. kept S w) w \<Longrightarrow> wp m (\<lambda>_. gives_no_code i w) w \<Longrightarrow> wp m (\<lambda>_. calm S i w) w"
  unfolding calm_def by (rule wp_conj)

lemma calm_UploadPatch: "wp (UploadPatch S disk uid offset chunks eof) (\<lambda>_. calm S i w) w"
  by (rule calm_wp [OF kept_UploadPatch ncode_UploadPatch])

lemma calm_UploadState: "wp (UploadState uid) (\<lambda>_. calm S i w) w"
  unfolding UploadState_def by (intro calm.steps calm_wp kept_prims ncode_prims)

lemma calm_client:
  "wp (client_UploadOffset h uid) (\<lambda>_. calm S i w) w" "wp (client_UploadPatch S disk uid offset d) (\<lambda>_. calm S i w) w"
proof -
  show "wp (client_UploadOffset h uid) (\<lambda>_. calm S i w) w"
    unfolding client_UploadOffset_def by (intro calm.steps calm_UploadState)
  show "wp (client_UploadPatch S disk uid offset d) (\<lambda>_. calm S i w) w"
    by (cases d) (simp_all only: client_UploadPatch_def delivery.case, (intro calm.steps calm_UploadPatch)+)
qed

lemma calm_uploadOne: "wp (uploadOne S uid len env) (\<lambda>_. calm S i w) w"
proof -
  have "wp (upload_attempts S uid len as) (\<lambda>_. calm S i w) w" for as w
  proof (induction as arbitrary: w)
    case Nil
    show ?case unfolding upload_attempts.simps by (rule calm.ret)
  next
    case (Cons a as)
    show ?case unfolding upload_attempts.simps by (intro calm.steps calm_client Cons.IH)
  qed
  then show ?thesis unfolding uploadOne_def .
qed

section \<open>What the steps of a send establish\<close>

lemma wp_on_server: "wp m (\<lambda>x w. Q x (s\<lparr>sd_world := w\<rparr>)) (sd_world s) \<Longrightarrow> wp (on_server m) Q s"
  by (simp add: on_server_def wp_def split: prod.splits)

lemma calm_uploadSegments:
  "wp (uploadSegments S env ss js) (\<lambda>_ s'. calm S i (sd_world s) (sd_world s')) s"
proof (induction js arbitrary: s)
  case Nil
  show ?case by (simp add: calm.refl)
next
  case (Cons j js)
  have step: "wp (on_server (uploadOne S uid len env')) (\<lambda>e s'. wp (case e of Some e \<Rightarrow> return (Some e)
        | None \<Rightarrow> uploadSegments S env ss js) (\<lambda>_ s'. calm S i (sd_world s) (sd_world s')) s') s" for uid len env'
  proof (rule wp_on_server, rule wp_mono [OF calm_uploadOne [where i = i]], goal_cases)
    case (1 e w')
    show ?case
    proof (cases e)
      case None
      show ?thesis unfolding None option.case
        by (rule wp_mono [OF Cons.IH]) (use 1 calm.trans in fastforce)
    qed (use 1 in simp)
  qed
  show ?case by (auto simp: calm.refl step split: option.splits)
qed

text \<open>Following the branches of a program when only its result matters.\<close>

lemma branch_if: "wp m Q w \<Longrightarrow> wp n Q w \<Longrightarrow> wp (if b then m else n) Q w"
  by simp

lemma branch_option: "wp m Q w \<Longrightarrow> (\<And>x. wp (f x) Q w) \<Longrightarrow> wp (case v of None \<Rightarrow> m | Some x \<Rightarrow> f x) Q w"
  by (cases v) simp_all

lemma branch_sum: "(\<And>e. wp (g e) Q w) \<Longrightarrow> (\<And>x. wp (f x) Q w) \<Longrightarrow> wp (case v of Inl e \<Rightarrow> g e | Inr x \<Rightarrow> f x) Q w"
  by (cases v) simp_all

lemma branch_let: "(\<And>x. wp (f x) Q w) \<Longrightarrow> wp (Let v f) Q w"
  by simp

lemmas branches = branch_if branch_option branch_sum branch_let wp_skip

lemma Commit_first:
  assumes "codeless i w"
  shows "wp (svc_Commit S draws now i m) (\<lambda>r _. \<forall>resp. r \<noteq> Inr (resp, False)) w"
  unfolding svc_Commit_def
proof (rule wp_bindI [of _ "\<lambda>r _. \<forall>t. r = Inr t \<longrightarrow> (\<exists>row. trow (w_db w) i = Some row \<and> t = scanTransfer row)"], goal_cases)
  case 1
  show ?case by (rule wp_query) (auto simp: db_GetTransfer_def db_read_def split: option.splits if_splits)
next
  case (2 r w1)
  show ?case
  proof (cases r)
    case (Inr t)
    then have "\<not> Committed t" using 2 assms by (auto simp: codeless_def Committed_def string_of_null_def)
    then show ?thesis unfolding Inr sum.case
      by (simp only: if_False) (intro branches, auto split: sum.splits)
  qed simp
qed

lemma build_packs_client:
  "wp (build_packs S env sess dir specs) (\<lambda>_ s'. sd_world s' = sd_world s \<and> sd_sessions s' = sd_sessions s) s"
proof (induction specs arbitrary: s)
  case Nil
  show ?case by simp
next
  case (Cons spec specs)
  have build: "wp (Build S env spec dir) (\<lambda>_ s'. sd_world s' = sd_world s \<and> sd_sessions s' = sd_sessions s) s" for s
    by (simp add: Build_def Let_def split: sum.split)
  have rest: "wp (case b of Inl e \<Rightarrow> return (Inl e) | Inr ref \<Rightarrow> do {
       rest \<leftarrow> build_packs S env sess dir specs;
       return (case rest of Inl e \<Rightarrow> Inl e | Inr refs \<Rightarrow> Inr ((ps_SegmentID spec, ref) # refs)) })
     (\<lambda>_ s'. sd_world s' = sd_world s \<and> sd_sessions s' = sd_sessions s) u"
    if "sd_world u = sd_world s" "sd_sessions u = sd_sessions s" for b u
    using Cons.IH [of u] that by (cases b) (simp_all add: wp_return_fun)
  have "wp (case v of Some ref \<Rightarrow> return (Inr ref) | None \<Rightarrow> Build S env spec dir)
      (\<lambda>b u. wp (case b of Inl e \<Rightarrow> return (Inl e) | Inr ref \<Rightarrow> do {
       rest \<leftarrow> build_packs S env sess dir specs;
       return (case rest of Inl e \<Rightarrow> Inl e | Inr refs \<Rightarrow> Inr ((ps_SegmentID spec, ref) # refs)) })
     (\<lambda>_ s'. sd_world s' = sd_world s \<and> sd_sessions s' = sd_sessions s) u) s" for v
    using rest [of s] Cons.IH [of s]
    by (cases v) (auto intro: wp_mono [OF build] rest simp: wp_return_fun)
  then show ?case by (simp add: Let_def)
qed

lemma alive_client:
  "wp (sessionAlive env ss) (\<lambda>_ s'. faults_only (sd_world s) (sd_world s') \<and> sd_sessions s' = sd_sessions s) s"
proof -
  have "wp (client_UploadOffset h uid) (\<lambda>_. faults_only w) w" for h uid w
    by (simp add: client_UploadOffset_def UploadState_def) (auto intro!: wp_query)
  then have "wp (on_server (client_UploadOffset (sv_head env) (upload_of path)))
      (\<lambda>_ s'. faults_only (sd_world s) (sd_world s') \<and> sd_sessions s' = sd_sessions s) s" for path
    by (intro wp_on_server) simp
  then show ?thesis by (auto simp: sessionAlive_def wp_return_fun split: list.splits)
qed

lemma unused_faults: "faults_only w w' \<Longrightarrow> unused i w' = unused i w"
  by (auto simp: faults_only_def unused_def)

lemma codeless_faults: "faults_only w w' \<Longrightarrow> codeless i w' = codeless i w"
  by (auto simp: faults_only_def codeless_def)

lemma CreateTransfer_id: "wp (svc_CreateTransfer S usage now i us req) (\<lambda>r _. \<forall>x. r = Inr x \<longrightarrow> fst x = i) w"
  unfolding svc_CreateTransfer_def by (intro branches; auto split: sum.splits)

lemma wp_exchange:
  assumes "\<And>s'. sd_world s' = sd_world s \<Longrightarrow> Q (Inl ErrNetwork) s'" and "wp (on_server m) (\<lambda>r s'. Q r s' \<and> Q (Inl ErrNetwork) s') s"
  shows "wp (exchange f m) Q s"
  using assms(1) [of s] assms(2) by (cases f) (auto simp: exchange_def elim!: wp_mono)

definition ready :: "server \<Rightarrow> string \<Rightarrow> sender \<Rightarrow> bool" where
  "ready S i s \<longleftrightarrow> server_inv S (sd_world s) \<and> codeless i (sd_world s)"

lemma open_transfer_ready:
  assumes "config_ok S" and "server_inv S (sd_world s)" and "unused (sv_id env) (sd_world s)"
    and "\<And>ss. resumed = Some ss \<Longrightarrow> codeless (sn_TransferID ss) (sd_world s)"
  shows "wp (open_transfer S env path fp req refs resumed) (\<lambda>r s'. \<forall>ss. r = Inr ss \<longrightarrow> ready S (sn_TransferID ss) s') s"
proof (cases resumed)
  case (Some ss)
  then show ?thesis using assms(2) assms(4) [OF Some] by (simp add: open_transfer_def saveSession_def ready_def)
next
  case None
  let ?i = "sv_id env"
  have none: "codeless ?i (sd_world s)" using assms(3) by (simp add: unused_def codeless_def)
  have c: "wp (svc_CreateTransfer S (sv_usage env) (sv_createdAt env) ?i (sv_uploadIDs env) req)
      (\<lambda>r w'. (\<forall>x. r = Inr x \<longrightarrow> fst x = ?i) \<and> server_inv S w' \<and> codeless ?i w') (sd_world s)"
    using wp_conj [OF CreateTransfer_id wp_conj [OF inv_svc_CreateTransfer [OF assms(2,1,3)] ncode_CreateTransfer]]
    by (rule wp_mono) (use none in \<open>auto simp: gives_no_code_def\<close>)
  show ?thesis unfolding open_transfer_def None option.case wp_bind
    by (rule wp_exchange, simp, rule wp_on_server, rule wp_mono [OF c])
      (auto simp: Let_def saveSession_def ready_def split: sum.splits)
qed

text \<open>A send has succeeded when its transfer is committed with the scanned entries under the code.\<close>

definition committed_as :: "server \<Rightarrow> send_opts \<Rightarrow> plan \<Rightarrow> SendResult \<Rightarrow> world \<Rightarrow> bool" where
  "committed_as S opts plan res w \<longleftrightarrow> (\<exists>i p r c. server_inv S w \<and> live_manifest w i = Some p
     \<and> man_Entries p = plan_Entries plan \<and> man_Roots p = plan_Roots plan \<and> man_Note p = so_Note opts
     \<and> trow (w_db w) i = Some r \<and> tr_code r = Some c \<and> tr_state r = StateCommitted \<and> canonical_code c
     \<and> sr_Code res = FormatCode c \<and> sr_ExpiresAt res = t_ExpiresAt (scanTransfer r))"

lemma finish_send_commits:
  assumes "ready S (sn_TransferID ss) s" and "0 \<le> sv_committedAt env" and "\<And>k. length (sv_draws env k) = CodeLength"
  shows "wp (finish_send S env opts plan path refs ss resumed)
     (\<lambda>r s'. \<forall>res. r = Inr res \<longrightarrow> committed_as S opts plan res (sd_world s')) s"
  unfolding finish_send_def wp_bind
proof (rule wp_mono [OF calm_uploadSegments [where i = "sn_TransferID ss"]], goal_cases)
  case (1 failure u)
  then have u: "server_inv S (sd_world u)" "codeless (sn_TransferID ss) (sd_world u)"
    using assms(1) by (auto simp: calm_def kept_def gives_no_code_def ready_def)
  let ?m = "send_manifest plan (sn_TransferID ss) (sv_now env) (so_Note opts)
              (sv_order env (plan_RawFiles plan)) (pack_of refs)"
  let ?commit = "svc_Commit S (sv_draws env) (sv_committedAt env) (sn_TransferID ss) ?m"
  have run: "committed_as S opts plan res w'"
    if "run_state ?commit (sd_world u) = (Inr (resp, b), w')" "res = \<lparr>sr_Code = cp_Code resp, sr_CommittedAt = cp_CommittedAt resp,
           sr_ExpiresAt = cp_ExpiresAt resp, sr_Files = plan_FileCount plan, sr_Bytes = plan_TotalBytes plan,
           sr_Resumed = resumed\<rparr>" for resp b w' res
  proof -
    have "b = True" using wp_run [OF Commit_first [OF u(2)] that(1)] by (cases b) auto
    from Commit_run [OF u(1) that(1) [unfolded this] assms(2,3)] obtain p r c where
      "server_inv S w'" "publishes ?m p" "live_manifest w' (sn_TransferID ss) = Some p"
      "trow (w_db w') (sn_TransferID ss) = Some r" "tr_code r = Some c" "tr_state r = StateCommitted" "canonical_code c"
      "resp = \<lparr>cp_Code = FormatCode c, cp_CommittedAt = t_CommittedAt (scanTransfer r),
          cp_ExpiresAt = t_ExpiresAt (scanTransfer r)\<rparr>" by blast
    then show ?thesis unfolding committed_as_def that(2)
      by (intro exI [of _ "sn_TransferID ss"] exI [of _ p] exI [of _ r] exI [of _ c])
        (auto simp: publishes_def send_manifest_def)
  qed
  have commit: "wp ?commit (\<lambda>r w'. \<forall>resp b. r = Inr (resp, b) \<longrightarrow> committed_as S opts plan \<lparr>sr_Code = cp_Code resp, sr_CommittedAt = cp_CommittedAt resp,
           sr_ExpiresAt = cp_ExpiresAt resp, sr_Files = plan_FileCount plan, sr_Bytes = plan_TotalBytes plan,
           sr_Resumed = resumed\<rparr> w') (sd_world u)"
    using run [OF _ refl] by (auto simp: wp_def split: prod.splits)
  show ?case
  proof (cases failure)
    case None
    show ?thesis unfolding None option.case wp_bind
      by (rule wp_exchange, simp, rule wp_on_server, subst wp_bind, rule wp_mono [OF commit])
        (rename_tac x w', case_tac x, auto simp: removeSession_def)
  qed simp
qed

definition sessions_open :: "sender \<Rightarrow> bool" where
  "sessions_open s \<longleftrightarrow> (\<forall>(p, ss)\<in>set (sd_sessions s). codeless (sn_TransferID ss) (sd_world s))"

lemma send_loaded_commits:
  assumes config: "config_ok S" and inv: "server_inv S (sd_world s)" and fresh: "unused (sv_id env) (sd_world s)"
    and now: "0 \<le> sv_committedAt env" and draws: "\<And>k. length (sv_draws env k) = CodeLength"
    and open_: "\<And>ss. loaded = Some ss \<Longrightarrow> codeless (sn_TransferID ss) (sd_world s)"
  shows "wp (send_loaded S env opts plan fp loaded)
     (\<lambda>r s'. \<forall>res. r = Inr res \<longrightarrow> committed_as S opts plan res (sd_world s')) s" (is "wp _ ?Q s")
proof -
  have finish: "wp (do {
        opened \<leftarrow> open_transfer S env path fp req refs resumed;
        case opened of Inl e \<Rightarrow> return (Inl e)
        | Inr ss \<Rightarrow> finish_send S env opts plan path refs ss alive }) ?Q u"
    if u: "faults_only (sd_world s) (sd_world u)" "resumed = None \<or> resumed = loaded" for path req refs resumed alive u
    unfolding wp_bind
  proof (rule wp_mono, rule open_transfer_ready [OF config], goal_cases)
    case 1 show ?case using inv inv_faults_only [OF u(1)] by simp
  next
    case 2 show ?case using fresh unused_faults [OF u(1)] by simp
  next
    case (3 ss) then show ?case using u(2) open_ codeless_faults [OF u(1)] by auto
  next
    case (4 opened v)
    then show ?case by (cases opened) (auto intro: finish_send_commits [OF _ now draws])
  qed
  have clean: "wp (do {
       _ \<leftarrow> (case loaded of None \<Rightarrow> return () | Some ss \<Rightarrow> if alive then return () else removeSession path ss);
       opened \<leftarrow> open_transfer S env path fp req refs (if alive then loaded else None);
       case opened of Inl e \<Rightarrow> return (Inl e)
       | Inr ss \<Rightarrow> finish_send S env opts plan path refs ss alive }) ?Q u"
    if u: "faults_only (sd_world s) (sd_world u)" for path req refs alive u
  proof -
    have "wp (case loaded of None \<Rightarrow> return () | Some ss \<Rightarrow> if alive then return () else removeSession path ss)
        (\<lambda>_ v. sd_world v = sd_world u) u"
      by (simp add: removeSession_def split: option.split)
    then show ?thesis unfolding wp_bind [of "case_option _ _ _"]
      by (rule wp_mono) (rule finish, use u in auto)
  qed
  have alive: "wp (case loaded of None \<Rightarrow> return False | Some ss \<Rightarrow> sessionAlive env ss)
      (\<lambda>_ v. faults_only (sd_world s) (sd_world v)) u" if u: "sd_world u = sd_world s" for u
  proof (cases loaded)
    case None
    have "faults_only (sd_world s) (sd_world s)" unfolding faults_only_def by (rule exI [of _ "w_faults (sd_world s)"]) simp
    then show ?thesis using None u by simp
  next
    case (Some ss)
    show ?thesis unfolding Some option.case by (rule wp_mono [OF alive_client]) (simp add: u)
  qed
  show ?thesis unfolding send_loaded_def wp_bind [of "build_packs _ _ _ _ _"]
  proof (rule wp_mono [OF build_packs_client], goal_cases)
    case (1 built u)
    show ?case
    proof (cases built)
      case (Inr refs)
      show ?thesis unfolding Inr sum.case wp_bind [of "case_option (return False) _ _"]
        by (rule wp_mono [OF alive]) (use 1 clean in simp_all)
    qed simp
  qed
qed

lemma Send_commits:
  assumes "config_ok S" and "server_inv S (sd_world s)" and "unused (sv_id env) (sd_world s)"
    and "sessions_open s" and "0 \<le> sv_committedAt env" and "\<And>k. length (sv_draws env k) = CodeLength"
  shows "wp (Send S env opts) (\<lambda>r s'. \<forall>res. r = Inr res \<longrightarrow> (\<exists>plan.
     Scan (lib_unicode S) (lib_blake3 S) (sv_cwd env) (sv_lfs env) (so_Roots opts) = Inr plan
     \<and> committed_as S opts plan res (sd_world s'))) s"
proof (cases "Scan (lib_unicode S) (lib_blake3 S) (sv_cwd env) (sv_lfs env) (so_Roots opts)")
  case (Inr plan)
  have open_: "codeless (sn_TransferID ss) (sd_world s)" if "map_of (sd_sessions s) path = Some ss" for path ss
    using assms(4) map_of_SomeD [OF that] by (auto simp: sessions_open_def)
  note go = send_loaded_commits [OF assms(1-3,5,6), of _ opts plan]
  show ?thesis unfolding Send_def Inr sum.case
    using open_ by (auto simp: Let_def loadSession_def removeSession_def split: option.splits intro!: go)
qed (simp add: Send_def)

section \<open>From the sender's sources to the receiver's disk\<close>

lemma receives_CreateClaim: "wp (svc_CreateClaim S now1 now2 token cid code) (\<lambda>_. receives w) w"
  unfolding svc_CreateClaim_def by (intro receives.steps receives_prims)

lemma CreateClaim_resolved:
  assumes "server_inv S w"
  shows "wp (svc_CreateClaim S now1 now2 token cid code) (\<lambda>r w'. \<forall>claim. r = Inr claim \<longrightarrow>
     (\<exists>t. resolved now1 code w t \<and> live_manifest w (t_ID t) = Some (rs_Manifest claim))) w"
  unfolding svc_CreateClaim_def
proof (rule wp_bindI [OF wp_conj [OF lookupCommitted_post [OF assms] receives_lookup]], goal_cases)
  case (1 r w1)
  show ?case
  proof (cases r)
    case (Inr t)
    have inv1: "server_inv S w1" "w_live w1 = w_live w" "resolved now1 code w t" using 1 Inr by (auto simp: receives_def)
    show ?thesis unfolding Inr sum.case
    proof (rule wp_bindI [OF wp_conj [OF svc_Manifest_post [OF inv1(1)] receives_Manifest]], goal_cases)
      case (1 rm w2)
      show ?case
      proof (cases rm)
        case (Inr m)
        then have "live_manifest w (t_ID t) = Some m" using 1 inv1(2) by (auto simp: receives_def)
        then have "\<exists>t. resolved now1 code w t \<and> live_manifest w (t_ID t) = Some m" using inv1(3) by blast
        then show ?thesis unfolding Inr sum.case Let_def by (intro branches) (auto intro!: wp_skip split: sum.split)
      qed simp
    qed
  qed simp
qed

lemma committed_claim:
  assumes c: "committed_as S opts plan res w" and "NormalizeCode code = NormalizeCode (sr_Code res)"
    and "run_state (svc_CreateClaim S now1 now2 token cid code) w = (Inr claim, w1)"
  shows "man_Entries (rs_Manifest claim) = plan_Entries plan"
proof -
  from c obtain i p r n where d: "server_inv S w" "live_manifest w i = Some p" "man_Entries p = plan_Entries plan"
      "trow (w_db w) i = Some r" "tr_code r = Some n" "canonical_code n" "sr_Code res = FormatCode n"
    unfolding committed_as_def by blast
  from wp_run [OF CreateClaim_resolved [OF d(1)] assms(3)] obtain t :: Transfer and r' n' where
    "NormalizeCode code = Some n'" "trow (w_db w) (t_ID t) = Some r'" "tr_code r' = Some n'"
    "live_manifest w (t_ID t) = Some (rs_Manifest claim)" unfolding resolved_def by blast
  moreover have "n' = n" using calculation(1) assms(2) d(6,7) NormalizeCode_FormatCode by simp
  moreover have "r' = r"
    using find_code [OF server_invD(1) [OF d(1)] d(4,5)] find_code [OF server_invD(1) [OF d(1)] calculation(2)] calculation(3,5)
    by simp
  moreover have "t_ID t = i" using tbl_find_key [OF calculation(2)] tbl_find_key [OF d(4)] calculation(6) by simp
  ultimately show ?thesis using d(2,3) by simp
qed

text \<open>Every file the scan saw is an entry of its plan.\<close>

lemma Scan_lists:
  assumes "Scan U H cwd lfs roots = Inr p" and "(q, b) \<in> set (root_files cwd lfs roots)"
  shows "\<exists>e\<in>set (plan_Entries p). is_file e \<and> ent_Path e = q \<and> ent_Digest e = H b"
proof -
  obtain ss ds fes where s: "scanned U H (plan_Roots p) ss ds (root_files cwd lfs roots)" "mset (carried p) = mset ss"
    "plan_Entries p = ds @ fes" "mset fes = mset (placed_entries p)"
    by (rule Scan_result [OF assms(1)]) (rule that; assumption)
  have "list_all2 (source_of H) ss (root_files cwd lfs roots)" using s(1) unfolding scanned_def by blast
  then obtain x where x: "x \<in> set ss" "source_of H x (q, b)"
    using assms(2) by (induction rule: list_all2_induct) auto
  have "x \<in> set (carried p)" using x(1) mset_eq_setD [OF s(2)] by simp
  then obtain i where "file_entry i x \<in> set (placed_entries p)"
    unfolding carried_def placed_entries_def by force
  then have "file_entry i x \<in> set (plan_Entries p)" using mset_eq_setD [OF s(4)] s(3) by simp
  then show ?thesis using x(2) by (intro bexI) (auto simp: source_of_def)
qed

lemma Send_opens:
  assumes "config_ok S" and "server_inv S (sd_world s)" and "unused (sv_id env) (sd_world s)"
    and "sessions_open s" and "0 \<le> sv_committedAt env" and "\<And>k. length (sv_draws env k) = CodeLength"
    and "run_state (Send S env opts) s = (Inr res, s')" and "w_faults (sd_world s') = []"
    and "NormalizeCode code = NormalizeCode (sr_Code res)" and "later < sr_ExpiresAt res"
  shows "\<exists>plan dl w. Scan (lib_unicode S) (lib_blake3 S) (sv_cwd env) (sv_lfs env) (so_Roots opts) = Inr plan
    \<and> run_state (OpenDownload S later code) (sd_world s') = (Inr dl, w)
    \<and> man_Entries (dl_Manifest dl) = plan_Entries plan \<and> man_Roots (dl_Manifest dl) = plan_Roots plan
    \<and> man_Note (dl_Manifest dl) = so_Note opts"
proof -
  from wp_run [OF Send_commits [OF assms(1-6)] assms(7)] obtain plan where
    plan: "Scan (lib_unicode S) (lib_blake3 S) (sv_cwd env) (sv_lfs env) (so_Roots opts) = Inr plan"
    "committed_as S opts plan res (sd_world s')" by blast
  then obtain i p r c where c: "server_inv S (sd_world s')" "live_manifest (sd_world s') i = Some p"
    "man_Entries p = plan_Entries plan" "man_Roots p = plan_Roots plan" "man_Note p = so_Note opts"
    "trow (w_db (sd_world s')) i = Some r" "tr_code r = Some c" "tr_state r = StateCommitted" "canonical_code c"
    "sr_Code res = FormatCode c" "sr_ExpiresAt res = t_ExpiresAt (scanTransfer r)"
    unfolding committed_as_def by blast
  have "NormalizeCode code = Some c" using assms(9) c(9,10) NormalizeCode_FormatCode by simp
  from OpenDownload_succeeds [OF c(1) assms(8) c(6,7,8) this _ c(2), of later] assms(10) c(11)
  obtain dl w where "run_state (OpenDownload S later code) (sd_world s') = (Inr dl, w)" "dl_Manifest dl = p" by auto
  then show ?thesis using plan(1) c(3-5) by blast
qed

text \<open>
  The code a send returns opens what was scanned. Whatever the connection lost, when a send of a
  client with open sessions succeeds on a server that satisfies its invariant, then everyone who
  types the code before the returned expiry opens a download whose manifest lists exactly the
  entries, roots and note of the plan.
\<close>

theorem Send_delivers:
  assumes "config_ok S" and "server_inv S (sd_world s)" and "unused (sv_id env) (sd_world s)"
    and "sessions_open s" and "0 \<le> sv_committedAt env" and "\<And>k. length (sv_draws env k) = CodeLength"
    and "run_state (Send S env opts) s = (Inr res, s')" and "w_faults (sd_world s') = []"
    and "NormalizeCode code = NormalizeCode (sr_Code res)" and "later < sr_ExpiresAt res"
  shows "\<exists>plan dl w. Scan (lib_unicode S) (lib_blake3 S) (sv_cwd env) (sv_lfs env) (so_Roots opts) = Inr plan
    \<and> run_state (OpenDownload S later code) (sd_world s') = (Inr dl, w)
    \<and> man_Entries (dl_Manifest dl) = plan_Entries plan \<and> man_Roots (dl_Manifest dl) = plan_Roots plan
    \<and> man_Note (dl_Manifest dl) = so_Note opts"
  by (rule Send_opens [OF assms])

text \<open>
  C2: The handoff. When a send succeeds, its code is claimed and the receive succeeds, over whatever
  networks, then every regular file below the roots the sender named is at the receiver's
  destination under its path with the bytes the sender read, or BLAKE3 has collided.
\<close>

theorem handoff:
  assumes "config_ok S" and "server_inv S (sd_world s)" and "unused (sv_id env) (sd_world s)"
    and "sessions_open s" and "0 \<le> sv_committedAt env" and "\<And>k. length (sv_draws env k) = CodeLength"
    and "run_state (Send S env opts) s = (Inr res, s')"
    and "NormalizeCode code = NormalizeCode (sr_Code res)"
    and "run_state (svc_CreateClaim S now1 now2 token cid code) (sd_world s') = (Inr claim, w1)"
    and "su_claim env' = Inr claim"
    and "run_state (Recv S L net env' code destination) c = (Inr got, c')"
  shows "\<exists>dest pl. map_of (rc_places c') dest = Some (PlaceDir pl)
    \<and> (\<forall>(q, b)\<in>set (root_files (sv_cwd env) (sv_lfs env) (so_Roots opts)). \<exists>k b' p m.
         safe_rel q = Some k \<and> map_of pl k = Some (NFile b' p m) \<and> (b' = b \<or> collision S b' b))"
proof -
  from wp_run [OF Send_commits [OF assms(1-6)] assms(7)] obtain plan where
    plan: "Scan (lib_unicode S) (lib_blake3 S) (sv_cwd env) (sv_lfs env) (so_Roots opts) = Inr plan"
    "committed_as S opts plan res (sd_world s')" by blast
  have entries: "man_Entries (rs_Manifest claim) = plan_Entries plan"
    by (rule committed_claim [OF plan(2) assms(8,9)])
  obtain dest pl where d: "map_of (rc_places c') dest = Some (PlaceDir pl)" "files_ok S pl (man_Entries (rs_Manifest claim))"
    using wp_run [OF wp_Recv [OF assms(10)] assms(11)] by (auto split: sum.splits dest!: received_there)
  have "\<exists>k b' p m. safe_rel q = Some k \<and> map_of pl k = Some (NFile b' p m) \<and> (b' = b \<or> collision S b' b)"
    if qb: "(q, b) \<in> set (root_files (sv_cwd env) (sv_lfs env) (so_Roots opts))" for q b
  proof -
    obtain e where "e \<in> set (plan_Entries plan)" "is_file e" "ent_Path e = q" "ent_Digest e = lib_blake3 S b"
      using Scan_lists [OF plan(1) qb] by blast
    then show ?thesis using d(2) entries by (fastforce simp: files_ok_def file_there_def collision_def)
  qed
  then show ?thesis using d(1) by blast
qed

section \<open>Sending again\<close>

text \<open>A session that can be picked up: its packs are still there, its segments fully received.\<close>

definition uploaded :: "world \<Rightarrow> session \<Rightarrow> job \<Rightarrow> bool" where
  "uploaded w ss j \<longleftrightarrow> (\<exists>p n. map_of (sn_Uploads ss) (jb_SegmentID j) = Some p \<and> p \<noteq> []
     \<and> run_state (UploadState (upload_of p)) w = (Inr (jb_Length j, n), w))"

definition pack_refs :: "session \<Rightarrow> pack_spec list \<Rightarrow> (string \<times> pack_ref) list" where
  "pack_refs ss specs = map (\<lambda>spec. (ps_SegmentID spec, pack_of (sn_Packs ss) (ps_SegmentID spec))) specs"

definition resumable :: "send_env \<Rightarrow> plan \<Rightarrow> string \<Rightarrow> session \<Rightarrow> sender \<Rightarrow> bool" where
  "resumable env plan fp ss s \<longleftrightarrow>
     map_of (sd_sessions s) (session_path env fp) = Some ss
     \<and> sn_Fingerprint ss = fp \<and> sn_TransferID ss \<noteq> [] \<and> sn_ServerURL ss = sv_URL env
     \<and> VerifyUnchanged (sv_recheck env) plan = None
     \<and> (\<forall>spec\<in>set (plan_Packs plan). \<exists>ref. map_of (sn_Packs ss) (ps_SegmentID spec) = Some ref \<and> packUsable ref (sd_packs s))
     \<and> sn_Uploads ss \<noteq> []
     \<and> (\<exists>x. run_state (UploadState (upload_of (snd (hd (sn_Uploads ss))))) (sd_world s) = (Inr x, sd_world s))
     \<and> (\<forall>j\<in>set (jobs (sv_order env (plan_RawFiles plan)) (pack_refs ss (plan_Packs plan))). uploaded (sd_world s) ss j)"

lemma run_on_server: "run_state m (sd_world s) = (x, sd_world s) \<Longrightarrow> run_state (on_server m) s = (x, s)"
  by (simp add: on_server_def)

lemma run_uploadOne_done:
  assumes "run_state (UploadState uid) w = (Inr (len, n), w)" and "at_head (a 0)"
  shows "run_state (uploadOne S uid len a) w = (None, w)"
  using assms by (simp add: uploadOne_def client_UploadOffset_def)

lemma run_uploadSegments_done:
  assumes "\<forall>j\<in>set js. uploaded (sd_world s) ss j" and "\<And>sid. at_head (sv_attempt env sid 0)"
  shows "run_state (uploadSegments S env ss js) s = (None, s)"
  using assms(1)
proof (induction js)
  case (Cons j js)
  then obtain p n where p: "map_of (sn_Uploads ss) (jb_SegmentID j) = Some p" "p \<noteq> []"
    "run_state (UploadState (upload_of p)) (sd_world s) = (Inr (jb_Length j, n), sd_world s)" by (auto simp: uploaded_def)
  have "run_state (uploadSegments S env ss js) s = (None, s)" using Cons by simp
  then show ?case
    using p by (simp add: run_on_server run_uploadOne_done [OF p(3)] assms(2) split: option.split)
qed simp

lemma run_build_packs_reused:
  assumes "\<forall>spec\<in>set specs. \<exists>ref. map_of (sn_Packs ss) (ps_SegmentID spec) = Some ref \<and> packUsable ref (sd_packs s)"
  shows "run_state (build_packs S env (Some ss) dir specs) s = (Inr (pack_refs ss specs), s)"
  using assms by (induction specs) (auto simp: pack_refs_def pack_of_def Let_def)

lemma run_sessionAlive:
  assumes "sn_Uploads ss \<noteq> []" and "sv_head env"
    and "run_state (UploadState (upload_of (snd (hd (sn_Uploads ss))))) (sd_world s) = (Inr x, sd_world s)"
  shows "run_state (sessionAlive env ss) s = (True, s)"
proof (cases "sn_Uploads ss")
  case (Cons u us)
  obtain g p where u: "u = (g, p)" by (cases u)
  have "run_state (client_UploadOffset (sv_head env) (upload_of p)) (sd_world s) = (Inr (fst x), sd_world s)"
    using assms(2,3) Cons u by (cases x) (simp add: client_UploadOffset_def)
  then show ?thesis using Cons u by (simp add: sessionAlive_def run_on_server)
qed (use assms in simp)

lemma run_Commit_again:
  assumes "trow (w_db w) i = Some r" and "Committed (scanTransfer r)" and "w_faults w = []"
  shows "run_state (svc_Commit S draws now i m) w = (Inr (\<lparr>cp_Code = FormatCode (t_Code (scanTransfer r)),
     cp_CommittedAt = t_CommittedAt (scanTransfer r), cp_ExpiresAt = t_ExpiresAt (scanTransfer r)\<rparr>, False), w)"
  using assms by (simp add: svc_Commit_def db_GetTransfer_def db_read_def)

text \<open>
  C6: Sending again after the answer to the commit was lost. When the session of the same sources is
  still there, its packs are unchanged, its segments fully received and its transfer committed,
  sending again uploads nothing, leaves the server as it is, removes the session and returns the
  code that was allocated the first time.
\<close>

theorem Send_resumes:
  assumes "Scan (lib_unicode S) (lib_blake3 S) (sv_cwd env) (sv_lfs env) (so_Roots opts) = Inr plan"
    and "resumable env plan (Fingerprint (lib_blake3 S) plan (so_Note opts) (so_TTLMinutes opts)) ss s"
    and "trow (w_db (sd_world s)) (sn_TransferID ss) = Some r" and "Committed (scanTransfer r)"
    and "w_faults (sd_world s) = []" and "sv_head env" and "\<And>sid. at_head (sv_attempt env sid 0)" and "sv_commit env = Arrives"
  shows "\<exists>s'. run_state (Send S env opts) s = (Inr \<lparr>sr_Code = FormatCode (t_Code (scanTransfer r)),
       sr_CommittedAt = t_CommittedAt (scanTransfer r), sr_ExpiresAt = t_ExpiresAt (scanTransfer r),
       sr_Files = plan_FileCount plan, sr_Bytes = plan_TotalBytes plan, sr_Resumed = True\<rparr>, s')
    \<and> sd_world s' = sd_world s
    \<and> map_of (sd_sessions s') (session_path env (Fingerprint (lib_blake3 S) plan (so_Note opts) (so_TTLMinutes opts))) = None"
proof -
  define path where "path = session_path env (Fingerprint (lib_blake3 S) plan (so_Note opts) (so_TTLMinutes opts))"
  note r = assms(2) [unfolded resumable_def, folded path_def]
  let ?refs = "pack_refs ss (plan_Packs plan)"
  let ?ss = "ss\<lparr>sn_Packs := ?refs\<rparr>"
  obtain x where x: "run_state (UploadState (upload_of (snd (hd (sn_Uploads ss))))) (sd_world s) = (Inr x, sd_world s)"
    using r by blast
  obtain ok v where save1: "run_state (saveSession (sv_saves env) path ?ss) s = (ok, v)" by (rule prod.exhaust)
  have save2: "sd_world v = sd_world s" using save1 by (auto simp: saveSession_def split: if_splits)
  have up: "run_state (uploadSegments S env ?ss (jobs (sv_order env (plan_RawFiles plan)) ?refs)) v = (None, v)"
    by (rule run_uploadSegments_done [OF _ assms(7)]) (use r save2 in \<open>simp add: uploaded_def\<close>)
  note commit = run_Commit_again [OF assms(3,4,5), folded save2]
  have fin: "run_state (finish_send S env opts plan path ?refs ?ss True) v
      = (Inr \<lparr>sr_Code = FormatCode (t_Code (scanTransfer r)),
       sr_CommittedAt = t_CommittedAt (scanTransfer r), sr_ExpiresAt = t_ExpiresAt (scanTransfer r),
       sr_Files = plan_FileCount plan, sr_Bytes = plan_TotalBytes plan, sr_Resumed = True\<rparr>,
       snd (run_state (removeSession path ?ss) v))"
    by (simp add: finish_send_def up assms(8) exchange_def on_server_def commit removeSession_def)
  have load: "run_state (loadSession path (sn_Fingerprint ss) (sv_URL env)) s = (Some ss, s)"
    using r by (simp add: loadSession_def)
  have packs: "run_state (build_packs S env (Some ss) dir (plan_Packs plan)) s = (Inr ?refs, s)" for dir
    using r by (intro run_build_packs_reused) blast
  have alive: "run_state (sessionAlive env ss) s = (True, s)" using r by (intro run_sessionAlive [OF _ assms(6) x]) blast
  have fp: "Fingerprint (lib_blake3 S) plan (so_Note opts) (so_TTLMinutes opts) = sn_Fingerprint ss" using r by simp
  have path': "session_path env (sn_Fingerprint ss) = path" by (simp add: path_def fp)
  have recheck: "VerifyUnchanged (sv_recheck env) plan = None" using r by blast
  show ?thesis
    by (simp add: Send_def assms(1) fp path' load recheck send_loaded_def packs alive open_transfer_def save1 fin
        Let_def removeSession_def save2 delete_conv')
qed

section \<open>A sample send and receive\<close>

text \<open>One file of two bytes, sent in a pack; the library functions are constant.\<close>

definition pack_server :: server where
  "pack_server = sample_server\<lparr>lib_unpack := (\<lambda>b. ([\<lparr>th_Regular = True, th_Name = ''a'', th_Size = 2,
     th_Data = ''hi'', th_DataOK = True\<rparr>], True))\<rparr>"

definition one_file :: "string \<Rightarrow> local_node" where
  "one_file p = (if p = ''/d/a'' then LocalFile \<lparr>fi_Size = 2, fi_MTimeNS = 7, fi_Perm = 420\<rparr> (Some ''hi'') else LocalGone)"

definition sample_sv :: send_env where
  "sample_sv = \<lparr>sv_cwd = None, sv_lfs = one_file, sv_recheck = one_file, sv_URL = ''https://x'', sv_StateDir = ''/state'',
     sv_build = (\<lambda>_. Inr ''hello''), sv_order = (\<lambda>r. r), sv_saves = True, sv_head = True, sv_create = Arrives,
     sv_usage = sample_disk 0, sv_createdAt = 1700000000 * second, sv_id = sample_id, sv_uploadIDs = (\<lambda>_. ''u-1''),
     sv_attempt = (\<lambda>_ _. \<lparr>at_head = True, at_source = None, at_disk = sample_disk, at_cut = (\<lambda>b. Answered [b])\<rparr>),
     sv_now = 1700000000 * second, sv_commit = Arrives, sv_draws = sample_draws, sv_committedAt = 1700000100 * second\<rparr>"

definition sample_opts :: send_opts where
  "sample_opts = \<lparr>so_Roots = [''/d/a''], so_Note = ''hi'', so_TTLMinutes = 30\<rparr>"

definition sample_sender :: sender where
  "sample_sender = \<lparr>sd_world = sample_empty_world, sd_sessions = [], sd_packs = []\<rparr>"

text \<open>The server after the commit.\<close>

definition sent_manifest :: manifest where
  "sent_manifest = \<lparr>man_SchemaVersion = 1, man_TransferID = sample_id, man_CreatedAt = 1700000000 * second,
     man_Note = ''hi'', man_Roots = [''a''], man_DigestAlgorithm = ''blake3'',
     man_Segments = [\<lparr>seg_ID = ''p-0000'', seg_Kind = ''tar_zstd'', seg_WireSize = 5, seg_Digest = sample_digest,
       seg_StoragePath = ''packs/p-0000''\<rparr>],
     man_Entries = [\<lparr>ent_Path = ''a'', ent_Type = ''file'', ent_Size = 2, ent_MTimeUnixNS = 7, ent_Mode = 420,
       ent_Digest = sample_digest, ent_SegmentID = ''p-0000'', ent_SegmentOffset = 0\<rparr>]\<rparr>"

definition sent_db :: db where
  "sent_db = \<lparr>transfers = [\<lparr>tr_id = sample_id, tr_code = Some sample_code, tr_state = StateCommitted,
       tr_sender_label = None, tr_created_at = 1700000000, tr_committed_at = Some 1700000100,
       tr_expires_at = Some 1700001900, tr_requested_ttl_minutes = 30, tr_note = Some ''hi'',
       tr_manifest_digest = Some sample_digest, tr_wire_bytes = 5, tr_materialized_bytes = 2, tr_reserved_bytes = 0,
       tr_root_path = ''/srv/sss/staging/'' @ sample_id, tr_last_error_code = None\<rparr>],
     segments = [\<lparr>sr_id = ''p-0000'', sr_transfer_id = sample_id, sr_upload_id = Some ''u-1'', sr_kind = ''tar_zstd'',
       sr_expected_length = 5, sr_received_length = 5, sr_digest_algorithm = ''blake3'',
       sr_expected_digest = Some sample_digest, sr_state = SegmentReceived,
       sr_relative_storage_path = ''segments/p-0000''\<rparr>],
     claims = [], idempotency_keys = []\<rparr>"

definition sent_world :: world where
  "sent_world = \<lparr>w_db = sent_db, w_staging = [],
     w_live = [(sample_id, \<lparr>d_payload = Some [(''a'', NFile ''hi'' 420 7)], d_segments = None,
       d_packs = Some [(''p-0000'', ''hello'')], d_outboards = Some [(''p-0000.obao'', ''tree'')],
       d_manifest = Some sent_manifest, d_sealed = True\<rparr>)],
     w_trash = [], w_cache = \<lparr>mc_limit = 64, mc_order = [sample_id], mc_items = [(sample_id, sent_manifest)]\<rparr>, w_faults = []\<rparr>"

definition sent_sender :: sender where
  "sent_sender = \<lparr>sd_world = sent_world, sd_sessions = [], sd_packs = []\<rparr>"

lemma sample_send_run:
  "run_state (Send pack_server sample_sv sample_opts) sample_sender = (Inr \<lparr>sr_Code = FormatCode sample_code,
     sr_CommittedAt = 1700000100 * second, sr_ExpiresAt = 1700001900 * second, sr_Files = 1, sr_Bytes = 2,
     sr_Resumed = False\<rparr>, sent_sender)"
  by code_simp

lemma sample_sender_ok:
  "config_ok pack_server" "server_inv pack_server (sd_world sample_sender)"
  "unused (sv_id sample_sv) (sd_world sample_sender)" "sessions_open sample_sender"
  "0 \<le> sv_committedAt sample_sv" "length (sv_draws sample_sv k) = CodeLength"
proof -
  show "server_inv pack_server (sd_world sample_sender)" using empty_db_ok
    by (auto simp: sample_sender_def server_inv_def sample_empty_world_def sample_world_def areas_ok_def rows_ok_def
        cache_get_def newManifestCache_def map_le_def empty_db_def tbl_find_def)
qed (use sample_draws_length in \<open>simp_all add: sample_sv_def sample_sender_def sessions_open_def second_def
    unused_def sample_empty_world_def sample_world_def empty_db_def tbl_find_def config_ok_def pack_server_def sample_server_def\<close>)

theorem Send_delivers_witness:
  "\<exists>plan dl w. Scan (lib_unicode pack_server) (lib_blake3 pack_server) None one_file [''/d/a''] = Inr plan
    \<and> run_state (OpenDownload pack_server (1700000200 * second) (FormatCode sample_code)) (sd_world sent_sender) = (Inr dl, w)
    \<and> man_Entries (dl_Manifest dl) = plan_Entries plan \<and> man_Note (dl_Manifest dl) = ''hi''"
  using Send_delivers [OF sample_sender_ok sample_send_run, of "FormatCode sample_code" "1700000200 * second"]
  by (auto simp: sample_sv_def sample_opts_def second_def sent_sender_def sent_world_def)

definition sent_claim :: "ClaimResponse result \<times> world" where
  "sent_claim = run_state (svc_CreateClaim pack_server (1700000200 * second) (1700000201 * second)
     ''tok'' ''c-1'' (FormatCode sample_code)) sent_world"

definition sent_surroundings :: surroundings where
  "sent_surroundings = sample_surroundings\<lparr>su_claim := map_sum code_string id (fst sent_claim)\<rparr>"

definition sent_recv :: "(string + RecvResult) \<times> receiver" where
  "sent_recv = run_state (Recv pack_server hello_lib hello_net sent_surroundings (FormatCode sample_code) ''/out'')
     sample_receiver"

lemma sent_claim_ok: "case fst sent_claim of Inl _ \<Rightarrow> False | Inr _ \<Rightarrow> True"
  by code_simp

lemma sent_recv_ok: "case fst sent_recv of Inl _ \<Rightarrow> False | Inr _ \<Rightarrow> True"
  by code_simp

lemma sent_files: "root_files None one_file [''/d/a''] = [(''a'', ''hi'')]"
  by code_simp

theorem handoff_witness:
  "\<exists>dest pl k b p m. map_of (rc_places (snd sent_recv)) dest = Some (PlaceDir pl) \<and> safe_rel ''a'' = Some k
    \<and> map_of pl k = Some (NFile b p m) \<and> (b = ''hi'' \<or> collision pack_server b ''hi'')"
proof -
  obtain claim where c: "fst sent_claim = Inr claim" "su_claim sent_surroundings = Inr claim"
    using sent_claim_ok by (auto simp: sent_surroundings_def split: sum.splits)
  then have claimed: "run_state (svc_CreateClaim pack_server (1700000200 * second) (1700000201 * second)
     ''tok'' ''c-1'' (FormatCode sample_code)) (sd_world sent_sender) = (Inr claim, snd sent_claim)"
    by (simp add: sent_claim_def sent_sender_def prod_eq_iff)
  obtain res where r: "run_state (Recv pack_server hello_lib hello_net sent_surroundings
     (FormatCode sample_code) ''/out'') sample_receiver = (Inr res, snd sent_recv)"
    using sent_recv_ok unfolding sent_recv_def by (auto simp: prod_eq_iff split: sum.splits)
  have files: "root_files (sv_cwd sample_sv) (sv_lfs sample_sv) (so_Roots sample_opts) = [(''a'', ''hi'')]"
    using sent_files by (simp add: sample_sv_def sample_opts_def)
  from handoff [OF sample_sender_ok sample_send_run _ claimed c(2) r] show ?thesis
    unfolding files by auto
qed

text \<open>The same send with the answer to its commit lost, and then again.\<close>

definition lost_session :: session where
  "lost_session = \<lparr>sn_Fingerprint = sample_digest, sn_TransferID = sample_id,
     sn_Uploads = [(''p-0000'', ''/v1/uploads/u-1'')],
     sn_Packs = [(''p-0000'', \<lparr>ref_Path = ''/state/packs/'' @ sample_digest @ ''/p-0000.tar.zst'', ref_Size = 5,
       ref_Digest = sample_digest\<rparr>)],
     sn_CreatedAt = 1700000000 * second, sn_ServerURL = ''https://x''\<rparr>"

definition lost_sender :: sender where
  "lost_sender = \<lparr>sd_world = sent_world,
     sd_sessions = [(''/state/sessions/'' @ sample_digest @ ''.json'', lost_session)],
     sd_packs = [(''/state/packs/'' @ sample_digest @ ''/p-0000.tar.zst'', ''hello'')]\<rparr>"

lemma lost_answer_run:
  "run_state (Send pack_server (sample_sv\<lparr>sv_commit := LostAnswer\<rparr>) sample_opts) sample_sender
     = (Inl ErrNetwork, lost_sender)"
  by code_simp

definition lost_plan :: plan where
  "lost_plan = projr (Scan (lib_unicode pack_server) (lib_blake3 pack_server) None one_file [''/d/a''])"

lemma lost_resumable: "resumable sample_sv lost_plan
  (Fingerprint (lib_blake3 pack_server) lost_plan (so_Note sample_opts) (so_TTLMinutes sample_opts)) lost_session lost_sender"
proof -
  have fp: "Fingerprint (lib_blake3 pack_server) lost_plan (so_Note sample_opts) (so_TTLMinutes sample_opts) = sample_digest"
    "VerifyUnchanged (sv_recheck sample_sv) lost_plan = None" by code_simp+
  have "map_of (sd_sessions lost_sender) (session_path sample_sv sample_digest) = Some lost_session"
    "sn_Fingerprint lost_session = sample_digest" "sn_TransferID lost_session \<noteq> []"
    "sn_ServerURL lost_session = sv_URL sample_sv" by code_simp+
  moreover have "list_all (\<lambda>spec. case map_of (sn_Packs lost_session) (ps_SegmentID spec) of None \<Rightarrow> False
     | Some ref \<Rightarrow> packUsable ref (sd_packs lost_sender)) (plan_Packs lost_plan)" by code_simp
  moreover have "sn_Uploads lost_session = [(''p-0000'', ''/v1/uploads/u-1'')]" by (simp add: lost_session_def)
  moreover have "map (\<lambda>j. (jb_SegmentID j, jb_Length j))
       (jobs (sv_order sample_sv (plan_RawFiles lost_plan)) (pack_refs lost_session (plan_Packs lost_plan))) = [(''p-0000'', 5)]"
    by code_simp
  moreover have "run_state (UploadState ''u-1'') (sd_world lost_sender) = (Inr (5, 5), sd_world lost_sender)" by code_simp
  moreover have "upload_of ''/v1/uploads/u-1'' = ''u-1''" by code_simp
  ultimately show ?thesis unfolding resumable_def uploaded_def fp
    using fp(2) by (auto simp: list_all_iff split: option.splits)
qed

theorem Send_resumes_witness:
  "\<exists>s' r. run_state (Send pack_server sample_sv sample_opts) lost_sender = (Inr r, s')
    \<and> sr_Code r = FormatCode sample_code \<and> sr_Resumed r \<and> sd_world s' = sent_world"
proof -
  have "\<not> isl (Scan (lib_unicode pack_server) (lib_blake3 pack_server) None one_file [''/d/a''])" by code_simp
  then have scan: "Scan (lib_unicode pack_server) (lib_blake3 pack_server) (sv_cwd sample_sv) (sv_lfs sample_sv) (so_Roots sample_opts)
      = Inr lost_plan" by (simp add: lost_plan_def sample_sv_def sample_opts_def)
  have "map_option (\<lambda>r. (Committed (scanTransfer r), t_Code (scanTransfer r)))
      (trow (w_db (sd_world lost_sender)) (sn_TransferID lost_session)) = Some (True, sample_code)"
    and nf: "w_faults (sd_world lost_sender) = []" by code_simp+
  then obtain r where r: "trow (w_db (sd_world lost_sender)) (sn_TransferID lost_session) = Some r"
    "Committed (scanTransfer r)" "t_Code (scanTransfer r) = sample_code" by auto
  have env: "sv_head sample_sv" "\<And>sid. at_head (sv_attempt sample_sv sid 0)" "sv_commit sample_sv = Arrives"
    by (simp_all add: sample_sv_def)
  have w: "sd_world lost_sender = sent_world" by (simp add: lost_sender_def)
  from Send_resumes [OF scan lost_resumable r(1,2) nf env] r(3) w show ?thesis by auto
qed

text \<open>
  When the server no longer holds the session's transfer, the send forgets the session together
  with the packs it has just decided to reuse, so their upload to the new transfer fails.
\<close>

definition purged_sender :: sender where
  "purged_sender = lost_sender\<lparr>sd_world := sample_empty_world\<rparr>"

lemma Send_after_purge:
  "case fst (run_state (Send pack_server sample_sv sample_opts) purged_sender) of
     Inl e \<Rightarrow> e = ErrSourceChanged | Inr _ \<Rightarrow> False"
  by code_simp

end
