(* ===== verification/SSS_Download.thy ===== *)
theory SSS_Download
  imports SSS_Api
begin

text \<open>
  What the server answers to those who receive: the remaining handlers of
  \<^verbatim>\<open>internal/api/public/api.go\<close>, the errors of \<^verbatim>\<open>errors.go\<close>, the archive streams of
  \<^verbatim>\<open>internal/archive/archive.go\<close> and the local receive of \<^verbatim>\<open>internal/api/local/local.go\<close>. An
  answer is a value: status, file name, range and body; JSON bodies are the values they encode.
  \<^verbatim>\<open>net/http\<close>'s \<^verbatim>\<open>ServeContent\<close> is modelled for requests without conditional headers, the zip and tar
  writers by the members they emit; a step that fails is a client that went away or a disk error.
\<close>

section \<open>Requests and answers\<close>

record http_req =
  hq_Method :: string
  hq_Path :: string
  hq_Accept :: string
  hq_Range :: string
  hq_Authorization :: string
  hq_Format :: string

text \<open>A member of an archive as its header and data say.\<close>

record member =
  mb_Name :: string
  mb_Dir :: bool
  mb_Mode :: nat
  mb_MTime :: int
  mb_Data :: bytes

text \<open>An archive stream ends with its trailer or is cut short.\<close>

datatype body =
    NoBody
  | Text string
  | ErrorLine errcode
  | ErrorEnvelope errcode
  | Octets bytes
  | Parts "bytes list"
  | ZipStream "member list" bool
  | TarStream "member list" bool
  | MetadataJSON TransferMetadata
  | CommitJSON CommitResponse
  | ClaimJSON ClaimResponse
  | LocalJSON LocalClaim

record reply =
  rp_Status :: int
  rp_File :: "string option"
  rp_Offset :: "int option"
  rp_Body :: body

abbreviation plain_reply :: "int \<Rightarrow> body \<Rightarrow> reply" where
  "plain_reply status b \<equiv> \<lparr>rp_Status = status, rp_File = None, rp_Offset = None, rp_Body = b\<rparr>"

definition wantsJSON :: "http_req \<Rightarrow> bool" where
  "wantsJSON r \<longleftrightarrow> contains_str (hq_Accept r) ''application/json''
     \<or> has_prefix (hq_Path r) ''/v1/'' \<or> hq_Path r = ''/v1''
     \<or> has_prefix (hq_Path r) ''/local/status'' \<or> has_prefix (hq_Path r) ''/local/cleanup''"

definition WriteError :: "http_req \<Rightarrow> errcode \<Rightarrow> reply" where
  "WriteError r e = plain_reply (HTTPStatus (code_string e)) (if wantsJSON r then ErrorEnvelope e else ErrorLine e)"

section \<open>File names in headers\<close>

text \<open>\<^verbatim>\<open>range\<close> over a string decodes runes; a byte that is no UTF-8 reads as U+FFFD.\<close>

definition header_rune :: "nat \<times> string \<Rightarrow> string" where
  "header_rune r = (case r of (v, bs) \<Rightarrow>
     if v < 0x20 \<or> v = 0x7F then ''_''
     else if v = 34 \<or> v = 92 \<or> v = 47 then ''_''
     else if v > 0x7F then ''_''
     else bs)"

definition sanitizeHeaderFilename :: "string \<Rightarrow> string" where
  "sanitizeHeaderFilename name =
     (let out = concat (map header_rune (runes name)) in if out = [] then ''download'' else out)"

text \<open>\<^verbatim>\<open>url.PathEscape\<close>\<close>

definition hex_upper :: "nat \<Rightarrow> char" where
  "hex_upper n = (if n < 10 then char_of (48 + n) else char_of (55 + n))"

definition path_unreserved :: "char \<Rightarrow> bool" where
  "path_unreserved c \<longleftrightarrow> (let b = byte c in
     (48 \<le> b \<and> b \<le> 57) \<or> (65 \<le> b \<and> b \<le> 90) \<or> (97 \<le> b \<and> b \<le> 122) \<or> c \<in> set ''-_.~$&+:=@'')"

definition PathEscape :: "string \<Rightarrow> string" where
  "PathEscape s = concat (map (\<lambda>c. if path_unreserved c then [c]
     else [CHR ''%'', hex_upper (byte c div 16), hex_upper (byte c mod 16)]) s)"

definition setDisposition :: "string \<Rightarrow> string" where
  "setDisposition name = ''attachment; filename='' @ [CHR 0x22] @ sanitizeHeaderFilename name @ [CHR 0x22]
     @ ''; filename*=UTF-8'' @ [CHR 0x27, CHR 0x27] @ PathEscape name"

section \<open>Serving a file\<close>

definition trim_ascii :: "string \<Rightarrow> string" where
  "trim_ascii s = (let ws = (\<lambda>c. c \<in> {CHR '' '', CHR 0x09, CHR 0x0A, CHR 0x0D}) in
     rev (dropWhile ws (rev (dropWhile ws s))))"

text \<open>One range of the header: malformed, past the end, or a start and a length.\<close>

definition one_range :: "int \<Rightarrow> string \<Rightarrow> ((int \<times> int) option) option" where
  "one_range len ra =
     (let start = trim_ascii (takeWhile (\<lambda>c. c \<noteq> CHR ''-'') ra);
          rest = dropWhile (\<lambda>c. c \<noteq> CHR ''-'') ra;
          stop = trim_ascii (drop 1 rest)
      in if rest = [] then None
         else if start = [] then
           (if stop = [] \<or> hd stop = CHR ''-'' then None
            else case Atoi stop of None \<Rightarrow> None | Some i \<Rightarrow>
              let i = min i len in Some (Some (len - i, i)))
         else (case Atoi start of None \<Rightarrow> None | Some i \<Rightarrow>
           if i < 0 then None
           else if i \<ge> len then Some None
           else if stop = [] then Some (Some (i, len - i))
           else (case Atoi stop of None \<Rightarrow> None | Some j \<Rightarrow>
             if i > j then None
             else let j = (if j \<ge> len then len - 1 else j) in Some (Some (i, j - i + 1)))))"

fun range_list :: "int \<Rightarrow> string list \<Rightarrow> (bool \<times> (int \<times> int) list) option" where
  "range_list len [] = Some (False, [])"
| "range_list len (p # ps) =
     (let ra = trim_ascii p in
      if ra = [] then range_list len ps
      else case one_range len ra of None \<Rightarrow> None | Some x \<Rightarrow>
        (case range_list len ps of None \<Rightarrow> None | Some (past, rs) \<Rightarrow>
          (case x of None \<Rightarrow> Some (True, rs) | Some r \<Rightarrow> Some (past, r # rs))))"

definition parseRange :: "string \<Rightarrow> int \<Rightarrow> (bool \<times> (int \<times> int) list) option" where
  "parseRange s len =
     (if s = [] then Some (False, [])
      else if \<not> has_prefix s ''bytes='' then None
      else range_list len (split_on (CHR '','') (drop 6 s)))"

definition slice :: "bytes \<Rightarrow> int \<times> int \<Rightarrow> bytes" where
  "slice b r = take (nat (snd r)) (drop (nat (fst r)) b)"

definition head_only :: "http_req \<Rightarrow> body \<Rightarrow> body" where
  "head_only r b = (if hq_Method r = ''HEAD'' then NoBody else b)"

definition ServeContent :: "http_req \<Rightarrow> string option \<Rightarrow> bytes \<Rightarrow> reply" where
  "ServeContent r name b =
     (let len = int (length b);
          full = \<lparr>rp_Status = 200, rp_File = name, rp_Offset = None, rp_Body = head_only r (Octets b)\<rparr>;
          bad = \<lparr>rp_Status = 416, rp_File = name, rp_Offset = None, rp_Body = head_only r (Text ''invalid range'')\<rparr>
      in case parseRange (hq_Range r) len of
           None \<Rightarrow> bad
         | Some (past, rs) \<Rightarrow>
             if past \<and> rs = [] then (if len = 0 then full else bad)
             else if sum_list (map snd rs) > len then full
             else (case rs of
                 [] \<Rightarrow> full
               | [x] \<Rightarrow> \<lparr>rp_Status = 206, rp_File = name, rp_Offset = Some (fst x), rp_Body = head_only r (Octets (slice b x))\<rparr>
               | _ \<Rightarrow> \<lparr>rp_Status = 206, rp_File = name, rp_Offset = None, rp_Body = head_only r (Parts (map (slice b) rs))\<rparr>))"

section \<open>Archives\<close>

text \<open>\<open>stop_at\<close> is how far a copy gets that breaks off.\<close>

definition copyEntry :: "nat \<Rightarrow> string \<Rightarrow> string \<Rightarrow> (bytes \<times> bool) svc" where
  "copyEntry stop_at i rel = (case safe_rel rel of None \<Rightarrow> return ([], False) | Some k \<Rightarrow> do {
     f \<leftarrow> open_live i (''payload/'' @ k);
     case f of None \<Rightarrow> return ([], False) | Some b \<Rightarrow> do {
       copied \<leftarrow> io;
       return (if copied then (b, True) else (take stop_at b, False))
     }
   })"

definition dir_member :: "entry \<Rightarrow> member" where
  "dir_member e = \<lparr>mb_Name = ent_Path e @ ''/'', mb_Dir = True, mb_Mode = 493, mb_MTime = ent_MTimeUnixNS e, mb_Data = []\<rparr>"

definition file_member :: "entry \<Rightarrow> bytes \<Rightarrow> member" where
  "file_member e b = \<lparr>mb_Name = ent_Path e, mb_Dir = False, mb_Mode = (if executable (ent_Mode e) then 493 else 420),
     mb_MTime = ent_MTimeUnixNS e, mb_Data = b\<rparr>"

definition cons_member :: "member \<Rightarrow> member list \<times> bool \<Rightarrow> member list \<times> bool" where
  "cons_member m r = (m # fst r, snd r)"

fun zip_entries :: "nat \<Rightarrow> string \<Rightarrow> entry list \<Rightarrow> (member list \<times> bool) svc" where
  "zip_entries stop_at i [] = do { closed \<leftarrow> io; return ([], closed) }"
| "zip_entries stop_at i (e # es) = do {
     live \<leftarrow> io;
     if \<not> live then return ([], False) else do {
       created \<leftarrow> io;
       if \<not> created then return ([], False)
       else if ent_Type e = EntryDirectory then do {
         r \<leftarrow> zip_entries stop_at i es;
         return (cons_member (dir_member e) r)
       }
       else do {
         d \<leftarrow> copyEntry stop_at i (ent_Path e);
         if \<not> snd d then return ([file_member e (fst d)], False)
         else do {
           r \<leftarrow> zip_entries stop_at i es;
           return (cons_member (file_member e (fst d)) r)
         }
       }
     }
   }"

definition StreamZip :: "nat \<Rightarrow> string \<Rightarrow> manifest \<Rightarrow> body svc" where
  "StreamZip stop_at i m = do { r \<leftarrow> zip_entries stop_at i (SortedEntries m); return (ZipStream (fst r) (snd r)) }"

text \<open>
  A tar header announces the size: the writer takes no more bytes than that, and refuses the
  next header, or the trailer, while bytes are missing.
\<close>

fun tar_entries :: "nat \<Rightarrow> string \<Rightarrow> entry list \<Rightarrow> int \<Rightarrow> (member list \<times> bool) svc" where
  "tar_entries stop_at i [] missing = do { closed \<leftarrow> io; return ([], closed \<and> missing = 0) }"
| "tar_entries stop_at i (e # es) missing = do {
     live \<leftarrow> io;
     if \<not> live then return ([], False) else do {
       header \<leftarrow> io;
       if \<not> header \<or> missing \<noteq> 0 then return ([], False)
       else if ent_Type e = EntryDirectory then do {
         r \<leftarrow> tar_entries stop_at i es 0;
         return (cons_member (dir_member e) r)
       }
       else do {
         d \<leftarrow> copyEntry stop_at i (ent_Path e);
         if \<not> snd d \<or> int (length (fst d)) > ent_Size e
         then return ([file_member e (take (nat (ent_Size e)) (fst d))], False)
         else do {
           r \<leftarrow> tar_entries stop_at i es (ent_Size e - int (length (fst d)));
           return (cons_member (file_member e (fst d)) r)
         }
       }
     }
   }"

definition StreamTar :: "nat \<Rightarrow> string \<Rightarrow> manifest \<Rightarrow> body svc" where
  "StreamTar stop_at i m = do { r \<leftarrow> tar_entries stop_at i (SortedEntries m) 0; return (TarStream (fst r) (snd r)) }"

section \<open>Downloads\<close>

definition serveRawFile :: "http_req \<Rightarrow> Download \<Rightarrow> entry \<Rightarrow> reply svc" where
  "serveRawFile r dl e = (case safe_rel (ent_Path e) of None \<Rightarrow> return (WriteError r ErrInternal) | Some k \<Rightarrow> do {
     f \<leftarrow> open_live (t_ID (dl_Transfer dl)) (''payload/'' @ k);
     return (case f of None \<Rightarrow> WriteError r ErrInternal | Some b \<Rightarrow> ServeContent r (Some (ent_Path e)) b)
   })"

text \<open>Waiting for a download slot ends when one is free or the client gives up.\<close>

definition AcquireDownload :: "bool svc" where
  "AcquireDownload = io"

definition archive_reply :: "http_req \<Rightarrow> nat \<Rightarrow> string \<Rightarrow> Download \<Rightarrow> reply svc" where
  "archive_reply r stop_at format dl =
     (let name = ''sss-'' @ FormatCode (t_Code (dl_Transfer dl)) @ (if format = ''tar'' then ''.tar'' else ''.zip'');
          i = t_ID (dl_Transfer dl)
      in if hq_Method r = ''HEAD'' then
           return \<lparr>rp_Status = 200, rp_File = Some name, rp_Offset = None, rp_Body = NoBody\<rparr>
         else do {
           b \<leftarrow> (if format = ''tar'' then StreamTar stop_at i (dl_Manifest dl) else StreamZip stop_at i (dl_Manifest dl));
           return \<lparr>rp_Status = 200, rp_File = Some name, rp_Offset = None, rp_Body = b\<rparr>
         })"

definition handleDownload :: "server \<Rightarrow> time \<Rightarrow> nat \<Rightarrow> http_req \<Rightarrow> string \<Rightarrow> reply svc" where
  "handleDownload S now stop_at r code =
     (let format = (if hq_Format r = [] then ''auto'' else hq_Format r) in
      if format \<notin> {''auto'', ''raw'', ''zip'', ''tar''} then return (WriteError r ErrInvalidRequest)
      else do {
        opened \<leftarrow> OpenDownload S now code;
        case opened of Inl e \<Rightarrow> return (WriteError r e) | Inr dl \<Rightarrow> do {
          slot \<leftarrow> AcquireDownload;
          if \<not> slot then return (WriteError r ErrNetwork)
          else (case SingleRootFile (dl_Manifest dl) of
              None \<Rightarrow> if format = ''raw'' then return (WriteError r ErrInvalidRequest) else archive_reply r stop_at format dl
            | Some e \<Rightarrow> if format = ''raw'' \<or> format = ''auto'' then serveRawFile r dl e else archive_reply r stop_at format dl)
        }
      })"

section \<open>The other handlers of a receiver\<close>

definition handleMetadata :: "server \<Rightarrow> time \<Rightarrow> http_req \<Rightarrow> string \<Rightarrow> reply svc" where
  "handleMetadata S now r code = do {
     m \<leftarrow> svc_Metadata S now code;
     return (case m of Inl e \<Rightarrow> WriteError r e | Inr x \<Rightarrow> plain_reply 200 (MetadataJSON x))
   }"

text \<open>A body that is no JSON of the request's shape is absent.\<close>

definition handleCreateClaim ::
  "server \<Rightarrow> time \<Rightarrow> time \<Rightarrow> string \<Rightarrow> string \<Rightarrow> http_req \<Rightarrow> string option \<Rightarrow> reply svc" where
  "handleCreateClaim S now1 now2 token claimID r bdy =
     (case bdy of None \<Rightarrow> return (WriteError r ErrInvalidRequest) | Some code \<Rightarrow> do {
        c \<leftarrow> svc_CreateClaim S now1 now2 token claimID code;
        return (case c of Inl e \<Rightarrow> WriteError r e | Inr x \<Rightarrow> plain_reply 201 (ClaimJSON x))
      })"

text \<open>The comparison ignores case; no other letter than their own capitals folds to those of the prefix.\<close>

definition bearerToken :: "http_req \<Rightarrow> string" where
  "bearerToken r = (let h = hq_Authorization r in
     if length h > 7 \<and> map ascii_lower (take 7 h) = ''bearer '' then TrimSpace (drop 7 h) else [])"

definition handleClaimSegment ::
  "server \<Rightarrow> time \<Rightarrow> time \<Rightarrow> http_req \<Rightarrow> string \<Rightarrow> string \<Rightarrow> reply svc" where
  "handleClaimSegment S now1 now2 r claimID segmentID =
     (let token = bearerToken r in
      if token = [] then return (WriteError r ErrAuthRequired)
      else do {
        slot \<leftarrow> AcquireDownload;
        if \<not> slot then return (WriteError r ErrNetwork)
        else do {
          f \<leftarrow> ClaimSegmentFile S now1 now2 claimID token segmentID;
          return (case f of Inl e \<Rightarrow> WriteError r e | Inr b \<Rightarrow> ServeContent r None b)
        }
      })"

definition handleClaimOutboard ::
  "server \<Rightarrow> time \<Rightarrow> time \<Rightarrow> http_req \<Rightarrow> string \<Rightarrow> string \<Rightarrow> reply svc" where
  "handleClaimOutboard S now1 now2 r claimID segmentID =
     (let token = bearerToken r in
      if token = [] then return (WriteError r ErrAuthRequired)
      else do {
        f \<leftarrow> ClaimOutboardFile S now1 now2 claimID token segmentID;
        return (case f of Inl e \<Rightarrow> WriteError r e | Inr b \<Rightarrow> ServeContent r None b)
      })"

definition handleClaimComplete :: "server \<Rightarrow> time \<Rightarrow> time \<Rightarrow> http_req \<Rightarrow> string \<Rightarrow> reply svc" where
  "handleClaimComplete S now1 now2 r claimID =
     (let token = bearerToken r in
      if token = [] then return (WriteError r ErrAuthRequired)
      else do {
        e \<leftarrow> svc_CompleteClaim S now1 now2 claimID token;
        return (case e of Some e \<Rightarrow> WriteError r e | None \<Rightarrow> plain_reply 204 NoBody)
      })"

definition handleLocalReceive :: "server \<Rightarrow> time \<Rightarrow> time \<Rightarrow> string \<Rightarrow> http_req \<Rightarrow> string \<Rightarrow> reply svc" where
  "handleLocalReceive S now1 now2 claimID r code = do {
     c \<leftarrow> LocalPath S now1 now2 claimID code;
     return (case c of Inl e \<Rightarrow> WriteError r e | Inr claim \<Rightarrow>
       plain_reply 200 (if contains_str (hq_Accept r) ''application/json'' then LocalJSON claim
         else Text (lc_Path claim @ [CHR 0x0A])))
   }"

definition handleReadyz :: "bool \<Rightarrow> reply" where
  "handleReadyz ready = (if \<not> ready then plain_reply 503 (Text (''reconciling'' @ [CHR 0x0A]))
     else plain_reply 200 (Text (''ready'' @ [CHR 0x0A])))"

section \<open>The handlers of a resumable upload\<close>

text \<open>The answer and, where they are set, the \<^verbatim>\<open>Upload-Offset\<close> and \<^verbatim>\<open>Upload-Length\<close> headers.\<close>

definition handleUploadHead :: "http_req \<Rightarrow> string \<Rightarrow> (reply \<times> (int \<times> int) option) svc" where
  "handleUploadHead r uploadID = do {
     u \<leftarrow> UploadState uploadID;
     return (case u of Inl e \<Rightarrow> (WriteError r e, None) | Inr x \<Rightarrow> (plain_reply 200 NoBody, Some x))
   }"

text \<open>The headers of a \<^verbatim>\<open>PATCH\<close>; \<^verbatim>\<open>mime.ParseMediaType\<close> is an argument.\<close>

record patch_headers =
  ph_Tus :: string
  ph_ContentType :: string
  ph_Offset :: string

definition patch_offset :: "(string \<Rightarrow> string option) \<Rightarrow> patch_headers \<Rightarrow> int result" where
  "patch_offset media h =
     (if ph_Tus h \<noteq> [] \<and> ph_Tus h \<noteq> ''1.0.0'' then Inl ErrProtocolMismatch
      else if ph_ContentType h \<noteq> [] \<and> media (ph_ContentType h) \<noteq> Some ''application/offset+octet-stream'' then Inl ErrInvalidRequest
      else (case Atoi (ph_Offset h) of None \<Rightarrow> Inl ErrInvalidRequest
        | Some n \<Rightarrow> if n < 0 then Inl ErrInvalidRequest else Inr n))"

definition handleUploadPatch ::
  "server \<Rightarrow> (string \<Rightarrow> string option) \<Rightarrow> (nat \<Rightarrow> disk_usage option) \<Rightarrow> http_req \<Rightarrow> patch_headers \<Rightarrow> string
   \<Rightarrow> bytes list \<Rightarrow> bool \<Rightarrow> (reply \<times> int option) svc" where
  "handleUploadPatch S media disk r h uploadID chunks clean =
     (case patch_offset media h of Inl e \<Rightarrow> return (WriteError r e, None) | Inr offset \<Rightarrow> do {
        (n, e) \<leftarrow> UploadPatch S disk uploadID offset chunks clean;
        return (case e of Some e \<Rightarrow> (WriteError r e, Some n) | None \<Rightarrow> (plain_reply 204 NoBody, Some n))
      })"

definition handleCommit ::
  "server \<Rightarrow> (nat \<Rightarrow> 8 word list) \<Rightarrow> time \<Rightarrow> http_req \<Rightarrow> string \<Rightarrow> manifest option \<Rightarrow> reply svc" where
  "handleCommit S draws now r transferID bdy =
     (case bdy of None \<Rightarrow> return (WriteError r ErrInvalidRequest) | Some m \<Rightarrow> do {
        c \<leftarrow> svc_Commit S draws now transferID m;
        return (case c of Inl e \<Rightarrow> WriteError r e
          | Inr (resp, created) \<Rightarrow> plain_reply (if created then 201 else 200) (CommitJSON resp))
      })"

definition respondCode :: "http_req \<Rightarrow> CommitResponse \<Rightarrow> int \<Rightarrow> reply" where
  "respondCode r resp status = plain_reply status
     (if contains_str (hq_Accept r) ''application/json'' then CommitJSON resp else Text (cp_Code resp @ [CHR 0x0A]))"

section \<open>Ranges\<close>

lemma itoa_digits_are: "list_all is_digit buf \<Longrightarrow> list_all is_digit (itoa_digits n buf)"
proof (induction n buf rule: itoa_digits.induct)
  case (1 i buf)
  have "is_digit (char_of (48 + i mod 10))" by (simp add: is_digit_def)
  then show ?case using 1 by (subst itoa_digits.simps) simp
qed

lemma itoa_is_digit: "list_all is_digit (itoa n)"
  by (simp add: itoa_def itoa_digits_are is_digit_def)

lemma itoa_nonempty: "itoa n \<noteq> []"
proof (cases "n = 0")
  case False
  have "itoa_digits n [] = itoa_digits (n div 10) [] @ [char_of (48 + n mod 10)]"
    using False by (subst itoa_digits.simps) (simp add: itoa_digits_append [of _ "[_]"])
  then show ?thesis using False by (simp add: itoa_def)
qed (simp add: itoa_def)

lemma digits_value_dec: "list_all is_digit ds \<Longrightarrow> digits_value (int a) ds = int (dec_value a ds)"
proof (induction ds arbitrary: a)
  case (Cons c cs)
  have "10 * int a + (int (byte c) - 48) = int (10 * a + (byte c - 48))" using Cons.prems by (simp add: is_digit_def)
  then show ?case using Cons by (simp only: digits_value.simps dec_value.simps list.pred_inject)
qed simp

lemma Atoi_itoa: "int n < 2 ^ 63 \<Longrightarrow> Atoi (itoa n) = Some (int n)"
proof -
  assume n: "int n < 2 ^ 63"
  obtain c cs where i: "itoa n = c # cs" using itoa_nonempty [of n] by (cases "itoa n") auto
  have d: "list_all is_digit (itoa n)" by (rule itoa_is_digit)
  have c: "is_digit c" using d i by simp
  have "c \<noteq> CHR ''-''" "c \<noteq> CHR ''+''" using c by (auto simp: is_digit_def)
  moreover have "digits_value 0 (itoa n) = int n"
    using digits_value_dec [OF d, of 0] by (simp add: dec_value_itoa)
  ultimately show ?thesis using i d n by (simp add: Atoi_def int64_range_def)
qed

lemma digits_free: "list_all is_digit s \<Longrightarrow> \<not> is_digit c \<Longrightarrow> c \<notin> set s"
  by (auto simp: list_all_iff)

lemma trim_ascii_id:
  assumes "\<forall>c\<in>set s. c \<notin> {CHR '' '', CHR 0x09, CHR 0x0A, CHR 0x0D}"
  shows "trim_ascii s = s"
proof -
  have "dropWhile (\<lambda>c. c \<in> {CHR '' '', CHR 0x09, CHR 0x0A, CHR 0x0D}) t = t" if "set t \<subseteq> set s" for t
    using that assms by (cases t) auto
  from this [of s] this [of "rev s"] show ?thesis by (simp add: trim_ascii_def Let_def)
qed

lemma trim_ascii_digits: "list_all is_digit s \<Longrightarrow> trim_ascii s = s"
  by (rule trim_ascii_id) (auto simp: list_all_iff is_digit_def)

lemma parseRange_itoa:
  assumes "d = [] \<or> (\<exists>b. d = itoa b)"
  shows "parseRange (''bytes='' @ itoa a @ ''-'' @ d) len =
    (case one_range len (itoa a @ ''-'' @ d) of None \<Rightarrow> None
     | Some None \<Rightarrow> Some (True, []) | Some (Some x) \<Rightarrow> Some (False, [x]))"
proof -
  have d: "list_all is_digit d" "list_all is_digit (itoa a)" using assms by (auto simp: itoa_is_digit)
  let ?s = "itoa a @ ''-'' @ d"
  have s: "CHR '','' \<notin> set ?s" using digits_free [OF d(1), of "CHR '',''"] digits_free [OF d(2), of "CHR '',''"]
    by (simp add: is_digit_def)
  have t: "trim_ascii ?s = ?s" by (rule trim_ascii_id) (use d in \<open>auto simp: list_all_iff is_digit_def\<close>)
  have "parseRange (''bytes='' @ ?s) len = range_list len [?s]"
    by (simp add: parseRange_def has_prefix_def split_on_free s [simplified])
  then show ?thesis unfolding range_list.simps t Let_def by (auto split: option.split)
qed

lemma one_range_itoa:
  assumes "int a < 2 ^ 63" and "d = [] \<or> (\<exists>b. d = itoa b \<and> int b < 2 ^ 63 \<and> a \<le> b)"
  shows "one_range len (itoa a @ ''-'' @ d) =
    (if int a \<ge> len then Some None
     else Some (Some (int a, (if d = [] then len else min (int (dec_value 0 d) + 1) len) - int a)))"
proof -
  have d: "list_all is_digit d" "list_all is_digit (itoa a)" using assms(2) by (auto simp: itoa_is_digit)
  have f: "c \<noteq> CHR ''-''" if "c \<in> set (itoa a)" for c using that d(2) by (auto simp: list_all_iff is_digit_def)
  have "takeWhile (\<lambda>c. c \<noteq> CHR ''-'') (itoa a @ ''-'' @ d) = itoa a"
    "dropWhile (\<lambda>c. c \<noteq> CHR ''-'') (itoa a @ ''-'' @ d) = ''-'' @ d"
    using f by (simp_all add: takeWhile_append dropWhile_append)
  then show ?thesis
    using assms itoa_nonempty [of a] d
    by (auto simp: one_range_def Let_def trim_ascii_digits Atoi_itoa itoa_nonempty dec_value_itoa)
qed

lemma parseRange_from:
  "int a < 2 ^ 63 \<Longrightarrow> int a < len \<Longrightarrow> parseRange (''bytes='' @ itoa a @ ''-'') len = Some (False, [(int a, len - int a)])"
  using parseRange_itoa [of "[]" a len] one_range_itoa [of a "[]" len] by simp

lemma parseRange_between:
  assumes "a \<le> b" and "int b < len" and "len < 2 ^ 63"
  shows "parseRange (''bytes='' @ itoa a @ ''-'' @ itoa b) len = Some (False, [(int a, int b - int a + 1)])"
proof -
  have "one_range len (itoa a @ ''-'' @ itoa b) = Some (Some (int a, int b - int a + 1))"
    by (subst one_range_itoa) (use assms itoa_nonempty [of b] in \<open>auto simp: dec_value_itoa\<close>)
  then show ?thesis using parseRange_itoa [of "itoa b" a len] by auto
qed

lemma ServeContent_from:
  assumes "hq_Range r = ''bytes='' @ itoa a @ ''-''" and "a < length b" and "int (length b) < 2 ^ 63"
  shows "ServeContent r name b = \<lparr>rp_Status = 206, rp_File = name, rp_Offset = Some (int a), rp_Body = head_only r (Octets (drop a b))\<rparr>"
  using assms parseRange_from [of a "int (length b)"] by (simp add: ServeContent_def slice_def)

lemma ServeContent_between:
  assumes "hq_Range r = ''bytes='' @ itoa a @ ''-'' @ itoa c" and "a \<le> c" and "c < length b" and "int (length b) < 2 ^ 63"
  shows "ServeContent r name b = \<lparr>rp_Status = 206, rp_File = name, rp_Offset = Some (int a),
     rp_Body = head_only r (Octets (take (Suc c - a) (drop a b)))\<rparr>"
proof -
  have "nat (int c - int a + 1) = Suc c - a" using assms(2) by arith
  then show ?thesis
    using assms parseRange_between [of a c "int (length b)"] by (simp add: ServeContent_def slice_def del: nat_diff_distrib')
qed

lemma ServeContent_whole:
  "hq_Range r = [] \<Longrightarrow> ServeContent r name b = \<lparr>rp_Status = 200, rp_File = name, rp_Offset = None, rp_Body = head_only r (Octets b)\<rparr>"
  by (simp add: ServeContent_def parseRange_def)

section \<open>Header values\<close>

lemma runes_low: "(v, bs) \<in> set (runes s) \<Longrightarrow> v < 0x80 \<Longrightarrow> \<exists>c. bs = [c] \<and> byte c = v"
proof (induction s rule: runes.induct)
  case (2 d cs)
  obtain r w where rw: "decode_rune (map byte (take 4 (d # cs))) = (r, w)" by fastforce
  then have rw': "decode_rune (byte d # map byte (take 3 cs)) = (r, w)" by simp
  from "2.prems"(1) consider "v = r" "bs = take w (d # cs)" | "(v, bs) \<in> set (runes (drop w (d # cs)))"
    unfolding runes.simps(2) Let_def rw by auto
  then show ?case
  proof cases
    case 1
    have low: "byte d < 0x80" using decode_rune_nonascii [OF _ rw'] 1 "2.prems"(2) by force
    then have "r = byte d" "w = 1" using rw' by simp_all
    then show ?thesis using 1 by simp
  next
    case 2
    then show ?thesis using "2.IH" [OF refl, of r w] rw "2.prems"(2) by simp
  qed
qed simp

definition header_safe :: "char \<Rightarrow> bool" where
  "header_safe c \<longleftrightarrow> 32 \<le> byte c \<and> byte c < 127"

lemma header_rune_safe:
  assumes "r \<in> set (runes name)" and "c \<in> set (header_rune r)"
  shows "header_safe c \<and> c \<noteq> CHR 0x22 \<and> c \<noteq> CHR 0x5C \<and> c \<noteq> slash"
proof -
  obtain v bs where r: "r = (v, bs)" by (cases r)
  show ?thesis
  proof (cases "v < 0x20 \<or> v = 0x7F \<or> v = 34 \<or> v = 92 \<or> v = 47 \<or> v > 0x7F")
    case True
    then have "c = CHR ''_''" using assms(2) by (auto simp: r header_rune_def split: if_splits)
    then show ?thesis by (simp add: header_safe_def)
  next
    case False
    then obtain d where d: "bs = [d]" "byte d = v" using runes_low [of v bs name] assms(1) r by auto
    then have "c = d" using assms(2) False by (simp add: r header_rune_def)
    then show ?thesis using d False by (auto simp: header_safe_def)
  qed
qed

lemma hex_upper_safe: "n < 16 \<Longrightarrow> header_safe (hex_upper n)"
  by (auto simp: hex_upper_def header_safe_def)

lemma PathEscape_safe: "c \<in> set (PathEscape s) \<Longrightarrow> header_safe c \<and> c \<noteq> CHR 0x22"
proof -
  have "header_safe c \<and> c \<noteq> CHR 0x22" if "path_unreserved c"
    using that by (auto simp: path_unreserved_def Let_def header_safe_def)
  moreover have "hex_upper n \<noteq> CHR 0x22" if "n < 16" for n
  proof
    assume "hex_upper n = CHR 0x22"
    then have "byte (hex_upper n) = 34" by simp
    then show False using that by (simp add: hex_upper_def split: if_splits)
  qed
  moreover have "byte d div 16 < 16" for d by (simp add: less_mult_imp_div_less)
  moreover assume "c \<in> set (PathEscape s)"
  ultimately show ?thesis
    using hex_upper_safe by (auto simp: PathEscape_def header_safe_def split: if_splits)
qed

text \<open>
  C31: A file name cannot break out of its header. Whatever bytes a path holds, the
  \<^verbatim>\<open>Content-Disposition\<close> value consists of printable ASCII, so no line can be added to the answer,
  and the quoted file name is not empty and holds no quote, backslash or slash.
\<close>

theorem setDisposition_safe:
  "list_all header_safe (setDisposition name)
   \<and> sanitizeHeaderFilename name \<noteq> []
   \<and> list_all (\<lambda>c. c \<noteq> CHR 0x22 \<and> c \<noteq> CHR 0x5C \<and> c \<noteq> slash) (sanitizeHeaderFilename name)"
proof -
  have s: "header_safe c \<and> c \<noteq> CHR 0x22 \<and> c \<noteq> CHR 0x5C \<and> c \<noteq> slash" if "c \<in> set (sanitizeHeaderFilename name)" for c
  proof (cases "concat (map header_rune (runes name)) = []")
    case True
    then have "c \<in> set ''download''" using that by (simp add: sanitizeHeaderFilename_def)
    then show ?thesis by (auto simp: header_safe_def)
  next
    case False
    then have "sanitizeHeaderFilename name = concat (map header_rune (runes name))"
      by (simp only: sanitizeHeaderFilename_def Let_def if_False)
    then have "c \<in> set (concat (map header_rune (runes name)))" using that by simp
    then show ?thesis using header_rune_safe by auto
  qed
  have lit: "list_all header_safe ''attachment; filename=''" "list_all header_safe ''; filename*=UTF-8''"
    "list_all header_safe [CHR 0x22]" "list_all header_safe [CHR 0x27, CHR 0x27]" by (simp_all add: header_safe_def)
  moreover have "list_all header_safe (sanitizeHeaderFilename name)" "list_all header_safe (PathEscape name)"
    using s PathEscape_safe by (auto simp: list_all_iff)
  ultimately have "list_all header_safe (setDisposition name)"
    by (simp only: setDisposition_def list_all_append simp_thms)
  moreover have "sanitizeHeaderFilename name \<noteq> []" by (simp add: sanitizeHeaderFilename_def Let_def)
  moreover have "list_all (\<lambda>c. c \<noteq> CHR 0x22 \<and> c \<noteq> CHR 0x5C \<and> c \<noteq> slash) (sanitizeHeaderFilename name)"
    using s unfolding list_all_iff by blast
  ultimately show ?thesis by blast
qed

section \<open>What a stream carries\<close>

definition carries_entry :: "payload \<Rightarrow> entry \<Rightarrow> member \<Rightarrow> bool" where
  "carries_entry pl e m \<longleftrightarrow> (if ent_Type e = EntryDirectory then m = dir_member e
     else \<exists>k b p mt. safe_rel (ent_Path e) = Some k \<and> map_of pl k = Some (NFile b p mt) \<and> m = file_member e b)"

lemma open_payload:
  assumes "live w i = Some t" and "d_payload t = Some pl"
  shows "wp (open_live i (''payload/'' @ k)) (\<lambda>f w'. faults_only w w'
     \<and> (\<forall>b. f = Some b \<longrightarrow> (\<exists>p mt. map_of pl k = Some (NFile b p mt)))) w"
  unfolding open_live_def
  by (simp, rule wp_io_faults)
    (use assms in \<open>auto simp: faults_onlyD dir_file_def bind_eq_Some_conv split: option.splits node.splits\<close>)

lemma copyEntry_post:
  assumes "live w i = Some t" and "d_payload t = Some pl"
  shows "wp (copyEntry c i rel) (\<lambda>d w'. faults_only w w'
     \<and> (snd d \<longrightarrow> (\<exists>k p mt. safe_rel rel = Some k \<and> map_of pl k = Some (NFile (fst d) p mt)))) w"
proof (cases "safe_rel rel")
  case (Some k)
  show ?thesis unfolding copyEntry_def Some option.case
  proof (rule wp_bindI [OF open_payload [OF assms]], goal_cases)
    case (1 f w1)
    then show ?case
      by (cases f) (auto intro!: wp_io_faults dest: faults_only_trans simp: Some)
  qed
qed (simp add: copyEntry_def)

text \<open>One turn of either archive loop.\<close>

abbreviation streamed :: "payload \<Rightarrow> entry list \<Rightarrow> world \<Rightarrow> member list \<times> bool \<Rightarrow> world \<Rightarrow> bool" where
  "streamed pl es w \<equiv> (\<lambda>r w'. faults_only w w' \<and> (snd r \<longrightarrow> list_all2 (carries_entry pl) es (fst r)))"

lemma stream_turn:
  assumes w: "live w i = Some t" "d_payload t = Some pl"
    and rest: "\<And>u. live u i = Some t \<Longrightarrow> wp D (streamed pl es u) u" "\<And>d u. live u i = Some t \<Longrightarrow> wp (F d) (streamed pl es u) u"
    and stop: "\<And>d. \<not> snd d \<Longrightarrow> stop d"
  shows "wp (do {
      live \<leftarrow> io;
      if \<not> live then return ([], False) else do {
        header \<leftarrow> io;
        if bad header then return ([], False)
        else if ent_Type e = EntryDirectory then do { r \<leftarrow> D; return (cons_member (dir_member e) r) }
        else do {
          d \<leftarrow> copyEntry c i (ent_Path e);
          if stop d then return (cutoff d, False)
          else do { r \<leftarrow> F d; return (cons_member (file_member e (fst d)) r) }
        }
      }
    }) (streamed pl (e # es) w) w"
proof -
  have on: "live u i = Some t" if "faults_only w u" for u using w(1) faults_onlyD [OF that] by simp
  have go: "wp (State_Monad.bind M (\<lambda>r. return (cons_member m r))) (streamed pl (e # es) w) u"
    if "faults_only w u" "carries_entry pl e m" "wp M (streamed pl es u) u" for m u M
    unfolding wp_bind using that(3)
    by (rule wp_mono) (use that(1,2) in \<open>auto simp: cons_member_def dest: faults_only_trans\<close>)
  let ?B = "State_Monad.bind (copyEntry c i (ent_Path e)) (\<lambda>d. if stop d then return (cutoff d, False)
          else State_Monad.bind (F d) (\<lambda>r. return (cons_member (file_member e (fst d)) r)))"
  have regular: "wp ?B (streamed pl (e # es) w) v" if v: "faults_only w v" "ent_Type e \<noteq> EntryDirectory" for v
  proof (rule wp_bindI [OF copyEntry_post [OF on [OF v(1)] w(2)]], goal_cases)
    case (1 d v')
    have v': "faults_only w v'" using 1 v(1) faults_only_trans by blast
    show ?case
    proof (cases "stop d")
      case False
      then have "carries_entry pl e (file_member e (fst d))" using 1 v(2) stop [of d] by (auto simp: carries_entry_def)
      from go [OF v' this rest(2) [OF on [OF v']]] show ?thesis using False by (simp only: if_False)
    qed (use v' in simp)
  qed
  have folder: "carries_entry pl e (dir_member e)" if "ent_Type e = EntryDirectory" using that by (simp add: carries_entry_def)
  have gone: "wp (return ([], False)) (streamed pl (e # es) w) v" if "faults_only w v" for v using that by simp
  show ?thesis
  proof (rule wp_bindI [of io "\<lambda>_. faults_only w"], rule wp_io_faults, assumption, goal_cases)
    case (1 ok u)
    show ?case
    proof (cases ok)
      case True
      then have ok: "ok = True" by simp
      show ?thesis unfolding ok not_True_eq_False if_False
      proof (rule wp_bindI [of io "\<lambda>_. faults_only w"], rule wp_io_faults, rule faults_only_trans [OF 1], assumption, goal_cases)
        case (1 h v)
        then show ?case using gone go [OF _ folder rest(1) [OF on]] regular
          by (cases "bad h"; cases "ent_Type e = EntryDirectory") (simp_all only: if_True if_False simp_thms)
      qed
    next
      case False
      then show ?thesis using gone [OF 1] by (simp only: not_False_eq_True if_True)
    qed
  qed
qed

lemma zip_entries_post:
  assumes "d_payload t = Some pl" and "live w i = Some t"
  shows "wp (zip_entries c i es) (streamed pl es w) w"
  using assms(2)
proof (induction es arbitrary: w)
  case (Cons e es)
  show ?case unfolding zip_entries.simps
    by (rule stream_turn [OF Cons.prems assms(1)]; (rule Cons.IH)?; simp?)
qed (auto intro!: wp_io_faults)

lemma tar_entries_post:
  assumes "d_payload t = Some pl" and "live w i = Some t"
  shows "wp (tar_entries c i es n) (streamed pl es w) w"
  using assms(2)
proof (induction es arbitrary: w n)
  case (Cons e es)
  show ?case unfolding tar_entries.simps
    by (rule stream_turn [OF Cons.prems assms(1)]; (rule Cons.IH)?; simp?)
qed (auto intro!: wp_io_faults)

section \<open>A download is what was committed\<close>

definition exact_member :: "server \<Rightarrow> entry \<Rightarrow> member \<Rightarrow> bool" where
  "exact_member S e m \<longleftrightarrow> (if ent_Type e = EntryDirectory then m = dir_member e
     else m = file_member e (mb_Data m) \<and> int (length (mb_Data m)) = ent_Size e \<and> lib_blake3 S (mb_Data m) = ent_Digest e)"

text \<open>What a body of an answer 200 may be: nothing, the one file, a whole archive, or one that was cut short.\<close>

definition exact_body :: "server \<Rightarrow> manifest \<Rightarrow> body \<Rightarrow> bool" where
  "exact_body S m b = (case b of
     NoBody \<Rightarrow> True
   | Octets c \<Rightarrow> (\<exists>e. man_Entries m = [e] \<and> is_file e \<and> int (length c) = ent_Size e \<and> lib_blake3 S c = ent_Digest e)
   | ZipStream ms whole \<Rightarrow> whole \<longrightarrow> list_all2 (exact_member S) (SortedEntries m) ms
   | TarStream ms whole \<Rightarrow> whole \<longrightarrow> list_all2 (exact_member S) (SortedEntries m) ms
   | _ \<Rightarrow> False)"

lemma manifest_types:
  assumes "Validate U m = None" and "e \<in> set (man_Entries m)"
  shows "ent_Type e = EntryDirectory \<or> is_file e"
  using assms Validate_ok [of U m] by (auto simp: manifest_ok_def entry_ok_def split: if_splits)

lemma carries_exact:
  assumes "files_ok S pl (man_Entries m)" and "Validate U m = None" and "e \<in> set (man_Entries m)" and "carries_entry pl e x"
  shows "exact_member S e x"
  using assms manifest_types [OF assms(2,3)]
  by (auto simp: files_ok_def file_there_def carries_entry_def exact_member_def file_member_def split: if_splits)

lemma single_root_file_more: "single_root_file (Some f) (Suc n) es = Some e \<Longrightarrow> es = [] \<and> n = 0 \<and> e = f"
proof (induction es arbitrary: f n)
  case (Cons x es)
  then have "single_root_file (Some x) (Suc (Suc n)) es = Some e" by (auto split: if_splits)
  from Cons.IH [OF this] show ?case by simp
qed (simp split: if_splits)

lemma SingleRootFile_only: "SingleRootFile m = Some e \<Longrightarrow> man_Entries m = [e] \<and> ent_Type e \<noteq> EntryDirectory"
  unfolding SingleRootFile_def
  by (cases "man_Entries m") (auto split: if_splits dest: single_root_file_more)

lemma WriteError_status: "400 \<le> rp_Status (WriteError r e)"
  by (cases e) (simp_all add: WriteError_def HTTPStatus_def httpStatus_def)

lemma WriteError_not_200 [simp]: "rp_Status (WriteError r e) \<noteq> 200" "200 \<noteq> rp_Status (WriteError r e)"
  using WriteError_status [of r e] by auto

lemma ServeContent_200: "rp_Status (ServeContent r name b) = 200 \<Longrightarrow> rp_Body (ServeContent r name b) = head_only r (Octets b)"
  by (auto simp: ServeContent_def Let_def split: option.splits prod.splits list.splits if_splits)

lemma streamed_exact:
  assumes "files_ok S pl (man_Entries m)" and "Validate U m = None" and "streamed pl (SortedEntries m) w r w'"
  shows "snd r \<longrightarrow> list_all2 (exact_member S) (SortedEntries m) (fst r)"
  using assms(3) carries_exact [OF assms(1,2)]
  by (auto elim!: list.rel_mono_strong simp: set_SortedEntries)

lemma Stream_exact:
  assumes "live w i = Some t" and "d_payload t = Some pl" and "files_ok S pl (man_Entries m)" and "Validate U m = None"
  shows "wp (StreamZip c i m) (\<lambda>b _. exact_body S m b) w" and "wp (StreamTar c i m) (\<lambda>b _. exact_body S m b) w"
  unfolding StreamZip_def StreamTar_def wp_bind
  by (rule wp_mono [OF zip_entries_post [OF assms(2,1)]] wp_mono [OF tar_entries_post [OF assms(2,1)]],
      drule streamed_exact [OF assms(3,4)], simp add: exact_body_def)+

lemma serveRawFile_exact:
  assumes "live w (t_ID (dl_Transfer dl)) = Some t" and "d_payload t = Some pl"
    and "files_ok S pl (man_Entries m)" and "man_Entries m = [e]" and "is_file e"
  shows "wp (serveRawFile r dl e) (\<lambda>rep _. rp_Status rep = 200 \<longrightarrow> exact_body S m (rp_Body rep)) w"
proof -
  obtain k c p mt where k: "safe_rel (ent_Path e) = Some k" "map_of pl k = Some (NFile c p mt)"
    "int (length c) = ent_Size e" "lib_blake3 S c = ent_Digest e"
    using assms(3-5) by (auto simp: files_ok_def file_there_def)
  show ?thesis unfolding serveRawFile_def k(1) option.case wp_bind
  proof (rule wp_mono [OF open_payload [OF assms(1,2)]], goal_cases)
    case (1 f w')
    have "rp_Status rep = 200 \<longrightarrow> exact_body S m (rp_Body rep)" if "rep = ServeContent r (Some (ent_Path e)) c" for rep
      using ServeContent_200 [of r "Some (ent_Path e)" c] that assms(4,5) k(3,4) by (auto simp: exact_body_def head_only_def)
    then show ?case using 1 k(2) WriteError_status [of r ErrInternal] by (cases f) auto
  qed
qed

lemma archive_reply_exact:
  assumes "live w (t_ID (dl_Transfer dl)) = Some t" and "d_payload t = Some pl"
    and "files_ok S pl (man_Entries (dl_Manifest dl))" and "Validate U (dl_Manifest dl) = None"
  shows "wp (archive_reply r c format dl) (\<lambda>rep _. rp_Status rep = 200 \<longrightarrow> exact_body S (dl_Manifest dl) (rp_Body rep)) w"
proof -
  have body: "wp (State_Monad.bind M (\<lambda>b. return \<lparr>rp_Status = 200, rp_File = f, rp_Offset = None, rp_Body = b\<rparr>))
      (\<lambda>rep _. rp_Status rep = 200 \<longrightarrow> exact_body S (dl_Manifest dl) (rp_Body rep)) w"
    if "wp M (\<lambda>b _. exact_body S (dl_Manifest dl) b) w" for M f
    unfolding wp_bind by (rule wp_mono [OF that]) simp
  show ?thesis unfolding archive_reply_def Let_def
    by (cases "format = ''tar''"; cases "hq_Method r = ''HEAD''")
      (simp_all only: if_True if_False simp_thms body [OF Stream_exact(1) [OF assms]] body [OF Stream_exact(2) [OF assms]],
       simp_all add: exact_body_def)
qed

lemma handleDownload_exact:
  assumes "server_inv S w"
  shows "wp (handleDownload S now c r code) (\<lambda>rep _. rp_Status rep = 200 \<longrightarrow>
    (\<exists>dl wa. run_state (OpenDownload S now code) w = (Inr dl, wa) \<and> exact_body S (dl_Manifest dl) (rp_Body rep))) w"
    (is "wp _ ?Q w")
proof -
  have err: "?Q (WriteError r e) u" for e u using WriteError_status [of r e] by simp
  obtain x wa where run: "run_state (OpenDownload S now code) w = (x, wa)" by (rule prod.exhaust)
  define format where "format = (if hq_Format r = [] then ''auto'' else hq_Format r)"
  have opened: "wp (case x of Inl e \<Rightarrow> return (WriteError r e) | Inr dl \<Rightarrow> do {
          slot \<leftarrow> AcquireDownload;
          if \<not> slot then return (WriteError r ErrNetwork)
          else (case SingleRootFile (dl_Manifest dl) of
              None \<Rightarrow> if format = ''raw'' then return (WriteError r ErrInvalidRequest) else archive_reply r c format dl
            | Some e \<Rightarrow> if format = ''raw'' \<or> format = ''auto'' then serveRawFile r dl e else archive_reply r c format dl)
        }) ?Q wa"
  proof (cases x)
    case (Inl e)
    show ?thesis unfolding Inl sum.case wp_return by (rule err)
  next
    case (Inr dl)
    from OpenDownload_sound [OF assms run [unfolded Inr]] obtain t pl where
      v: "Validate (lib_unicode S) (dl_Manifest dl) = None" and
      t: "live wa (t_ID (dl_Transfer dl)) = Some t" "d_payload t = Some pl" "files_ok S pl (man_Entries (dl_Manifest dl))"
      by blast
    have good: "?Q rep u" if "rp_Status rep = 200 \<longrightarrow> exact_body S (dl_Manifest dl) (rp_Body rep)" for rep u
      using that run Inr by blast
    show ?thesis unfolding Inr sum.case AcquireDownload_def
    proof (rule wp_bindI [of io "\<lambda>_. faults_only wa"], rule wp_io_faults, assumption, goal_cases)
      case (1 slot u)
      have u: "live u (t_ID (dl_Transfer dl)) = Some t" using t(1) faults_onlyD [OF 1] by simp
      have arch: "wp (archive_reply r c format dl) ?Q u"
        by (rule wp_mono [OF archive_reply_exact [OF u t(2,3) v]]) (rule good)
      have raw: "wp (serveRawFile r dl e) ?Q u" if "SingleRootFile (dl_Manifest dl) = Some e" for e
      proof -
        have "man_Entries (dl_Manifest dl) = [e]" "is_file e"
          using SingleRootFile_only [OF that] manifest_types [OF v, of e] by auto
        from serveRawFile_exact [OF u t(2,3) this] show ?thesis by (rule wp_mono) (rule good)
      qed
      show ?case
        using arch raw by (auto simp del: wp_bind split: option.split)
    qed
  qed
  show ?thesis
  proof (cases "format \<in> {''auto'', ''raw'', ''zip'', ''tar''}")
    case True
    then show ?thesis using opened run
      by (simp only: handleDownload_def Let_def format_def [symmetric] wp_bind [of "OpenDownload _ _ _"] simp_thms if_False wp_def [of "OpenDownload _ _ _"] prod.case)
  next
    case False
    then show ?thesis using err
      by (simp only: handleDownload_def Let_def format_def [symmetric] simp_thms if_True wp_return)
  qed
qed

text \<open>
  C28: A download answers with what was committed. In a world that satisfies the server invariant,
  whatever step fails, an answer 200 belongs to a code that opens, and carries the one committed
  file, or every entry of the manifest in order of its path, with the listed sizes and digests;
  only an archive that was cut short, which ends without its trailer, carries less.
\<close>

theorem download_exact:
  assumes "server_inv S w" and "run_state (handleDownload S now c r code) w = (rep, w')" and "rp_Status rep = 200"
  shows "\<exists>dl wa. run_state (OpenDownload S now code) w = (Inr dl, wa) \<and> exact_body S (dl_Manifest dl) (rp_Body rep)"
  using wp_run [OF handleDownload_exact [OF assms(1)] assms(2)] assms(3) by blast

section \<open>A download without faults is complete\<close>

definition whole_body :: "body \<Rightarrow> bool" where
  "whole_body b = (case b of Octets _ \<Rightarrow> True | ZipStream _ whole \<Rightarrow> whole | TarStream _ whole \<Rightarrow> whole | _ \<Rightarrow> False)"

lemma run_open_payload:
  assumes "w_faults w = []" and "live w i = Some t" and "d_payload t = Some pl" and "map_of pl k = Some (NFile b p mt)"
  shows "run_state (open_live i (''payload/'' @ k)) w = (Some b, w)"
  using assms by (simp add: open_live_def dir_file_def)

lemma run_copyEntry:
  assumes "w_faults w = []" and "live w i = Some t" and "d_payload t = Some pl" and "file_there S pl e"
  shows "\<exists>b. run_state (copyEntry c i (ent_Path e)) w = ((b, True), w) \<and> int (length b) = ent_Size e"
proof -
  obtain k b p mt where k: "safe_rel (ent_Path e) = Some k" "map_of pl k = Some (NFile b p mt)" "int (length b) = ent_Size e"
    using assms(4) by (auto simp: file_there_def)
  from run_open_payload [OF assms(1-3) k(2)] k(1,3) assms(1) show ?thesis
    by (simp add: copyEntry_def)
qed

lemma run_streams:
  assumes "w_faults w = []" and "live w i = Some t" and "d_payload t = Some pl"
    and "\<forall>e\<in>set es. ent_Type e = EntryDirectory \<or> file_there S pl e"
  shows "\<exists>ms. run_state (zip_entries c i es) w = ((ms, True), w)"
    and "\<exists>ms. run_state (tar_entries c i es 0) w = ((ms, True), w)"
proof -
  show "\<exists>ms. run_state (zip_entries c i es) w = ((ms, True), w)" using assms(4)
  proof (induction es)
    case (Cons e es)
    then obtain ms where "run_state (zip_entries c i es) w = ((ms, True), w)" by auto
    then show ?case using Cons.prems run_copyEntry [OF assms(1-3), of S e c] assms(1)
      by (auto simp: cons_member_def)
  qed (simp add: assms(1))
  show "\<exists>ms. run_state (tar_entries c i es 0) w = ((ms, True), w)" using assms(4)
  proof (induction es)
    case (Cons e es)
    then obtain ms where "run_state (tar_entries c i es 0) w = ((ms, True), w)" by auto
    then show ?case using Cons.prems run_copyEntry [OF assms(1-3), of S e c] assms(1)
      by (auto simp: cons_member_def)
  qed (simp add: assms(1))
qed

lemma calm_OpenDownload: "w_faults w = [] \<Longrightarrow> w_faults (snd (run_state (OpenDownload S now code) w)) = []"
proof -
  assume w: "w_faults w = []"
  have look: "w_faults (snd (run_state (lookupCommitted now code) w)) = []" using w
    by (simp add: lookupCommitted_def split: option.split sum.split prod.split)
  have man: "w_faults (snd (run_state (svc_Manifest S t) u)) = []" if "w_faults u = []" for t u using that
    by (simp add: svc_Manifest_def ReadManifest_def remember_manifest_def split: option.split sum.split)
  obtain x u where l: "run_state (lookupCommitted now code) w = (x, u)" by (rule prod.exhaust)
  show ?thesis
  proof (cases x)
    case (Inr t)
    obtain y v where m: "run_state (svc_Manifest S t) u = (y, v)" by (rule prod.exhaust)
    then show ?thesis using l look man [of u t] Inr by (cases y) (simp_all add: OpenDownload_def)
  qed (use l look in \<open>simp add: OpenDownload_def\<close>)
qed


text \<open>
  C30: Without faults nothing is held back. When no step fails, a committed, unexpired code opens for
  every client: a \<^verbatim>\<open>GET\<close> without range, in any format but \<^verbatim>\<open>raw\<close>, is answered by the whole file or a whole archive.
\<close>

theorem download_answers:
  assumes "server_inv S w" and "w_faults w = []" and "trow (w_db w) i = Some row" and "tr_code row = Some cd"
    and "tr_state row = StateCommitted" and "NormalizeCode code = Some cd" and "now < t_ExpiresAt (scanTransfer row)"
    and "live_manifest w i = Some m"
    and "hq_Method r = ''GET''" and "hq_Range r = []" and "hq_Format r \<in> {[], ''auto'', ''zip'', ''tar''}"
  shows "\<exists>rep w'. run_state (handleDownload S now c r code) w = (rep, w') \<and> rp_Status rep = 200
    \<and> whole_body (rp_Body rep) \<and> exact_body S m (rp_Body rep)"
proof -
  from OpenDownload_succeeds [OF assms(1-8)] obtain dl wa where
    dl: "run_state (OpenDownload S now code) w = (Inr dl, wa)" "dl_Manifest dl = m" by blast
  have nf: "w_faults wa = []" using calm_OpenDownload [OF assms(2), of S now code] dl(1) by simp
  from OpenDownload_sound [OF assms(1) dl(1)] obtain t pl where
    v: "Validate (lib_unicode S) m = None" and t: "live wa (t_ID (dl_Transfer dl)) = Some t" "d_payload t = Some pl"
    "files_ok S pl (man_Entries m)" unfolding dl(2) by blast
  have there: "\<forall>e\<in>set (SortedEntries m). ent_Type e = EntryDirectory \<or> file_there S pl e"
    using manifest_types [OF v] t(3) by (auto simp: set_SortedEntries files_ok_def)
  obtain zs ts where streams: "run_state (zip_entries c (t_ID (dl_Transfer dl)) (SortedEntries m)) wa = ((zs, True), wa)"
    "run_state (tar_entries c (t_ID (dl_Transfer dl)) (SortedEntries m) 0) wa = ((ts, True), wa)"
    using run_streams [OF nf t(1,2) there] by blast
  have arch: "\<exists>rep. run_state (archive_reply r c f dl) wa = (rep, wa) \<and> rp_Status rep = 200 \<and> whole_body (rp_Body rep)" for f
    using streams assms(9) dl(2) by (auto simp: archive_reply_def Let_def StreamZip_def StreamTar_def whole_body_def)
  have raw: "\<exists>rep. run_state (serveRawFile r dl e) wa = (rep, wa) \<and> rp_Status rep = 200 \<and> whole_body (rp_Body rep)"
    if "SingleRootFile m = Some e" for e
  proof -
    have "man_Entries m = [e]" "ent_Type e \<noteq> EntryDirectory" using SingleRootFile_only [OF that] by auto
    then have "file_there S pl e" using there by (simp add: SortedEntries_def)
    then obtain k b p mt where k: "safe_rel (ent_Path e) = Some k" "map_of pl k = Some (NFile b p mt)"
      by (auto simp: file_there_def)
    from run_open_payload [OF nf t(1,2) k(2)] show ?thesis
      by (simp add: serveRawFile_def k(1) ServeContent_whole [OF assms(10)] head_only_def assms(9) whole_body_def)
  qed
  define f where "f = (if hq_Format r = [] then ''auto'' else hq_Format r)"
  have f: "f \<in> {''auto'', ''zip'', ''tar''}" using assms(11) by (auto simp: f_def)
  have "\<exists>rep. run_state (case SingleRootFile m of
        None \<Rightarrow> if f = ''raw'' then return (WriteError r ErrInvalidRequest) else archive_reply r c f dl
      | Some e \<Rightarrow> if f = ''raw'' \<or> f = ''auto'' then serveRawFile r dl e else archive_reply r c f dl) wa = (rep, wa)
    \<and> rp_Status rep = 200 \<and> whole_body (rp_Body rep)"
    using f arch [of f] raw by (cases "SingleRootFile m") (simp_all, blast+)
  then obtain rep w' where rep: "run_state (handleDownload S now c r code) w = (rep, w')" "rp_Status rep = 200"
    "whole_body (rp_Body rep)"
    using f dl nf by (auto simp: handleDownload_def Let_def AcquireDownload_def f_def [symmetric])
  have "exact_body S m (rp_Body rep)"
    using wp_run [OF handleDownload_exact [OF assms(1)] rep(1)] rep(2) dl by auto
  then show ?thesis using rep by blast
qed

section \<open>A sample download\<close>

definition sample_get :: http_req where
  "sample_get = \<lparr>hq_Method = ''GET'', hq_Path = ''/r/x'', hq_Accept = [], hq_Range = [], hq_Authorization = [], hq_Format = ''zip''\<rparr>"

definition sample_download :: "reply \<times> world" where
  "sample_download = run_state (handleDownload sample_server (1700000200 * second) 0 sample_get (FormatCode sample_code)) sample_live_world"

lemma sample_download_run:
  "run_state (handleDownload sample_server (1700000200 * second) 0 sample_get (FormatCode sample_code)) sample_live_world
     = (\<lparr>rp_Status = 200, rp_File = Some (''sss-'' @ FormatCode sample_code @ ''.zip''), rp_Offset = None,
         rp_Body = ZipStream [\<lparr>mb_Name = ''read.me'', mb_Dir = False, mb_Mode = 420, mb_MTime = 0, mb_Data = ''hello''\<rparr>] True\<rparr>,
        snd sample_download)"
proof -
  have "fst sample_download = \<lparr>rp_Status = 200, rp_File = Some (''sss-'' @ FormatCode sample_code @ ''.zip''), rp_Offset = None,
      rp_Body = ZipStream [\<lparr>mb_Name = ''read.me'', mb_Dir = False, mb_Mode = 420, mb_MTime = 0, mb_Data = ''hello''\<rparr>] True\<rparr>"
    by code_simp
  then show ?thesis by (simp add: sample_download_def prod_eq_iff)
qed

theorem download_exact_witness:
  "\<exists>dl wa. run_state (OpenDownload sample_server (1700000200 * second) (FormatCode sample_code)) sample_live_world = (Inr dl, wa)
    \<and> list_all2 (exact_member sample_server) (SortedEntries (dl_Manifest dl))
        [\<lparr>mb_Name = ''read.me'', mb_Dir = False, mb_Mode = 420, mb_MTime = 0, mb_Data = ''hello''\<rparr>]"
  using download_exact [OF sample_live_inv sample_download_run] by (simp add: exact_body_def)

theorem download_answers_witness:
  "\<exists>rep w'. run_state (handleDownload sample_server (1700000200 * second) 0 sample_get (FormatCode sample_code)) sample_live_world = (rep, w')
    \<and> rp_Status rep = 200 \<and> whole_body (rp_Body rep)"
proof -
  have row: "map_option (\<lambda>r. (tr_code r, tr_state r, t_ExpiresAt (scanTransfer r))) (trow (w_db sample_live_world) sample_id)
      = Some (Some sample_code, StateCommitted, 1700001900 * second)"
    and nf: "w_faults sample_live_world = []" and code: "NormalizeCode (FormatCode sample_code) = Some sample_code"
    and man: "live_manifest sample_live_world sample_id \<noteq> None" by code_simp+
  obtain r where r: "trow (w_db sample_live_world) sample_id = Some r" "tr_code r = Some sample_code"
    "tr_state r = StateCommitted" "t_ExpiresAt (scanTransfer r) = 1700001900 * second" using row by auto
  obtain m where m: "live_manifest sample_live_world sample_id = Some m" using man by blast
  have "1700000200 * second < t_ExpiresAt (scanTransfer r)" using r(4) by (simp add: second_def)
  from download_answers [OF sample_live_inv nf r(1-3) code this m, of sample_get 0] show ?thesis
    by (auto simp: sample_get_def)
qed

end
