(* ===== verification/SSS_Honest.thy ===== *)
theory SSS_Honest
  imports SSS_Download SSS_Recv
begin

text \<open>
  The receiving client against the server's own handlers: each request of the client is turned
  into its HTTP form (\<^verbatim>\<open>SegmentReader\<close>, \<^verbatim>\<open>SegmentRangeReader\<close> and \<^verbatim>\<open>OutboardBytes\<close> of
  \<^verbatim>\<open>internal/client/client.go\<close>), routed to the claim handlers of \<^verbatim>\<open>internal/api/public/api.go\<close> and
  answered by them. The theorem shows that an honest server is served by one request for the
  tree and one for the stream, however many groups there are.
\<close>

section \<open>Requests on the wire\<close>

fun range_header :: "byte_range \<Rightarrow> string" where
  "range_header Whole = []"
| "range_header (From offset) = ''bytes='' @ FormatInt offset @ ''-''"
| "range_header (Between start stop) = ''bytes='' @ FormatInt start @ ''-'' @ FormatInt stop"

definition http_get :: "get \<Rightarrow> http_req" where
  "http_get g = \<lparr>hq_Method = ''GET'', hq_Path = gt_Path g, hq_Accept = [], hq_Range = range_header (gt_Range g),
     hq_Authorization = ''Bearer '' @ gt_Token g, hq_Format = []\<rparr>"

text \<open>The routes of a claim; anything else is not found.\<close>

definition claim_routes :: "server \<Rightarrow> time \<Rightarrow> get \<Rightarrow> reply svc" where
  "claim_routes S now g = (case split_on slash (gt_Path g) of
     [a, b, c, claimID, d, segmentID] \<Rightarrow>
       if a = [] \<and> b = ''v1'' \<and> c = ''claims'' \<and> d = ''segments'' then handleClaimSegment S now now (http_get g) claimID segmentID
       else return (plain_reply 404 NoBody)
   | [a, b, c, claimID, d, segmentID, e] \<Rightarrow>
       if a = [] \<and> b = ''v1'' \<and> c = ''claims'' \<and> d = ''segments'' \<and> e = ''outboard''
       then handleClaimOutboard S now now (http_get g) claimID segmentID
       else return (plain_reply 404 NoBody)
   | _ \<Rightarrow> return (plain_reply 404 NoBody))"

text \<open>The bytes of a body; \<open>json\<close> encodes the error envelope.\<close>

definition body_bytes :: "(errcode \<Rightarrow> bytes) \<Rightarrow> body \<Rightarrow> bytes" where
  "body_bytes json b = (case b of Octets c \<Rightarrow> c | Text s \<Rightarrow> s | ErrorEnvelope e \<Rightarrow> json e | _ \<Rightarrow> [])"

text \<open>The world and the clock at the \<open>n\<close>-th request are those of the moment it is handled.\<close>

definition honest_net :: "server \<Rightarrow> (errcode \<Rightarrow> bytes) \<Rightarrow> (nat \<Rightarrow> time) \<Rightarrow> (nat \<Rightarrow> world) \<Rightarrow> network" where
  "honest_net S json now ws n g = (let rep = fst (run_state (claim_routes S (now n) g) (ws n)) in
     Answer (rp_Status rep) (body_bytes json (rp_Body rep)) True)"

text \<open>The server holds the segment and its tree, and the session is open, at every request.\<close>

definition serves_segment ::
  "server \<Rightarrow> (nat \<Rightarrow> time) \<Rightarrow> (nat \<Rightarrow> world) \<Rightarrow> string \<Rightarrow> string \<Rightarrow> string \<Rightarrow> bytes \<Rightarrow> bytes \<Rightarrow> bool" where
  "serves_segment S now ws claimID token segmentID content tree \<longleftrightarrow> (\<forall>n. w_faults (ws n) = []
     \<and> fst (run_state (ClaimSegmentFile S (now n) (now n) claimID token segmentID) (ws n)) = Inr content
     \<and> fst (run_state (ClaimOutboardFile S (now n) (now n) claimID token segmentID) (ws n)) = Inr tree)"

section \<open>What the claim handlers answer\<close>

lemma bearerToken_get: "token \<noteq> [] \<Longrightarrow> TrimSpace token = token \<Longrightarrow> gt_Token g = token \<Longrightarrow> bearerToken (http_get g) = token"
proof -
  have "map ascii_lower ''Bearer '' = ''bearer ''" by code_simp
  then show "token \<noteq> [] \<Longrightarrow> TrimSpace token = token \<Longrightarrow> gt_Token g = token \<Longrightarrow> bearerToken (http_get g) = token"
    by (simp add: bearerToken_def http_get_def Let_def)
qed

lemma claim_path_split:
  assumes "slash \<notin> set claimID" and "slash \<notin> set segmentID"
  shows "split_on slash (''/v1/claims/'' @ claimID @ ''/segments/'' @ segmentID)
      = [[], ''v1'', ''claims'', claimID, ''segments'', segmentID]"
    and "split_on slash (''/v1/claims/'' @ claimID @ ''/segments/'' @ segmentID @ ''/outboard'')
      = [[], ''v1'', ''claims'', claimID, ''segments'', segmentID, ''outboard'']"
  using assms by (simp_all add: split_on_append split_on_free)

lemma honest_answers:
  assumes s: "serves_segment S now ws claimID token segmentID content tree" "token \<noteq> []" "TrimSpace token = token"
    and p: "slash \<notin> set claimID" "slash \<notin> set segmentID"
  shows "honest_net S json now ws n \<lparr>gt_Path = ''/v1/claims/'' @ claimID @ ''/segments/'' @ segmentID, gt_Token = token, gt_Range = r\<rparr>
      = (let rep = ServeContent (http_get \<lparr>gt_Path = ''/v1/claims/'' @ claimID @ ''/segments/'' @ segmentID, gt_Token = token, gt_Range = r\<rparr>)
             None content in Answer (rp_Status rep) (body_bytes json (rp_Body rep)) True)" (is ?seg)
    and "honest_net S json now ws n \<lparr>gt_Path = ''/v1/claims/'' @ claimID @ ''/segments/'' @ segmentID @ ''/outboard'', gt_Token = token, gt_Range = Whole\<rparr>
      = Answer 200 tree True" (is ?tree)
proof -
  let ?p = "''/v1/claims/'' @ claimID @ ''/segments/'' @ segmentID"
  let ?g = "\<lparr>gt_Path = ?p, gt_Token = token, gt_Range = r\<rparr>"
  let ?o = "\<lparr>gt_Path = ?p @ ''/outboard'', gt_Token = token, gt_Range = Whole\<rparr>"
  have nf: "w_faults (ws n) = []"
    and f: "fst (run_state (ClaimSegmentFile S (now n) (now n) claimID token segmentID) (ws n)) = Inr content"
    and t: "fst (run_state (ClaimOutboardFile S (now n) (now n) claimID token segmentID) (ws n)) = Inr tree"
    using s(1) by (auto simp: serves_segment_def)
  have b: "bearerToken (http_get ?g) = token" "bearerToken (http_get ?o) = token" using s(2,3) by (simp_all add: bearerToken_get)
  have "claim_routes S (now n) ?g = handleClaimSegment S (now n) (now n) (http_get ?g) claimID segmentID"
    unfolding claim_routes_def get.select_convs claim_path_split(1) [OF p] by simp
  then show ?seg
    unfolding honest_net_def Let_def using f b nf s(2)
    by (cases "run_state (ClaimSegmentFile S (now n) (now n) claimID token segmentID) (ws n)")
      (simp add: handleClaimSegment_def AcquireDownload_def)
  have "claim_routes S (now n) ?o = handleClaimOutboard S (now n) (now n) (http_get ?o) claimID segmentID"
    unfolding claim_routes_def get.select_convs append_assoc claim_path_split(2) [OF p] by simp
  then show ?tree
    unfolding honest_net_def Let_def using t b nf s(2)
    by (cases "run_state (ClaimOutboardFile S (now n) (now n) claimID token segmentID) (ws n)")
      (simp add: handleClaimOutboard_def ServeContent_whole http_get_def head_only_def body_bytes_def)
qed

section \<open>An honest download\<close>

lemma FormatInt_nat: "FormatInt (int a) = itoa a"
  by (simp add: FormatInt_def)

lemma honest_ranges:
  assumes "serves_segment S now ws claimID token segmentID content tree" "token \<noteq> []" "TrimSpace token = token"
    and "slash \<notin> set claimID" "slash \<notin> set segmentID" and "int (length content) < 2 ^ 63"
  defines "p \<equiv> ''/v1/claims/'' @ claimID @ ''/segments/'' @ segmentID"
  shows "honest_net S json now ws n \<lparr>gt_Path = p, gt_Token = token, gt_Range = Whole\<rparr> = Answer 200 content True"
    and "a \<le> c \<Longrightarrow> c < length content \<Longrightarrow>
      honest_net S json now ws n \<lparr>gt_Path = p, gt_Token = token, gt_Range = Between (int a) (int c)\<rparr>
      = Answer 206 (take (Suc c - a) (drop a content)) True"
    and "a < length content \<Longrightarrow>
      honest_net S json now ws n \<lparr>gt_Path = p, gt_Token = token, gt_Range = From (int a)\<rparr>
      = Answer 206 (drop a content) True"
proof -
  note answers = honest_answers(1) [OF assms(1-5), of json n, folded p_def]
  let ?g = "\<lambda>r. http_get \<lparr>gt_Path = p, gt_Token = token, gt_Range = r\<rparr>"
  have get: "hq_Method (?g r) = ''GET''" for r by (simp add: http_get_def)
  have "hq_Range (?g Whole) = []" by (simp add: http_get_def)
  from ServeContent_whole [OF this, of None content]
  show "honest_net S json now ws n \<lparr>gt_Path = p, gt_Token = token, gt_Range = Whole\<rparr> = Answer 200 content True"
    by (simp add: answers head_only_def get body_bytes_def)
  show "honest_net S json now ws n \<lparr>gt_Path = p, gt_Token = token, gt_Range = Between (int a) (int c)\<rparr>
      = Answer 206 (take (Suc c - a) (drop a content)) True" if ac: "a \<le> c" "c < length content"
  proof -
    have "hq_Range (?g (Between (int a) (int c))) = ''bytes='' @ itoa a @ ''-'' @ itoa c"
      by (simp add: http_get_def FormatInt_nat)
    from ServeContent_between [OF this ac assms(6), of None] show ?thesis
      by (simp add: answers head_only_def get body_bytes_def)
  qed
  show "honest_net S json now ws n \<lparr>gt_Path = p, gt_Token = token, gt_Range = From (int a)\<rparr>
      = Answer 206 (drop a content) True" if a: "a < length content"
  proof -
    have "hq_Range (?g (From (int a))) = ''bytes='' @ itoa a @ ''-''"
      by (simp add: http_get_def FormatInt_nat)
    from ServeContent_from [OF this a assms(6), of None] show ?thesis
      by (simp add: answers head_only_def get body_bytes_def)
  qed
qed

text \<open>The tree proves the content, and nothing else in its place.\<close>

definition proves :: "client_lib \<Rightarrow> ClaimSegment \<Rightarrow> bytes \<Rightarrow> bytes \<Rightarrow> bool" where
  "proves L seg tree content \<longleftrightarrow> authentic L seg content
     \<and> (\<forall>k<groups (cs_Length seg). cl_verify L (group_of content k) tree (GroupSize * int k) (cs_Digest seg))"

lemma honest_repairable:
  assumes s: "serves_segment S now ws claimID token (seg_ID sg) content tree" "token \<noteq> []" "TrimSpace token = token"
    and p: "slash \<notin> set claimID" "slash \<notin> set (seg_ID sg)" and len: "int (length content) < 2 ^ 63"
    and cs: "cs = claim_segment_of S claimID True sg" and pr: "proves L cs tree content"
  shows "repairable L (honest_net S json now ws) token cs tree content"
proof -
  have path: "cs_Path cs = ''/v1/claims/'' @ claimID @ ''/segments/'' @ seg_ID sg"
    by (simp add: cs claim_segment_of_def Let_def)
  have n: "cs_Length cs = int (length content)" using pr by (simp add: proves_def authentic_def)
  have "honest_net S json now ws n \<lparr>gt_Path = cs_Path cs, gt_Token = token,
      gt_Range = Between (GroupSize * int k) (GroupSize * int k + group_want cs (GroupSize * int k) - 1)\<rparr>
      = Answer 206 (group_of content k) True" if k: "k < groups (cs_Length cs)" for n k
  proof -
    define a where "a = nat GroupSize * k"
    define m where "m = length (group_of content k)"
    have a: "GroupSize * int k = int a" by (simp add: a_def GroupSize_def)
    have m: "group_want cs (int a) = int m" unfolding a [symmetric] using length_group_of [of content cs k] k n by (simp add: m_def)
    have lt: "int a < int (length content)" using k n by (simp only: less_groups a)
    have pos: "0 < m" using group_want_pos [of "int a" cs] lt n m by simp
    have "group_of content k = take (nat GroupSize) (drop a content)" by (simp only: group_of_def a_def)
    then have "take m (drop a content) = group_of content k" by (simp only: m_def take_length_take)
    moreover from this have "m \<le> length content - a" by (metis m_def length_take length_drop min.cobounded1)
    ultimately have fits: "a \<le> a + m - 1" "a + m - 1 < length content" "Suc (a + m - 1) - a = m"
        "int a + int m - 1 = int (a + m - 1)"
      and take: "take m (drop a content) = group_of content k" using pos lt by linarith+
    show ?thesis
      using honest_ranges(2) [OF s p len fits(1,2), of json n] unfolding a m path fits(3,4) take .
  qed
  then show ?thesis using pr by (simp add: repairable_def proves_def Let_def)
qed

text \<open>
  C29: An honest server is served by two requests. When the server holds a segment and its tree, and
  the tree proves the segment, then a new download over the server's own handlers succeeds with
  exactly the segment's bytes, after one request for the tree and one for the stream.
\<close>

theorem honest_download:
  assumes "serves_segment S now ws claimID token (seg_ID sg) content tree" and "token \<noteq> []" and "TrimSpace token = token"
    and "slash \<notin> set claimID" and "slash \<notin> set (seg_ID sg)"
    and "content \<noteq> []" and "int (length content) < 2 ^ 63"
    and "cs = claim_segment_of S claimID True sg" and "proves L cs tree content"
    and "tree \<noteq> []" and "cs_OutboardLength cs = int (length tree)"
    and "seg_file target s = None" and "fe_faults s = []"
  shows "\<exists>s'. run_state (fetchOneSegment L (honest_net S json now ws) token cs target) s = (None, s')
    \<and> seg_file target s' = Some content \<and> fe_requests s' = fe_requests s + 2"
proof -
  let ?net = "honest_net S json now ws"
  let ?u = "s\<lparr>fe_requests := Suc (fe_requests s)\<rparr>"
  have path: "cs_Path cs = ''/v1/claims/'' @ claimID @ ''/segments/'' @ seg_ID sg"
    "cs_OutboardPath cs = ''/v1/claims/'' @ claimID @ ''/segments/'' @ seg_ID sg @ ''/outboard''"
    by (simp_all add: assms(8) claim_segment_of_def Let_def)
  have tree: "run_state (OutboardBytes L ?net (cs_OutboardPath cs) token (cs_OutboardLength cs)) s = (Inr tree, ?u)"
    using honest_answers(2) [OF assms(1-5)] assms(11)
    by (simp add: OutboardBytes_def run_client_do path)
  have whole: "?net (fe_requests ?u) \<lparr>gt_Path = cs_Path cs, gt_Token = token, gt_Range = Whole\<rparr> = Answer 200 content True"
    unfolding path by (rule honest_ranges(1) [OF assms(1-5,7)])
  obtain s' where s': "run_state (fetchVerified L ?net token cs target tree) ?u = (None, s')"
    "seg_file target s' = Some content" "fe_requests s' = fe_requests ?u + 1 + length (damaged_from 0 content content)"
    using run_fetchVerified_repairs [OF honest_repairable [OF assms(1-5,7-9)] assms(6) whole refl, of target] assms(12,13)
    by auto
  have "damaged_from 0 content content = []" by (simp add: damaged_from_def)
  moreover have "run_state (fetchOneSegment L ?net token cs target) s = run_state (fetchVerified L ?net token cs target tree) ?u"
    using tree assms(10,11) path(2) by (simp add: fetchOneSegment_def)
  ultimately show ?thesis using s' by auto
qed

section \<open>A sample download from the server\<close>

definition tree_lib :: client_lib where
  "tree_lib = \<lparr>cl_envelope = (\<lambda>_. None),
     cl_verify = (\<lambda>buf tree offset digest. tree = ''tree'' \<and> offset = 0 \<and> buf = ''hello''),
     cl_blake3 = lib_blake3 sample_server\<rparr>"

text \<open>The upload of \<open>SSS_Commit\<close>, claimed after its commit.\<close>

definition claimed_world :: world where
  "claimed_world = snd (run_state (svc_CreateClaim sample_server (1700000200 * second) (1700000201 * second)
     ''tok'' ''c-1'' (FormatCode sample_code)) (snd sample_commit))"

definition sample_moments :: "nat \<Rightarrow> world" where
  "sample_moments n = claimed_world"

definition sample_claimed :: ClaimSegment where
  "sample_claimed = claim_segment_of sample_server ''c-1'' True (hd (man_Segments sample_manifest))"

lemma sample_serves:
  "serves_segment sample_server (\<lambda>_. 1700000300 * second) sample_moments ''c-1'' ''tok'' (seg_ID (hd (man_Segments sample_manifest))) ''hello'' ''tree''"
proof -
  have "w_faults claimed_world = []"
    "fst (run_state (ClaimSegmentFile sample_server (1700000300 * second) (1700000300 * second) ''c-1'' ''tok''
       (seg_ID (hd (man_Segments sample_manifest)))) claimed_world) = Inr ''hello''"
    "fst (run_state (ClaimOutboardFile sample_server (1700000300 * second) (1700000300 * second) ''c-1'' ''tok''
       (seg_ID (hd (man_Segments sample_manifest)))) claimed_world) = Inr ''tree''" by code_simp+
  then show ?thesis by (simp add: serves_segment_def sample_moments_def)
qed

lemma sample_proves: "proves tree_lib sample_claimed ''tree'' ''hello''"
proof -
  have len: "cs_Length sample_claimed = 5" by code_simp
  have "k < groups 5 \<longleftrightarrow> k = 0" for k by (auto simp: groups_def GroupSize_def)
  moreover have "group_of ''hello'' 0 = ''hello''" by code_simp
  moreover have "authentic tree_lib sample_claimed ''hello''"
    unfolding authentic_def proved_def tree_lib_def len by simp
  ultimately show ?thesis unfolding proves_def len by (simp add: tree_lib_def)
qed

theorem honest_download_witness:
  "\<exists>s'. run_state (fetchOneSegment tree_lib (honest_net sample_server (\<lambda>_. []) (\<lambda>_. 1700000300 * second) sample_moments)
      ''tok'' sample_claimed ''/segments/s-1'') sample_fetching = (None, s')
    \<and> seg_file ''/segments/s-1'' s' = Some ''hello'' \<and> fe_requests s' = 2"
proof -
  have "TrimSpace ''tok'' = ''tok''" "slash \<notin> set ''c-1''" "slash \<notin> set (seg_ID (hd (man_Segments sample_manifest)))"
    "cs_OutboardLength sample_claimed = 4" by code_simp+
  moreover have "seg_file ''/segments/s-1'' sample_fetching = None" "fe_faults sample_fetching = []" "fe_requests sample_fetching = 0"
    by (simp_all add: sample_fetching_def)
  ultimately show ?thesis
    using honest_download [OF sample_serves _ _ _ _ _ _ sample_claimed_def sample_proves,
        where target = "''/segments/s-1''" and s = sample_fetching and json = "\<lambda>_. []"]
    by (simp add: numeral_2_eq_2)
qed

end
