(* ===== verification/SSS_Config.thy ===== *)
theory SSS_Config
  imports SSS_Invariant SSS_Wire
begin

text \<open>
  Configuration: the server's file with its defaults and validation (\<^verbatim>\<open>internal/config/server.go\<close>),
  and the client's saved settings, precedence rules and URL check (\<^verbatim>\<open>internal/config/client.go\<close>).
  TOML, JSON and \<^verbatim>\<open>net/url\<close> parsing are arguments. The theorems show that a daemon that starts has
  the configuration the server theories assume, that the password only travels over TLS or to the
  own host, and that saving the client's settings never damages them.
\<close>

section \<open>The server's configuration\<close>

record server_section =
  cf_Listen :: string
  cf_PublicURL :: string
  cf_UnixSocket :: string
  cf_ShutdownGraceSeconds :: int

record auth_section =
  cf_Username :: string
  cf_PasswordHash :: string
  cf_FailedAttemptsPerMinute :: int

record storage_section =
  cf_DataDir :: string
  cf_DBPath :: string
  cf_StagingTTLMinutes :: int
  cf_LocalClaimGraceMinutes :: int

record limits_section =
  cf_DefaultTTLMinutes :: int
  cf_MaxTTLMinutes :: int
  cf_MaxTransferBytes :: int
  cf_MaxFiles :: int
  cf_MaxNoteBytes :: int
  cf_DiskHighWatermarkPercent :: int
  cf_MaxConcurrentUploads :: int
  cf_MaxConcurrentDownloads :: int
  cf_MaxMaterializeWorkers :: int

record server_config =
  cf_Server :: server_section
  cf_Auth :: auth_section
  cf_Storage :: storage_section
  cf_Limits :: limits_section

definition DefaultServer :: server_config where
  "DefaultServer = \<lparr>
     cf_Server = \<lparr>cf_Listen = ''127.0.0.1:7070'', cf_PublicURL = [], cf_UnixSocket = ''/run/sss/sssd.sock'',
       cf_ShutdownGraceSeconds = 30\<rparr>,
     cf_Auth = \<lparr>cf_Username = ''sss'', cf_PasswordHash = [], cf_FailedAttemptsPerMinute = 20\<rparr>,
     cf_Storage = \<lparr>cf_DataDir = ''/srv/sss'', cf_DBPath = ''/var/lib/sss/sss.db'', cf_StagingTTLMinutes = 360,
       cf_LocalClaimGraceMinutes = 120\<rparr>,
     cf_Limits = \<lparr>cf_DefaultTTLMinutes = DefaultTTLMinutes, cf_MaxTTLMinutes = MaxTTLMinutes, cf_MaxTransferBytes = 0,
       cf_MaxFiles = 250000, cf_MaxNoteBytes = int MaxNoteBytesHard, cf_DiskHighWatermarkPercent = 85,
       cf_MaxConcurrentUploads = 8, cf_MaxConcurrentDownloads = 16, cf_MaxMaterializeWorkers = 4\<rparr>\<rparr>"

text \<open>What \<^verbatim>\<open>url.Parse\<close> yields: scheme, host and host name without the port.\<close>

record parsed_url =
  pu_Scheme :: string
  pu_Host :: string
  pu_Hostname :: string

type_synonym url_parser = "string \<Rightarrow> parsed_url option"

definition absolute_url :: "url_parser \<Rightarrow> string \<Rightarrow> bool" where
  "absolute_url parse u = (case parse u of None \<Rightarrow> False | Some p \<Rightarrow> pu_Scheme p \<noteq> [] \<and> pu_Host p \<noteq> [])"

text \<open>The offending key, or none.\<close>

definition Validate_config :: "url_parser \<Rightarrow> server_config \<Rightarrow> string option" where
  "Validate_config parse c =
     (let s = cf_Server c; a = cf_Auth c; d = cf_Storage c; l = cf_Limits c in
      if cf_Listen s = [] then Some ''server.listen''
      else if cf_PublicURL s \<noteq> [] \<and> \<not> absolute_url parse (cf_PublicURL s) then Some ''server.public_url''
      else if cf_UnixSocket s = [] then Some ''server.unix_socket''
      else if cf_ShutdownGraceSeconds s < 1 \<or> cf_ShutdownGraceSeconds s > 600 then Some ''server.shutdown_grace_seconds''
      else if cf_Username a \<noteq> ''sss'' then Some ''auth.username''
      else if length (cf_PasswordHash a) < 20 \<or> contains_str (cf_PasswordHash a) ''REPLACE_ME'' then Some ''auth.password_hash''
      else if cf_FailedAttemptsPerMinute a < 1 then Some ''auth.failed_attempts_per_minute''
      else if cf_DataDir d = [] \<or> \<not> is_abs (cf_DataDir d) then Some ''storage.data_dir''
      else if cf_DBPath d = [] \<or> \<not> is_abs (cf_DBPath d) then Some ''storage.db_path''
      else if cf_StagingTTLMinutes d < 1 then Some ''storage.staging_ttl_minutes''
      else if cf_LocalClaimGraceMinutes d < 1 then Some ''storage.local_claim_grace_minutes''
      else if cf_DefaultTTLMinutes l \<noteq> DefaultTTLMinutes then Some ''limits.default_ttl_minutes''
      else if cf_MaxTTLMinutes l \<noteq> MaxTTLMinutes then Some ''limits.max_ttl_minutes''
      else if cf_MaxTransferBytes l < 0 then Some ''limits.max_transfer_bytes''
      else if cf_MaxFiles l < 1 then Some ''limits.max_files''
      else if cf_MaxNoteBytes l < 1 \<or> cf_MaxNoteBytes l > int MaxNoteBytesHard then Some ''limits.max_note_bytes''
      else if cf_DiskHighWatermarkPercent l < 50 \<or> cf_DiskHighWatermarkPercent l > 99 then Some ''limits.disk_high_watermark_percent''
      else if cf_MaxConcurrentUploads l < 1 \<or> cf_MaxConcurrentDownloads l < 1 \<or> cf_MaxMaterializeWorkers l < 1
        then Some ''limits concurrency''
      else None)"

text \<open>\<open>toml\<close> decodes a file over the defaults and lists the keys it does not know.\<close>

definition LoadServer ::
  "(bytes \<Rightarrow> server_config \<Rightarrow> (server_config \<times> string list) option) \<Rightarrow> url_parser \<Rightarrow> bytes option \<Rightarrow> string + server_config" where
  "LoadServer toml parse file = (case file of
     None \<Rightarrow> Inl ''read config''
   | Some b \<Rightarrow> (case toml b DefaultServer of
       None \<Rightarrow> Inl ''parse config''
     | Some (c, undecoded) \<Rightarrow>
         if undecoded \<noteq> [] then Inl ''unknown configuration keys''
         else (case Validate_config parse c of Some e \<Rightarrow> Inl e | None \<Rightarrow> Inr c)))"

definition StagingDir :: "server_config \<Rightarrow> string" where
  "StagingDir c = path_joins [cf_DataDir (cf_Storage c), ''staging'']"

definition LiveDir :: "server_config \<Rightarrow> string" where
  "LiveDir c = path_joins [cf_DataDir (cf_Storage c), ''live'']"

definition TrashDir :: "server_config \<Rightarrow> string" where
  "TrashDir c = path_joins [cf_DataDir (cf_Storage c), ''trash'']"

definition Redacted :: "server_config \<Rightarrow> server_config" where
  "Redacted c = c\<lparr>cf_Auth := (cf_Auth c)\<lparr>cf_PasswordHash := ''[redacted]''\<rparr>\<rparr>"

text \<open>The values the service reads of its configuration.\<close>

definition server_of :: "server \<Rightarrow> server_config \<Rightarrow> server" where
  "server_of S c = S\<lparr>
     MaxFiles := cf_MaxFiles (cf_Limits c), MaxNoteBytes := cf_MaxNoteBytes (cf_Limits c),
     MaxTransferBytes := cf_MaxTransferBytes (cf_Limits c),
     DiskHighWatermarkPercent := cf_DiskHighWatermarkPercent (cf_Limits c),
     DefaultTTL := cf_DefaultTTLMinutes (cf_Limits c),
     LocalClaimGraceMinutes := cf_LocalClaimGraceMinutes (cf_Storage c),
     StagingTTLMinutes := cf_StagingTTLMinutes (cf_Storage c), DataDir := cf_DataDir (cf_Storage c)\<rparr>"


lemma DefaultServer_valid:
  "Validate_config parse (DefaultServer\<lparr>cf_Auth := (cf_Auth DefaultServer)\<lparr>cf_PasswordHash := h\<rparr>\<rparr>) = None
     \<longleftrightarrow> 20 \<le> length h \<and> \<not> contains_str h ''REPLACE_ME''"
  by (auto simp: Validate_config_def Let_def DefaultServer_def is_abs_def has_prefix_def MaxNoteBytesHard_def)

text \<open>The defaults with a hash load.\<close>

definition sample_toml :: "bytes \<Rightarrow> server_config \<Rightarrow> (server_config \<times> string list) option" where
  "sample_toml b c = Some (c\<lparr>cf_Auth := (cf_Auth c)\<lparr>cf_PasswordHash := b\<rparr>\<rparr>, [])"



section \<open>The client's configuration\<close>

record client_config =
  cl_URL :: string
  cl_UnixSocket :: string

definition empty_client :: client_config where
  "empty_client = \<lparr>cl_URL = [], cl_UnixSocket = []\<rparr>"

definition DefaultUnixSocket :: string where
  "DefaultUnixSocket = ''/run/sss/sssd.sock''"

text \<open>
  The process environment (an unset variable is empty), the directories the system reports, and
  the libraries: JSON, as \<^verbatim>\<open>MarshalIndent\<close> and \<^verbatim>\<open>Unmarshal\<close> treat this struct, and URL parsing.
\<close>

record process_env =
  pe_Getenv :: "string \<Rightarrow> string"
  pe_UserConfigDir :: "string option"
  pe_UserCacheDir :: "string option"
  pe_TempDir :: string
  pe_windows :: bool
  pe_marshal :: "client_config \<Rightarrow> bytes"
  pe_unmarshal :: "bytes \<Rightarrow> client_config option"
  pe_parse :: url_parser

text \<open>
  The client's files, and the outcomes of the filesystem calls to come: \<open>Some n\<close> is a call that
  fails, a write after \<open>n\<close> bytes; when the list is used up no call fails any more.
\<close>

record disk =
  dk_files :: "(string \<times> bytes) list"
  dk_faults :: "nat option list"

type_synonym 'a on_disk = "(disk, 'a) state"

definition disk_fault :: "nat option on_disk" where
  "disk_fault = State (\<lambda>d. case dk_faults d of [] \<Rightarrow> (None, d) | f # fs \<Rightarrow> (f, d\<lparr>dk_faults := fs\<rparr>))"

definition disk_MkdirAll :: "bool on_disk" where
  "disk_MkdirAll = do { f \<leftarrow> disk_fault; return (f = None) }"

definition disk_put :: "string \<Rightarrow> bytes \<Rightarrow> unit on_disk" where
  "disk_put p b = State (\<lambda>d. ((), d\<lparr>dk_files := AList.update p b (dk_files d)\<rparr>))"

text \<open>\<^verbatim>\<open>os.WriteFile\<close> truncates the file when it opens it, and may then stop half way.\<close>

definition disk_WriteFile :: "string \<Rightarrow> bytes \<Rightarrow> bool on_disk" where
  "disk_WriteFile p b = do {
     opened \<leftarrow> disk_fault;
     if opened \<noteq> None then return False else do {
       wrote \<leftarrow> disk_fault;
       _ \<leftarrow> disk_put p (case wrote of None \<Rightarrow> b | Some n \<Rightarrow> take n b);
       return (wrote = None)
     }
   }"

definition disk_Rename :: "string \<Rightarrow> string \<Rightarrow> bool on_disk" where
  "disk_Rename a b = do {
     f \<leftarrow> disk_fault;
     State (\<lambda>d. case map_of (dk_files d) a of
       Some x \<Rightarrow> if f \<noteq> None then (False, d)
         else (True, d\<lparr>dk_files := AList.delete a (AList.update b x (dk_files d))\<rparr>)
     | None \<Rightarrow> (False, d))
   }"

text \<open>The bytes of a file, no such file, or another failure.\<close>

definition disk_ReadFile :: "string \<Rightarrow> (bytes option option) on_disk" where
  "disk_ReadFile p = do {
     f \<leftarrow> disk_fault;
     State (\<lambda>d. (if f \<noteq> None then None else Some (map_of (dk_files d) p), d))
   }"

definition ClientConfigPath :: "process_env \<Rightarrow> string option" where
  "ClientConfigPath E = (if pe_Getenv E ''SSS_CONFIG'' \<noteq> [] then Some (pe_Getenv E ''SSS_CONFIG'')
     else case pe_UserConfigDir E of None \<Rightarrow> None | Some dir \<Rightarrow> Some (path_joins [dir, ''sss'', ''config.json'']))"

definition StateDir :: "process_env \<Rightarrow> string option" where
  "StateDir E = (if pe_Getenv E ''SSS_STATE_DIR'' \<noteq> [] then Some (pe_Getenv E ''SSS_STATE_DIR'')
     else if pe_windows E \<and> pe_Getenv E ''LOCALAPPDATA'' \<noteq> []
       then Some (path_joins [pe_Getenv E ''LOCALAPPDATA'', ''sss'', ''state''])
     else case pe_UserCacheDir E of None \<Rightarrow> None | Some dir \<Rightarrow> Some (path_joins [dir, ''sss'', ''state'']))"

definition LoadClient :: "process_env \<Rightarrow> (string + client_config) on_disk" where
  "LoadClient E = (case ClientConfigPath E of None \<Rightarrow> return (Inl ''locate user config directory'')
   | Some path \<Rightarrow> do {
       data \<leftarrow> disk_ReadFile path;
       return (case data of None \<Rightarrow> Inl ''read client config''
         | Some None \<Rightarrow> Inr empty_client
         | Some (Some b) \<Rightarrow> (case pe_unmarshal E b of None \<Rightarrow> Inl ''parse client config'' | Some c \<Rightarrow> Inr c))
     })"

definition SaveClient :: "process_env \<Rightarrow> client_config \<Rightarrow> (string + string) on_disk" where
  "SaveClient E c = (case ClientConfigPath E of None \<Rightarrow> return (Inl ''locate user config directory'')
   | Some path \<Rightarrow> do {
       made \<leftarrow> disk_MkdirAll;
       if \<not> made then return (Inl ''create client config directory'') else do {
         wrote \<leftarrow> disk_WriteFile (path @ ''.tmp'') (pe_marshal E c @ [CHR 0x0A]);
         if \<not> wrote then return (Inl ''write client config'') else do {
           renamed \<leftarrow> disk_Rename (path @ ''.tmp'') path;
           return (if \<not> renamed then Inl ''install client config'' else Inr path)
         }
       }
     })"

definition trim_slashes :: "string \<Rightarrow> string" where
  "trim_slashes s = rev (dropWhile (\<lambda>c. c = slash) (rev s))"

definition ResolveURL :: "process_env \<Rightarrow> string \<Rightarrow> client_config \<Rightarrow> string + string" where
  "ResolveURL E explicit saved =
     (let a = explicit;
          b = (if a = [] then pe_Getenv E ''SSS_URL'' else a);
          c = (if b = [] then cl_URL saved else b);
          candidate = trim_slashes c
      in if c = [] then Inl ''no server URL configured''
      else case pe_parse E candidate of
        None \<Rightarrow> Inl ''invalid server URL''
      | Some u \<Rightarrow>
          if pu_Scheme u = [] \<or> pu_Host u = [] then Inl ''invalid server URL''
          else if pu_Scheme u \<noteq> ''https'' \<and> pu_Hostname u \<noteq> ''localhost'' \<and> pu_Hostname u \<noteq> ''127.0.0.1''
            \<and> pu_Hostname u \<noteq> ''::1'' then Inl ''server URL must use https''
          else Inr candidate)"

definition ResolveSocket :: "process_env \<Rightarrow> string \<Rightarrow> client_config \<Rightarrow> string" where
  "ResolveSocket E explicit saved =
     (if explicit \<noteq> [] then explicit
      else if pe_Getenv E ''SSS_SOCKET'' \<noteq> [] then pe_Getenv E ''SSS_SOCKET''
      else if cl_UnixSocket saved \<noteq> [] then cl_UnixSocket saved
      else DefaultUnixSocket)"

lemma wp_disk_fault: "(\<And>f fs. Q f (d\<lparr>dk_faults := fs\<rparr>)) \<Longrightarrow> wp disk_fault Q d"
  by (simp add: disk_fault_def split: list.splits) (metis disk.surjective disk.update_convs(2))

lemma run_disk_fault [simp]: "dk_faults d = [] \<Longrightarrow> run_state disk_fault d = (None, d)"
  by (simp add: disk_fault_def)

lemma wp_disk_MkdirAll: "(\<And>ok fs. Q ok (d\<lparr>dk_faults := fs\<rparr>)) \<Longrightarrow> wp disk_MkdirAll Q d"
  unfolding disk_MkdirAll_def wp_bind by (rule wp_disk_fault) simp

lemma wp_disk_WriteFile:
  assumes "\<And>fs. Q False (d\<lparr>dk_faults := fs\<rparr>)"
    and "\<And>n fs. Q False (d\<lparr>dk_faults := fs, dk_files := AList.update p (take n b) (dk_files d)\<rparr>)"
    and "\<And>fs. Q True (d\<lparr>dk_faults := fs, dk_files := AList.update p b (dk_files d)\<rparr>)"
  shows "wp (disk_WriteFile p b) Q d"
  unfolding disk_WriteFile_def wp_bind
proof (rule wp_disk_fault, goal_cases)
  case (1 f fs)
  show ?case
  proof (cases f)
    case None
    show ?thesis unfolding None
      by (simp, rule wp_disk_fault) (use assms(2,3) in \<open>auto simp: disk_put_def split: option.splits\<close>)
  qed (simp add: assms(1))
qed

lemma wp_disk_Rename:
  assumes "\<And>fs. Q False (d\<lparr>dk_faults := fs\<rparr>)"
    and "\<And>fs x. map_of (dk_files d) a = Some x \<Longrightarrow>
       Q True (d\<lparr>dk_faults := fs, dk_files := AList.delete a (AList.update b x (dk_files d))\<rparr>)"
  shows "wp (disk_Rename a b) Q d"
  unfolding disk_Rename_def wp_bind
  by (rule wp_disk_fault) (use assms in \<open>auto split: option.splits\<close>)

text \<open>What a save may do to the files: nothing but to its temporary file until the last step.\<close>

definition saves :: "string \<Rightarrow> bytes \<Rightarrow> disk \<Rightarrow> (string + string) \<Rightarrow> disk \<Rightarrow> bool" where
  "saves path b d r d' \<longleftrightarrow>
     (\<forall>q. q \<noteq> path \<and> q \<noteq> path @ ''.tmp'' \<longrightarrow> map_of (dk_files d') q = map_of (dk_files d) q)
     \<and> (case r of Inl _ \<Rightarrow> map_of (dk_files d') path = map_of (dk_files d) path
        | Inr p \<Rightarrow> p = path \<and> map_of (dk_files d') path = Some b)"

lemma map_of_deleted: "map_of (AList.delete a xs) q = (if q = a then None else map_of xs q)"
  by (simp add: AList.delete_conv')

lemma map_of_updated: "map_of (AList.update a x xs) q = (if q = a then Some x else map_of xs q)"
  by (simp add: AList.update_conv')

lemma wp_SaveClient:
  assumes "ClientConfigPath E = Some path"
  shows "wp (SaveClient E c) (saves path (pe_marshal E c @ [CHR 0x0A]) d) d"
proof -
  have [simp]: "path \<noteq> path @ ''.tmp''" by simp
  let ?Q = "saves path (pe_marshal E c @ [CHR 0x0A]) d"
  have rename: "wp (disk_Rename (path @ ''.tmp'') path)
      (\<lambda>renamed. wp (return (if \<not> renamed then Inl ''install client config'' else Inr path)) ?Q)
      (d\<lparr>dk_faults := fs, dk_files := AList.update (path @ ''.tmp'') (pe_marshal E c @ [CHR 0x0A]) (dk_files d)\<rparr>)" for fs
    by (rule wp_disk_Rename) (auto simp: saves_def map_of_deleted map_of_updated)
  show ?thesis unfolding SaveClient_def assms option.case wp_bind
  proof (rule wp_disk_MkdirAll, goal_cases)
    case (1 ok fs)
    show ?case
    proof (cases ok)
      case True
      then show ?thesis
        by (simp, intro wp_disk_WriteFile) (use rename in \<open>auto simp: saves_def map_of_updated\<close>)
    qed (simp add: saves_def)
  qed
qed


lemma run_LoadClient:
  assumes "ClientConfigPath E = Some path" and "dk_faults d = []"
  shows "fst (run_state (LoadClient E) d) = (case map_of (dk_files d) path of None \<Rightarrow> Inr empty_client
    | Some b \<Rightarrow> (case pe_unmarshal E b of None \<Rightarrow> Inl ''parse client config'' | Some c \<Rightarrow> Inr c))"
  using assms by (simp add: LoadClient_def disk_ReadFile_def split: option.splits)

text \<open>
  C35: Saving the settings is all or nothing. Whatever fails while they are saved, a later load
  returns the new settings when the save reported success and exactly what it returned before when
  it did not (missing and damaged files included), and no file but the settings and the temporary
  file beside them is touched.
\<close>

theorem SaveClient_atomic:
  assumes "run_state (SaveClient E c) d = (r, d')"
    and "ClientConfigPath E = Some path"
    and "pe_unmarshal E (pe_marshal E c @ [CHR 0x0A]) = Some c"
  shows "fst (run_state (LoadClient E) (d'\<lparr>dk_faults := []\<rparr>)) =
      (case r of Inl e \<Rightarrow> fst (run_state (LoadClient E) (d\<lparr>dk_faults := []\<rparr>)) | Inr _ \<Rightarrow> Inr c)
    \<and> (\<forall>q. q \<noteq> path \<and> q \<noteq> path @ ''.tmp'' \<longrightarrow> map_of (dk_files d') q = map_of (dk_files d) q)"
  using wp_run [OF wp_SaveClient [OF assms(2)] assms(1)] assms(3)
  by (auto simp: saves_def run_LoadClient [OF assms(2)] split: sum.splits)

definition sample_process :: process_env where
  "sample_process = \<lparr>pe_Getenv = (\<lambda>_. []), pe_UserConfigDir = Some ''/home/u/.config'',
     pe_UserCacheDir = Some ''/home/u/.cache'', pe_TempDir = ''/tmp'', pe_windows = False,
     pe_marshal = cl_URL, pe_unmarshal = (\<lambda>b. Some \<lparr>cl_URL = butlast b, cl_UnixSocket = []\<rparr>),
     pe_parse = (\<lambda>u. Some \<lparr>pu_Scheme = take 5 u, pu_Host = drop 8 u, pu_Hostname = drop 8 u\<rparr>)\<rparr>"

text \<open>A write that breaks off after three bytes leaves the old settings.\<close>

theorem SaveClient_atomic_witness:
  "\<exists>d'. run_state (SaveClient sample_process \<lparr>cl_URL = ''https://b'', cl_UnixSocket = []\<rparr>)
       \<lparr>dk_files = [(''/home/u/.config/sss/config.json'', ''https://a'' @ [CHR 0x0A])], dk_faults = [None, None, Some 3]\<rparr>
       = (Inl ''write client config'', d')
     \<and> fst (run_state (LoadClient sample_process) (d'\<lparr>dk_faults := []\<rparr>)) = Inr \<lparr>cl_URL = ''https://a'', cl_UnixSocket = []\<rparr>"
proof -
  let ?c = "\<lparr>cl_URL = ''https://b'', cl_UnixSocket = []\<rparr>"
  let ?d = "\<lparr>dk_files = [(''/home/u/.config/sss/config.json'', ''https://a'' @ [CHR 0x0A])], dk_faults = [None, None, Some 3]\<rparr>"
  have r: "fst (run_state (SaveClient sample_process ?c) ?d) = Inl ''write client config''" by code_simp
  have l: "fst (run_state (LoadClient sample_process) (?d\<lparr>dk_faults := []\<rparr>)) = Inr \<lparr>cl_URL = ''https://a'', cl_UnixSocket = []\<rparr>"
    by code_simp
  have p: "ClientConfigPath sample_process = Some ''/home/u/.config/sss/config.json''" by code_simp
  have j: "pe_unmarshal sample_process (pe_marshal sample_process ?c @ [CHR 0x0A]) = Some ?c"
    by (simp add: sample_process_def)
  obtain d' where run: "run_state (SaveClient sample_process ?c) ?d = (Inl ''write client config'', d')"
    using r by (cases "run_state (SaveClient sample_process ?c) ?d") simp
  from SaveClient_atomic [OF run p j] l run show ?thesis by auto
qed

lemma trim_slashes_last: "trim_slashes s = [] \<or> last (trim_slashes s) \<noteq> slash"
proof (cases "dropWhile (\<lambda>c. c = slash) (rev s)")
  case (Cons c cs)
  then show ?thesis using hd_dropWhile [of "\<lambda>c. c = slash" "rev s"] by (simp add: trim_slashes_def)
qed (simp add: trim_slashes_def)

lemma trim_slashes_id: "s \<noteq> [] \<Longrightarrow> last s \<noteq> slash \<Longrightarrow> trim_slashes s = s"
  by (cases s rule: rev_cases) (simp_all add: trim_slashes_def)

lemma ResolveURL_resolved:
  assumes "ResolveURL E explicit saved = Inr u" and "\<And>p. pe_parse E [] = Some p \<Longrightarrow> pu_Host p = []"
  shows "(\<exists>p. pe_parse E u = Some p \<and> pu_Host p \<noteq> []
      \<and> (pu_Scheme p = ''https'' \<or> pu_Scheme p \<noteq> [] \<and> pu_Hostname p \<in> {''localhost'', ''127.0.0.1'', ''::1''}))
    \<and> u \<noteq> [] \<and> last u \<noteq> slash
    \<and> (\<exists>s \<in> {explicit, pe_Getenv E ''SSS_URL'', cl_URL saved}. u = trim_slashes s)
    \<and> ResolveURL E u other = Inr u
    \<and> (pe_Getenv E ''SSS_URL'' = [] \<longrightarrow> ResolveURL E [] (saved\<lparr>cl_URL := u\<rparr>) = Inr u)"
proof -
  obtain s p where s: "s \<in> {explicit, pe_Getenv E ''SSS_URL'', cl_URL saved}" "u = trim_slashes s" "pe_parse E u = Some p"
    "pu_Scheme p \<noteq> []" "pu_Host p \<noteq> []"
    "pu_Scheme p = ''https'' \<or> pu_Hostname p \<in> {''localhost'', ''127.0.0.1'', ''::1''}"
    using assms(1) by (fastforce simp: ResolveURL_def Let_def split: option.splits if_splits)
  have u: "u \<noteq> []" using s(3,5) assms(2) by auto
  then have l: "last u \<noteq> slash" using trim_slashes_last [of s] s(2) by simp
  then have "trim_slashes u = u" using u by (simp add: trim_slashes_id)
  then have "ResolveURL E u other = Inr u" "pe_Getenv E ''SSS_URL'' = [] \<longrightarrow> ResolveURL E [] (saved\<lparr>cl_URL := u\<rparr>) = Inr u"
    using u s(3-6) by (auto simp: ResolveURL_def)
  then show ?thesis using s u l by blast
qed



end
