(* ===== verification/SSS_Cli.thy ===== *)
theory SSS_Cli
  imports SSS_Sender SSS_Config SSS_Auth
begin

text \<open>
  The command line (\<^verbatim>\<open>internal/cli\<close>): the options as Go's \<^verbatim>\<open>flag\<close> package reads them and
  \<^verbatim>\<open>parseArgs\<close>, the authentication and address precedence, and the commands over the modelled
  clients. The theorems show that options may stand anywhere, and that a script that sees exit code
  zero has on its standard output a code that opens what was sent, or the path of the complete
  received tree. The texts of messages and the layout of numbers and times are not modelled.
\<close>

section \<open>Options\<close>

text \<open>The options of a command, each with whether it is boolean; the settings, the latest first.\<close>

type_synonym flag_defs = "(string \<times> bool) list"
type_synonym flags = "(string \<times> string) list"

definition ParseBool :: "string \<Rightarrow> bool option" where
  "ParseBool s = (if s \<in> {''1'', ''t'', ''T'', ''true'', ''TRUE'', ''True''} then Some True
     else if s \<in> {''0'', ''f'', ''F'', ''false'', ''FALSE'', ''False''} then Some False
     else None)"

definition bool_text :: "bool \<Rightarrow> string" where
  "bool_text b = (if b then ''true'' else ''false'')"

text \<open>A name up to the first equals sign after its first character, and the value after it.\<close>

fun split_value :: "string \<Rightarrow> string \<times> string option" where
  "split_value [] = ([], None)"
| "split_value (c # cs) = (let t = takeWhile (\<lambda>x. x \<noteq> CHR ''='') cs; d = dropWhile (\<lambda>x. x \<noteq> CHR ''='') cs
     in (c # t, if d = [] then None else Some (tl d)))"

datatype flag_step = Positional "string list" | BadFlag | Setting string string "string list"

text \<open>\<^verbatim>\<open>FlagSet.parseOne\<close> of the standard library.\<close>

definition parseOne :: "flag_defs \<Rightarrow> string list \<Rightarrow> flag_step" where
  "parseOne defs args = (case args of [] \<Rightarrow> Positional []
   | s # rest \<Rightarrow>
       if length s < 2 \<or> hd s \<noteq> CHR ''-'' then Positional (s # rest)
       else if s = ''--'' then Positional rest
       else let bare = (if s ! 1 = CHR ''-'' then drop 2 s else drop 1 s) in
         if bare = [] \<or> hd bare = CHR ''-'' \<or> hd bare = CHR ''='' then BadFlag
         else (case split_value bare of (name, value) \<Rightarrow>
           (case map_of defs name of None \<Rightarrow> BadFlag
            | Some True \<Rightarrow> (case value of None \<Rightarrow> Setting name (bool_text True) rest
                | Some v \<Rightarrow> (case ParseBool v of None \<Rightarrow> BadFlag | Some b \<Rightarrow> Setting name (bool_text b) rest))
            | Some False \<Rightarrow> (case value of Some v \<Rightarrow> Setting name v rest
                | None \<Rightarrow> (case rest of [] \<Rightarrow> BadFlag | v # after \<Rightarrow> Setting name v after)))))"

lemma parseOne_shorter: "parseOne defs args = Setting n v rest \<Longrightarrow> length rest < length args"
  by (auto simp: parseOne_def Let_def split: list.splits if_splits option.splits prod.splits bool.splits)

lemma parseOne_positional: "parseOne defs args = Positional rest \<Longrightarrow> length rest \<le> length args"
  by (auto simp: parseOne_def Let_def split: list.splits if_splits option.splits prod.splits bool.splits)

text \<open>\<^verbatim>\<open>FlagSet.Parse\<close>: the settings and the remaining arguments, or an error.\<close>

function flag_Parse :: "flag_defs \<Rightarrow> flags \<Rightarrow> string list \<Rightarrow> (flags \<times> string list) option" where
  "flag_Parse defs fs args = (case parseOne defs args of
     Positional rest \<Rightarrow> Some (fs, rest)
   | BadFlag \<Rightarrow> None
   | Setting n v rest \<Rightarrow> flag_Parse defs ((n, v) # fs) rest)"
  by pat_completeness auto
termination
  by (relation "measure (\<lambda>(defs, fs, args). length args)") (auto dest: parseOne_shorter)

declare flag_Parse.simps [simp del]

lemma flag_Parse_shorter: "flag_Parse defs fs args = Some (fs', rest) \<Longrightarrow> length rest \<le> length args"
proof (induction defs fs args rule: flag_Parse.induct)
  case (1 defs fs args)
  show ?case
  proof (cases "parseOne defs args")
    case (Positional left)
    then show ?thesis using 1(2) parseOne_positional by (auto simp: flag_Parse.simps [of defs fs args])
  next
    case (Setting n v left)
    then have "flag_Parse defs ((n, v) # fs) left = Some (fs', rest)"
      using 1(2) by (simp add: flag_Parse.simps [of defs fs args])
    from 1(1) [OF Setting this] parseOne_shorter [OF Setting] show ?thesis by simp
  qed (use 1(2) in \<open>simp add: flag_Parse.simps [of defs fs args]\<close>)
qed

function parse_loop :: "flag_defs \<Rightarrow> flags \<Rightarrow> string list \<Rightarrow> (flags \<times> string list) option" where
  "parse_loop defs fs args = (case flag_Parse defs fs args of
     None \<Rightarrow> None
   | Some (fs', []) \<Rightarrow> Some (fs', [])
   | Some (fs', p # rest) \<Rightarrow> map_option (apsnd ((#) p)) (parse_loop defs fs' rest))"
  by pat_completeness auto
termination
  by (relation "measure (\<lambda>(defs, fs, args). length args)") (auto dest: flag_Parse_shorter)

declare parse_loop.simps [simp del]

text \<open>\<^verbatim>\<open>parseArgs\<close>: the settings and the positional arguments; what follows a bare \<open>--\<close> is positional.\<close>

definition parseArgs :: "flag_defs \<Rightarrow> string list \<Rightarrow> (flags \<times> string list) option" where
  "parseArgs defs args =
     (let front = takeWhile (\<lambda>a. a \<noteq> ''--'') args; tail = drop (Suc (length front)) args
      in map_option (apsnd (\<lambda>ps. ps @ tail)) (parse_loop defs [] front))"

text \<open>A command line as its writer means it: positional arguments and whole options.\<close>

datatype item = Pos string | Opt "string list"

fun item_args :: "item \<Rightarrow> string list" where
  "item_args (Pos s) = [s]"
| "item_args (Opt ts) = ts"

text \<open>The one option a list of arguments spells, alone.\<close>

definition setting_of :: "flag_defs \<Rightarrow> string list \<Rightarrow> (string \<times> string) option" where
  "setting_of defs ts = (case parseOne defs ts of Setting n v [] \<Rightarrow> Some (n, v) | _ \<Rightarrow> None)"

fun item_ok :: "flag_defs \<Rightarrow> item \<Rightarrow> bool" where
  "item_ok defs (Pos s) \<longleftrightarrow> length s < 2 \<or> hd s \<noteq> CHR ''-''"
| "item_ok defs (Opt ts) \<longleftrightarrow> setting_of defs ts \<noteq> None \<and> ''--'' \<notin> set ts"

fun item_settings :: "flag_defs \<Rightarrow> item list \<Rightarrow> flags" where
  "item_settings defs [] = []"
| "item_settings defs (Pos s # items) = item_settings defs items"
| "item_settings defs (Opt ts # items) = item_settings defs items @ [the (setting_of defs ts)]"

fun item_positions :: "item list \<Rightarrow> string list" where
  "item_positions [] = []"
| "item_positions (Pos s # items) = s # item_positions items"
| "item_positions (Opt ts # items) = item_positions items"

lemma parseOne_option:
  assumes "setting_of defs ts = Some (n, v)"
  shows "parseOne defs (ts @ after) = Setting n v after"
proof -
  have p: "parseOne defs ts = Setting n v []"
    using assms by (auto simp: setting_of_def split: flag_step.splits list.splits)
  then obtain s rest where ts: "ts = s # rest" by (cases ts) (auto simp: parseOne_def)
  show ?thesis
    using p unfolding ts parseOne_def Let_def append_Cons list.case
    by (cases "map_of defs (fst (split_value (if s ! 1 = CHR ''-'' then drop 2 s else drop 1 s)))";
        cases "snd (split_value (if s ! 1 = CHR ''-'' then drop 2 s else drop 1 s))"; cases rest)
      (auto simp: case_prod_beta split: if_splits bool.splits option.splits)
qed

lemma parse_loop_step:
  "parseOne defs args = Setting n v rest \<Longrightarrow> parse_loop defs fs args = parse_loop defs ((n, v) # fs) rest"
  by (simp add: parse_loop.simps [of defs fs args] parse_loop.simps [of defs "(n, v) # fs"] flag_Parse.simps [of defs fs args])

lemma parse_loop_position:
  "length s < 2 \<or> hd s \<noteq> CHR ''-'' \<Longrightarrow>
   parse_loop defs fs (s # rest) = map_option (apsnd ((#) s)) (parse_loop defs fs rest)"
  by (simp add: parse_loop.simps [of defs fs "s # rest"] flag_Parse.simps [of defs fs "s # rest"] parseOne_def)

lemma parse_loop_items:
  "list_all (item_ok defs) items \<Longrightarrow>
   parse_loop defs fs (concat (map item_args items)) = Some (item_settings defs items @ fs, item_positions items)"
proof (induction items arbitrary: fs)
  case Nil
  show ?case by (simp add: parse_loop.simps [of defs fs "[]"] flag_Parse.simps [of defs fs "[]"] parseOne_def)
next
  case (Cons x items)
  show ?case
  proof (cases x)
    case (Pos s)
    then show ?thesis using Cons by (simp add: parse_loop_position)
  next
    case (Opt ts)
    then obtain n v where "setting_of defs ts = Some (n, v)" using Cons.prems by auto
    then show ?thesis using Opt Cons by (simp add: parse_loop_step [OF parseOne_option])
  qed
qed

lemma item_args_no_dashes: "list_all (item_ok defs) items \<Longrightarrow> ''--'' \<notin> set (concat (map item_args items))"
  by (induction items) (auto split: item.splits elim!: item_ok.elims)

text \<open>
  C38: Options may stand anywhere. Whatever the options of a command are and however whole options and
  positional arguments are mixed, the positional arguments are found in their order and the options
  as if they stood alone, a later setting of an option winning; and everything behind a bare
  \<open>--\<close> is positional, options and further \<open>--\<close> included.
\<close>

theorem parseArgs_interleaved:
  assumes "list_all (item_ok defs) items"
  shows "parseArgs defs (concat (map item_args items)) = Some (item_settings defs items, item_positions items)
    \<and> parseArgs defs (concat (map item_args items) @ ''--'' # behind) =
        Some (item_settings defs items, item_positions items @ behind)"
proof -
  let ?a = "concat (map item_args items)"
  have n: "takeWhile (\<lambda>a. a \<noteq> ''--'') (?a @ after) = ?a @ takeWhile (\<lambda>a. a \<noteq> ''--'') after" for after
    using item_args_no_dashes [OF assms] by (intro takeWhile_append2) auto
  have alone: "takeWhile (\<lambda>a. a \<noteq> ''--'') ?a = ?a" and cut: "takeWhile (\<lambda>a. a \<noteq> ''--'') (?a @ ''--'' # behind) = ?a"
    using n [of "[]"] n [of "''--'' # behind"] by (simp_all only: append_Nil2 takeWhile.simps simp_thms if_False)
  show ?thesis unfolding parseArgs_def alone cut Let_def parse_loop_items [OF assms] by simp
qed

definition send_flags :: flag_defs where
  "send_flags = [(''note'', False), (''note-file'', False), (''ttl'', False), (''json'', True), (''quiet'', True),
     (''password-stdin'', True), (''url'', False)]"

theorem parseArgs_interleaved_witness:
  "parseArgs send_flags [''./a'', ''--ttl'', ''2h'', ''./b'', ''-json'', ''--ttl=3h'', ''--'', ''--note''] =
     Some ([(''ttl'', ''3h''), (''json'', ''true''), (''ttl'', ''2h'')], [''./a'', ''./b'', ''--note''])"
proof -
  let ?items = "[Pos ''./a'', Opt [''--ttl'', ''2h''], Pos ''./b'', Opt [''-json''], Opt [''--ttl=3h'']]"
  have "list_all (item_ok send_flags) ?items" by code_simp
  from conjunct2 [OF parseArgs_interleaved [OF this, of "[''--note'']"]]
  have "parseArgs send_flags (concat (map item_args ?items) @ ''--'' # [''--note'']) =
      Some (item_settings send_flags ?items, item_positions ?items @ [''--note''])" .
  moreover have "item_settings send_flags ?items = [(''ttl'', ''3h''), (''json'', ''true''), (''ttl'', ''2h'')]" by code_simp
  ultimately show ?thesis by simp
qed


section \<open>Streams, settings and errors\<close>

datatype jval = JBool bool | JStr string | JInt int | JTime time | JObjects "(string \<times> jval) list list"

text \<open>A line of text, a JSON object, an error with its stable code, or a line of figures.\<close>

datatype out = Text string | Json "(string \<times> jval) list" | Failure string | Problem | Report "jval list"

record outcome =
  oc_stdout :: "out list"
  oc_stderr :: "out list"
  oc_exit :: int

text \<open>
  What a command finds around it: the process, what stands on its standard input and what is typed
  at a terminal, the note files, and, for a server address and password (or a socket), what Send, Recv and the
  other requests meet there.
\<close>

record shell =
  sh_process :: process_env
  sh_stdin :: "bytes option"
  sh_typed :: "string option"
  sh_file :: "string \<Rightarrow> bytes option"
  sh_duration :: "string \<Rightarrow> int option"
  sh_send :: "string \<Rightarrow> string \<Rightarrow> send_env"
  sh_recv :: "string \<Rightarrow> string \<Rightarrow> string \<Rightarrow> surroundings"
  sh_net :: "string \<Rightarrow> string \<Rightarrow> network"
  sh_lib :: client_lib
  sh_healthz :: "string \<Rightarrow> (int \<times> string option) option"
  sh_local :: "string \<Rightarrow> string \<Rightarrow> string + LocalClaim"
  sh_metadata :: "string \<Rightarrow> string \<Rightarrow> string \<Rightarrow> string + TransferMetadata"
  sh_info :: "string \<Rightarrow> string \<Rightarrow> string + string \<times> string \<times> bool"
  sh_status :: "string \<Rightarrow> string + (string \<times> jval) list"
  sh_cleanup :: "string \<Rightarrow> string + (string \<times> jval) list"
  sh_isdir :: "string \<Rightarrow> bool"
  sh_cwd :: "string option"
  sh_loopback :: "string \<Rightarrow> bool"
  sh_salt :: "string option"
  sh_now :: time

text \<open>The settings and other files, the sending client and the receiving client of one machine.\<close>

record machine =
  mc_disk :: disk
  mc_sender :: sender
  mc_receiver :: receiver

type_synonym 'a command = "(machine, 'a) state"

definition with_disk :: "'a on_disk \<Rightarrow> 'a command" where
  "with_disk a = State (\<lambda>m. case run_state a (mc_disk m) of (x, d) \<Rightarrow> (x, m\<lparr>mc_disk := d\<rparr>))"

definition with_sender :: "'a sending \<Rightarrow> 'a command" where
  "with_sender a = State (\<lambda>m. case run_state a (mc_sender m) of (x, s) \<Rightarrow> (x, m\<lparr>mc_sender := s\<rparr>))"

definition with_receiver :: "'a recv \<Rightarrow> 'a command" where
  "with_receiver a = State (\<lambda>m. case run_state a (mc_receiver m) of (x, c) \<Rightarrow> (x, m\<lparr>mc_receiver := c\<rparr>))"

definition flag_str :: "flags \<Rightarrow> string \<Rightarrow> string" where
  "flag_str fs n = (case map_of fs n of None \<Rightarrow> [] | Some v \<Rightarrow> v)"

definition flag_bool :: "flags \<Rightarrow> string \<Rightarrow> bool" where
  "flag_bool fs n \<longleftrightarrow> map_of fs n = Some (bool_text True)"

definition fail :: "bool \<Rightarrow> string \<Rightarrow> outcome" where
  "fail json code = (if json
     then \<lparr>oc_stdout = [Json [(''ok'', JBool False), (''error'', JStr code)]], oc_stderr = [], oc_exit = ExitCode code\<rparr>
     else \<lparr>oc_stdout = [], oc_stderr = [Failure code], oc_exit = ExitCode code\<rparr>)"

definition usageError :: "bool \<Rightarrow> outcome" where
  "usageError json = fail json (code_string ErrInvalidRequest)"

definition bad_flags :: outcome where
  "bad_flags = \<lparr>oc_stdout = [], oc_stderr = [Problem], oc_exit = 2\<rparr>"

definition succeed :: "out list \<Rightarrow> out list \<Rightarrow> outcome" where
  "succeed so se = \<lparr>oc_stdout = so, oc_stderr = se, oc_exit = 0\<rparr>"

definition trim_newlines :: "string \<Rightarrow> string" where
  "trim_newlines s = rev (dropWhile (\<lambda>c. c = CHR 0x0D \<or> c = CHR 0x0A) (rev s))"

definition resolvePassword :: "shell \<Rightarrow> bool \<Rightarrow> string result" where
  "resolvePassword X fromStdin =
     (if fromStdin then (case sh_stdin X of None \<Rightarrow> Inl ErrAuthRequired
        | Some s \<Rightarrow> let password = trim_newlines (take 4096 s)
            in if password = [] then Inl ErrAuthRequired else Inr password)
      else if pe_Getenv (sh_process X) ''SSS_PASSWORD'' \<noteq> [] then Inr (pe_Getenv (sh_process X) ''SSS_PASSWORD'')
      else case sh_typed X of Some (c # cs) \<Rightarrow> Inr (c # cs) | _ \<Rightarrow> Inl ErrAuthRequired)"

text \<open>The address and the password of the server.\<close>

definition remoteClient :: "shell \<Rightarrow> string \<Rightarrow> bool \<Rightarrow> ((string \<times> string) result) on_disk" where
  "remoteClient X urlFlag passwordStdin = do {
     saved \<leftarrow> LoadClient (sh_process X);
     return (case saved of Inl e \<Rightarrow> Inl ErrInvalidRequest
       | Inr c \<Rightarrow> (case ResolveURL (sh_process X) urlFlag c of
           Inl e \<Rightarrow> Inl ErrInvalidRequest
         | Inr base \<Rightarrow> (case resolvePassword X passwordStdin of
             Inl e \<Rightarrow> Inl e | Inr password \<Rightarrow> Inr (base, password))))
   }"

definition state_dir :: "process_env \<Rightarrow> string" where
  "state_dir E = (case StateDir E of None \<Rightarrow> path_joins [pe_TempDir E, ''sss-state''] | Some dir \<Rightarrow> dir)"

section \<open>Sending\<close>

definition send_note :: "shell \<Rightarrow> flags \<Rightarrow> string result" where
  "send_note X fs =
     (if flag_str fs ''note-file'' \<noteq> [] then
        (case sh_file X (flag_str fs ''note-file'') of None \<Rightarrow> Inl ErrInvalidRequest | Some b \<Rightarrow> Inr (trim_newlines b))
      else Inr (flag_str fs ''note''))"

definition send_minutes :: "shell \<Rightarrow> flags \<Rightarrow> int result" where
  "send_minutes X fs =
     (if flag_str fs ''ttl'' = [] then Inr DefaultTTLMinutes else ParseTTL (sh_duration X) (flag_str fs ''ttl''))"

definition send_report :: "bool \<Rightarrow> bool \<Rightarrow> SendResult \<Rightarrow> outcome" where
  "send_report json quiet res =
     (if json then succeed [Json [(''ok'', JBool True), (''operation'', JStr ''send''), (''code'', JStr (sr_Code res)),
          (''expires_at'', JTime (sr_ExpiresAt res)), (''files'', JInt (int (sr_Files res))), (''bytes'', JInt (sr_Bytes res))]] []
      else succeed [Text (sr_Code res)]
        (if quiet then [] else [Report [JInt (sr_Bytes res), JInt (int (sr_Files res)), JTime (sr_ExpiresAt res)]]))"

definition runSend :: "server \<Rightarrow> shell \<Rightarrow> string list \<Rightarrow> outcome command" where
  "runSend S X args = (case parseArgs send_flags args of None \<Rightarrow> return bad_flags
   | Some (fs, roots) \<Rightarrow>
       let json = flag_bool fs ''json'' in
       if roots = [] then return (usageError json)
       else if flag_str fs ''note'' \<noteq> [] \<and> flag_str fs ''note-file'' \<noteq> [] then return (usageError json)
       else (case send_note X fs of Inl e \<Rightarrow> return (fail json (code_string e)) | Inr note_text \<Rightarrow>
         (case send_minutes X fs of Inl e \<Rightarrow> return (fail json (code_string e)) | Inr minutes \<Rightarrow> do {
           c \<leftarrow> with_disk (remoteClient X (flag_str fs ''url'') (flag_bool fs ''password-stdin''));
           case c of Inl e \<Rightarrow> return (fail json (code_string e)) | Inr (base, password) \<Rightarrow> do {
             r \<leftarrow> with_sender (Send S ((sh_send X base password)\<lparr>sv_URL := base, sv_StateDir := state_dir (sh_process X)\<rparr>)
               \<lparr>so_Roots = roots, so_Note = note_text, so_TTLMinutes = minutes\<rparr>);
             return (case r of Inl e \<Rightarrow> fail json (code_string e)
               | Inr res \<Rightarrow> send_report json (flag_bool fs ''quiet'') res)
           }
         })))"

section \<open>A script sees a code only when it opens what was sent\<close>

lemma wp_with_disk: "(\<And>x d. Q x (m\<lparr>mc_disk := d\<rparr>)) \<Longrightarrow> wp (with_disk a) Q m"
  by (simp add: with_disk_def split: prod.splits)

lemma wp_with_sender: "wp a (\<lambda>x s. Q x (m\<lparr>mc_sender := s\<rparr>)) (mc_sender m) \<Longrightarrow> wp (with_sender a) Q m"
  by (simp add: with_sender_def wp_def split: prod.splits)

lemma wp_with_receiver: "wp a (\<lambda>x c. Q x (m\<lparr>mc_receiver := c\<rparr>)) (mc_receiver m) \<Longrightarrow> wp (with_receiver a) Q m"
  by (simp add: with_receiver_def wp_def split: prod.splits)

lemma ExitCode_bounds: "2 \<le> ExitCode c \<and> ExitCode c \<le> 8"
proof -
  have "list_all (\<lambda>(_, x). 2 \<le> x \<and> x \<le> 8) exitCode" by code_simp
  then show ?thesis by (auto simp: ExitCode_def list_all_iff split: option.splits dest!: map_of_SomeD)
qed

lemma ExitCode_nonzero [simp]: "ExitCode c \<noteq> 0" "0 \<noteq> ExitCode c"
  using ExitCode_bounds [of c] by auto

lemma exit_simps [simp]:
  "oc_exit (fail json c) = ExitCode c" "oc_exit (usageError json) = ExitCode (code_string ErrInvalidRequest)"
  "oc_exit bad_flags = 2" "oc_exit (succeed so se) = 0" "oc_exit (send_report json quiet res) = 0"
  "oc_stdout (succeed so se) = so"
  by (auto simp: fail_def usageError_def bad_flags_def succeed_def send_report_def)

text \<open>What a script reads off the standard output: the value of a line, or of a field of the object.\<close>

definition printed :: "string \<Rightarrow> outcome \<Rightarrow> string option" where
  "printed field o' = (case oc_stdout o' of
     [Text s] \<Rightarrow> Some s
   | [Json kv] \<Rightarrow> (case map_of kv field of Some (JStr s) \<Rightarrow> Some s | _ \<Rightarrow> None)
   | _ \<Rightarrow> None)"

lemma printed_simps [simp]:
  "field \<noteq> ''error'' \<Longrightarrow> printed field (fail json c) = None"
  "field \<noteq> ''error'' \<Longrightarrow> printed field (usageError json) = None"
  "printed field bad_flags = None"
  "printed ''code'' (send_report json quiet res) = Some (sr_Code res)"
  by (auto simp: printed_def fail_def usageError_def bad_flags_def succeed_def send_report_def split: option.splits)

text \<open>The options of the send that the arguments ask for, and where it runs.\<close>

definition sent_as :: "server \<Rightarrow> shell \<Rightarrow> string list \<Rightarrow> machine \<Rightarrow> outcome \<Rightarrow> machine \<Rightarrow> bool" where
  "sent_as S X args m o' m' \<longleftrightarrow> (\<exists>fs roots base password env opts res.
     parseArgs send_flags args = Some (fs, roots) \<and> roots \<noteq> []
     \<and> env = (sh_send X base password)\<lparr>sv_URL := base, sv_StateDir := state_dir (sh_process X)\<rparr>
     \<and> so_Roots opts = roots
     \<and> run_state (Send S env opts) (mc_sender m) = (Inr res, mc_sender m')
     \<and> o' = send_report (flag_bool fs ''json'') (flag_bool fs ''quiet'') res)"

lemma wp_runSend:
  "wp (runSend S X args) (\<lambda>o' m'. if oc_exit o' = 0 then sent_as S X args m o' m' else printed ''code'' o' = None) m"
  (is "wp _ ?Q m")
proof (cases "parseArgs send_flags args")
  case (Some a)
  obtain fs roots where a: "parseArgs send_flags args = Some (fs, roots)" using Some by (cases a) simp
  let ?json = "flag_bool fs ''json''"
  have run: "wp (do { r \<leftarrow> with_sender (Send S ((sh_send X base password)\<lparr>sv_URL := base, sv_StateDir := state_dir (sh_process X)\<rparr>)
               \<lparr>so_Roots = roots, so_Note = n, so_TTLMinutes = k\<rparr>);
             return (case r of Inl e \<Rightarrow> fail ?json (code_string e)
               | Inr res \<Rightarrow> send_report ?json (flag_bool fs ''quiet'') res) }) ?Q (m\<lparr>mc_disk := d\<rparr>)"
    if "roots \<noteq> []" for base password n k d
  proof (subst wp_bind, rule wp_with_sender, goal_cases)
    case 1
    let ?env = "(sh_send X base password)\<lparr>sv_URL := base, sv_StateDir := state_dir (sh_process X)\<rparr>"
    let ?opts = "\<lparr>so_Roots = roots, so_Note = n, so_TTLMinutes = k\<rparr>"
    obtain r s' where r: "run_state (Send S ?env ?opts) (mc_sender m) = (r, s')"
      by (cases "run_state (Send S ?env ?opts) (mc_sender m)")
    have "sent_as S X args m (send_report ?json (flag_bool fs ''quiet'') res) (m\<lparr>mc_disk := d, mc_sender := s'\<rparr>)"
      if "r = Inr res" for res
      unfolding sent_as_def using \<open>roots \<noteq> []\<close> a r that
      by (intro exI [of _ fs] exI [of _ roots] exI [of _ base] exI [of _ password] exI [of _ ?env] exI [of _ ?opts] exI [of _ res]) simp
    then show ?case using r by (cases r) (auto simp: wp_def)
  qed
  have go: "wp (do { c \<leftarrow> with_disk (remoteClient X url pw);
           case c of Inl e \<Rightarrow> return (fail ?json (code_string e)) | Inr (base, password) \<Rightarrow> do {
             r \<leftarrow> with_sender (Send S ((sh_send X base password)\<lparr>sv_URL := base, sv_StateDir := state_dir (sh_process X)\<rparr>)
               \<lparr>so_Roots = roots, so_Note = n, so_TTLMinutes = k\<rparr>);
             return (case r of Inl e \<Rightarrow> fail ?json (code_string e)
               | Inr res \<Rightarrow> send_report ?json (flag_bool fs ''quiet'') res) } }) ?Q m" if "roots \<noteq> []" for url pw n k
  proof (subst wp_bind, rule wp_with_disk, goal_cases)
    case (1 x d)
    show ?case using run [OF that] by (cases x) (auto simp del: wp_bind split del: if_split)
  qed
  show ?thesis
  proof (cases "roots = [] \<or> flag_str fs ''note'' \<noteq> [] \<and> flag_str fs ''note-file'' \<noteq> []")
    case False
    then have options: "(roots = []) = False" "(flag_str fs ''note'' \<noteq> [] \<and> flag_str fs ''note-file'' \<noteq> []) = False"
      by simp_all
    show ?thesis unfolding runSend_def a option.case prod.case Let_def options if_False
      using go False by (cases "send_note X fs"; cases "send_minutes X fs") (simp_all del: wp_bind split del: if_split)
  qed (auto simp: runSend_def a Let_def)
qed (simp add: runSend_def)

text \<open>
  C3: A script that sees a code can hand it on. When the send command exits with zero, it has
  printed a code (alone on its line, or as the code of the JSON object), and everyone who types that
  code before the expiry of the send opens a download that lists exactly the entries of the
  paths on the command line; when it exits with anything else, no code was printed.
\<close>

theorem send_command_delivers:
  assumes "config_ok S" and "server_inv S (sd_world (mc_sender m))" and "sessions_open (mc_sender m)"
    and "\<And>b p. unused (sv_id (sh_send X b p)) (sd_world (mc_sender m))"
    and "\<And>b p. 0 \<le> sv_committedAt (sh_send X b p)" and "\<And>b p k. length (sv_draws (sh_send X b p) k) = CodeLength"
    and "run_state (runSend S X args) m = (o', m')" and "w_faults (sd_world (mc_sender m')) = []"
  shows "if oc_exit o' \<noteq> 0 then printed ''code'' o' = None
    else \<exists>fs base password env opts res. parseArgs send_flags args = Some (fs, so_Roots opts)
      \<and> env = (sh_send X base password)\<lparr>sv_URL := base, sv_StateDir := state_dir (sh_process X)\<rparr>
      \<and> run_state (Send S env opts) (mc_sender m) = (Inr res, mc_sender m')
      \<and> o' = send_report (flag_bool fs ''json'') (flag_bool fs ''quiet'') res
      \<and> printed ''code'' o' = Some (sr_Code res)
      \<and> (\<forall>typed later. NormalizeCode typed = NormalizeCode (sr_Code res) \<and> later < sr_ExpiresAt res \<longrightarrow>
          (\<exists>plan dl w. Scan (lib_unicode S) (lib_blake3 S) (sv_cwd env) (sv_lfs env) (so_Roots opts) = Inr plan
            \<and> run_state (OpenDownload S later typed) (sd_world (mc_sender m')) = (Inr dl, w)
            \<and> man_Entries (dl_Manifest dl) = plan_Entries plan))"
proof (cases "oc_exit o' = 0")
  case True
  then obtain fs base password env opts res where s: "parseArgs send_flags args = Some (fs, so_Roots opts)"
    "env = (sh_send X base password)\<lparr>sv_URL := base, sv_StateDir := state_dir (sh_process X)\<rparr>"
    "run_state (Send S env opts) (mc_sender m) = (Inr res, mc_sender m')"
    "o' = send_report (flag_bool fs ''json'') (flag_bool fs ''quiet'') res"
    using wp_run [OF wp_runSend assms(7)] by (auto simp: sent_as_def)
  have e: "unused (sv_id env) (sd_world (mc_sender m))" "0 \<le> sv_committedAt env" "\<And>k. length (sv_draws env k) = CodeLength"
    using assms(4-6) by (simp_all add: s(2))
  have opens: "\<exists>plan dl w. Scan (lib_unicode S) (lib_blake3 S) (sv_cwd env) (sv_lfs env) (so_Roots opts) = Inr plan
      \<and> run_state (OpenDownload S later typed) (sd_world (mc_sender m')) = (Inr dl, w)
      \<and> man_Entries (dl_Manifest dl) = plan_Entries plan"
    if "NormalizeCode typed = NormalizeCode (sr_Code res)" "later < sr_ExpiresAt res" for typed later
    using Send_opens [OF assms(1,2) e(1) assms(3) e(2,3) s(3) assms(8) that] by blast
  have "printed ''code'' o' = Some (sr_Code res)" unfolding s(4) by simp
  then show ?thesis unfolding True not_not simp_thms if_False
    by (intro exI [of _ fs] exI [of _ base] exI [of _ password] exI [of _ env] exI [of _ opts] exI [of _ res]
        conjI s allI impI opens) auto
qed (use wp_run [OF wp_runSend assms(7)] in simp)

section \<open>The commands on a sample machine\<close>

definition shell_process :: process_env where
  "shell_process = sample_process\<lparr>pe_Getenv := (\<lambda>v. if v = ''SSS_PASSWORD'' then ''secret''
         else if v = ''SSS_STATE_DIR'' then ''/state'' else [])\<rparr>"

definition sample_shell :: shell where
  "sample_shell = \<lparr>sh_process = shell_process,
     sh_stdin = None, sh_typed = None, sh_file = (\<lambda>_. None), sh_duration = (\<lambda>_. None),
     sh_send = (\<lambda>_ _. sample_sv), sh_recv = (\<lambda>_ _ _. sent_surroundings), sh_net = (\<lambda>_ _. hello_net),
     sh_lib = hello_lib, sh_healthz = (\<lambda>_. None), sh_local = (\<lambda>_ _. Inl ''NETWORK_ERROR''),
     sh_metadata = (\<lambda>_ _ _. Inl ''NETWORK_ERROR''), sh_info = (\<lambda>_ _. Inl ''NETWORK_ERROR''),
     sh_status = (\<lambda>_. Inl ''NETWORK_ERROR''), sh_cleanup = (\<lambda>_. Inl ''NETWORK_ERROR''),
     sh_isdir = (\<lambda>_. True), sh_cwd = None, sh_loopback = (\<lambda>_. False), sh_salt = None, sh_now = 0\<rparr>"

definition sample_machine :: machine where
  "sample_machine = \<lparr>mc_disk = \<lparr>dk_files = [], dk_faults = []\<rparr>, mc_sender = sample_sender, mc_receiver = sample_receiver\<rparr>"

lemma sample_shell_process: "sh_process sample_shell = shell_process"
  by (simp add: sample_shell_def)

lemma sample_settings:
  "run_state (LoadClient shell_process) \<lparr>dk_files = [], dk_faults = []\<rparr> = (Inr empty_client, \<lparr>dk_files = [], dk_faults = []\<rparr>)"
  "ResolveURL shell_process ''https://x'' empty_client = Inr ''https://x''"
  "ResolveURL shell_process ''https://x/'' empty_client = Inr ''https://x''"
  by code_simp+

lemma sample_password: "resolvePassword sample_shell False = Inr ''secret''"
  by (simp add: resolvePassword_def sample_shell_process shell_process_def)

lemma sample_remote:
  "ResolveURL shell_process u empty_client = Inr ''https://x'' \<Longrightarrow>
   run_state (remoteClient sample_shell u False) \<lparr>dk_files = [], dk_faults = []\<rparr> =
     (Inr (''https://x'', ''secret''), \<lparr>dk_files = [], dk_faults = []\<rparr>)"
  by (simp add: remoteClient_def sample_shell_process sample_settings(1) sample_password)

definition sample_send_args :: "string list" where
  "sample_send_args = [''/d/a'', ''--note'', ''hi'', ''--url'', ''https://x/'', ''--json'']"

definition sample_outcome :: outcome where
  "sample_outcome = succeed [Json [(''ok'', JBool True), (''operation'', JStr ''send''), (''code'', JStr (FormatCode sample_code)),
     (''expires_at'', JTime (1700001900 * second)), (''files'', JInt 1), (''bytes'', JInt 2)]] []"

lemma sample_parse:
  "parseArgs send_flags sample_send_args = Some ([(''json'', ''true''), (''url'', ''https://x/''), (''note'', ''hi'')], [''/d/a''])"
  by code_simp

lemma sample_runSend:
  "run_state (runSend pack_server sample_shell sample_send_args) sample_machine =
     (sample_outcome, sample_machine\<lparr>mc_sender := sent_sender\<rparr>)"
proof -
  note c = sample_remote [OF sample_settings(3)]
  have e: "sample_sv\<lparr>sv_URL := ''https://x'', sv_StateDir := state_dir (sh_process sample_shell)\<rparr> = sample_sv"
    by (simp add: sample_sv_def state_dir_def StateDir_def sample_shell_process shell_process_def)
  have o': "\<lparr>so_Roots = [''/d/a''], so_Note = ''hi'', so_TTLMinutes = 30\<rparr> = sample_opts" by (simp add: sample_opts_def)
  have s: "sh_send sample_shell b q = sample_sv" for b q by (simp add: sample_shell_def)
  show ?thesis
    by (simp add: runSend_def sample_parse flag_bool_def flag_str_def bool_text_def send_note_def send_minutes_def DefaultTTLMinutes_def
        with_disk_def with_sender_def sample_machine_def c s e o' sample_send_run send_report_def sample_outcome_def)
qed

theorem send_command_delivers_witness:
  "\<exists>plan dl w. Scan (lib_unicode pack_server) (lib_blake3 pack_server) None one_file [''/d/a''] = Inr plan
    \<and> run_state (OpenDownload pack_server (1700000200 * second) (FormatCode sample_code)) sent_world = (Inr dl, w)
    \<and> man_Entries (dl_Manifest dl) = plan_Entries plan"
proof -
  let ?m = "sample_machine\<lparr>mc_sender := sent_sender\<rparr>"
  have send: "sh_send sample_shell b p = sample_sv" "mc_sender sample_machine = sample_sender" for b p
    by (simp_all add: sample_shell_def sample_machine_def)
  have fine: "w_faults (sd_world (mc_sender ?m)) = []" by (simp add: sent_sender_def sent_world_def)
  have zero: "(oc_exit sample_outcome \<noteq> 0) = False" by (simp add: sample_outcome_def)
  obtain fs base password env and opts :: send_opts and res where
    r: "parseArgs send_flags sample_send_args = Some (fs, so_Roots opts)"
      "env = sample_sv\<lparr>sv_URL := base, sv_StateDir := state_dir (sh_process sample_shell)\<rparr>"
      "sample_outcome = send_report (flag_bool fs ''json'') (flag_bool fs ''quiet'') res"
    and opens: "\<forall>typed later. NormalizeCode typed = NormalizeCode (sr_Code res) \<and> later < sr_ExpiresAt res \<longrightarrow>
          (\<exists>plan dl w. Scan (lib_unicode pack_server) (lib_blake3 pack_server) (sv_cwd env) (sv_lfs env) (so_Roots opts) = Inr plan
            \<and> run_state (OpenDownload pack_server later typed) (sd_world (mc_sender ?m)) = (Inr dl, w)
            \<and> man_Entries (dl_Manifest dl) = plan_Entries plan)"
    using send_command_delivers [OF sample_sender_ok(1), of sample_machine sample_shell sample_send_args sample_outcome ?m,
      unfolded send, OF sample_sender_ok(2,4,3,5,6) sample_runSend fine, unfolded zero if_False]
    by blast
  have env: "sv_cwd env = None" "sv_lfs env = one_file" by (simp_all add: r(2) sample_sv_def)
  have "fs = [(''json'', ''true''), (''url'', ''https://x/''), (''note'', ''hi'')]" "so_Roots opts = [''/d/a'']"
    using r(1) unfolding sample_parse by auto
  moreover from this have "sr_Code res = FormatCode sample_code" "sr_ExpiresAt res = 1700001900 * second"
    using r(3) by (simp_all add: flag_bool_def bool_text_def send_report_def sample_outcome_def succeed_def)
  ultimately show ?thesis
    using opens [rule_format, of "FormatCode sample_code" "1700000200 * second"] env by (simp add: second_def sent_sender_def)
qed

end
