(* ===== verification/SSS_Receive.thy ===== *)
theory SSS_Receive
  imports SSS_Cli
begin

text \<open>
  The receiving command (\<^verbatim>\<open>runRecv\<close> and \<^verbatim>\<open>recvLocal\<close> of \<^verbatim>\<open>internal/cli/commands.go\<close>,
  \<^verbatim>\<open>copyLocalPayload\<close> of \<^verbatim>\<open>internal/cli/server.go\<close> with \<^verbatim>\<open>platform.CopyTree\<close>): over the local
  socket, without a copy or into a writable one, or from the remote server. The theorem shows that
  the path on the standard output is a complete tree and that any other exit printed no path and
  made no destination.
\<close>

unbundle bit_operations_syntax

section \<open>A writable copy of a local payload\<close>

definition place_fault :: "nat option recv" where
  "place_fault = State (\<lambda>c. case rc_faults c of [] \<Rightarrow> (None, c) | f # fs \<Rightarrow> (f, c\<lparr>rc_faults := fs\<rparr>))"

definition set_place :: "string \<Rightarrow> place \<Rightarrow> unit recv" where
  "set_place p x = State (\<lambda>c. ((), c\<lparr>rc_places := AList.update p x (rc_places c)\<rparr>))"

text \<open>\<^verbatim>\<open>RemoveAllForce\<close>: a removal that fails may have removed a part of the tree.\<close>

definition remove_place :: "string \<Rightarrow> bool recv" where
  "remove_place p = do {
     f \<leftarrow> place_fault;
     State (\<lambda>c. case f of
         None \<Rightarrow> (True, c\<lparr>rc_places := AList.delete p (rc_places c)\<rparr>)
       | Some n \<Rightarrow> (False, c\<lparr>rc_places := (case map_of (rc_places c) p of
            Some (PlaceDir pl) \<Rightarrow> AList.update p (PlaceDir (drop n pl)) (rc_places c) | _ \<Rightarrow> rc_places c)\<rparr>))
   }"

definition make_place :: "string \<Rightarrow> bool recv" where
  "make_place p = do {
     f \<leftarrow> place_fault;
     State (\<lambda>c. if f \<noteq> None then (False, c) else (case map_of (rc_places c) p of
         None \<Rightarrow> (True, c\<lparr>rc_places := AList.update p (PlaceDir []) (rc_places c)\<rparr>)
       | Some (PlaceDir _) \<Rightarrow> (True, c) | Some PlaceOther \<Rightarrow> (False, c)))
   }"

text \<open>One directory entry of \<^verbatim>\<open>CopyTree\<close>: the executable bit is kept, the time is that of the copy.\<close>

fun copy_node :: "time \<Rightarrow> node \<Rightarrow> node" where
  "copy_node now NDir = NDir"
| "copy_node now (NFile b p t) = NFile b (if p AND 73 \<noteq> 0 then 493 else 420) now"


fun copy_nodes :: "time \<Rightarrow> payload \<Rightarrow> payload \<Rightarrow> (bool \<times> payload) recv" where
  "copy_nodes now made [] = return (True, made)"
| "copy_nodes now made ((k, x) # rest) = do {
     f \<leftarrow> place_fault;
     case f of
       None \<Rightarrow> copy_nodes now (made @ [(k, copy_node now x)]) rest
     | Some n \<Rightarrow> return (False, case x of NDir \<Rightarrow> made
         | NFile b p t \<Rightarrow> made @ [(k, copy_node now (NFile (take n b) p t))])
   }"

definition CopyTree :: "time \<Rightarrow> string \<Rightarrow> string \<Rightarrow> bool recv" where
  "CopyTree now src dst = do {
     tree \<leftarrow> State (\<lambda>c. (map_of (rc_places c) src, c));
     case tree of
       Some (PlaceDir pl) \<Rightarrow> do {
         r \<leftarrow> copy_nodes now [] pl;
         _ \<leftarrow> set_place dst (PlaceDir (snd r));
         return (fst r)
       }
     | _ \<Rightarrow> return False
   }"

text \<open>\<^verbatim>\<open>os.Rename\<close> of a directory, which replaces nothing but an empty directory.\<close>

definition move_place :: "string \<Rightarrow> string \<Rightarrow> bool recv" where
  "move_place a b = do {
     f \<leftarrow> place_fault;
     State (\<lambda>c. case map_of (rc_places c) a of
       Some x \<Rightarrow>
         if f \<noteq> None \<or> \<not> (map_of (rc_places c) b = None \<or> map_of (rc_places c) b = Some (PlaceDir [])) then (False, c)
         else (True, c\<lparr>rc_places := AList.delete a (AList.update b x (rc_places c))\<rparr>)
     | None \<Rightarrow> (False, c))
   }"

definition copyLocalPayload :: "shell \<Rightarrow> string \<Rightarrow> string \<Rightarrow> (string result) recv" where
  "copyLocalPayload X payload dest = do {
     let clean = Clean dest;
     let partial = path_join (path_dir clean) (''.'' @ path_base clean @ ''.sss-partial'');
     there \<leftarrow> Lstat_place clean;
     if there = Present then return (Inl ErrDestinationExists)
     else if \<not> sh_isdir X (path_dir clean) then return (Inl ErrDestinationExists)
     else do {
       cleared \<leftarrow> remove_place partial;
       if \<not> cleared then return (Inl ErrDestinationExists) else do {
         made \<leftarrow> make_place partial;
         if \<not> made then return (Inl ErrDestinationExists) else do {
           copied \<leftarrow> CopyTree (sh_now X) payload partial;
           if \<not> copied then do { _ \<leftarrow> remove_place partial; return (Inl ErrDestinationExists) } else do {
             renamed \<leftarrow> move_place partial clean;
             if \<not> renamed then do { _ \<leftarrow> remove_place partial; return (Inl ErrDestinationExists) }
             else return (Inr (case Abs (sh_cwd X) clean of None \<Rightarrow> clean | Some p \<Rightarrow> p))
           }
         }
       }
     }
   }"

subsection \<open>The working directory is not the destination\<close>

lemma Clean_last:
  assumes "proper x"
  shows "Clean (d @ slash # x) = x \<or> (\<exists>y. Clean (d @ slash # x) = y @ slash # x)"
proof -
  have x: "slash \<notin> set x" "split_on slash x = [x]" using assms by (simp_all add: proper_def split_on_free)
  have parts: "split_on slash (d @ slash # x) = split_on slash d @ [x]"
    by (simp add: split_on_app x(2))
  obtain ks where "clean_components (is_abs (d @ slash # x)) (split_on slash (d @ slash # x)) = ks @ [x]"
    unfolding parts clean_components_def by (simp add: clean_step_proper [OF assms])
  moreover have "join_with slash (ks @ [x]) = (if ks = [] then x else join_with slash ks @ slash # x)" for ks :: "string list"
    by (induction ks rule: induct_list012) auto
  ultimately show ?thesis by (auto simp: Clean_def Let_def)
qed

lemma path_base_last:
  assumes "proper x"
  shows "path_base x = x" "path_base (y @ slash # x) = x"
proof -
  have x: "x \<noteq> []" "slash \<notin> set x" using assms by (simp_all add: proper_def)
  then have "last x \<noteq> slash" by (metis last_in_set)
  then have d: "dropWhile (\<lambda>c. c = slash) (rev x) = rev x" "dropWhile (\<lambda>c. c = slash) (rev x @ slash # rev y) = rev x @ slash # rev y"
    using x(1) by (cases x rule: rev_cases; simp)+
  show "path_base x = x" using x d by (simp add: path_base_def split_on_free)
  show "path_base (y @ slash # x) = x" using x d by (simp add: path_base_def split_on_app split_on_free)
qed

lemma path_base_cases: "path_base p = ''/'' \<or> slash \<notin> set (path_base p)"
  using split_on_parts [OF last_in_set [OF split_on_nonempty]] by (auto simp: path_base_def Let_def)

lemma path_base_joined:
  assumes "proper x"
  shows "path_base (path_join d x) = x" "path_base (path_join d (e @ slash # x)) = x"
proof -
  have "x \<noteq> []" "is_abs x = False" using assms by (auto simp: proper_def is_abs_conv)
  then have "Clean x = x" using assms
    by (simp add: Clean_def Let_def proper_def split_on_free clean_components_def clean_step_def)
  then show "path_base (path_join d x) = x"
    using Clean_last [OF assms, of d] path_base_last [OF assms] by (auto simp: path_join_def)
  show "path_base (path_join d (e @ slash # x)) = x"
    using Clean_last [OF assms, of "d @ slash # e"] Clean_last [OF assms, of e] path_base_last [OF assms]
    by (auto simp: path_join_def)
qed

lemma partial_path_other: "partial_path p \<noteq> p"
proof
  assume eq: "partial_path p = p"
  show False
  proof (cases "path_base p = ''/''")
    case False
    let ?x = "''.'' @ path_base p @ ''.sss-partial''"
    have "proper ?x" using path_base_cases [of p] False by (auto simp: proper_def)
    from arg_cong [OF path_base_joined(1) [OF this, of "path_dir p"], of length] show False
      using eq by (simp add: partial_path_def)
  next
    case True
    have "proper ''.sss-partial''" by (simp add: proper_def)
    from path_base_joined(2) [OF this, of "path_dir p" "''.''"] show False
      using eq True by (simp add: partial_path_def)
  qed
qed

subsection \<open>What a copy leaves\<close>

lemma wp_place_fault: "(\<And>f fs. Q f (c\<lparr>rc_faults := fs\<rparr>)) \<Longrightarrow> wp place_fault Q c"
  by (simp add: place_fault_def split: list.splits) (metis receiver.surjective receiver.update_convs(3))

lemma wp_set_place: "Q () (c\<lparr>rc_places := AList.update p x (rc_places c)\<rparr>) \<Longrightarrow> wp (set_place p x) Q c"
  by (simp add: set_place_def)

text \<open>The places agree but at one path.\<close>

definition same_but :: "string \<Rightarrow> receiver \<Rightarrow> receiver \<Rightarrow> bool" where
  "same_but p c c' \<longleftrightarrow> (\<forall>q. q \<noteq> p \<longrightarrow> map_of (rc_places c') q = map_of (rc_places c) q)"

lemma same_but_refl [simp]: "same_but p c c" "same_but p c (c\<lparr>rc_faults := fs\<rparr>)"
  "same_but p (c\<lparr>rc_faults := fs\<rparr>) c' = same_but p c c'"
  by (simp_all add: same_but_def)

lemma same_but_trans: "same_but p a b \<Longrightarrow> same_but p b c \<Longrightarrow> same_but p a c"
  by (simp add: same_but_def)

lemma wp_remove_place: "wp (remove_place p) (\<lambda>ok c'. same_but p c c' \<and> (ok \<longrightarrow> map_of (rc_places c') p = None)) c"
  unfolding remove_place_def wp_bind
  by (rule wp_place_fault) (auto simp: same_but_def delete_conv' update_conv' split: option.splits place.splits)

lemma wp_make_place:
  "wp (make_place p) (\<lambda>ok c'. same_but p c c' \<and> (ok \<and> map_of (rc_places c) p = None \<longrightarrow> map_of (rc_places c') p = Some (PlaceDir []))) c"
  unfolding make_place_def wp_bind
  by (rule wp_place_fault) (auto simp: same_but_def update_conv' split: option.splits place.splits)

lemma wp_copy_nodes:
  "wp (copy_nodes now made pl) (\<lambda>r c'. rc_places c' = rc_places c \<and>
     (fst r \<longrightarrow> snd r = made @ map (\<lambda>(k, x). (k, copy_node now x)) pl)) c"
proof (induction pl arbitrary: made c)
  case (Cons a pl)
  obtain k x where a: "a = (k, x)" by (cases a)
  show ?case unfolding a copy_nodes.simps wp_bind
  proof (rule wp_place_fault, goal_cases)
    case (1 f fs)
    show ?case
    proof (cases f)
      case None
      show ?thesis unfolding None option.case by (rule wp_mono [OF Cons.IH]) auto
    qed simp
  qed
qed simp

lemma wp_CopyTree:
  "wp (CopyTree now src dst) (\<lambda>ok c'. same_but dst c c' \<and> (ok \<longrightarrow> (\<exists>pl. map_of (rc_places c) src = Some (PlaceDir pl)
     \<and> map_of (rc_places c') dst = Some (PlaceDir (map (\<lambda>(k, x). (k, copy_node now x)) pl))))) c"
proof -
  have "wp (do { r \<leftarrow> copy_nodes now [] pl; _ \<leftarrow> set_place dst (PlaceDir (snd r)); return (fst r) })
     (\<lambda>ok c'. same_but dst c c' \<and> (ok \<longrightarrow>
        map_of (rc_places c') dst = Some (PlaceDir (map (\<lambda>(k, x). (k, copy_node now x)) pl)))) c" for pl
    unfolding wp_bind by (rule wp_mono [OF wp_copy_nodes]) (auto simp: set_place_def same_but_def update_conv')
  then show ?thesis unfolding CopyTree_def by (auto simp: wp_mono split: option.splits place.splits)
qed

lemma wp_move_place:
  "a \<noteq> b \<Longrightarrow> wp (move_place a b) (\<lambda>ok c'. if ok then \<exists>x. map_of (rc_places c) a = Some x
       \<and> (map_of (rc_places c) b = None \<or> map_of (rc_places c) b = Some (PlaceDir []))
       \<and> (\<forall>q. map_of (rc_places c') q = (if q = a then None else if q = b then Some x else map_of (rc_places c) q))
     else rc_places c' = rc_places c) c"
  unfolding move_place_def wp_bind
  by (rule wp_place_fault) (auto simp: delete_conv' update_conv' split: option.splits)

text \<open>
  A local copy: the working directory aside, nothing changes but the destination, which was free
  and holds the whole tree at once.
\<close>

definition copied :: "shell \<Rightarrow> string \<Rightarrow> string \<Rightarrow> receiver \<Rightarrow> string result \<Rightarrow> receiver \<Rightarrow> bool" where
  "copied X payload clean c r c' \<longleftrightarrow>
     (\<forall>q. q \<noteq> clean \<and> q \<noteq> partial_path clean \<longrightarrow> map_of (rc_places c') q = map_of (rc_places c) q)
     \<and> (case r of Inl _ \<Rightarrow> map_of (rc_places c') clean = map_of (rc_places c) clean
        | Inr p \<Rightarrow> p = shown_path (sh_cwd X) clean
            \<and> (map_of (rc_places c) clean = None \<or> map_of (rc_places c) clean = Some (PlaceDir []))
            \<and> (\<exists>pl. map_of (rc_places c) payload = Some (PlaceDir pl)
                 \<and> map_of (rc_places c') clean = Some (PlaceDir (map (\<lambda>(k, x). (k, copy_node (sh_now X) x)) pl))))"

lemma copied_fails: "same_but (partial_path clean) c c' \<Longrightarrow> copied X payload clean c (Inl e) c'"
  using partial_path_other [of clean] by (auto simp: copied_def same_but_def)

lemma wp_copyLocalPayload:
  assumes "payload \<noteq> partial_path (Clean dest)"
  shows "wp (copyLocalPayload X payload dest) (copied X payload (Clean dest) c) c"
proof -
  let ?d = "Clean dest" and ?p = "partial_path (Clean dest)"
  let ?Q = "copied X payload ?d c"
  have other: "?p \<noteq> ?d" by (rule partial_path_other)
  have give_up: "wp (do { _ \<leftarrow> remove_place ?p; return (Inl ErrDestinationExists) }) ?Q c'" if "same_but ?p c c'" for c'
    unfolding wp_bind by (rule wp_mono [OF wp_remove_place]) (auto intro: copied_fails same_but_trans [OF that])
  have move: "wp (do { renamed \<leftarrow> move_place ?p ?d;
        if \<not> renamed then do { _ \<leftarrow> remove_place ?p; return (Inl ErrDestinationExists) }
        else return (Inr (shown_path (sh_cwd X) ?d)) }) ?Q c'"
    if s: "same_but ?p c c'" and pl: "map_of (rc_places c) payload = Some (PlaceDir pl)"
      "map_of (rc_places c') ?p = Some (PlaceDir (map (\<lambda>(k, x). (k, copy_node (sh_now X) x)) pl))" for c' pl
  proof (subst wp_bind, rule wp_mono [OF wp_move_place [OF other]], goal_cases)
    case (1 ok c'')
    show ?case
    proof (cases ok)
      case False
      then have "same_but ?p c c''" using 1 s by (simp add: same_but_def)
      then show ?thesis using give_up False by simp
    next
      case True
      then show ?thesis using 1 s pl other by (auto simp: copied_def same_but_def)
    qed
  qed
  have copy: "wp (do { ok \<leftarrow> CopyTree (sh_now X) payload ?p;
        if \<not> ok then do { _ \<leftarrow> remove_place ?p; return (Inl ErrDestinationExists) }
        else do { renamed \<leftarrow> move_place ?p ?d;
          if \<not> renamed then do { _ \<leftarrow> remove_place ?p; return (Inl ErrDestinationExists) }
          else return (Inr (shown_path (sh_cwd X) ?d)) } }) ?Q c'" if s: "same_but ?p c c'" for c'
  proof (subst wp_bind, rule wp_mono [OF wp_CopyTree], goal_cases)
    case (1 ok c'')
    then have s': "same_but ?p c c''" using same_but_trans [OF s] by blast
    show ?case
    proof (cases ok)
      case True
      then obtain pl where pl: "map_of (rc_places c') payload = Some (PlaceDir pl)"
        "map_of (rc_places c'') ?p = Some (PlaceDir (map (\<lambda>(k, x). (k, copy_node (sh_now X) x)) pl))" using 1 by blast
      have "map_of (rc_places c) payload = Some (PlaceDir pl)" using s pl(1) assms by (simp add: same_but_def)
      from move [OF s' this pl(2)] show ?thesis using True by simp
    qed (use give_up [OF s'] in simp)
  qed
  have make: "wp (do { made \<leftarrow> make_place ?p; if \<not> made then return (Inl ErrDestinationExists)
      else do { ok \<leftarrow> CopyTree (sh_now X) payload ?p;
        if \<not> ok then do { _ \<leftarrow> remove_place ?p; return (Inl ErrDestinationExists) }
        else do { renamed \<leftarrow> move_place ?p ?d;
          if \<not> renamed then do { _ \<leftarrow> remove_place ?p; return (Inl ErrDestinationExists) }
          else return (Inr (shown_path (sh_cwd X) ?d)) } } }) ?Q c'" if s: "same_but ?p c c'" for c'
  proof (subst wp_bind, rule wp_mono [OF wp_make_place], goal_cases)
    case (1 ok c'')
    then have "same_but ?p c c''" using same_but_trans [OF s] by blast
    then show ?case using copy by (cases ok) (auto intro: copied_fails simp del: wp_bind)
  qed
  show ?thesis
    unfolding copyLocalPayload_def Let_def partial_path_def [symmetric] shown_path_def [symmetric]
      wp_bind [of "Lstat_place ?d"]
  proof (rule wp_Lstat_place, goal_cases)
    case (1 r fs)
    have s: "same_but ?p c (c\<lparr>rc_faults := fs\<rparr>)" by simp
    show ?case
    proof (cases "r = Present \<or> \<not> sh_isdir X (path_dir ?d)")
      case True
      then show ?thesis using copied_fails [OF s] by auto
    next
      case False
      then show ?thesis
        unfolding wp_bind [of "remove_place ?p"]
        by (simp del: wp_bind add: wp_bind [of "remove_place ?p"])
          (rule wp_mono [OF wp_remove_place], rename_tac ok c'', case_tac ok,
            auto intro: copied_fails make simp del: wp_bind)
    qed
  qed
qed


section \<open>The receiving command\<close>

definition recv_flags :: flag_defs where
  "recv_flags = [(''to'', False), (''json'', True), (''quiet'', True), (''password-stdin'', True), (''url'', False),
     (''socket'', False), (''no-local'', True)]"

text \<open>The daemon answers the health check with a compatible protocol version.\<close>

definition LocalReachable :: "shell \<Rightarrow> string \<Rightarrow> bool" where
  "LocalReachable X socket = (case sh_healthz X socket of
     Some (status, Some version) \<Rightarrow> status = 200 \<and> CheckCompatible version = None
   | _ \<Rightarrow> False)"

definition mustNormalize :: "string \<Rightarrow> string" where
  "mustNormalize code = (case NormalizeCode code of None \<Rightarrow> [] | Some c \<Rightarrow> c)"

definition recv_report :: "bool \<Rightarrow> bool \<Rightarrow> string \<Rightarrow> RecvResult \<Rightarrow> outcome" where
  "recv_report json quiet code res =
     (if json then succeed [Json [(''ok'', JBool True), (''operation'', JStr ''recv''),
          (''code'', JStr (FormatCode (mustNormalize code))), (''path'', JStr (rr_Path res)), (''local_zero_copy'', JBool False),
          (''files'', JInt (rr_Files res)), (''bytes'', JInt (rr_Bytes res)), (''note'', JStr (rr_Note res))]] []
      else succeed [Text (rr_Path res)]
        (if quiet then [] else (if rr_Note res \<noteq> [] then [Text (''Note: '' @ rr_Note res)] else [])
          @ [Report [JInt (rr_Bytes res), JInt (rr_Files res)]]))"

definition local_report :: "bool \<Rightarrow> bool \<Rightarrow> LocalClaim \<Rightarrow> string \<Rightarrow> bool \<Rightarrow> outcome" where
  "local_report json quiet claim path zeroCopy =
     (if json then succeed [Json [(''ok'', JBool True), (''operation'', JStr ''recv''), (''code'', JStr (lc_Code claim)),
          (''path'', JStr path), (''local_zero_copy'', JBool zeroCopy), (''read_only'', JBool zeroCopy),
          (''lease_until'', JTime (lc_LeaseUntil claim))]] []
      else succeed [Text path]
        (if \<not> quiet \<and> zeroCopy then [Text ''VPS-local receipt: existing read-only payload, no copy made''] else []))"

definition recvLocal :: "shell \<Rightarrow> string \<Rightarrow> string \<Rightarrow> string \<Rightarrow> bool \<Rightarrow> bool \<Rightarrow> outcome command" where
  "recvLocal X socket code dest json quiet = (case sh_local X socket code of
     Inl e \<Rightarrow> return (fail json e)
   | Inr claim \<Rightarrow>
       if dest \<noteq> [] then do {
         r \<leftarrow> with_receiver (copyLocalPayload X (lc_Path claim) dest);
         return (case r of Inl e \<Rightarrow> fail json (code_string e) | Inr path \<Rightarrow> local_report json quiet claim path False)
       } else return (local_report json quiet claim (lc_Path claim) True))"

definition runRecv :: "server \<Rightarrow> shell \<Rightarrow> string list \<Rightarrow> outcome command" where
  "runRecv S X args = (case parseArgs recv_flags args of None \<Rightarrow> return bad_flags
   | Some (fs, positional) \<Rightarrow>
       let json = flag_bool fs ''json''; quiet = flag_bool fs ''quiet''; dest = flag_str fs ''to'' in
       case positional of
         [code] \<Rightarrow>
           if NormalizeCode code = None then return (fail json (code_string ErrInvalidCode))
           else do {
             saved \<leftarrow> with_disk (LoadClient (sh_process X));
             let socket = ResolveSocket (sh_process X) (flag_str fs ''socket'')
               (case saved of Inl _ \<Rightarrow> empty_client | Inr c \<Rightarrow> c);
             if \<not> flag_bool fs ''no-local'' \<and> LocalReachable X socket then recvLocal X socket code dest json quiet
             else do {
               c \<leftarrow> with_disk (remoteClient X (flag_str fs ''url'') (flag_bool fs ''password-stdin''));
               case c of Inl e \<Rightarrow> return (fail json (code_string e)) | Inr (base, password) \<Rightarrow> do {
                 r \<leftarrow> with_receiver (Recv S (sh_lib X) (sh_net X base password) (sh_recv X base password code) code dest);
                 return (case r of Inl e \<Rightarrow> fail json e | Inr res \<Rightarrow> recv_report json quiet code res)
               }
             }
           }
       | _ \<Rightarrow> return (usageError json))"

section \<open>A script sees a path only when the tree is there\<close>

lemma partial_base: "path_base (partial_path p) \<noteq> ''payload''"
proof (cases "path_base p = ''/''")
  case False
  have "proper (''.'' @ path_base p @ ''.sss-partial'')" using path_base_cases [of p] False by (auto simp: proper_def)
  from path_base_joined(1) [OF this, of "path_dir p"] show ?thesis by (simp add: partial_path_def)
next
  case True
  have "proper ''.sss-partial''" by (simp add: proper_def)
  from path_base_joined(2) [OF this, of "path_dir p" "''.''"] show ?thesis using True by (simp add: partial_path_def)
qed

text \<open>The paths the daemon hands out are those of payload directories.\<close>

lemma PayloadDir_base: "path_base (PayloadDir S t) = ''payload''"
proof -
  have p: "proper ''payload''" by (simp add: proper_def)
  have "path_joins [a, ''payload''] = path_join a ''payload''" for a by (simp add: path_joins_def path_join_def)
  then show ?thesis using path_base_joined(1) [OF p] by (simp add: PayloadDir_def)
qed

lemma LocalPath_payload: "wp (LocalPath S now1 now2 cid code) (\<lambda>r w. \<forall>claim. r = Inr claim \<longrightarrow> path_base (lc_Path claim) = ''payload'') w"
  unfolding LocalPath_def
  by (auto simp: wp_def PayloadDir_base Let_def split: prod.splits sum.splits if_splits option.splits)

text \<open>
  What stands behind a printed path: the read-only payload of the daemon, its complete writable copy, or
  the complete verified tree of the claim, put there in one step.
\<close>

definition delivered :: "server \<Rightarrow> shell \<Rightarrow> flags \<Rightarrow> string \<Rightarrow> string \<Rightarrow> machine \<Rightarrow> machine \<Rightarrow> bool" where
  "delivered S X fs code path m m' \<longleftrightarrow>
     (\<exists>socket claim. LocalReachable X socket \<and> sh_local X socket code = Inr claim
        \<and> (if flag_str fs ''to'' = [] then path = lc_Path claim \<and> mc_receiver m' = mc_receiver m
           else copied X (lc_Path claim) (Clean (flag_str fs ''to'')) (mc_receiver m) (Inr path) (mc_receiver m')))
   \<or> (\<exists>base password env claim dest res. env = sh_recv X base password code \<and> su_claim env = Inr claim
        \<and> path = shown_path (su_cwd env) dest
        \<and> placed S claim dest (su_race env (su_meanwhile env (rc_places (mc_receiver m)))) res (rc_places (mc_receiver m')))"

text \<open>What a failure leaves: the places as the others made them, or a working directory beside the destination.\<close>

definition refused :: "shell \<Rightarrow> machine \<Rightarrow> machine \<Rightarrow> bool" where
  "refused X m m' \<longleftrightarrow>
     (\<exists>base password code. let env = sh_recv X base password code; ps = rc_places (mc_receiver m) in
        rc_places (mc_receiver m') \<in> {ps, su_meanwhile env ps, su_race env (su_meanwhile env ps)})
   \<or> (\<exists>payload dest e. copied X payload dest (mc_receiver m) (Inl e) (mc_receiver m'))"

definition recv_post :: "server \<Rightarrow> shell \<Rightarrow> flags \<Rightarrow> string \<Rightarrow> machine \<Rightarrow> outcome \<Rightarrow> machine \<Rightarrow> bool" where
  "recv_post S X fs code m o' m' \<longleftrightarrow>
     (if oc_exit o' \<noteq> 0 then printed ''path'' o' = None \<and> refused X m m'
      else \<exists>path. printed ''path'' o' = Some path \<and> delivered S X fs code path m m')"

lemma refused_refl [simp]: "refused X m m" "refused X m (m\<lparr>mc_disk := d\<rparr>)"
  by (auto simp: refused_def Let_def)

lemma recv_post_fail [simp]:
  "recv_post S X fs code m (fail json e) m' \<longleftrightarrow> refused X m m'" "recv_post S X fs code m (usageError json) m' \<longleftrightarrow> refused X m m'"
  by (simp_all add: recv_post_def)

lemma recv_post_report [simp]:
  "recv_post S X fs code m (recv_report json quiet c res) m' \<longleftrightarrow> delivered S X fs code (rr_Path res) m m'"
  "recv_post S X fs code m (local_report json quiet claim path z) m' \<longleftrightarrow> delivered S X fs code path m m'"
  by (auto simp: recv_post_def recv_report_def local_report_def succeed_def printed_def split: if_splits)

lemma wp_Recv_path:
  assumes "su_claim env = Inr claim"
  shows "wp (Recv S L net env code destination) (\<lambda>r c'. case r of
      Inl _ \<Rightarrow> rc_places c' \<in> {rc_places c, su_meanwhile env (rc_places c), su_race env (su_meanwhile env (rc_places c))}
    | Inr res \<Rightarrow> (\<exists>dest. rr_Path res = shown_path (su_cwd env) dest
        \<and> placed S claim dest (su_race env (su_meanwhile env (rc_places c))) res (rc_places c'))) c"
  by (rule wp_mono [OF wp_Recv [OF assms]]) (auto simp: received_def Let_def split: sum.splits)

lemma wp_remote:
  "wp (with_receiver (Recv S (sh_lib X) (sh_net X base password) (sh_recv X base password code) code dest))
     (\<lambda>r m'. case r of Inl e \<Rightarrow> refused X m m' | Inr res \<Rightarrow> delivered S X fs code (rr_Path res) m m') (m\<lparr>mc_disk := d\<rparr>)"
proof (rule wp_with_receiver, goal_cases)
  case 1
  let ?env = "sh_recv X base password code"
  show ?case
  proof (cases "su_claim ?env")
    case (Inl e)
    then show ?thesis by (auto simp: Recv_def refused_def Let_def)
  next
    case (Inr claim)
    let ?ps = "rc_places (mc_receiver m)"
    have left_alone: "refused X m (m\<lparr>mc_disk := d, mc_receiver := c'\<rparr>)"
      if "rc_places c' \<in> {?ps, su_meanwhile ?env ?ps, su_race ?env (su_meanwhile ?env ?ps)}" for c'
      unfolding refused_def Let_def using that by (intro disjI1 exI [of _ base] exI [of _ password] exI [of _ code]) simp
    have arrived: "delivered S X fs code (rr_Path res) m (m\<lparr>mc_disk := d, mc_receiver := c'\<rparr>)"
      if "rr_Path res = shown_path (su_cwd ?env) there"
        "placed S claim there (su_race ?env (su_meanwhile ?env ?ps)) res (rc_places c')" for there res c'
      unfolding delivered_def using that Inr
      by (intro disjI2 exI [of _ base] exI [of _ password] exI [of _ ?env] exI [of _ claim] exI [of _ there] exI [of _ res]) simp
    show ?thesis
    proof (rule wp_mono [OF wp_Recv_path [OF Inr]], goal_cases)
      case (1 r c')
      show ?case
      proof (cases r)
        case (Inl e)
        then have "rc_places c' \<in> {?ps, su_meanwhile ?env ?ps, su_race ?env (su_meanwhile ?env ?ps)}" using 1 by simp
        from left_alone [OF this] show ?thesis by (simp add: Inl)
      next
        case (Inr res)
        then obtain there where "rr_Path res = shown_path (su_cwd ?env) there"
          "placed S claim there (su_race ?env (su_meanwhile ?env ?ps)) res (rc_places c')" using 1 by auto
        from arrived [OF this] show ?thesis by (simp add: Inr)
      qed
    qed
  qed
qed

lemma wp_recvLocal:
  assumes "LocalReachable X socket" and "\<And>claim. sh_local X socket code = Inr claim \<Longrightarrow> path_base (lc_Path claim) = ''payload''"
  shows "wp (recvLocal X socket code (flag_str fs ''to'') json quiet) (recv_post S X fs code m) (m\<lparr>mc_disk := d\<rparr>)"
proof (cases "sh_local X socket code")
  case (Inr claim)
  let ?dest = "flag_str fs ''to''"
  show ?thesis
  proof (cases "?dest = []")
    case True
    then show ?thesis using assms(1) Inr by (auto simp: recvLocal_def delivered_def)
  next
    case False
    have "lc_Path claim \<noteq> partial_path (Clean ?dest)" using assms(2) [OF Inr] partial_base by metis
    note copy = wp_copyLocalPayload [OF this, of X "mc_receiver (m\<lparr>mc_disk := d\<rparr>)"]
    have "wp (with_receiver (copyLocalPayload X (lc_Path claim) ?dest)) (\<lambda>r m'. case r of
        Inl e \<Rightarrow> refused X m m' | Inr path \<Rightarrow> delivered S X fs code path m m') (m\<lparr>mc_disk := d\<rparr>)"
    proof (rule wp_with_receiver, rule wp_mono [OF copy], goal_cases)
      case (1 r c')
      show ?case
      proof (cases r)
        case (Inl e)
        then show ?thesis using 1 by (auto simp: refused_def)
      next
        case (Inr path)
        then show ?thesis using 1 False assms(1) \<open>sh_local X socket code = Inr claim\<close>
          unfolding delivered_def \<open>r = Inr path\<close> sum.case by (intro disjI1 exI [of _ socket] exI [of _ claim]) simp
      qed
    qed
    then have step: "wp (with_receiver (copyLocalPayload X (lc_Path claim) ?dest)) (\<lambda>r m'. wp (return (case r of
        Inl e \<Rightarrow> fail json (code_string e) | Inr path \<Rightarrow> local_report json quiet claim path False)) (recv_post S X fs code m) m')
      (m\<lparr>mc_disk := d\<rparr>)"
      by (rule wp_mono) (simp split: sum.splits)
    show ?thesis unfolding recvLocal_def Inr sum.case if_P [OF False] wp_bind by (rule step)
  qed
qed (simp add: recvLocal_def)


lemma wp_runRecv:
  assumes "parseArgs recv_flags args = Some (fs, [code])"
    and "\<And>socket claim. sh_local X socket code = Inr claim \<Longrightarrow> path_base (lc_Path claim) = ''payload''"
  shows "wp (runRecv S X args) (recv_post S X fs code m) m"
proof -
  let ?json = "flag_bool fs ''json''" and ?quiet = "flag_bool fs ''quiet''" and ?dest = "flag_str fs ''to''"
  let ?remote = "\<lambda>base password. do {
     r \<leftarrow> with_receiver (Recv S (sh_lib X) (sh_net X base password) (sh_recv X base password code) code ?dest);
     return (case r of Inl e \<Rightarrow> fail ?json e | Inr res \<Rightarrow> recv_report ?json ?quiet code res) }"
  have remote: "wp (?remote base password) (recv_post S X fs code m) (m\<lparr>mc_disk := d\<rparr>)" for base password d
    unfolding wp_bind by (rule wp_mono [OF wp_remote]) (simp split: sum.splits)
  have connect: "wp (do { c \<leftarrow> with_disk (remoteClient X url pw);
       case c of Inl e \<Rightarrow> return (fail ?json (code_string e)) | Inr (base, password) \<Rightarrow> ?remote base password })
     (recv_post S X fs code m) (m\<lparr>mc_disk := d\<rparr>)" for url pw d
  proof (subst wp_bind, rule wp_with_disk, goal_cases)
    case (1 x d')
    show ?case using remote [of _ _ d'] by (cases x) (auto simp del: wp_bind)
  qed
  show ?thesis
  proof (cases "NormalizeCode code = None")
    case False
    have "wp (do { saved \<leftarrow> with_disk (LoadClient (sh_process X));
        let socket = ResolveSocket (sh_process X) (flag_str fs ''socket'') (case saved of Inl _ \<Rightarrow> empty_client | Inr c \<Rightarrow> c);
        if \<not> flag_bool fs ''no-local'' \<and> LocalReachable X socket then recvLocal X socket code ?dest ?json ?quiet
        else do { c \<leftarrow> with_disk (remoteClient X (flag_str fs ''url'') (flag_bool fs ''password-stdin''));
          case c of Inl e \<Rightarrow> return (fail ?json (code_string e)) | Inr (base, password) \<Rightarrow> ?remote base password } })
      (recv_post S X fs code m) m"
    proof (subst wp_bind, rule wp_with_disk, goal_cases)
      case (1 x d)
      show ?case unfolding Let_def
        using connect [of _ _ d] wp_recvLocal [OF _ assms(2), where m = m and fs = fs and S = S] by (simp del: wp_bind)
    qed
    then show ?thesis using False by (simp add: runRecv_def assms(1) Let_def del: wp_bind)
  qed (simp add: runRecv_def assms(1))
qed

text \<open>
  C4: A script that sees a path can use it. When the receive command exits with zero, it has printed the
  path (alone on its line, or as the path of the JSON object) of the daemon's own read-only payload,
  of a complete writable copy of it, or of the complete verified tree of the claim, which appeared
  there in one step where nothing or an empty directory was; when it exits with anything else, no
  path was printed and no destination was made.
\<close>

theorem recv_command_delivers:
  assumes "\<And>socket code claim. sh_local X socket code = Inr claim \<Longrightarrow> path_base (lc_Path claim) = ''payload''"
    and "run_state (runRecv S X args) m = (o', m')"
  shows "if oc_exit o' \<noteq> 0 then printed ''path'' o' = None \<and> refused X m m'
    else \<exists>fs code path. parseArgs recv_flags args = Some (fs, [code]) \<and> printed ''path'' o' = Some path
      \<and> delivered S X fs code path m m'"
proof (cases "\<exists>fs code. parseArgs recv_flags args = Some (fs, [code])")
  case True
  then obtain fs code where p: "parseArgs recv_flags args = Some (fs, [code])" by blast
  from wp_run [OF wp_runRecv [OF p assms(1)] assms(2)] p show ?thesis by (auto simp: recv_post_def)
next
  case False
  then have "runRecv S X args \<in> range (\<lambda>json. return (usageError json)) \<union> {return bad_flags}"
    by (auto simp: runRecv_def Let_def split: option.splits prod.splits list.splits)
  then show ?thesis using assms(2) by auto
qed

definition sample_recv_args :: "string list" where
  "sample_recv_args = [''--no-local'', FormatCode sample_code, ''--to=/out'', ''--url'', ''https://x'', ''--quiet'']"

theorem recv_command_delivers_witness:
  "\<exists>fs m'. run_state (runRecv pack_server sample_shell sample_recv_args) sample_machine = (succeed [Text ''/out''] [], m')
    \<and> delivered pack_server sample_shell fs (FormatCode sample_code) ''/out'' sample_machine m'"
proof -
  let ?m = "sample_machine\<lparr>mc_receiver := snd sent_recv\<rparr>"
  have p: "parseArgs recv_flags sample_recv_args =
      Some ([(''quiet'', ''true''), (''url'', ''https://x''), (''to'', ''/out''), (''no-local'', ''true'')], [FormatCode sample_code])"
    by code_simp
  note c = sample_remote [OF sample_settings(2)] sample_settings(1) sample_shell_process
  have path: "case fst sent_recv of Inl _ \<Rightarrow> False | Inr res \<Rightarrow> rr_Path res = ''/out''" by code_simp
  then obtain res where r: "run_state (Recv pack_server hello_lib hello_net sent_surroundings (FormatCode sample_code) ''/out'')
      sample_receiver = (Inr res, snd sent_recv)" "rr_Path res = ''/out''"
    unfolding sent_recv_def by (auto simp: prod_eq_iff split: sum.splits)
  have X: "sh_recv sample_shell b q k = sent_surroundings" "sh_net sample_shell b q = hello_net" "sh_lib sample_shell = hello_lib"
    for b q k by (simp_all add: sample_shell_def)
  have n: "NormalizeCode (FormatCode sample_code) \<noteq> None" by code_simp
  have run: "run_state (runRecv pack_server sample_shell sample_recv_args) sample_machine = (succeed [Text ''/out''] [], ?m)"
    using n by (auto simp: runRecv_def Let_def p flag_bool_def flag_str_def bool_text_def with_disk_def with_receiver_def
        sample_machine_def c X r recv_report_def)
  have none: "sh_local sample_shell socket code = Inl ''NETWORK_ERROR''" for socket code by (simp add: sample_shell_def)
  from recv_command_delivers [of sample_shell pack_server sample_recv_args sample_machine, OF _ run] p run show ?thesis
    by (auto simp: printed_def none)
qed

end
