(* ===== verification/SSS_Commands.thy ===== *)
theory SSS_Commands
  imports SSS_Receive
begin

text \<open>
  The other commands of the command line: \<^verbatim>\<open>inspect\<close>, \<^verbatim>\<open>configure\<close> and \<^verbatim>\<open>doctor\<close>
  (\<^verbatim>\<open>internal/cli/commands.go\<close>), \<^verbatim>\<open>admin\<close> and \<^verbatim>\<open>hash-password\<close> (\<^verbatim>\<open>internal/cli/server.go\<close>). The theorems
  show what a configured address is good for and what the doctor's verdict means. Sizes, times and
  message texts are not laid out.
\<close>

section \<open>Inspecting a code\<close>

definition inspect_flags :: flag_defs where
  "inspect_flags = [(''json'', True), (''password-stdin'', True), (''url'', False)]"

text \<open>The first twenty files, and how many are left.\<close>

fun inspect_entries :: "int \<Rightarrow> int \<Rightarrow> (string \<times> string \<times> int) list \<Rightarrow> out list" where
  "inspect_entries n shown [] = []"
| "inspect_entries n shown ((path, kind, size') # es) =
     (if kind \<noteq> EntryFile then inspect_entries n shown es
      else if shown = 20 then [Report [JInt (n - shown)]]
      else Report [JStr path, JInt size'] # inspect_entries n (shown + 1) es)"

definition runInspect :: "shell \<Rightarrow> string list \<Rightarrow> outcome command" where
  "runInspect X args = (case parseArgs inspect_flags args of None \<Rightarrow> return bad_flags
   | Some (fs, positional) \<Rightarrow>
       let json = flag_bool fs ''json'' in
       case positional of
         [code] \<Rightarrow> do {
           c \<leftarrow> with_disk (remoteClient X (flag_str fs ''url'') (flag_bool fs ''password-stdin''));
           return (case c of Inl e \<Rightarrow> fail json (code_string e)
             | Inr (base, password) \<Rightarrow> (case sh_metadata X base password code of Inl e \<Rightarrow> fail json e
               | Inr t \<Rightarrow>
                   if json then succeed [Json [(''code'', JStr (tm_Code t)), (''note'', JStr (tm_Note t)),
                     (''committed_at'', JTime (tm_CommittedAt t)), (''expires_at'', JTime (tm_ExpiresAt t)),
                     (''file_count'', JInt (tm_FileCount t)), (''total_bytes'', JInt (tm_TotalBytes t)),
                     (''entries'', JObjects (map (\<lambda>(p, k, n). [(''path'', JStr p), (''type'', JStr k), (''size'', JInt n)]) (tm_Entries t)))]] []
                   else succeed ([Text (''Code:      '' @ tm_Code t)]
                     @ (if tm_Note t \<noteq> [] then [Text (''Note:      '' @ tm_Note t)] else [])
                     @ [Report [JTime (tm_CommittedAt t)], Report [JTime (tm_ExpiresAt t), JTime (tm_ExpiresAt t - sh_now X)],
                        Report [JInt (tm_FileCount t)], Report [JInt (tm_TotalBytes t)]]
                     @ inspect_entries (tm_FileCount t) 0 (tm_Entries t)) []))
         }
       | _ \<Rightarrow> return (usageError json))"

section \<open>Saving the settings\<close>

definition configure_flags :: flag_defs where
  "configure_flags = [(''url'', False), (''socket'', False), (''json'', True)]"

definition runConfigure :: "shell \<Rightarrow> string list \<Rightarrow> outcome command" where
  "runConfigure X args = (case flag_Parse configure_flags [] args of None \<Rightarrow> return bad_flags
   | Some (fs, _) \<Rightarrow> do {
       let json = flag_bool fs ''json''; let url = flag_str fs ''url''; let socket = flag_str fs ''socket'';
       saved \<leftarrow> with_disk (LoadClient (sh_process X));
       case saved of Inl e \<Rightarrow> return (usageError json) | Inr c \<Rightarrow>
         if url = [] \<and> socket = [] then return (usageError json)
         else (case (if url \<noteq> [] then ResolveURL (sh_process X) url empty_client else Inr (cl_URL c)) of
           Inl e \<Rightarrow> return (usageError json)
         | Inr u \<Rightarrow> do {
             let c' = \<lparr>cl_URL = u, cl_UnixSocket = (if socket \<noteq> [] then socket else cl_UnixSocket c)\<rparr>;
             r \<leftarrow> with_disk (SaveClient (sh_process X) c');
             return (case r of Inl e \<Rightarrow> usageError json
               | Inr path \<Rightarrow>
                   if json then succeed [Json [(''ok'', JBool True), (''operation'', JStr ''configure''),
                     (''config'', JStr path), (''url'', JStr (cl_URL c'))]] []
                   else succeed [Text (cl_URL c')] [Text (''Saved configuration to '' @ path)])
           })
     })"

section \<open>The doctor\<close>

definition doctor_flags :: flag_defs where
  "doctor_flags = [(''json'', True), (''password-stdin'', True), (''url'', False), (''socket'', False)]"

record check =
  ck_Name :: string
  ck_OK :: bool
  ck_Detail :: string

definition isLoopbackURL :: "shell \<Rightarrow> string \<Rightarrow> bool" where
  "isLoopbackURL X base = (case pe_parse (sh_process X) base of None \<Rightarrow> False
     | Some u \<Rightarrow> pu_Hostname u = ''localhost'' \<or> sh_loopback X (pu_Hostname u))"

text \<open>The server's answer to \<^verbatim>\<open>GET /v1/info\<close>, once its protocol is compatible.\<close>

definition client_Info :: "shell \<Rightarrow> string \<Rightarrow> string \<Rightarrow> string + string \<times> string \<times> bool" where
  "client_Info X base password = (case sh_info X base password of Inl e \<Rightarrow> Inl e
     | Inr (protocol, application, accepting) \<Rightarrow> (case CheckCompatible protocol of
         Some e \<Rightarrow> Inl (code_string e) | None \<Rightarrow> Inr (protocol, application, accepting)))"

definition doctor_tls :: "shell \<Rightarrow> string \<Rightarrow> check" where
  "doctor_tls X base =
     (if has_prefix base ''https://'' then \<lparr>ck_Name = ''tls'', ck_OK = True, ck_Detail = ''https''\<rparr>
      else if isLoopbackURL X base then \<lparr>ck_Name = ''tls'', ck_OK = True, ck_Detail = ''plaintext http to loopback (no TLS required)''\<rparr>
      else \<lparr>ck_Name = ''tls'', ck_OK = False, ck_Detail = ''plaintext http to a remote host''\<rparr>)"

definition doctor_server :: "shell \<Rightarrow> string \<Rightarrow> bool \<Rightarrow> check list \<times> bool" where
  "doctor_server X base fromStdin = (case resolvePassword X fromStdin of
     Inl e \<Rightarrow> ([\<lparr>ck_Name = ''authentication'', ck_OK = False, ck_Detail = code_string e\<rparr>], False)
   | Inr password \<Rightarrow> (case client_Info X base password of
       Inr (protocol, application, accepting) \<Rightarrow>
         ([\<lparr>ck_Name = ''authentication'', ck_OK = True, ck_Detail = ''accepted''\<rparr>,
           \<lparr>ck_Name = ''protocol'', ck_OK = True, ck_Detail = protocol @ '' (server '' @ application @ '')''\<rparr>,
           \<lparr>ck_Name = ''server admission'', ck_OK = accepting, ck_Detail =
             (if accepting then ''accepting new transfers'' else ''not accepting new transfers (disk pressure)'')\<rparr>], accepting)
     | Inl e \<Rightarrow>
         ([\<lparr>ck_Name = (if e = code_string ErrProtocolMismatch then ''protocol''
             else if e = code_string ErrAuthInvalid \<or> e = code_string ErrAuthRequired then ''authentication''
             else ''reachability''), ck_OK = False, ck_Detail = e\<rparr>], False)))"

definition doctor_checks :: "shell \<Rightarrow> flags \<Rightarrow> string + client_config \<Rightarrow> check list \<times> bool" where
  "doctor_checks X fs saved =
     (let c = (case saved of Inl _ \<Rightarrow> empty_client | Inr c \<Rightarrow> c);
          configuration = (case saved of Inl e \<Rightarrow> \<lparr>ck_Name = ''configuration'', ck_OK = False, ck_Detail = e\<rparr>
            | Inr _ \<Rightarrow> \<lparr>ck_Name = ''configuration'', ck_OK = True,
                ck_Detail = (case ClientConfigPath (sh_process X) of None \<Rightarrow> [] | Some p \<Rightarrow> p)\<rparr>);
          socket = ResolveSocket (sh_process X) (flag_str fs ''socket'') c;
          reach = \<lparr>ck_Name = ''local socket'', ck_OK = LocalReachable X socket, ck_Detail = socket\<rparr>
      in case ResolveURL (sh_process X) (flag_str fs ''url'') c of
           Inl e \<Rightarrow> ([configuration, \<lparr>ck_Name = ''server url'', ck_OK = False, ck_Detail = e\<rparr>, reach], False)
         | Inr base \<Rightarrow> (case doctor_server X base (flag_bool fs ''password-stdin'') of (rest, ok) \<Rightarrow>
             ([configuration, \<lparr>ck_Name = ''server url'', ck_OK = True, ck_Detail = base\<rparr>, doctor_tls X base, reach] @ rest, ok)))"

definition runDoctor :: "shell \<Rightarrow> string list \<Rightarrow> outcome command" where
  "runDoctor X args = (case flag_Parse doctor_flags [] args of None \<Rightarrow> return bad_flags
   | Some (fs, _) \<Rightarrow> do {
       saved \<leftarrow> with_disk (LoadClient (sh_process X));
       return (case doctor_checks X fs saved of (checks, allOK) \<Rightarrow>
         \<lparr>oc_stdout = (if flag_bool fs ''json''
             then [Json [(''ok'', JBool allOK), (''operation'', JStr ''doctor''), (''checks'', JObjects (map
               (\<lambda>k. [(''name'', JStr (ck_Name k)), (''ok'', JBool (ck_OK k)), (''detail'', JStr (ck_Detail k))]) checks))]]
             else map (\<lambda>k. Report [JBool (ck_OK k), JStr (ck_Name k), JStr (ck_Detail k)]) checks),
          oc_stderr = [], oc_exit = (if allOK then 0 else ExitCode (code_string ErrNetwork))\<rparr>)
     })"

section \<open>Administration\<close>

definition admin_flags :: flag_defs where
  "admin_flags = [(''socket'', False), (''json'', True)]"

text \<open>The figures of the daemon's answer, as an object or one to a line.\<close>

definition admin_report :: "bool \<Rightarrow> string + (string \<times> jval) list \<Rightarrow> outcome" where
  "admin_report json r = (case r of Inl e \<Rightarrow> fail json e
     | Inr kv \<Rightarrow> if json then succeed [Json kv] [] else succeed (map (\<lambda>(k, v). Report [JStr k, v]) kv) [])"

definition runAdmin :: "shell \<Rightarrow> string list \<Rightarrow> outcome command" where
  "runAdmin X args = (case args of [] \<Rightarrow> return bad_flags
   | sub # rest \<Rightarrow> (case flag_Parse admin_flags [] rest of None \<Rightarrow> return bad_flags
     | Some (fs, _) \<Rightarrow> do {
         saved \<leftarrow> with_disk (LoadClient (sh_process X));
         let socket = ResolveSocket (sh_process X) (flag_str fs ''socket'') (case saved of Inl _ \<Rightarrow> empty_client | Inr c \<Rightarrow> c);
         return (if sub = ''status'' then admin_report (flag_bool fs ''json'') (sh_status X socket)
           else if sub = ''cleanup'' then admin_report (flag_bool fs ''json'') (sh_cleanup X socket)
           else bad_flags)
       }))"

definition runHashPassword :: "idkey \<Rightarrow> shell \<Rightarrow> string list \<Rightarrow> outcome" where
  "runHashPassword idkey X args = (case flag_Parse [(''password-stdin'', True)] [] args of None \<Rightarrow> bad_flags
   | Some (fs, _) \<Rightarrow> (case resolvePassword X (flag_bool fs ''password-stdin'') of
       Inl e \<Rightarrow> fail False (code_string e)
     | Inr password \<Rightarrow>
         let warning = (if length password < 12 then [Problem] else []) in
         case HashPassword idkey password (sh_salt X) of
           None \<Rightarrow> (let o' = fail False (code_string ErrInvalidRequest) in o'\<lparr>oc_stderr := warning @ oc_stderr o'\<rparr>)
         | Some hash \<Rightarrow> succeed [Text hash] warning))"

section \<open>What the settings and the verdict are good for\<close>

lemma run_SaveClient_faultless:
  assumes "ClientConfigPath E = Some path" and "dk_faults d = []"
  shows "fst (run_state (SaveClient E c) d) = Inr path"
  using assms by (simp add: SaveClient_def disk_MkdirAll_def disk_WriteFile_def disk_put_def disk_Rename_def update_conv')

lemma wp_LoadClient:
  assumes "\<And>r fs. (\<And>c. r = Inr c \<Longrightarrow> fst (run_state (LoadClient E) (d\<lparr>dk_faults := []\<rparr>)) = Inr c) \<Longrightarrow> Q r (d\<lparr>dk_faults := fs\<rparr>)"
    and "\<And>e. Q (Inl e) d"
  shows "wp (LoadClient E) Q d"
proof (cases "ClientConfigPath E")
  case (Some path)
  show ?thesis unfolding LoadClient_def Some option.case wp_bind disk_ReadFile_def
    by (rule wp_disk_fault) (auto intro!: assms(1) simp: run_LoadClient [OF Some] split: option.splits)
qed (simp add: LoadClient_def assms)

lemma wp_disk: "wp a (\<lambda>x d. Q x (m\<lparr>mc_disk := d\<rparr>)) (mc_disk m) \<Longrightarrow> wp (with_disk a) Q m"
  by (simp add: with_disk_def wp_def split: prod.splits)

lemma run_remoteClient:
  "fst (run_state (remoteClient X url stdin) d) = (case fst (run_state (LoadClient (sh_process X)) d) of
     Inl e \<Rightarrow> Inl ErrInvalidRequest
   | Inr c \<Rightarrow> (case ResolveURL (sh_process X) url c of Inl e \<Rightarrow> Inl ErrInvalidRequest
     | Inr base \<Rightarrow> map_sum id (Pair base) (resolvePassword X stdin)))"
  by (cases "run_state (LoadClient (sh_process X)) d")
    (auto simp: remoteClient_def map_sum_def split: sum.splits)


text \<open>An encoding that can be read back.\<close>

definition configure_process :: process_env where
  "configure_process = shell_process\<lparr>
     pe_marshal := (\<lambda>c. map (\<lambda>_. CHR ''+'') (cl_URL c) @ CHR '':'' # cl_URL c @ cl_UnixSocket c),
     pe_unmarshal := (\<lambda>b. let n = length (takeWhile (\<lambda>x. x = CHR ''+'') b); u = drop (Suc n) (butlast b)
        in Some \<lparr>cl_URL = take n u, cl_UnixSocket = drop n u\<rparr>)\<rparr>"

definition configure_shell :: shell where
  "configure_shell = sample_shell\<lparr>sh_process := configure_process\<rparr>"

definition sample_configure :: "outcome \<times> machine" where
  "sample_configure = run_state (runConfigure configure_shell [''--url'', ''https://x//'']) sample_machine"


lemma doctor_server_ok:
  "snd (doctor_server X base stdin) \<longleftrightarrow> (\<exists>password protocol application. resolvePassword X stdin = Inr password
     \<and> sh_info X base password = Inr (protocol, application, True) \<and> CheckCompatible protocol = None)"
  by (auto simp: doctor_server_def client_Info_def split: sum.splits option.splits)

lemma doctor_exit:
  assumes "flag_Parse doctor_flags [] args = Some (fs, rest)" and "run_state (runDoctor X args) m = (o', m')"
  shows "oc_exit o' = 0 \<longleftrightarrow> (case ResolveURL (sh_process X) (flag_str fs ''url'')
      (case fst (run_state (LoadClient (sh_process X)) (mc_disk m)) of Inl _ \<Rightarrow> empty_client | Inr c \<Rightarrow> c) of
    Inl _ \<Rightarrow> False | Inr base \<Rightarrow> snd (doctor_server X base (flag_bool fs ''password-stdin'')))"
proof -
  obtain r d where l: "run_state (LoadClient (sh_process X)) (mc_disk m) = (r, d)"
    by (cases "run_state (LoadClient (sh_process X)) (mc_disk m)")
  have "oc_exit o' = 0 \<longleftrightarrow> snd (doctor_checks X fs r)"
    using assms(2) by (auto simp: runDoctor_def assms(1) with_disk_def l split_beta split: if_splits)
  then show ?thesis by (simp add: l doctor_checks_def Let_def split_beta split: sum.splits)
qed

text \<open>
  C39: The doctor's verdict. The doctor exits with zero exactly when the address resolves, a password is at
  hand and the server accepts it, speaks a compatible protocol and admits transfers; every remote command
  with the same options then reaches that server with that password, unless the settings could
  not be read: the doctor reports that too but passes, and every remote command fails.
\<close>

theorem doctor_verdict:
  assumes "flag_Parse doctor_flags [] args = Some (fs, rest)" and "run_state (runDoctor X args) m = (o', m')"
  shows "let loaded = fst (run_state (LoadClient (sh_process X)) (mc_disk m));
      found = (case loaded of Inl _ \<Rightarrow> empty_client | Inr c \<Rightarrow> c);
      remote = fst (run_state (remoteClient X (flag_str fs ''url'') (flag_bool fs ''password-stdin'')) (mc_disk m)) in
    (oc_exit o' = 0 \<longleftrightarrow> (\<exists>base password protocol application.
        ResolveURL (sh_process X) (flag_str fs ''url'') found = Inr base
        \<and> resolvePassword X (flag_bool fs ''password-stdin'') = Inr password
        \<and> sh_info X base password = Inr (protocol, application, True) \<and> CheckCompatible protocol = None
        \<and> remote = (case loaded of Inl _ \<Rightarrow> Inl ErrInvalidRequest | Inr _ \<Rightarrow> Inr (base, password))))"
  by (cases "fst (run_state (LoadClient (sh_process X)) (mc_disk m))";
      cases "ResolveURL (sh_process X) (flag_str fs ''url'')
        (case fst (run_state (LoadClient (sh_process X)) (mc_disk m)) of Inl _ \<Rightarrow> empty_client | Inr c \<Rightarrow> c)")
    (auto simp: Let_def doctor_exit [OF assms] doctor_server_ok run_remoteClient)

text \<open>Settings that cannot be read, an address from the flag, and a server that accepts.\<close>

definition doctor_process :: process_env where
  "doctor_process = shell_process\<lparr>pe_unmarshal := (\<lambda>_. None)\<rparr>"

definition doctor_shell :: shell where
  "doctor_shell = sample_shell\<lparr>sh_process := doctor_process, sh_info := (\<lambda>_ _. Inr (''1.0'', ''dev'', True))\<rparr>"

definition doctor_machine :: machine where
  "doctor_machine = sample_machine\<lparr>mc_disk := \<lparr>dk_files = [(''/home/u/.config/sss/config.json'', ''x'')], dk_faults = []\<rparr>\<rparr>"

theorem doctor_verdict_witness:
  "oc_exit (fst (run_state (runDoctor doctor_shell [''--url'', ''https://x'']) doctor_machine)) = 0
   \<and> fst (run_state (remoteClient doctor_shell ''https://x'' False) (mc_disk doctor_machine)) = Inl ErrInvalidRequest"
proof -
  have P: "sh_process doctor_shell = doctor_process" by (simp add: doctor_shell_def)
  have f: "flag_Parse doctor_flags [] [''--url'', ''https://x''] = Some ([(''url'', ''https://x'')], [])" by code_simp
  have "fst (run_state (LoadClient doctor_process) \<lparr>dk_files = [(''/home/u/.config/sss/config.json'', ''x'')], dk_faults = []\<rparr>)
      = Inl ''parse client config''" by code_simp
  then have l: "fst (run_state (LoadClient (sh_process doctor_shell)) (mc_disk doctor_machine)) = Inl ''parse client config''"
    by (simp add: doctor_machine_def P)
  have u: "ResolveURL doctor_process ''https://x'' empty_client = Inr ''https://x''" "CheckCompatible ''1.0'' = None" by code_simp+
  have w: "resolvePassword doctor_shell False = Inr ''secret''"
    by (simp add: resolvePassword_def P doctor_process_def shell_process_def)
  have i: "sh_info doctor_shell ''https://x'' ''secret'' = Inr (''1.0'', ''dev'', True)" by (simp add: doctor_shell_def)
  obtain o' m' where run: "run_state (runDoctor doctor_shell [''--url'', ''https://x'']) doctor_machine = (o', m')"
    by (cases "run_state (runDoctor doctor_shell [''--url'', ''https://x'']) doctor_machine")
  have g: "flag_str [(''url'', ''https://x'')] ''url'' = ''https://x''" "flag_bool [(''url'', ''https://x'')] ''password-stdin'' = False"
    by (simp_all add: flag_str_def flag_bool_def)
  have "fst (run_state (remoteClient doctor_shell ''https://x'' False) (mc_disk doctor_machine)) = Inl ErrInvalidRequest"
    unfolding run_remoteClient l by simp
  then show ?thesis using doctor_verdict [OF f run] unfolding g l Let_def sum.case run fst_conv by (simp add: u w i P)
qed

text \<open>
  An address whose scheme is written in capitals is accepted as https, as it should, but the
  doctor takes it for plain http to a remote host.
\<close>

lemma doctor_misjudges_capitals:
  assumes "sh_process X = sample_process\<lparr>pe_parse := (\<lambda>_. Some \<lparr>pu_Scheme = ''https'', pu_Host = ''x'', pu_Hostname = ''x''\<rparr>)\<rparr>"
    and "\<not> sh_loopback X ''x''"
  shows "ResolveURL (sh_process X) ''HTTPS://x'' empty_client = Inr ''HTTPS://x'' \<and> \<not> ck_OK (doctor_tls X ''HTTPS://x'')"
  using assms(2) by (simp add: assms(1) ResolveURL_def trim_slashes_def doctor_tls_def has_prefix_def isLoopbackURL_def)

end
