(* ===== verification/Spec2Isabelle.thy ===== *)
theory Spec2Isabelle
  imports SSS_Errors SSS_Wire SSS_Admission SSS_Lifecycle SSS_Send SSS_Fingerprint SSS_Transmit SSS_Limiter SSS_Recv SSS_Sender SSS_Honest SSS_Config SSS_Commands
begin

text \<open>
  A verification development for the sss server (sources under \<^verbatim>\<open>internal/\<close>): a short-lived
  handoff service. A sender stages files, the server verifies and publishes them under a code,
  a receiver opens the code until it expires, and a janitor removes what is no longer promised.

  \<^bold>\<open>Theories.\<close> \<^verbatim>\<open>SSS_Prelude\<close> holds int64 wrap-around, times, byte strings and UTF-8. The
  protocol is \<^verbatim>\<open>SSS_Errors\<close> (\<^verbatim>\<open>protocol/errors.go\<close>), \<^verbatim>\<open>SSS_Code\<close> (\<^verbatim>\<open>protocol/code.go\<close>,
  \<^verbatim>\<open>ids/ids.go\<close>), \<^verbatim>\<open>SSS_Manifest\<close> (\<^verbatim>\<open>protocol/manifest.go\<close>) and \<^verbatim>\<open>SSS_Wire\<close>
  (\<^verbatim>\<open>protocol/wire.go\<close>). \<^verbatim>\<open>SSS_Paths\<close> is \<^verbatim>\<open>platform/fs.go\<close>'s path handling, \<^verbatim>\<open>SSS_Admission\<close>
  is \<^verbatim>\<open>admission/admission.go\<close>, \<^verbatim>\<open>SSS_Store\<close> is \<^verbatim>\<open>store/sqlite/store.go\<close>, \<^verbatim>\<open>SSS_Files\<close> is
  \<^verbatim>\<open>store/files\<close> with the manifest cache, \<^verbatim>\<open>SSS_Materialize\<close> is \<^verbatim>\<open>materialize/materialize.go\<close>.
  The service \<^verbatim>\<open>transfer/\<close> is \<^verbatim>\<open>SSS_Service\<close> (receiving), \<^verbatim>\<open>SSS_Publish\<close>, \<^verbatim>\<open>SSS_Upload\<close>
  and \<^verbatim>\<open>SSS_Commit\<close> (resumable uploads), \<^verbatim>\<open>SSS_Simple\<close> (one-request uploads); \<^verbatim>\<open>SSS_Api\<close> holds
  the handlers of \<^verbatim>\<open>api/public/api.go\<close> that change state, \<^verbatim>\<open>SSS_Janitor\<close> the cleanup pass,
  \<^verbatim>\<open>SSS_Reconcile\<close> the start-up pass of \<^verbatim>\<open>reconcile/reconcile.go\<close>, and \<^verbatim>\<open>SSS_Lifecycle\<close> all of them
  as the steps of one relation, with the two theorems that join the components. The sending client
  is \<^verbatim>\<open>SSS_Plan\<close> and \<^verbatim>\<open>SSS_Fingerprint\<close> (\<^verbatim>\<open>pack/plan.go\<close>), \<^verbatim>\<open>SSS_Send\<close> (the manifest of
  \<^verbatim>\<open>client/send.go\<close>, against the server's validation) and \<^verbatim>\<open>SSS_Transmit\<close> (the upload loop, against
  the server's upload handlers over a lossy connection). \<^verbatim>\<open>SSS_Auth\<close> is \<^verbatim>\<open>auth/auth.go\<close> up to
  Basic authentication, \<^verbatim>\<open>SSS_Limiter\<close> its limiter with \<^verbatim>\<open>api/middleware\<close>'s authentication.
  The receiving client is \<^verbatim>\<open>SSS_Fetch\<close> (one segment, against a server and a network that are an
  arbitrary function of the requests) and \<^verbatim>\<open>SSS_Recv\<close> (\<^verbatim>\<open>client/recv.go\<close>: claim, fetch, the server's
  own materialization in a hidden directory, one rename). \<^verbatim>\<open>SSS_Sender\<close> is the sending client as a whole (\<^verbatim>\<open>Send\<close> with its session file, packs
  and uploads, each request lost, answered or not) and the theorem that joins both clients and the server.
  \<^verbatim>\<open>SSS_Download\<close> is the rest of \<^verbatim>\<open>api/public\<close> (downloads as a file or as the archives of
  \<^verbatim>\<open>archive/archive.go\<close>, ranges, file names in headers, claims, upload offsets, commit) with the answers as
  values, and \<^verbatim>\<open>SSS_Honest\<close> runs the receiving client against these handlers. \<^verbatim>\<open>SSS_Config\<close> is
  \<^verbatim>\<open>config/\<close>: the server's file as the configuration the other theories assume, the client's settings on a disk
  that may fail. The command line \<^verbatim>\<open>cli/\<close> is \<^verbatim>\<open>SSS_Cli\<close> (options, password and address, \<^verbatim>\<open>send\<close>),
  \<^verbatim>\<open>SSS_Receive\<close> (\<^verbatim>\<open>recv\<close>, local and remote) and \<^verbatim>\<open>SSS_Commands\<close> (the others), each command run over the
  modelled clients.

  \<^bold>\<open>State.\<close> A \<open>world\<close> holds the database tables, the staging, live and trash directories, the
  manifest cache, and the outcomes of the input/output steps still to come (\<open>w_faults\<close>: false
  is a failing step, the empty list means that no step fails any more). A handler is a function
  in the state monad over that world, so a theorem about every world is about every fault.
  \<^verbatim>\<open>SSS_Invariant\<close> states the server invariant (\<open>server_inv\<close>) that every operation keeps.

  \<^bold>\<open>Bounds.\<close> Every loop of the modelled code is structurally recursive over its input (chunks,
  parts, rows) or has a termination proof (the download loop, by bytes and attempts left), so
  nothing needs fuel; \<^verbatim>\<open>Publish\<close> tries sixteen drawn codes as the code does.

  \<^bold>\<open>Not modelled.\<close> JSON, HTTP, SQLite, BLAKE3, SHA-256, Argon2, the rounding of floats, zstd and tar are parameters or appear decoded;
  operations run one at a time (a handler is atomic with respect to others); semaphores,
  logging, durability of fsync, directory times, message texts, and the process set-up of the daemon are left out. The clients upload and fetch segments one after
  another; the upload identifier is taken from the upload path as the router does; a segment id is taken as one path component.
\<close>

end
